(* ===== verification/Prelude.thy ===== *)
theory Prelude
  imports Main "HOL-Library.Word" "HOL-Library.Monad_Syntax"
begin

unbundle bit_operations_syntax

text \<open>
  Shared vocabulary of the development.

  \<^item> The machine types of the C++ code: \<open>u8 .. u64\<close> for the unsigned types and \<open>i64\<close> for
    \<open>std::int64_t\<close>; both are words, the signed reading is \<^const>\<open>sint\<close>, so that every
    addition, subtraction and multiplication wraps exactly at the width of the source.
  \<^item> Undefined behaviour. A C++ operation that reads or writes outside an array, through a
    null pointer or through a pointer to a dead object has no defined result. Here such an
    operation is \<^const>\<open>None\<close>; every operation of the model that touches memory returns an
    \<open>option\<close>, composed with the do-notation of \<open>HOL-Library.Monad_Syntax\<close>. A theorem that an
    operation returns \<^const>\<open>Some\<close> therefore says that it is memory safe and that it returns.
  \<^item> Lemmas on checked arrays, single bits, and signed words that the components share.
\<close>

type_synonym u8 = "8 word"
type_synonym u16 = "16 word"
type_synonym u32 = "32 word"
type_synonym u64 = "64 word"
type_synonym i64 = "64 word"

section \<open>Checked array accesses\<close>

definition aget :: "'a list \<Rightarrow> nat \<Rightarrow> 'a option" where
  "aget xs i = (if i < length xs then Some (xs ! i) else None)"

definition aput :: "'a list \<Rightarrow> nat \<Rightarrow> 'a \<Rightarrow> 'a list option" where
  "aput xs i v = (if i < length xs then Some (xs[i := v]) else None)"

lemma aget_in [simp]: "i < length xs \<Longrightarrow> aget xs i = Some (xs ! i)"
  by (simp add: aget_def)

lemma aget_out [simp]: "length xs \<le> i \<Longrightarrow> aget xs i = None"
  by (simp add: aget_def)

lemma aget_Some_iff: "aget xs i = Some v \<longleftrightarrow> i < length xs \<and> xs ! i = v"
  by (auto simp: aget_def)

lemma aput_in [simp]: "i < length xs \<Longrightarrow> aput xs i v = Some (xs[i := v])"
  by (simp add: aput_def)

lemma aput_out [simp]: "length xs \<le> i \<Longrightarrow> aput xs i v = None"
  by (simp add: aput_def)

lemma aput_Some_iff: "aput xs i v = Some ys \<longleftrightarrow> i < length xs \<and> ys = xs[i := v]"
  by (auto simp: aput_def)

section \<open>Bits of naturals\<close>

lemma nat_and_63 [simp]: "(i::nat) AND 63 = i mod 64"
proof -
  have "(63::nat) = mask 6" by (simp add: mask_eq_exp_minus_1)
  then show ?thesis by (simp only: take_bit_eq_mask [symmetric] take_bit_eq_mod) simp
qed

lemma nat_shift_6 [simp]: "drop_bit 6 (i::nat) = i div 64"
  by (simp add: drop_bit_eq_div)

lemma nat_shift_12 [simp]: "drop_bit 12 (i::nat) = i div 64 div 64"
  by (simp add: drop_bit_eq_div div_mult2_eq [symmetric])

lemma nat_unshift_6 [simp]: "push_bit 6 (i::nat) = i * 64"
  by (simp add: push_bit_eq_mult)

section \<open>Single bits of words\<close>

declare push_bit_of_1 [simp del]

text \<open>
  \<open>std::countr_zero\<close> and \<open>std::countl_zero\<close> of the C++ standard library on 64-bit words,
  which count zero bits from the low and from the high end (64 on zero).
\<close>

definition countr_zero :: "u64 \<Rightarrow> nat" where
  "countr_zero w = length (takeWhile (\<lambda>k. \<not> bit w k) [0..<64])"

definition countl_zero :: "u64 \<Rightarrow> nat" where
  "countl_zero w = length (takeWhile (\<lambda>k. \<not> bit w (63 - k)) [0..<64])"

lemma takeWhile_upt_first:
  assumes "k < n" and "P k"
  shows "length (takeWhile (\<lambda>k. \<not> P k) [0..<n]) \<le> k"
    and "P (length (takeWhile (\<lambda>k. \<not> P k) [0..<n]))"
    and "j < length (takeWhile (\<lambda>k. \<not> P k) [0..<n]) \<Longrightarrow> \<not> P j"
proof -
  let ?t = "takeWhile (\<lambda>k. \<not> P k) [0..<n]"
  show le: "length ?t \<le> k"
  proof (rule ccontr)
    assume "\<not> length ?t \<le> k"
    then have "k < length ?t" by simp
    then have "?t ! k \<in> set ?t" and "?t ! k = [0..<n] ! k"
      by (auto intro: nth_mem takeWhile_nth simp del: takeWhile_nth)
    with assms show False by (auto dest!: set_takeWhileD)
  qed
  with assms have "length ?t < length [0..<n]" by simp
  from nth_length_takeWhile [OF this] le assms show "P (length ?t)" by simp
  assume j: "j < length ?t"
  then have "?t ! j \<in> set ?t" by simp
  moreover from j have "?t ! j = [0..<n] ! j" by (rule takeWhile_nth)
  moreover from j le assms have "j < n" by simp
  ultimately show "\<not> P j" by (auto dest!: set_takeWhileD)
qed

lemma word_nonzero_bit: "(w::u64) \<noteq> 0 \<longleftrightarrow> (\<exists>k<64. bit w k)"
proof
  assume "w \<noteq> 0"
  then obtain k where "bit w k" by (auto simp: bit_eq_iff)
  then show "\<exists>k<64. bit w k" using bit_imp_le_length [of w k] by auto
qed auto

lemma countr_zero_props:
  assumes "w \<noteq> 0"
  shows "countr_zero w < 64" and "bit w (countr_zero w)"
    and "k < countr_zero w \<Longrightarrow> \<not> bit w k"
proof -
  from assms obtain k where k: "k < 64" "bit w k" by (auto simp: word_nonzero_bit)
  note F = takeWhile_upt_first [of k 64 "bit w", OF k, folded countr_zero_def]
  from F(1) k show "countr_zero w < 64" by simp
  from F(2) show "bit w (countr_zero w)" .
  from F(3) show "k < countr_zero w \<Longrightarrow> \<not> bit w k" for k .
qed

lemma countl_zero_props:
  assumes "w \<noteq> 0"
  shows "countl_zero w < 64" and "bit w (63 - countl_zero w)"
    and "63 - countl_zero w < k \<Longrightarrow> \<not> bit w k"
proof -
  from assms obtain k where k: "k < 64" "bit w k" by (auto simp: word_nonzero_bit)
  then have k': "63 - k < 64" "bit w (63 - (63 - k))" by simp_all
  note F = takeWhile_upt_first [of "63 - k" 64 "\<lambda>k. bit w (63 - k)", OF k', folded countl_zero_def]
  from F(1) k show lt: "countl_zero w < 64" by simp
  from F(2) show "bit w (63 - countl_zero w)" .
  fix k assume gt: "63 - countl_zero w < k"
  show "\<not> bit w k"
  proof
    assume b: "bit w k"
    then have "k < 64" using bit_imp_le_length [of w k] by simp
    with gt lt have "63 - k < countl_zero w" by simp
    from F(3) [OF this] \<open>k < 64\<close> b show False by simp
  qed
qed

lemma bit_word64_lt: "bit (w::u64) k \<Longrightarrow> k < 64"
  using bit_imp_le_length [of w k] by simp

section \<open>Signed arithmetic\<close>

text \<open>
  \<open>std::int64_t\<close> arithmetic on words: the wrapped result is the mathematical one whenever that
  is in range.
\<close>

lemma sint_range64: "- (2 ^ 63) \<le> sint (x :: i64)" "sint (x :: i64) < 2 ^ 63"
  using sint_range_size [of x] by (simp_all add: word_size)

lemma sint_diff64: "- (2 ^ 63) \<le> sint a - sint b \<Longrightarrow> sint a - sint b < 2 ^ 63 \<Longrightarrow>
    sint (a - b :: i64) = sint a - sint b"
  by (simp add: sint_word_diff signed_take_bit_int_eq_self)

lemma sint_add64: "- (2 ^ 63) \<le> sint a + sint b \<Longrightarrow> sint a + sint b < 2 ^ 63 \<Longrightarrow>
    sint (a + b :: i64) = sint a + sint b"
  by (simp add: sint_word_add signed_take_bit_int_eq_self)

lemma sint_sub_le: "0 \<le> sint b \<Longrightarrow> sint b \<le> sint a \<Longrightarrow> sint (a - b :: i64) = sint a - sint b"
  using sint_range64 [of a] by (intro sint_diff64) auto

lemma uint_of_sint: "0 \<le> sint (x :: i64) \<Longrightarrow> uint x = sint x"
  using sint_range64(2) [of x] by (simp add: uint_sint take_bit_int_eq_self)

lemma sint_zero_iff: "sint (x :: i64) = 0 \<longleftrightarrow> x = 0"
  by (metis sint_0 signed_word_eqI)

lemma unat_of_nat_small: "n < 2 ^ 64 \<Longrightarrow> unat (word_of_nat n :: u64) = n"
  by (simp add: unat_of_nat)

lemma unat_lt64: "unat (x :: u64) < 18446744073709551616"
  using unsigned_less [of x, where ?'a = nat] by simp

lemma unat_drop_bit64: "unat (drop_bit n (w :: u64)) = unat w div 2 ^ n"
  by (simp only: unsigned_drop_bit_eq) (simp add: drop_bit_eq_div take_bit_nat_eq_self unat_lt64)

end
