(* ===== verification/Common.thy ===== *)
theory Common
  imports Prelude
begin

text \<open>
  \<open>include/lob/common.hpp\<close> and \<open>include/lob/order.hpp\<close>: the fixed-point types, the side of
  the book, and the \<open>Order\<close> object with its intrusive links. A pointer to an order is the
  arena slot it points to, \<^const>\<open>None\<close> for \<open>nullptr\<close>; the arena of \<open>memory_pool.hpp\<close> makes the
  two interchangeable (\<open>index_of\<close> and \<open>at\<close>).
\<close>

type_synonym price = i64
type_synonym qty = i64
type_synonym order_id = u64
type_synonym ptr = "nat option"

datatype side = Buy | Sell

fun opposite :: "side \<Rightarrow> side" where
  "opposite Buy = Sell"
| "opposite Sell = Buy"

definition PRICE_SCALE :: i64 where
  "PRICE_SCALE = 10000"

record order =
  o_qty :: qty
  o_next :: ptr
  o_prev :: ptr
  o_price :: price
  o_id :: order_id
  o_side :: side
  o_hidden_qty :: qty
  o_display_qty :: qty

text \<open>
  \<open>Order()\<close> as \<open>MemoryPool::acquire()\<close> constructs it: \<open>Order\<close> is an aggregate, so the empty
  parentheses value-initialise every member to zero (\<open>Side::Buy\<close> is 0).
\<close>

definition order_zero :: order where
  "order_zero = \<lparr>o_qty = 0, o_next = None, o_prev = None, o_price = 0, o_id = 0, o_side = Buy,
     o_hidden_qty = 0, o_display_qty = 0\<rparr>"

definition order_init :: "order_id \<Rightarrow> side \<Rightarrow> price \<Rightarrow> qty \<Rightarrow> order \<Rightarrow> order" where
  "order_init oid s p q o1 = o1\<lparr>o_qty := q, o_next := None, o_prev := None, o_price := p, o_id := oid,
     o_side := s, o_hidden_qty := 0, o_display_qty := 0\<rparr>"

end
