(* ===== verification/Memory_Pool.thy ===== *)
theory Memory_Pool
  imports Prelude
begin

text \<open>
  \<open>include/lob/memory_pool.hpp\<close>: the arena with its intrusive LIFO free list. A slot of the
  storage holds either a live object or, overlaid on the dead object's bytes, a \<open>FreeNode\<close>
  with the link to the next free slot; the datatype \<open>slot\<close> is that overlay. Reading an object
  out of a slot that holds a \<open>FreeNode\<close>, releasing such a slot, or popping a slot that holds
  an object is undefined behaviour (\<^const>\<open>None\<close>). The locale \<open>object_arena\<close> is the contract
  the order book relies on: an arena is a finite map from slots to live objects.
\<close>

datatype 'a slot = FreeNode "nat option" | Obj 'a

record 'a pool =
  p_storage :: "'a slot list"
  p_free_head :: "nat option"

definition p_capacity :: "'a pool \<Rightarrow> nat" where
  "p_capacity pl = length (p_storage pl)"

text \<open>The constructor's loop \<open>for (i = capacity; i-- > 0;)\<close>, which threads the free list.\<close>

fun pool_thread :: "nat \<Rightarrow> 'a pool \<Rightarrow> 'a pool" where
  "pool_thread 0 pl = pl"
| "pool_thread (Suc i) pl = pool_thread i
     (pl\<lparr>p_storage := (p_storage pl)[i := FreeNode (p_free_head pl)], p_free_head := Some i\<rparr>)"

definition pool_new :: "nat \<Rightarrow> 'a pool" where
  "pool_new cap = pool_thread cap \<lparr>p_storage = replicate cap (FreeNode None), p_free_head = None\<rparr>"

text \<open>\<open>acquire\<close>: pop the free list and construct \<open>x\<close> in place; \<open>Some (None, _)\<close> is \<open>nullptr\<close>.\<close>

definition pool_acquire :: "'a pool \<Rightarrow> 'a \<Rightarrow> (nat option \<times> 'a pool) option" where
  "pool_acquire pl x = (case p_free_head pl of
     None \<Rightarrow> Some (None, pl)
   | Some n \<Rightarrow> do {
       s \<leftarrow> aget (p_storage pl) n;
       case s of
         FreeNode nx \<Rightarrow>
           Some (Some n, pl\<lparr>p_storage := (p_storage pl)[n := Obj x], p_free_head := nx\<rparr>)
       | Obj _ \<Rightarrow> None
     })"

definition pool_release :: "'a pool \<Rightarrow> nat \<Rightarrow> 'a pool option" where
  "pool_release pl p = do {
     s \<leftarrow> aget (p_storage pl) p;
     case s of
       Obj _ \<Rightarrow>
         Some (pl\<lparr>p_storage := (p_storage pl)[p := FreeNode (p_free_head pl)], p_free_head := Some p\<rparr>)
     | FreeNode _ \<Rightarrow> None
   }"

text \<open>Dereferencing a pointer to an object, for reading and for writing.\<close>

definition pool_read :: "'a pool \<Rightarrow> nat \<Rightarrow> 'a option" where
  "pool_read pl p = do {
     s \<leftarrow> aget (p_storage pl) p;
     case s of Obj x \<Rightarrow> Some x | FreeNode _ \<Rightarrow> None
   }"

definition pool_write :: "'a pool \<Rightarrow> nat \<Rightarrow> 'a \<Rightarrow> 'a pool option" where
  "pool_write pl p x = do {
     _ \<leftarrow> pool_read pl p;
     Some (pl\<lparr>p_storage := (p_storage pl)[p := Obj x]\<rparr>)
   }"

section \<open>The free list\<close>

fun free_chain :: "'a slot list \<Rightarrow> nat option \<Rightarrow> nat list \<Rightarrow> bool" where
  "free_chain st h [] \<longleftrightarrow> h = None"
| "free_chain st h (p # ps) \<longleftrightarrow> h = Some p \<and> p < length st \<and>
     (case st ! p of FreeNode nx \<Rightarrow> free_chain st nx ps | Obj _ \<Rightarrow> False)"

definition pool_rep :: "'a pool \<Rightarrow> nat list \<Rightarrow> bool" where
  "pool_rep pl fl \<longleftrightarrow> free_chain (p_storage pl) (p_free_head pl) fl \<and> distinct fl \<and>
     set fl = {p. p < p_capacity pl \<and> pool_read pl p = None}"

definition pool_inv :: "'a pool \<Rightarrow> bool" where
  "pool_inv pl \<longleftrightarrow> (\<exists>fl. pool_rep pl fl)"

lemma pool_read_Some: "pool_read pl p = Some x \<longleftrightarrow> p < p_capacity pl \<and> p_storage pl ! p = Obj x"
  by (auto simp: pool_read_def aget_def p_capacity_def split: slot.splits)

lemma pool_read_None:
  "pool_read pl p = None \<longleftrightarrow> p_capacity pl \<le> p \<or> (\<exists>nx. p_storage pl ! p = FreeNode nx)"
  by (auto simp: pool_read_def aget_def p_capacity_def split: slot.splits)

lemma free_chain_frame: "p \<notin> set ps \<Longrightarrow> free_chain (st[p := s]) h ps = free_chain st h ps"
  by (induction ps arbitrary: h) (auto split: slot.splits)

lemma free_chain_thread:
  "free_chain (p_storage pl) (p_free_head pl) fl \<Longrightarrow> n \<le> p_capacity pl \<Longrightarrow> \<forall>p\<in>set fl. n \<le> p \<Longrightarrow>
   free_chain (p_storage (pool_thread n pl)) (p_free_head (pool_thread n pl)) ([0..<n] @ fl)"
proof (induction n arbitrary: pl fl)
  case (Suc n)
  let ?pl = "pl\<lparr>p_storage := (p_storage pl)[n := FreeNode (p_free_head pl)], p_free_head := Some n\<rparr>"
  from Suc.prems have "n \<notin> set fl" by auto
  with Suc.prems have "free_chain (p_storage ?pl) (p_free_head ?pl) (n # fl)"
    by (simp add: p_capacity_def free_chain_frame)
  moreover have "\<forall>p\<in>set (n # fl). n \<le> p" using Suc.prems by (auto intro: Suc_leD)
  moreover have "n \<le> p_capacity ?pl" using Suc.prems by (simp add: p_capacity_def)
  ultimately show ?case using Suc.IH [of ?pl "n # fl"] by (simp del: free_chain.simps)
qed simp

lemma pool_thread_storage:
  "n \<le> length (p_storage pl) \<Longrightarrow> length (p_storage (pool_thread n pl)) = length (p_storage pl) \<and>
   (\<forall>p. (\<exists>nx. p_storage pl ! p = FreeNode nx) \<longrightarrow> (\<exists>nx. p_storage (pool_thread n pl) ! p = FreeNode nx))"
proof (induction n arbitrary: pl)
  case (Suc n)
  let ?pl = "pl\<lparr>p_storage := (p_storage pl)[n := FreeNode (p_free_head pl)], p_free_head := Some n\<rparr>"
  have "(\<exists>nx. p_storage pl ! p = FreeNode nx) \<longrightarrow> (\<exists>nx. p_storage ?pl ! p = FreeNode nx)" for p
    using Suc.prems by (auto simp: nth_list_update)
  with Suc.IH [of ?pl] Suc.prems show ?case by auto
qed simp

lemma pool_rep_new: "pool_rep (pool_new cap :: 'a pool) [0..<cap]"
proof -
  let ?z = "\<lparr>p_storage = replicate cap (FreeNode None), p_free_head = None\<rparr> :: 'a pool"
  have "free_chain (p_storage (pool_thread cap ?z)) (p_free_head (pool_thread cap ?z)) ([0..<cap] @ [])"
    by (rule free_chain_thread) (simp_all add: p_capacity_def)
  moreover have "length (p_storage (pool_thread cap ?z)) = cap"
    using pool_thread_storage [of cap ?z] by simp
  moreover have "\<exists>nx. p_storage (pool_thread cap ?z) ! p = FreeNode nx" if "p < cap" for p
    using pool_thread_storage [of cap ?z] that by simp
  ultimately show ?thesis
    by (auto simp: pool_rep_def pool_new_def p_capacity_def pool_read_None)
qed

lemma pool_new_props:
  "pool_inv (pool_new cap :: 'a pool)" "p_capacity (pool_new cap :: 'a pool) = cap"
  "pool_read (pool_new cap :: 'a pool) p = None"
proof -
  let ?z = "\<lparr>p_storage = replicate cap (FreeNode None), p_free_head = None\<rparr> :: 'a pool"
  show "pool_inv (pool_new cap :: 'a pool)" using pool_rep_new by (auto simp: pool_inv_def)
  show c: "p_capacity (pool_new cap :: 'a pool) = cap"
    using pool_thread_storage [of cap ?z] by (simp add: pool_new_def p_capacity_def)
  show "pool_read (pool_new cap :: 'a pool) p = None"
    using pool_rep_new [where 'a = 'a, of cap] c by (fastforce simp: pool_rep_def pool_read_None)
qed

section \<open>The operations on the represented map\<close>

lemma pool_acquire_full: "pool_rep pl [] \<Longrightarrow> pool_acquire pl x = Some (None, pl)"
  by (simp add: pool_rep_def pool_acquire_def)

lemma pool_acquire_rep:
  assumes "pool_rep pl (p # fl)"
  obtains pl' where "pool_acquire pl x = Some (Some p, pl')" and "pool_rep pl' fl"
    and "p_capacity pl' = p_capacity pl" and "pool_read pl' = (pool_read pl)(p \<mapsto> x)"
    and "p < p_capacity pl" and "pool_read pl p = None"
proof -
  from assms obtain nx where h: "p_free_head pl = Some p" "p < length (p_storage pl)"
    "p_storage pl ! p = FreeNode nx" "free_chain (p_storage pl) nx fl" "p \<notin> set fl" "distinct fl"
    by (auto simp: pool_rep_def split: slot.splits)
  define pl' where "pl' = pl\<lparr>p_storage := (p_storage pl)[p := Obj x], p_free_head := nx\<rparr>"
  have rd: "pool_read pl' = (pool_read pl)(p \<mapsto> x)"
    using h by (auto simp: fun_eq_iff pl'_def pool_read_def aget_def nth_list_update)
  have "set fl = {q. q < p_capacity pl \<and> pool_read pl' q = None}"
    using assms h(5) by (auto simp: pool_rep_def rd)
  with h rd have "pool_rep pl' fl"
    by (simp add: pool_rep_def pl'_def free_chain_frame p_capacity_def)
  moreover have "pool_acquire pl x = Some (Some p, pl')"
    using h by (simp add: pool_acquire_def pl'_def)
  moreover have "p < p_capacity pl" "pool_read pl p = None"
    using assms by (auto simp: pool_rep_def)
  ultimately show ?thesis using that rd by (simp add: pl'_def p_capacity_def)
qed

lemma pool_release_rep:
  assumes "pool_rep pl fl" and "pool_read pl p = Some x"
  obtains pl' where "pool_release pl p = Some pl'" and "pool_rep pl' (p # fl)"
    and "p_capacity pl' = p_capacity pl" and "pool_read pl' = (pool_read pl)(p := None)"
proof -
  from assms(2) have s: "p < length (p_storage pl)" "p_storage pl ! p = Obj x"
    by (auto simp: pool_read_Some p_capacity_def)
  define pl' where "pl' = pl\<lparr>p_storage := (p_storage pl)[p := FreeNode (p_free_head pl)],
    p_free_head := Some p\<rparr>"
  have rd: "pool_read pl' = (pool_read pl)(p := None)"
    using s by (auto simp: fun_eq_iff pl'_def pool_read_def aget_def nth_list_update)
  from assms have nin: "p \<notin> set fl" by (auto simp: pool_rep_def)
  from assms(1) have fl: "free_chain (p_storage pl) (p_free_head pl) fl" "distinct fl"
    "set fl = {p. p < p_capacity pl \<and> pool_read pl p = None}" by (simp_all add: pool_rep_def)
  have cap: "p_capacity pl' = p_capacity pl" by (simp add: pl'_def p_capacity_def)
  from s fl(1) nin have "free_chain (p_storage pl') (p_free_head pl') (p # fl)"
    by (simp add: pl'_def free_chain_frame)
  moreover have "set (p # fl) = {q. q < p_capacity pl' \<and> pool_read pl' q = None}"
    unfolding rd cap list.set fl(3) using s by (auto simp: p_capacity_def)
  ultimately have "pool_rep pl' (p # fl)" using nin fl(2) by (simp add: pool_rep_def)
  moreover have "pool_release pl p = Some pl'"
    using s by (simp add: pool_release_def pl'_def)
  ultimately show ?thesis using that rd cap by simp
qed

lemma pool_write_rep:
  assumes "pool_rep pl fl" and "pool_read pl p = Some x"
  obtains pl' where "pool_write pl p y = Some pl'" and "pool_rep pl' fl"
    and "p_capacity pl' = p_capacity pl" and "pool_read pl' = (pool_read pl)(p \<mapsto> y)"
proof -
  from assms(2) have s: "p < length (p_storage pl)" by (auto simp: pool_read_Some p_capacity_def)
  define pl' where "pl' = pl\<lparr>p_storage := (p_storage pl)[p := Obj y]\<rparr>"
  have rd: "pool_read pl' = (pool_read pl)(p \<mapsto> y)"
    using s by (auto simp: fun_eq_iff pl'_def pool_read_def aget_def nth_list_update)
  from assms have nin: "p \<notin> set fl" by (auto simp: pool_rep_def)
  from assms(1) have fl: "free_chain (p_storage pl) (p_free_head pl) fl" "distinct fl"
    "set fl = {p. p < p_capacity pl \<and> pool_read pl p = None}" by (simp_all add: pool_rep_def)
  have cap: "p_capacity pl' = p_capacity pl" by (simp add: pl'_def p_capacity_def)
  from fl(1) nin have "free_chain (p_storage pl') (p_free_head pl') fl"
    by (simp add: pl'_def free_chain_frame)
  moreover have "set fl = {q. q < p_capacity pl' \<and> pool_read pl' q = None}"
    unfolding rd cap fl(3) using assms(2) by auto
  ultimately have "pool_rep pl' fl" using fl(2) by (simp add: pool_rep_def)
  moreover have "pool_write pl p y = Some pl'"
    using assms(2) by (simp add: pool_write_def pl'_def)
  ultimately show ?thesis using that rd cap by simp
qed

section \<open>The contract of the arena\<close>

locale object_arena =
  fixes ok :: "'p \<Rightarrow> bool" and cap :: "'p \<Rightarrow> nat" and live :: "'p \<Rightarrow> nat \<Rightarrow> 'a option"
    and alloc :: "'p \<Rightarrow> 'a \<Rightarrow> (nat option \<times> 'p) option"
    and free :: "'p \<Rightarrow> nat \<Rightarrow> 'p option" and put :: "'p \<Rightarrow> nat \<Rightarrow> 'a \<Rightarrow> 'p option"
  assumes live_range: "live p s = Some x \<Longrightarrow> s < cap p"
    and alloc_law: "ok p \<Longrightarrow> alloc p x = Some (None, p) \<and> dom (live p) = {..<cap p} \<or>
      (\<exists>s p'. alloc p x = Some (Some s, p') \<and> ok p' \<and> cap p' = cap p \<and> s < cap p \<and>
        live p s = None \<and> live p' = (live p)(s \<mapsto> x))"
    and free_law: "ok p \<Longrightarrow> live p s = Some x \<Longrightarrow>
      \<exists>p'. free p s = Some p' \<and> ok p' \<and> cap p' = cap p \<and> live p' = (live p)(s := None)"
    and reuse_law: "ok p \<Longrightarrow> live p s = Some x \<Longrightarrow> free p s = Some p' \<Longrightarrow>
      \<exists>p''. alloc p' y = Some (Some s, p'')"
    and put_law: "ok p \<Longrightarrow> live p s = Some x \<Longrightarrow>
      \<exists>p'. put p s y = Some p' \<and> ok p' \<and> cap p' = cap p \<and> live p' = (live p)(s \<mapsto> y)"
begin

lemma alloc_cases:
  assumes "ok p"
  obtains (full) "alloc p x = Some (None, p)" "dom (live p) = {..<cap p}"
  | (got) s p' where "alloc p x = Some (Some s, p')" "ok p'" "cap p' = cap p" "s < cap p"
      "live p s = None" "live p' = (live p)(s \<mapsto> x)"
  using alloc_law [OF assms, of x] by blast

text \<open>An arena with a dead slot never reports exhaustion.\<close>

lemma alloc_succeeds:
  assumes "ok p" and "s < cap p" and "live p s = None"
  shows "\<exists>s' p'. alloc p x = Some (Some s', p')"
  using assms alloc_law [OF assms(1), of x] by (metis domIff lessThan_iff)

text \<open>Exhaustion is exactly \<open>cap\<close> live objects.\<close>

lemma alloc_full_iff:
  assumes "ok p"
  shows "alloc p x = Some (None, p) \<longleftrightarrow> card (dom (live p)) = cap p"
proof -
  have sub: "dom (live p) \<subseteq> {..<cap p}" using live_range by (auto simp: dom_def)
  show ?thesis
  proof (cases "dom (live p) = {..<cap p}")
    case True
    with alloc_law [OF assms, of x] show ?thesis by (auto simp: domIff dest: equalityD2)
  next
    case False
    then obtain s p' where got: "alloc p x = Some (Some s, p')"
      using alloc_law [OF assms, of x] by blast
    from False have "dom (live p) \<subset> {..<cap p}" using sub by auto
    then have "card (dom (live p)) < cap p" using psubset_card_mono [of "{..<cap p}"] by simp
    with got show ?thesis by simp
  qed
qed

end

interpretation arena: object_arena pool_inv p_capacity pool_read pool_acquire pool_release pool_write
proof unfold_locales
  fix p :: "'a pool" and s x
  show "pool_read p s = Some x \<Longrightarrow> s < p_capacity p" by (simp add: pool_read_Some)
next
  fix p :: "'a pool" and x
  assume "pool_inv p"
  then obtain fl where fl: "pool_rep p fl" by (auto simp: pool_inv_def)
  show "pool_acquire p x = Some (None, p) \<and> dom (pool_read p) = {..<p_capacity p} \<or>
    (\<exists>s p'. pool_acquire p x = Some (Some s, p') \<and> pool_inv p' \<and> p_capacity p' = p_capacity p \<and>
      s < p_capacity p \<and> pool_read p s = None \<and> pool_read p' = (pool_read p)(s \<mapsto> x))"
  proof (cases fl)
    case Nil
    with fl have "dom (pool_read p) = {..<p_capacity p}"
      by (auto simp: pool_rep_def pool_read_Some)
    with fl Nil show ?thesis by (simp add: pool_acquire_full)
  next
    case (Cons q fl')
    with fl show ?thesis by (metis pool_acquire_rep pool_inv_def)
  qed
next
  fix p :: "'a pool" and s x
  assume "pool_inv p" and "pool_read p s = Some x"
  then show "\<exists>p'. pool_release p s = Some p' \<and> pool_inv p' \<and> p_capacity p' = p_capacity p \<and>
      pool_read p' = (pool_read p)(s := None)"
    by (metis pool_release_rep pool_inv_def)
next
  fix p p' :: "'a pool" and s x y
  assume "pool_inv p" and "pool_read p s = Some x" and "pool_release p s = Some p'"
  then obtain fl where "pool_rep p' (s # fl)" by (metis pool_release_rep pool_inv_def option.inject)
  then show "\<exists>p''. pool_acquire p' y = Some (Some s, p'')" by (metis pool_acquire_rep)
next
  fix p :: "'a pool" and s x y
  assume "pool_inv p" and "pool_read p s = Some x"
  then show "\<exists>p'. pool_write p s y = Some p' \<and> pool_inv p' \<and> p_capacity p' = p_capacity p \<and>
      pool_read p' = (pool_read p)(s \<mapsto> y)"
    by (metis pool_write_rep pool_inv_def)
qed

section \<open>Histories of the pool\<close>

text \<open>What a caller does with a pool, against the map of the objects it holds.\<close>

inductive pool_hist :: "nat \<Rightarrow> (nat \<rightharpoonup> 'a) \<Rightarrow> 'a pool \<Rightarrow> bool" for cap where
  fresh: "pool_hist cap Map.empty (pool_new cap)"
| acquired: "pool_hist cap m pl \<Longrightarrow> pool_acquire pl x = Some (Some p, pl') \<Longrightarrow> pool_hist cap (m(p \<mapsto> x)) pl'"
| released: "pool_hist cap m pl \<Longrightarrow> p \<in> dom m \<Longrightarrow> pool_release pl p = Some pl' \<Longrightarrow>
    pool_hist cap (m(p := None)) pl'"
| written: "pool_hist cap m pl \<Longrightarrow> p \<in> dom m \<Longrightarrow> pool_write pl p x = Some pl' \<Longrightarrow>
    pool_hist cap (m(p \<mapsto> x)) pl'"

lemma pool_hist_rep: "pool_hist cap m pl \<Longrightarrow> pool_inv pl \<and> p_capacity pl = cap \<and> pool_read pl = m"
proof (induction rule: pool_hist.induct)
  case fresh
  show ?case using pool_new_props [where 'a = 'a] by (auto simp: fun_eq_iff)
next
  case (acquired m pl x p pl')
  then show ?case using arena.alloc_law [of pl x] by auto
next
  case (released m pl p pl')
  then show ?case using arena.free_law [of pl p] by fastforce
next
  case (written m pl p x pl')
  then show ?case using arena.put_law [of pl p _ x] by fastforce
qed

text \<open>C10. The pool never hands out a slot twice and never loses one: after any history of
  \<open>acquire\<close>, \<open>release\<close> and writes the objects read back are the ones the caller stored, a further
  \<open>acquire\<close> returns \<open>nullptr\<close> exactly when \<open>capacity\<close> objects are held and otherwise a slot not
  held by anyone, and a released slot is the next one handed out.\<close>

theorem pool_history:
  assumes "pool_hist cap m pl"
  shows "pool_read pl = m \<and> dom m \<subseteq> {..<cap} \<and>
    (if card (dom m) = cap then pool_acquire pl x = Some (None, pl)
     else \<exists>p pl'. pool_acquire pl x = Some (Some p, pl') \<and> p < cap \<and> m p = None) \<and>
    (\<forall>p\<in>dom m. \<exists>pl' pl''. pool_release pl p = Some pl' \<and> pool_acquire pl' x = Some (Some p, pl''))"
proof -
  from pool_hist_rep [OF assms] have R: "pool_inv pl" "p_capacity pl = cap" "pool_read pl = m" by auto
  have "\<exists>p pl'. pool_acquire pl x = Some (Some p, pl') \<and> p < cap \<and> m p = None" if "card (dom m) \<noteq> cap"
    using arena.alloc_full_iff [OF R(1), of x] arena.alloc_law [OF R(1), of x] R that by auto
  moreover have "pool_acquire pl x = Some (None, pl)" if "card (dom m) = cap"
    using arena.alloc_full_iff [OF R(1), of x] R that by simp
  moreover have "dom m \<subseteq> {..<cap}" using arena.live_range [of pl] R by auto
  moreover have "\<forall>p\<in>dom m. \<exists>pl' pl''. pool_release pl p = Some pl' \<and> pool_acquire pl' x = Some (Some p, pl'')"
    using arena.free_law [OF R(1)] arena.reuse_law [OF R(1)] R(3) by (metis domD)
  ultimately show ?thesis using R(3) by auto
qed

theorem pool_history_witness:
  "\<exists>p pl'. pool_acquire (pool_new 2 :: nat pool) 7 = Some (Some p, pl') \<and> p < 2"
  using pool_history [OF pool_hist.fresh, of 2 7] by auto

end
