(* ===== verification/Level_Bitmap.thy ===== *)
theory Level_Bitmap
  imports Prelude
begin

text \<open>
  \<open>include/lob/level_bitmap.hpp\<close>: the three-level occupancy bitmap over the price ladder.
  The state is the three arrays of the class (\<open>l2_\<close> is a single word); \<open>bm_bits\<close> is the
  template parameter \<open>NumBits\<close>. The operations are translated statement by statement; the
  array accesses are checked. The invariant \<open>bm_inv\<close> says that each summary level is exact,
  \<open>bm_abs\<close> is the set of marked levels, and the theorems say that \<open>set\<close>, \<open>reset\<close> and
  \<open>test\<close> are the set operations and that \<open>next_set\<close> / \<open>prev_set\<close> find the least marked
  level above and the greatest one below. The locale \<open>occupancy_index\<close> is what the order
  book asks of the bitmap: that it can maintain a cached maximum and minimum with it.
\<close>

record bitmap =
  bm_bits :: nat
  bm_l0 :: "u64 list"
  bm_l1 :: "u64 list"
  bm_l2 :: u64

definition NPOS :: nat where
  "NPOS = 18446744073709551615"

definition bm_clear :: "nat \<Rightarrow> bitmap" where
  "bm_clear n = \<lparr>bm_bits = n, bm_l0 = replicate (n div 64) 0,
     bm_l1 = replicate ((n div 64 + 63) div 64) 0, bm_l2 = 0\<rparr>"

definition bm_set :: "bitmap \<Rightarrow> nat \<Rightarrow> bitmap option" where
  "bm_set bm i = do {
     w0 \<leftarrow> aget (bm_l0 bm) (drop_bit 6 i);
     l0 \<leftarrow> aput (bm_l0 bm) (drop_bit 6 i) (w0 OR push_bit (i AND 63) 1);
     w1 \<leftarrow> aget (bm_l1 bm) (drop_bit 12 i);
     l1 \<leftarrow> aput (bm_l1 bm) (drop_bit 12 i) (w1 OR push_bit (drop_bit 6 i AND 63) 1);
     Some (bm\<lparr>bm_l0 := l0, bm_l1 := l1, bm_l2 := bm_l2 bm OR push_bit (drop_bit 12 i) 1\<rparr>)
   }"

definition bm_reset :: "bitmap \<Rightarrow> nat \<Rightarrow> bitmap option" where
  "bm_reset bm i = do {
     w0 \<leftarrow> aget (bm_l0 bm) (drop_bit 6 i);
     let v0 = w0 AND NOT (push_bit (i AND 63) 1);
     l0 \<leftarrow> aput (bm_l0 bm) (drop_bit 6 i) v0;
     if v0 = 0 then do {
       w1 \<leftarrow> aget (bm_l1 bm) (drop_bit 12 i);
       let v1 = w1 AND NOT (push_bit (drop_bit 6 i AND 63) 1);
       l1 \<leftarrow> aput (bm_l1 bm) (drop_bit 12 i) v1;
       if v1 = 0 then
         Some (bm\<lparr>bm_l0 := l0, bm_l1 := l1,
                 bm_l2 := bm_l2 bm AND NOT (push_bit (drop_bit 12 i) 1)\<rparr>)
       else Some (bm\<lparr>bm_l0 := l0, bm_l1 := l1\<rparr>)
     }
     else Some (bm\<lparr>bm_l0 := l0\<rparr>)
   }"

definition bm_test :: "bitmap \<Rightarrow> nat \<Rightarrow> bool option" where
  "bm_test bm i = do {
     w0 \<leftarrow> aget (bm_l0 bm) (drop_bit 6 i);
     Some (drop_bit (i AND 63) w0 AND 1 \<noteq> 0)
   }"

definition shl_safe :: "u64 \<Rightarrow> nat \<Rightarrow> u64" where
  "shl_safe v s = (if 64 \<le> s then 0 else push_bit s v)"

definition shr_safe :: "u64 \<Rightarrow> nat \<Rightarrow> u64" where
  "shr_safe v s = (if 64 \<le> s then 0 else drop_bit s v)"

definition bsr :: "u64 \<Rightarrow> nat" where
  "bsr v = 63 - countl_zero v"

definition bm_next_set :: "bitmap \<Rightarrow> nat \<Rightarrow> nat option" where
  "bm_next_set bm i =
     (if bm_bits bm \<le> i then Some NPOS else do {
        let w = drop_bit 6 i;
        w0 \<leftarrow> aget (bm_l0 bm) w;
        let m = w0 AND push_bit (i AND 63) (NOT 0);
        if m \<noteq> 0 then Some (push_bit 6 w + countr_zero m)
        else do {
          let w1 = drop_bit 6 w;
          x1 \<leftarrow> aget (bm_l1 bm) w1;
          let m = x1 AND shl_safe (NOT 0) ((w AND 63) + 1);
          if m \<noteq> 0 then do {
            let w = push_bit 6 w1 + countr_zero m;
            y0 \<leftarrow> aget (bm_l0 bm) w;
            Some (push_bit 6 w + countr_zero y0)
          }
          else do {
            let m = bm_l2 bm AND shl_safe (NOT 0) (w1 + 1);
            if m \<noteq> 0 then do {
              let w1 = countr_zero m;
              y1 \<leftarrow> aget (bm_l1 bm) w1;
              let w = push_bit 6 w1 + countr_zero y1;
              y0 \<leftarrow> aget (bm_l0 bm) w;
              Some (push_bit 6 w + countr_zero y0)
            }
            else Some NPOS
          }
        }
      })"

definition bm_prev_set :: "bitmap \<Rightarrow> nat \<Rightarrow> nat option" where
  "bm_prev_set bm i = do {
     let w = drop_bit 6 i;
     w0 \<leftarrow> aget (bm_l0 bm) w;
     let m = w0 AND shr_safe (NOT 0) (63 - (i AND 63));
     if m \<noteq> 0 then Some (push_bit 6 w + bsr m)
     else do {
       let w1 = drop_bit 6 w;
       x1 \<leftarrow> aget (bm_l1 bm) w1;
       let m = x1 AND shr_safe (NOT 0) (64 - (w AND 63));
       if m \<noteq> 0 then do {
         let w = push_bit 6 w1 + bsr m;
         y0 \<leftarrow> aget (bm_l0 bm) w;
         Some (push_bit 6 w + bsr y0)
       }
       else do {
         let m = bm_l2 bm AND shr_safe (NOT 0) (63 - w1 + 1);
         if m \<noteq> 0 then do {
           let w1 = bsr m;
           y1 \<leftarrow> aget (bm_l1 bm) w1;
           let w = push_bit 6 w1 + bsr y1;
           y0 \<leftarrow> aget (bm_l0 bm) w;
           Some (push_bit 6 w + bsr y0)
         }
         else Some NPOS
       }
     }
   }"

section \<open>Arrays of words as bit sequences\<close>

definition wbit :: "u64 list \<Rightarrow> nat \<Rightarrow> bool" where
  "wbit A i = bit (A ! (i div 64)) (i mod 64)"

text \<open>\<open>B\<close> summarises \<open>A\<close>: bit \<open>w\<close> of \<open>B\<close> is set exactly when word \<open>w\<close> of \<open>A\<close> is not zero.\<close>

definition summary :: "u64 list \<Rightarrow> u64 list \<Rightarrow> bool" where
  "summary A B \<longleftrightarrow> length B = (length A + 63) div 64 \<and>
     (\<forall>w < 64 * length B. wbit B w \<longleftrightarrow> w < length A \<and> A ! w \<noteq> 0)"

definition bm_inv :: "bitmap \<Rightarrow> bool" where
  "bm_inv bm \<longleftrightarrow> bm_bits bm mod 64 = 0 \<and> 0 < bm_bits bm \<and> bm_bits bm \<le> 262144 \<and>
     length (bm_l0 bm) = bm_bits bm div 64 \<and>
     summary (bm_l0 bm) (bm_l1 bm) \<and> summary (bm_l1 bm) [bm_l2 bm]"

definition bm_abs :: "bitmap \<Rightarrow> nat set" where
  "bm_abs bm = {i. i < bm_bits bm \<and> wbit (bm_l0 bm) i}"

lemma bm_abs_bound: "i \<in> bm_abs bm \<Longrightarrow> i < bm_bits bm"
  by (simp add: bm_abs_def)

lemma finite_bm_abs [simp]: "finite (bm_abs bm)"
  by (rule finite_subset [of _ "{..<bm_bits bm}"]) (auto simp: bm_abs_def)

lemma wbit_or:
  assumes "i < 64 * length B"
  shows "wbit (B[i div 64 := B ! (i div 64) OR push_bit (i mod 64) 1]) j \<longleftrightarrow> j = i \<or> wbit B j"
proof -
  from assms have "i div 64 < length B" by (simp add: less_mult_imp_div_less mult.commute)
  moreover have "j = i \<longleftrightarrow> j div 64 = i div 64 \<and> j mod 64 = i mod 64"
    by (metis div_mult_mod_eq)
  ultimately show ?thesis
    by (auto simp: wbit_def nth_list_update bit_simps)
qed

lemma wbit_andnot:
  assumes "i < 64 * length B"
  shows "wbit (B[i div 64 := B ! (i div 64) AND NOT (push_bit (i mod 64) 1)]) j \<longleftrightarrow> j \<noteq> i \<and> wbit B j"
proof -
  from assms have "i div 64 < length B" by (simp add: less_mult_imp_div_less mult.commute)
  moreover have "j = i \<longleftrightarrow> j div 64 = i div 64 \<and> j mod 64 = i mod 64"
    by (metis div_mult_mod_eq)
  ultimately show ?thesis
    by (auto simp: wbit_def nth_list_update bit_simps)
qed

lemma summary_length: "summary A B \<Longrightarrow> length A \<le> 64 * length B"
  by (auto simp: summary_def)

lemma summary_div:
  "summary A B \<Longrightarrow> w < length A \<Longrightarrow> w div 64 < length B"
  using summary_length [of A B] by (auto simp: less_mult_imp_div_less mult.commute)

lemma summary_wbit:
  "summary A B \<Longrightarrow> w < 64 * length B \<Longrightarrow> wbit B w \<longleftrightarrow> w < length A \<and> A ! w \<noteq> 0"
  by (simp add: summary_def)

lemma summary_set:
  assumes "summary A B" and "w < length A" and "v \<noteq> 0"
  shows "summary (A[w := v]) (B[w div 64 := B ! (w div 64) OR push_bit (w mod 64) 1])"
  using assms summary_length [OF assms(1)]
  by (auto simp: summary_def wbit_or nth_list_update)

lemma summary_keep:
  assumes "summary A B" and "w < length A" and "v \<noteq> 0" and "A ! w \<noteq> 0"
  shows "summary (A[w := v]) B"
  using assms by (auto simp: summary_def nth_list_update)

lemma summary_reset:
  assumes "summary A B" and "w < length A"
  shows "summary (A[w := 0]) (B[w div 64 := B ! (w div 64) AND NOT (push_bit (w mod 64) 1)])"
  using assms summary_length [OF assms(1)]
  by (auto simp: summary_def wbit_andnot nth_list_update)

lemma summary_same:
  assumes "summary A B" and "w < length A"
  shows "summary (A[w := A ! w]) B"
  using assms by simp

text \<open>Scanning: the next set bit at or after \<open>lo\<close>, the previous one strictly before \<open>hi\<close>.\<close>

definition is_next :: "u64 list \<Rightarrow> nat \<Rightarrow> nat \<Rightarrow> bool" where
  "is_next A lo r \<longleftrightarrow> wbit A r \<and> lo \<le> r \<and> r < 64 * length A \<and>
     (\<forall>j. lo \<le> j \<and> j < r \<longrightarrow> \<not> wbit A j)"

definition is_prev :: "u64 list \<Rightarrow> nat \<Rightarrow> nat \<Rightarrow> bool" where
  "is_prev A hi r \<longleftrightarrow> wbit A r \<and> r < hi \<and> r < 64 * length A \<and>
     (\<forall>j. r < j \<and> j < hi \<longrightarrow> \<not> wbit A j)"

lemma word_eq: "j div 64 = w \<Longrightarrow> w * 64 + j mod 64 = (j::nat)"
  by (drule sym) (simp only: div_mult_mod_eq)

lemma word_pos_le: "j div 64 = w \<Longrightarrow> w * 64 + s \<le> j \<longleftrightarrow> s \<le> j mod (64::nat)"
  by (metis add_le_cancel_left word_eq)

lemma word_pos_gt: "j div 64 = w \<Longrightarrow> j < w * 64 + s \<longleftrightarrow> j mod (64::nat) < s"
  by (metis add_less_cancel_left word_eq)

lemma word_pos_lt: "j div 64 = w \<Longrightarrow> w * 64 + s < j \<longleftrightarrow> s < j mod (64::nat)"
  by (metis add_less_cancel_left word_eq)

lemma word_div_less: "j div 64 < w \<longleftrightarrow> j < w * (64::nat)"
  by (simp add: div_less_iff_less_mult)

lemma word_div_ge: "w \<le> j div 64 \<longleftrightarrow> w * 64 \<le> (j::nat)"
  by (simp add: less_eq_div_iff_mult_less_eq)

lemma word_div_eq: "w * 64 \<le> j \<Longrightarrow> j < (w + 1) * 64 \<Longrightarrow> j div 64 = (w::nat)"
  by (intro antisym) (simp_all only: word_div_ge less_Suc_eq_le [symmetric] word_div_less, simp_all)

lemma word_end: "k < 64 \<Longrightarrow> w < (n::nat) \<Longrightarrow> w * 64 + k < 64 * n"
  by simp

lemma wbit_at: "k < 64 \<Longrightarrow> wbit A (w * 64 + k) = bit (A ! w) k"
  by (simp add: wbit_def)

lemma bit_shl_safe: "bit (x AND shl_safe (- 1) s) k \<longleftrightarrow> bit x k \<and> s \<le> k"
  using bit_word64_lt [of x k] by (auto simp: shl_safe_def bit_simps)

lemma bit_shr_safe: "s \<le> 64 \<Longrightarrow> bit (x AND shr_safe (- 1) (64 - s)) k \<longleftrightarrow> bit x k \<and> k < s"
  using bit_word64_lt [of x k] by (auto simp: shr_safe_def bit_simps)

lemma scan_up_hit:
  assumes m: "m = A ! w AND shl_safe (- 1) s" "m \<noteq> 0" and w: "w < length A"
  shows "is_next A (w * 64 + s) (w * 64 + countr_zero m)"
proof -
  note C = countr_zero_props [OF m(2)]
  have bm: "bit m k \<longleftrightarrow> bit (A ! w) k \<and> s \<le> k" for k
    by (simp add: m(1) bit_shl_safe)
  have "w * 64 + countr_zero m < 64 * length A" using C(1) w by (rule word_end)
  moreover have "\<not> wbit A j" if "w * 64 + s \<le> j" "j < w * 64 + countr_zero m" for j
  proof -
    from that C(1) have d: "j div 64 = w" by (intro word_div_eq) auto
    with that have "j mod 64 < countr_zero m" "s \<le> j mod 64"
      by (simp_all add: word_pos_le word_pos_gt)
    with C(3) [of "j mod 64"] bm show ?thesis by (simp add: wbit_def d)
  qed
  ultimately show ?thesis using C bm by (auto simp: is_next_def wbit_at)
qed

lemma scan_up_miss:
  assumes m: "A ! w AND shl_safe (- 1) s = 0" and j: "w * 64 + s \<le> j" "j < (w + 1) * 64"
  shows "\<not> wbit A j"
proof
  assume "wbit A j"
  moreover from j have d: "j div 64 = w" by (intro word_div_eq) auto
  moreover from d j have "s \<le> j mod 64" by (simp add: word_pos_le)
  ultimately have "bit (A ! w AND shl_safe (- 1) s) (j mod 64)"
    by (simp add: wbit_def bit_shl_safe)
  with m show False by simp
qed

lemma scan_down_hit:
  assumes m: "m = A ! w AND shr_safe (- 1) (64 - s)" "m \<noteq> 0" and w: "w < length A"
    and s: "s \<le> 64"
  shows "is_prev A (w * 64 + s) (w * 64 + bsr m)"
proof -
  note C = countl_zero_props [OF m(2), folded bsr_def]
  have bm: "bit m k \<longleftrightarrow> bit (A ! w) k \<and> k < s" for k
    using s by (simp add: m(1) bit_shr_safe)
  have lt: "bsr m < 64" by (simp add: bsr_def)
  then have "w * 64 + bsr m < 64 * length A" using w by (rule word_end)
  moreover have "\<not> wbit A j" if "j < w * 64 + s" "w * 64 + bsr m < j" for j
  proof -
    from that s have d: "j div 64 = w" by (intro word_div_eq) auto
    with that have "bsr m < j mod 64" "j mod 64 < s"
      by (simp_all add: word_pos_lt word_pos_gt)
    with C(3) [of "j mod 64"] bm show ?thesis by (simp add: wbit_def d)
  qed
  ultimately show ?thesis using C bm lt by (auto simp: is_prev_def wbit_at)
qed

lemma scan_down_miss:
  assumes m: "A ! w AND shr_safe (- 1) (64 - s) = 0" and j: "w * 64 \<le> j" "j < w * 64 + s"
    and s: "s \<le> 64"
  shows "\<not> wbit A j"
proof
  assume "wbit A j"
  moreover from j s have d: "j div 64 = w" by (intro word_div_eq) auto
  moreover from d j have "j mod 64 < s" by (simp add: word_pos_gt)
  ultimately have "bit (A ! w AND shr_safe (- 1) (64 - s)) (j mod 64)"
    using s by (simp add: wbit_def bit_shr_safe)
  with m show False by simp
qed

text \<open>Lifting a scan of the summary level to the level below.\<close>

lemma summary_zero:
  assumes "summary A B" and "\<not> wbit B (j div 64)" and "j < 64 * length A"
  shows "\<not> wbit A j"
proof -
  from assms(3) have "j div 64 < length A" by (simp add: less_mult_imp_div_less mult.commute)
  moreover from this have "j div 64 < 64 * length B" using summary_length [OF assms(1)] by simp
  ultimately have "A ! (j div 64) = 0" using summary_wbit [OF assms(1)] assms(2) by auto
  then show ?thesis by (simp add: wbit_def)
qed

lemma lift_next:
  assumes S: "summary A B" and nB: "is_next B (w + 1) v"
    and none: "\<And>j. lo \<le> j \<Longrightarrow> j < (w + 1) * 64 \<Longrightarrow> \<not> wbit A j"
    and lo: "lo \<le> (w + 1) * 64"
  shows "v < length A" "is_next A lo (v * 64 + countr_zero (A ! v))"
proof -
  from nB have v: "wbit B v" "w < v" "v < 64 * length B" and
    gap: "\<And>u. w < u \<Longrightarrow> u < v \<Longrightarrow> \<not> wbit B u" by (auto simp: is_next_def)
  from summary_wbit [OF S v(3)] v(1) show vA: "v < length A" by auto
  from summary_wbit [OF S v(3)] v(1) have nz: "A ! v \<noteq> 0" by auto
  note C = countr_zero_props [OF nz]
  have r: "v * 64 + countr_zero (A ! v) < 64 * length A" using C(1) vA by (rule word_end)
  have "\<not> wbit A j" if j: "lo \<le> j" "j < v * 64 + countr_zero (A ! v)" for j
  proof -
    have "j div 64 \<le> v" using j(2) C(1) by (simp add: less_Suc_eq_le [symmetric] word_div_less)
    then consider "j div 64 \<le> w" | "w < j div 64" "j div 64 < v" | "j div 64 = v" by linarith
    then show ?thesis
    proof cases
      case 1
      then have "j < (w + 1) * 64" by (simp add: word_div_less [symmetric])
      with none j(1) show ?thesis by blast
    next
      case 2
      with gap r j(2) show ?thesis by (intro summary_zero [OF S]) auto
    next
      case 3
      with j(2) have "j mod 64 < countr_zero (A ! v)" by (simp add: word_pos_gt)
      with C(3) 3 show ?thesis by (simp add: wbit_def)
    qed
  qed
  moreover have "lo \<le> v * 64 + countr_zero (A ! v)" using lo v(2) by simp
  ultimately show "is_next A lo (v * 64 + countr_zero (A ! v))"
    using C r by (auto simp: is_next_def wbit_at)
qed

lemma lift_none_next:
  assumes S: "summary A B" and nB: "\<And>v. w < v \<Longrightarrow> v < 64 * length B \<Longrightarrow> \<not> wbit B v"
    and none: "\<And>j. lo \<le> j \<Longrightarrow> j < (w + 1) * 64 \<Longrightarrow> \<not> wbit A j"
    and j: "lo \<le> j" "j < 64 * length A"
  shows "\<not> wbit A j"
proof (cases "j < (w + 1) * 64")
  case True then show ?thesis using none j by blast
next
  case False
  then have "w < j div 64" by (simp add: Suc_le_eq [symmetric] word_div_ge)
  moreover have "j div 64 < 64 * length B" using j summary_length [OF S] by (simp add: word_div_less)
  ultimately show ?thesis using nB j by (intro summary_zero [OF S]) auto
qed

lemma lift_prev:
  assumes S: "summary A B" and nB: "is_prev B w v"
    and none: "\<And>j. w * 64 \<le> j \<Longrightarrow> j < hi \<Longrightarrow> \<not> wbit A j"
    and hi: "w * 64 \<le> hi" "hi \<le> 64 * length A"
  shows "v < length A" "is_prev A hi (v * 64 + bsr (A ! v))"
proof -
  from nB have v: "wbit B v" "v < w" "v < 64 * length B" and
    gap: "\<And>u. v < u \<Longrightarrow> u < w \<Longrightarrow> \<not> wbit B u" by (auto simp: is_prev_def)
  from summary_wbit [OF S v(3)] v(1) show vA: "v < length A" by auto
  from summary_wbit [OF S v(3)] v(1) have nz: "A ! v \<noteq> 0" by auto
  note C = countl_zero_props [OF nz, folded bsr_def]
  have lt: "bsr (A ! v) < 64" by (simp add: bsr_def)
  have r: "v * 64 + bsr (A ! v) < 64 * length A" "v * 64 + bsr (A ! v) < hi"
    using word_end [OF lt vA] lt v(2) hi(1) by auto
  have "\<not> wbit A j" if j: "j < hi" "v * 64 + bsr (A ! v) < j" for j
  proof -
    have "v \<le> j div 64" using j(2) by (simp add: word_div_ge)
    then consider "w \<le> j div 64" | "v < j div 64" "j div 64 < w" | "j div 64 = v" by linarith
    then show ?thesis
    proof cases
      case 1
      then have "w * 64 \<le> j" by (simp add: word_div_ge)
      with none j(1) show ?thesis by blast
    next
      case 2
      with gap hi j(1) show ?thesis by (intro summary_zero [OF S]) auto
    next
      case 3
      with j(2) have "bsr (A ! v) < j mod 64" by (simp add: word_pos_lt)
      with C(3) 3 show ?thesis by (simp add: wbit_def)
    qed
  qed
  with r C lt show "is_prev A hi (v * 64 + bsr (A ! v))"
    by (auto simp: is_prev_def wbit_at)
qed

lemma lift_none_prev:
  assumes S: "summary A B" and nB: "\<And>v. v < w \<Longrightarrow> \<not> wbit B v"
    and none: "\<And>j. w * 64 \<le> j \<Longrightarrow> j < hi \<Longrightarrow> \<not> wbit A j"
    and j: "j < hi" "hi \<le> 64 * length A"
  shows "\<not> wbit A j"
proof (cases "w * 64 \<le> j")
  case True then show ?thesis using none j by blast
next
  case False
  then have "j div 64 < w" by (simp add: word_div_less)
  with nB j show ?thesis by (intro summary_zero [OF S]) auto
qed

section \<open>The operations\<close>

lemma bm_inv_sizes:
  assumes "bm_inv bm"
  shows "length (bm_l0 bm) * 64 = bm_bits bm" and "0 < length (bm_l0 bm)"
    and "length (bm_l0 bm) \<le> 4096" and "length (bm_l1 bm) \<le> 64"
    and "summary (bm_l0 bm) (bm_l1 bm)" and "summary (bm_l1 bm) [bm_l2 bm]"
proof -
  from assms show l0: "length (bm_l0 bm) * 64 = bm_bits bm"
    by (auto simp: bm_inv_def)
  from assms l0 show "0 < length (bm_l0 bm)" and "length (bm_l0 bm) \<le> 4096"
    by (auto simp: bm_inv_def)
  from assms show S: "summary (bm_l0 bm) (bm_l1 bm)" "summary (bm_l1 bm) [bm_l2 bm]"
    by (simp_all add: bm_inv_def)
  from summary_length [OF S(2)] show "length (bm_l1 bm) \<le> 64" by simp
qed

lemma bm_index:
  assumes "bm_inv bm" and "i < bm_bits bm"
  shows "i < 64 * length (bm_l0 bm)" and "i div 64 < length (bm_l0 bm)"
    and "i div 64 < 64 * length (bm_l1 bm)" and "i div 64 div 64 < length (bm_l1 bm)"
    and "i div 64 div 64 < 64"
proof -
  note I = bm_inv_sizes [OF assms(1)]
  from assms(2) I(1) show a: "i < 64 * length (bm_l0 bm)" by simp
  then show b: "i div 64 < length (bm_l0 bm)" by (simp add: word_div_less mult.commute)
  with summary_length [OF I(5)] show c: "i div 64 < 64 * length (bm_l1 bm)" by simp
  then show "i div 64 div 64 < length (bm_l1 bm)" by (simp add: word_div_less mult.commute)
  with I(4) show "i div 64 div 64 < 64" by simp
qed

lemma bm_inv_clear:
  assumes "n mod 64 = 0" and "0 < n" and "n \<le> 262144"
  shows "bm_inv (bm_clear n)" and "bm_abs (bm_clear n) = {}"
proof -
  have z: "\<not> wbit (replicate k 0) w" if "w < 64 * k" for w k
    using that by (simp add: wbit_def word_div_less mult.commute)
  from assms have 1: "(n div 64 + 63) div 64 \<le> 64" "0 < (n div 64 + 63) div 64"
    by (auto simp: div_le_mono div_greater_zero_iff word_div_less less_Suc_eq_le [symmetric])
  then have 2: "((n div 64 + 63) div 64 + 63) div 64 = Suc 0"
    by (intro word_div_eq [of 1, simplified]) auto
  have w: "wbit [0] w \<longleftrightarrow> False" if "w < 64" for w using that by (simp add: wbit_def)
  from assms 1 2 z show "bm_inv (bm_clear n)"
    by (auto simp: bm_inv_def bm_clear_def summary_def w)
  from assms z show "bm_abs (bm_clear n) = {}"
    by (fastforce simp: bm_abs_def bm_clear_def)
qed

lemma single_word_or: "k < 64 \<Longrightarrow> [x][k div 64 := [x] ! (k div 64) OR push_bit (k mod 64) 1] = [x OR push_bit k (1::u64)]"
  by simp

lemma single_word_andnot:
  "k < 64 \<Longrightarrow> [x][k div 64 := [x] ! (k div 64) AND NOT (push_bit (k mod 64) 1)] = [x AND NOT (push_bit k (1::u64))]"
  by simp

lemma or_bit_nonzero: "k < 64 \<Longrightarrow> x OR push_bit k 1 \<noteq> (0::u64)"
  by (auto simp: word_nonzero_bit bit_simps)

text \<open>\<open>set(i)\<close> marks exactly level \<open>i\<close> and keeps the summaries exact.\<close>

lemma bm_set_correct:
  assumes inv: "bm_inv bm" and i: "i < bm_bits bm"
  obtains bm' where "bm_set bm i = Some bm'" and "bm_inv bm'" and "bm_bits bm' = bm_bits bm"
    and "bm_abs bm' = insert i (bm_abs bm)"
proof -
  note I = bm_inv_sizes [OF inv] and J = bm_index [OF inv i]
  define l0 where "l0 = (bm_l0 bm)[i div 64 := bm_l0 bm ! (i div 64) OR push_bit (i mod 64) 1]"
  define l1 where "l1 = (bm_l1 bm)[i div 64 div 64 := bm_l1 bm ! (i div 64 div 64) OR
     push_bit (i div 64 mod 64) 1]"
  define l2 where "l2 = bm_l2 bm OR push_bit (i div 64 div 64) 1"
  define bm' where "bm' = bm\<lparr>bm_l0 := l0, bm_l1 := l1, bm_l2 := l2\<rparr>"
  have run: "bm_set bm i = Some bm'"
    using J by (simp add: bm_set_def bm'_def l0_def l1_def l2_def)
  have S1: "summary l0 l1"
    unfolding l0_def l1_def using summary_set [OF I(5) J(2)] by (simp add: or_bit_nonzero)
  have "summary l1 [l2]"
    using summary_set [OF I(6) J(4), of "bm_l1 bm ! (i div 64 div 64) OR push_bit (i div 64 mod 64) 1"]
    by (simp only: single_word_or [OF J(5)] l1_def l2_def) (simp add: or_bit_nonzero)
  with S1 inv have "bm_inv bm'" by (simp add: bm_inv_def bm'_def l0_def)
  moreover have "bm_abs bm' = insert i (bm_abs bm)"
    using i J(1) by (auto simp: bm_abs_def bm'_def l0_def wbit_or)
  ultimately show ?thesis using run that [of bm'] by (simp add: bm'_def)
qed

text \<open>\<open>reset(i)\<close> unmarks exactly level \<open>i\<close>.\<close>

lemma bm_reset_correct:
  assumes inv: "bm_inv bm" and i: "i < bm_bits bm"
  obtains bm' where "bm_reset bm i = Some bm'" and "bm_inv bm'" and "bm_bits bm' = bm_bits bm"
    and "bm_abs bm' = bm_abs bm - {i}"
proof -
  note I = bm_inv_sizes [OF inv] and J = bm_index [OF inv i]
  let ?w = "i div 64" and ?u = "i div 64 div 64"
  define v0 where "v0 = bm_l0 bm ! ?w AND NOT (push_bit (i mod 64) 1)"
  define v1 where "v1 = bm_l1 bm ! ?u AND NOT (push_bit (?w mod 64) 1)"
  define l0 where "l0 = (bm_l0 bm)[?w := v0]"
  define l1 where "l1 = (if v0 = 0 then (bm_l1 bm)[?u := v1] else bm_l1 bm)"
  define l2 where "l2 = (if v0 = 0 \<and> v1 = 0 then bm_l2 bm AND NOT (push_bit ?u 1) else bm_l2 bm)"
  define bm' where "bm' = bm\<lparr>bm_l0 := l0, bm_l1 := l1, bm_l2 := l2\<rparr>"
  have run: "bm_reset bm i = Some bm'"
    using J by (simp add: bm_reset_def bm'_def l0_def l1_def l2_def v0_def [symmetric]
      v1_def [symmetric] Let_def)
  have nz0: "v0 \<noteq> 0 \<Longrightarrow> bm_l0 bm ! ?w \<noteq> 0" and nz1: "v1 \<noteq> 0 \<Longrightarrow> bm_l1 bm ! ?u \<noteq> 0"
    by (auto simp: v0_def v1_def)
  have S0: "summary l0 l1"
  proof (cases "v0 = 0")
    case True
    with summary_reset [OF I(5) J(2)] show ?thesis by (simp add: l0_def l1_def v1_def)
  next
    case False
    with summary_keep [OF I(5) J(2) _ nz0, of v0] show ?thesis by (simp add: l0_def l1_def)
  qed
  have "summary l1 [l2]"
  proof (cases "v0 = 0")
    case z0: True
    show ?thesis
    proof (cases "v1 = 0")
      case True
      with summary_reset [OF I(6) J(4)] z0 show ?thesis
        by (simp only: single_word_andnot [OF J(5)] l1_def l2_def) simp
    next
      case False
      with summary_keep [OF I(6) J(4) _ nz1, of v1] z0 show ?thesis by (simp add: l1_def l2_def)
    qed
  next
    case False with I(6) show ?thesis by (simp add: l1_def l2_def)
  qed
  with S0 inv have "bm_inv bm'" by (simp add: bm_inv_def bm'_def l0_def)
  moreover have "bm_abs bm' = bm_abs bm - {i}"
    using i J(1) by (auto simp: bm_abs_def bm'_def l0_def v0_def wbit_andnot)
  ultimately show ?thesis using run that [of bm'] by (simp add: bm'_def)
qed

lemma bm_test_correct:
  assumes "bm_inv bm" and "i < bm_bits bm"
  shows "bm_test bm i = Some (i \<in> bm_abs bm)"
proof -
  have "drop_bit k w AND 1 \<noteq> 0 \<longleftrightarrow> bit w k" for w :: u64 and k
    by (simp add: and_one_eq bit_iff_odd_drop_bit odd_iff_mod_2_eq_one)
  with bm_index [OF assms] assms(2) show ?thesis
    by (simp add: bm_test_def bm_abs_def wbit_def)
qed

text \<open>The searches, first on the bit sequences.\<close>

definition next_of :: "nat set \<Rightarrow> nat \<Rightarrow> nat \<Rightarrow> bool" where
  "next_of S i r \<longleftrightarrow> (if r = NPOS then \<forall>j\<in>S. j < i else r \<in> S \<and> i \<le> r \<and> (\<forall>j\<in>S. i \<le> j \<longrightarrow> r \<le> j))"

definition prev_of :: "nat set \<Rightarrow> nat \<Rightarrow> nat \<Rightarrow> bool" where
  "prev_of S i r \<longleftrightarrow> (if r = NPOS then \<forall>j\<in>S. i < j else r \<in> S \<and> r \<le> i \<and> (\<forall>j\<in>S. j \<le> i \<longrightarrow> j \<le> r))"

lemma is_next_next_of:
  assumes "bm_inv bm" and "is_next (bm_l0 bm) i r"
  shows "next_of (bm_abs bm) i r"
proof -
  note I = bm_inv_sizes [OF assms(1)]
  from assms(2) I(1) I(3) have "r < bm_bits bm" "r \<noteq> NPOS"
    by (auto simp: is_next_def NPOS_def)
  with assms(2) show ?thesis
    by (fastforce simp: next_of_def bm_abs_def is_next_def not_le [symmetric])
qed

lemma is_prev_prev_of:
  assumes "bm_inv bm" and "is_prev (bm_l0 bm) (i + 1) r"
  shows "prev_of (bm_abs bm) i r"
proof -
  note I = bm_inv_sizes [OF assms(1)]
  from assms(2) I(1) I(3) have "r < bm_bits bm" "r \<noteq> NPOS"
    by (auto simp: is_prev_def NPOS_def)
  with assms(2) show ?thesis
    by (fastforce simp: prev_of_def bm_abs_def is_prev_def less_Suc_eq_le not_le [symmetric])
qed

lemma bm_next_set_correct:
  assumes inv: "bm_inv bm"
  shows "\<exists>r. bm_next_set bm i = Some r \<and> next_of (bm_abs bm) i r"
proof (cases "bm_bits bm \<le> i")
  case True
  then show ?thesis by (force simp: bm_next_set_def next_of_def bm_abs_def)
next
  case False
  note I = bm_inv_sizes [OF inv] and J = bm_index [OF inv, of i]
  define w where "w = i div 64"
  define u where "u = w div 64"
  define m0 where "m0 = bm_l0 bm ! w AND shl_safe (- 1) (i mod 64)"
  define m1 where "m1 = bm_l1 bm ! u AND shl_safe (- 1) (w mod 64 + 1)"
  define m2 where "m2 = bm_l2 bm AND shl_safe (- 1) (u + 1)"
  from False have ib: "i < bm_bits bm" by simp
  note J = bm_index [OF inv this, folded w_def, folded u_def]
  have wi: "w * 64 + i mod 64 = i" "w * 64 \<le> i" "i \<le> (w + 1) * 64" and uw: "u * 64 + w mod 64 = w"
    by (simp_all add: w_def u_def word_eq word_div_ge [symmetric] word_div_less [symmetric]
      less_imp_le)
  have shift: "push_bit (i mod 64) (- 1 :: u64) = shl_safe (- 1) (i mod 64)"
    by (simp add: shl_safe_def)
  have run: "bm_next_set bm i =
    (if m0 \<noteq> 0 then Some (w * 64 + countr_zero m0)
     else if m1 \<noteq> 0 then
       do { y0 \<leftarrow> aget (bm_l0 bm) (u * 64 + countr_zero m1);
            Some ((u * 64 + countr_zero m1) * 64 + countr_zero y0) }
     else if m2 \<noteq> 0 then
       do { y1 \<leftarrow> aget (bm_l1 bm) (countr_zero m2);
            y0 \<leftarrow> aget (bm_l0 bm) (countr_zero m2 * 64 + countr_zero y1);
            Some ((countr_zero m2 * 64 + countr_zero y1) * 64 + countr_zero y0) }
     else Some NPOS)"
    using False J
    by (simp add: bm_next_set_def Let_def shift m0_def m1_def m2_def w_def [symmetric]
      u_def [symmetric] del: push_bit_minus_one_eq_not_mask)
  show ?thesis
  proof (cases "m0 = 0")
    case nz: False
    have run: "bm_next_set bm i = Some (w * 64 + countr_zero m0)"
      using run nz by simp
    from scan_up_hit [OF m0_def nz J(2)] have "is_next (bm_l0 bm) i (w * 64 + countr_zero m0)"
      by (simp only: wi)
    with run inv show ?thesis by (blast intro: is_next_next_of)
  next
    case z0: True
    have miss0: "\<not> wbit (bm_l0 bm) j" if "i \<le> j" "j < (w + 1) * 64" for j
      using scan_up_miss [of "bm_l0 bm" w "i mod 64" j] z0 that wi by (simp add: m0_def)
    show ?thesis
    proof (cases "m1 = 0")
      case nz: False
      let ?v = "u * 64 + countr_zero m1"
      have "is_next (bm_l1 bm) (w + 1) ?v"
        using scan_up_hit [OF m1_def nz J(4)] uw by (simp add: add.assoc [symmetric])
      note L = lift_next [OF I(5) this miss0 wi(3)]
      have run: "bm_next_set bm i = Some (?v * 64 + countr_zero (bm_l0 bm ! ?v))"
        using run nz z0 L(1) by simp
      with L(2) inv show ?thesis by (blast intro: is_next_next_of)
    next
      case z1: True
      have miss1: "\<not> wbit (bm_l1 bm) j" if "w + 1 \<le> j" "j < (u + 1) * 64" for j
        using scan_up_miss [of "bm_l1 bm" u "w mod 64 + 1" j] z1 that uw by (simp add: m1_def)
      have wu: "w + 1 \<le> (u + 1) * 64" by (simp add: u_def Suc_le_eq word_div_less [symmetric])
      show ?thesis
      proof (cases "m2 = 0")
        case nz: False
        let ?u = "countr_zero m2"
        have "is_next [bm_l2 bm] (u + 1) ?u"
          using scan_up_hit [of m2 "[bm_l2 bm]" 0 "u + 1"] nz by (simp add: m2_def)
        note L1 = lift_next [OF I(6) this miss1 wu]
        let ?v = "?u * 64 + countr_zero (bm_l1 bm ! ?u)"
        note L0 = lift_next [OF I(5) L1(2) miss0 wi(3)]
        have run: "bm_next_set bm i = Some (?v * 64 + countr_zero (bm_l0 bm ! ?v))"
          using run nz z0 z1 L0(1) L1(1) by simp
        with L0(2) inv show ?thesis by (blast intro: is_next_next_of)
      next
        case z2: True
        have "\<not> wbit [bm_l2 bm] v" if "u < v" "v < 64" for v
          using scan_up_miss [of "[bm_l2 bm]" 0 "u + 1" v] z2 that by (simp add: m2_def)
        then have "\<not> wbit (bm_l1 bm) j" if "w < j" "j < 64 * length (bm_l1 bm)" for j
          using lift_none_next [OF I(6), of u "w + 1" j] miss1 that by simp
        then have none: "\<not> wbit (bm_l0 bm) j" if "i \<le> j" "j < bm_bits bm" for j
          using lift_none_next [OF I(5), of w i j] miss0 that I(1) by (simp add: mult.commute)
        have "bm_next_set bm i = Some NPOS"
          using run z0 z1 z2 by simp
        with none show ?thesis
          by (auto simp: next_of_def bm_abs_def not_le [symmetric])
      qed
    qed
  qed
qed


lemma bm_prev_set_correct:
  assumes inv: "bm_inv bm" and i: "i < bm_bits bm"
  shows "\<exists>r. bm_prev_set bm i = Some r \<and> prev_of (bm_abs bm) i r"
proof -
  note I = bm_inv_sizes [OF inv]
  define w where "w = i div 64"
  define u where "u = w div 64"
  define m0 where "m0 = bm_l0 bm ! w AND shr_safe (- 1) (63 - i mod 64)"
  define m1 where "m1 = bm_l1 bm ! u AND shr_safe (- 1) (64 - w mod 64)"
  define m2 where "m2 = bm_l2 bm AND shr_safe (- 1) (64 - u)"
  note J = bm_index [OF inv i, folded w_def, folded u_def]
  have "w * 64 + i mod 64 = i" and uw: "u * 64 + w mod 64 = w"
    by (simp_all only: w_def u_def word_eq)
  then have wi: "w * 64 + (i mod 64 + 1) = i + 1" and wi2: "w * 64 \<le> i + 1" and uw2: "u * 64 \<le> w"
    by linarith+
  from J(1,3) have i1: "i + 1 \<le> 64 * length (bm_l0 bm)" and w1: "w \<le> 64 * length (bm_l1 bm)"
    by simp_all
  have sz: "Suc (63 - u) = 64 - u" "i mod 64 + 1 \<le> 64" "w mod 64 \<le> 64"
    using J(5) by (simp_all add: Suc_diff_le [symmetric] Suc_le_eq)
  have m0: "m0 = bm_l0 bm ! w AND shr_safe (- 1) (64 - (i mod 64 + 1))"
    by (simp add: m0_def)
  have run: "bm_prev_set bm i =
    (if m0 \<noteq> 0 then Some (w * 64 + bsr m0)
     else if m1 \<noteq> 0 then
       do { y0 \<leftarrow> aget (bm_l0 bm) (u * 64 + bsr m1);
            Some ((u * 64 + bsr m1) * 64 + bsr y0) }
     else if m2 \<noteq> 0 then
       do { y1 \<leftarrow> aget (bm_l1 bm) (bsr m2);
            y0 \<leftarrow> aget (bm_l0 bm) (bsr m2 * 64 + bsr y1);
            Some ((bsr m2 * 64 + bsr y1) * 64 + bsr y0) }
     else Some NPOS)"
    using J
    by (simp add: bm_prev_set_def Let_def m0_def m1_def m2_def w_def [symmetric] u_def [symmetric]
      sz(1))
  show ?thesis
  proof (cases "m0 = 0")
    case nz: False
    from scan_down_hit [OF m0 nz J(2) sz(2)] have "is_prev (bm_l0 bm) (i + 1) (w * 64 + bsr m0)"
      by (simp only: wi)
    with run nz inv show ?thesis by (simp add: is_prev_prev_of)
  next
    case z0: True
    have miss0: "\<not> wbit (bm_l0 bm) j" if "w * 64 \<le> j" "j < i + 1" for j
      using scan_down_miss [of "bm_l0 bm" w "i mod 64 + 1" j] z0 that sz(2) wi
      by (simp add: m0)
    show ?thesis
    proof (cases "m1 = 0")
      case nz: False
      let ?v = "u * 64 + bsr m1"
      have "is_prev (bm_l1 bm) w ?v"
        using scan_down_hit [OF m1_def nz J(4) sz(3)] uw by simp
      note L = lift_prev [OF I(5) this miss0 wi2 i1]
      with run nz z0 inv show ?thesis by (simp add: is_prev_prev_of)
    next
      case z1: True
      have miss1: "\<not> wbit (bm_l1 bm) j" if "u * 64 \<le> j" "j < w" for j
        using scan_down_miss [of "bm_l1 bm" u "w mod 64" j] z1 that uw sz(3) by (simp add: m1_def)
      show ?thesis
      proof (cases "m2 = 0")
        case nz: False
        have "is_prev [bm_l2 bm] u (bsr m2)"
          using scan_down_hit [of m2 "[bm_l2 bm]" 0 u] nz J(5) by (simp add: m2_def)
        note L1 = lift_prev [OF I(6) this miss1 uw2 w1]
        note L0 = lift_prev [OF I(5) L1(2) miss0 wi2 i1]
        with L1(1) run nz z0 z1 inv show ?thesis by (simp add: is_prev_prev_of)
      next
        case z2: True
        have "\<not> wbit [bm_l2 bm] v" if "v < u" for v
          using scan_down_miss [of "[bm_l2 bm]" 0 u v] z2 that J(5) by (simp add: m2_def)
        then have "\<not> wbit (bm_l1 bm) j" if "j < w" for j
          using lift_none_prev [OF I(6), of u w j] miss1 that w1 by simp
        then have "\<not> wbit (bm_l0 bm) j" if "j < i + 1" for j
          using lift_none_prev [OF I(5), of w "i + 1" j] miss0 that i1 by simp
        then have "prev_of (bm_abs bm) i NPOS"
          by (fastforce simp: prev_of_def bm_abs_def not_le [symmetric])
        with run z0 z1 z2 show ?thesis by simp
      qed
    qed
  qed
qed

section \<open>What the order book asks of the index\<close>

text \<open>
  The book caches the best bid (the greatest marked level, \<open>NPOS\<close> when none) and the best
  ask (the least marked level, \<open>NumTicks\<close> when none). The locale states the contract of the
  index in terms of the set of marked levels; its lemmas are the three maintenance steps of
  the book: mark a level and raise (lower) the cached best, unmark a level and hop to the
  next best.
\<close>

definition best_bid_of :: "nat set \<Rightarrow> nat" where
  "best_bid_of S = (if S = {} then NPOS else Max S)"

definition best_ask_of :: "nat \<Rightarrow> nat set \<Rightarrow> nat" where
  "best_ask_of n S = (if S = {} then n else Min S)"

locale occupancy_index =
  fixes inv :: "'b \<Rightarrow> bool" and marked :: "'b \<Rightarrow> nat set" and limit :: "'b \<Rightarrow> nat"
    and mark :: "'b \<Rightarrow> nat \<Rightarrow> 'b option" and unmark :: "'b \<Rightarrow> nat \<Rightarrow> 'b option"
    and next_marked :: "'b \<Rightarrow> nat \<Rightarrow> nat option" and prev_marked :: "'b \<Rightarrow> nat \<Rightarrow> nat option"
  assumes fin: "finite (marked b)"
    and range: "inv b \<Longrightarrow> i \<in> marked b \<Longrightarrow> i < limit b"
    and small: "inv b \<Longrightarrow> limit b < NPOS"
    and mark_law: "inv b \<Longrightarrow> i < limit b \<Longrightarrow>
      \<exists>b'. mark b i = Some b' \<and> inv b' \<and> limit b' = limit b \<and> marked b' = insert i (marked b)"
    and unmark_law: "inv b \<Longrightarrow> i < limit b \<Longrightarrow>
      \<exists>b'. unmark b i = Some b' \<and> inv b' \<and> limit b' = limit b \<and> marked b' = marked b - {i}"
    and next_law: "inv b \<Longrightarrow> \<exists>r. next_marked b i = Some r \<and> next_of (marked b) i r"
    and prev_law: "inv b \<Longrightarrow> i < limit b \<Longrightarrow> \<exists>r. prev_marked b i = Some r \<and> prev_of (marked b) i r"
begin

lemma best_bid_NPOS: "inv b \<Longrightarrow> best_bid_of (marked b) = NPOS \<longleftrightarrow> marked b = {}"
proof (cases "marked b = {}")
  case False
  assume i: "inv b"
  from Max_in [OF fin False] have "Max (marked b) < NPOS"
    using range [OF i] small [OF i] by (meson less_trans)
  with False show ?thesis by (simp add: best_bid_of_def)
qed (simp add: best_bid_of_def)

lemma best_ask_limit: "inv b \<Longrightarrow> best_ask_of (limit b) (marked b) < limit b \<longleftrightarrow> marked b \<noteq> {}"
  using range [of b] Min_in [OF fin, of b] by (auto simp: best_ask_of_def)

text \<open>\<open>rest\<close>: mark, then raise the best bid or lower the best ask.\<close>

lemma raise_best_bid:
  assumes "inv b"
  shows "(if best_bid_of (marked b) = NPOS \<or> best_bid_of (marked b) < i then i
    else best_bid_of (marked b)) = best_bid_of (insert i (marked b))"
  using best_bid_NPOS [OF assms] fin [of b]
  by (cases "marked b = {}") (auto simp: best_bid_of_def max_def simp del: Max_less_iff Max.bounded_iff)

lemma lower_best_ask:
  assumes "inv b" and "i < limit b"
  shows "(if i < best_ask_of (limit b) (marked b) then i else best_ask_of (limit b) (marked b)) =
    best_ask_of (limit b) (insert i (marked b))"
  using assms(2) fin [of b]
  by (cases "marked b = {}") (auto simp: best_ask_of_def min_def simp del: Min_gr_iff Min.bounded_iff)

text \<open>A swept level: unmark it and hop to the next one.\<close>

lemma hop_bid:
  assumes "inv b" and "i < limit b" and top: "\<And>j. j \<in> marked b \<Longrightarrow> j \<le> i"
  shows "prev_marked b i = Some (best_bid_of (marked b))"
proof -
  obtain r where r: "prev_marked b i = Some r" "prev_of (marked b) i r"
    using prev_law [OF assms(1,2)] by blast
  have "r = best_bid_of (marked b)"
  proof (cases "marked b = {}")
    case True
    with r(2) show ?thesis by (auto simp: prev_of_def best_bid_of_def split: if_splits)
  next
    case False
    with top have "\<exists>j\<in>marked b. \<not> i < j" by (auto simp: not_less)
    with r(2) have "r \<noteq> NPOS" by (auto simp: prev_of_def)
    with r(2) top have "r \<in> marked b" "\<And>j. j \<in> marked b \<Longrightarrow> j \<le> r"
      by (auto simp: prev_of_def split: if_splits)
    with False fin [of b] show ?thesis by (auto simp: best_bid_of_def intro: Max_eqI [symmetric])
  qed
  with r show ?thesis by simp
qed

lemma hop_ask:
  assumes "inv b" and top: "\<And>j. j \<in> marked b \<Longrightarrow> i \<le> j"
  shows "\<exists>r. next_marked b i = Some r \<and>
    (if r = NPOS then limit b else r) = best_ask_of (limit b) (marked b)"
proof -
  obtain r where r: "next_marked b i = Some r" "next_of (marked b) i r"
    using next_law [OF assms(1)] by blast
  have "(if r = NPOS then limit b else r) = best_ask_of (limit b) (marked b)"
  proof (cases "marked b = {}")
    case True
    with r(2) show ?thesis by (auto simp: next_of_def best_ask_of_def split: if_splits)
  next
    case False
    with top have "\<exists>j\<in>marked b. \<not> j < i" by (auto simp: not_less)
    with r(2) have "r \<noteq> NPOS" by (auto simp: next_of_def)
    with r(2) top have "r \<in> marked b" "\<And>j. j \<in> marked b \<Longrightarrow> r \<le> j" "r \<noteq> NPOS"
      by (auto simp: next_of_def split: if_splits)
    with False fin [of b] show ?thesis by (auto simp: best_ask_of_def intro: Min_eqI [symmetric])
  qed
  with r show ?thesis by simp
qed

text \<open>Unmarking a level that is not the best leaves the cached best alone.\<close>

lemma keep_best_bid:
  assumes "i \<noteq> best_bid_of (marked b)"
  shows "best_bid_of (marked b - {i}) = best_bid_of (marked b)"
proof (cases "marked b = {}")
  case False
  with assms fin [of b] have m: "Max (marked b) \<in> marked b - {i}" by (auto simp: best_bid_of_def)
  then have "Max (marked b - {i}) = Max (marked b)"
    using fin [of b] by (intro Max_eqI) auto
  with m False show ?thesis by (auto simp: best_bid_of_def)
qed simp

lemma keep_best_ask:
  assumes "i \<noteq> best_ask_of n (marked b)"
  shows "best_ask_of n (marked b - {i}) = best_ask_of n (marked b)"
proof (cases "marked b = {}")
  case False
  with assms fin [of b] have m: "Min (marked b) \<in> marked b - {i}" by (auto simp: best_ask_of_def)
  then have "Min (marked b - {i}) = Min (marked b)"
    using fin [of b] by (intro Min_eqI) auto
  with m False show ?thesis by (auto simp: best_ask_of_def)
qed simp

end

interpretation bitmap: occupancy_index bm_inv bm_abs bm_bits bm_set bm_reset bm_next_set bm_prev_set
proof unfold_locales
  fix b :: bitmap and i
  show "bm_inv b \<Longrightarrow> bm_bits b < NPOS" by (simp add: bm_inv_def NPOS_def)
  show "bm_inv b \<Longrightarrow> i < bm_bits b \<Longrightarrow> \<exists>b'. bm_set b i = Some b' \<and> bm_inv b' \<and>
      bm_bits b' = bm_bits b \<and> bm_abs b' = insert i (bm_abs b)"
    by (metis bm_set_correct)
  show "bm_inv b \<Longrightarrow> i < bm_bits b \<Longrightarrow> \<exists>b'. bm_reset b i = Some b' \<and> bm_inv b' \<and>
      bm_bits b' = bm_bits b \<and> bm_abs b' = bm_abs b - {i}"
    by (metis bm_reset_correct)
qed (simp_all add: bm_abs_bound bm_next_set_correct bm_prev_set_correct)

section \<open>Histories of the bitmap\<close>

text \<open>A caller's history of marks and unmarks, run on the bitmap and on a set of levels.\<close>

datatype bm_op = Mark nat | Unmark nat

fun bm_op_level :: "bm_op \<Rightarrow> nat" where
  "bm_op_level (Mark i) = i"
| "bm_op_level (Unmark i) = i"

fun bm_run :: "bm_op list \<Rightarrow> bitmap \<Rightarrow> bitmap option" where
  "bm_run [] bm = Some bm"
| "bm_run (Mark i # ops) bm = bm_set bm i \<bind> bm_run ops"
| "bm_run (Unmark i # ops) bm = bm_reset bm i \<bind> bm_run ops"

fun set_run :: "bm_op list \<Rightarrow> nat set \<Rightarrow> nat set" where
  "set_run [] S = S"
| "set_run (Mark i # ops) S = set_run ops (insert i S)"
| "set_run (Unmark i # ops) S = set_run ops (S - {i})"

lemma bm_run_correct:
  assumes "bm_inv bm" and "\<forall>op\<in>set ops. bm_op_level op < bm_bits bm"
  shows "\<exists>bm'. bm_run ops bm = Some bm' \<and> bm_inv bm' \<and> bm_bits bm' = bm_bits bm \<and>
    bm_abs bm' = set_run ops (bm_abs bm)"
  using assms
proof (induction ops arbitrary: bm)
  case (Cons op ops)
  show ?case
  proof (cases op)
    case (Mark i)
    with Cons.prems bitmap.mark_law [of bm i] obtain bm1 where "bm_set bm i = Some bm1" "bm_inv bm1"
      "bm_bits bm1 = bm_bits bm" "bm_abs bm1 = insert i (bm_abs bm)" by auto
    with Cons.IH [of bm1] Cons.prems Mark show ?thesis by simp
  next
    case (Unmark i)
    with Cons.prems bitmap.unmark_law [of bm i] obtain bm1 where "bm_reset bm i = Some bm1" "bm_inv bm1"
      "bm_bits bm1 = bm_bits bm" "bm_abs bm1 = bm_abs bm - {i}" by auto
    with Cons.IH [of bm1] Cons.prems Unmark show ?thesis by simp
  qed
qed simp

text \<open>C9. The three-level bitmap is a set of levels: after any history of \<open>set\<close> and \<open>reset\<close> with
  levels inside the bitmap, no access is out of bounds, \<open>test\<close> is membership, and \<open>next_set\<close>
  and \<open>prev_set\<close> return the least marked level at or above and the greatest one at or below
  their argument, \<open>NPOS\<close> when there is none.\<close>

theorem bitmap_history:
  assumes "n mod 64 = 0" and "n \<le> 262144" and "\<forall>op\<in>set ops. bm_op_level op < n" and "i < n"
  shows "\<exists>bm r s. bm_run ops (bm_clear n) = Some bm \<and> bm_test bm i = Some (i \<in> set_run ops {}) \<and>
    bm_next_set bm i = Some r \<and> next_of (set_run ops {}) i r \<and>
    bm_prev_set bm i = Some s \<and> prev_of (set_run ops {}) i s"
proof -
  note C = bm_inv_clear [OF assms(1) _ assms(2)]
  from assms(4) have pos: "0 < n" by simp
  have bits: "bm_bits (bm_clear n) = n" by (simp add: bm_clear_def)
  with bm_run_correct [OF C(1) [OF pos], of ops] assms(3) C(2) [OF pos] obtain bm where bm: "bm_run ops (bm_clear n) = Some bm"
    "bm_inv bm" "bm_bits bm = n" "bm_abs bm = set_run ops {}" by auto
  with bitmap.next_law [OF bm(2), of i] bitmap.prev_law [OF bm(2), of i] bm_test_correct [OF bm(2), of i] assms(4)
  show ?thesis by auto
qed

theorem bitmap_history_witness:
  "\<exists>bm. bm_run [Mark 3, Mark 100, Unmark 3] (bm_clear 128) = Some bm \<and> bm_next_set bm 5 = Some 100"
proof -
  have S: "set_run [Mark 3, Mark 100, Unmark 3] {} = {100}" by auto
  from bitmap_history [of 128 "[Mark 3, Mark 100, Unmark 3]" 5] show ?thesis
    unfolding S by (auto simp: next_of_def split: if_splits)
qed

end
