(* ===== verification/Order_Book.thy ===== *)
theory Order_Book
  imports Common Memory_Pool Level_Bitmap
begin

text \<open>
  \<open>include/lob/order_book.hpp\<close>: the matching engine. Every member function of \<open>OrderBook\<close> is a
  function on the record \<open>book\<close> of its members; a function that dereferences order pointers
  or indexes an array returns an \<open>option\<close>, \<^const>\<open>None\<close> being undefined behaviour (or, for
  the two loops, not returning). The template parameters are the lengths of the arrays:
  \<open>NumTicks\<close> of the ladder, \<open>PoolCap\<close> of the generation array. The trade handler is
  modelled by the list of the trades it is called with, in order. Statements appear in the
  order of the source, and fields are loaded again after each store that could alias them.
\<close>

record price_level =
  lv_head :: ptr
  lv_tail :: ptr
  lv_total_qty :: qty

datatype msg_type = NewOrder | Cancel | Execute | Reduce

record message =
  m_price :: price
  m_qty :: qty
  m_id :: order_id
  m_type :: msg_type
  m_side :: side

record trade =
  maker_id :: order_id
  taker_id :: order_id
  t_price :: price
  t_qty :: qty

record book =
  bk_pool :: "order pool"
  bk_levels :: "price_level list"
  bk_bids :: bitmap
  bk_asks :: bitmap
  bk_gens :: "u32 list"
  bk_base :: price
  bk_best_bid :: nat
  bk_best_ask :: nat

definition NumTicks :: "book \<Rightarrow> nat" where
  "NumTicks b = length (bk_levels b)"

definition PoolCap :: "book \<Rightarrow> nat" where
  "PoolCap b = length (bk_gens b)"

definition TAKER_FILLED_ID :: order_id where
  "TAKER_FILLED_ID = NOT 0"

definition book_new :: "nat \<Rightarrow> nat \<Rightarrow> price \<Rightarrow> book" where
  "book_new num_ticks pool_cap base_tick =
     \<lparr>bk_pool = pool_new pool_cap,
      bk_levels = replicate num_ticks \<lparr>lv_head = None, lv_tail = None, lv_total_qty = 0\<rparr>,
      bk_bids = bm_clear num_ticks, bk_asks = bm_clear num_ticks,
      bk_gens = replicate pool_cap 0, bk_base = base_tick,
      bk_best_bid = NPOS, bk_best_ask = num_ticks\<rparr>"

section \<open>Loads and stores\<close>

definition load :: "book \<Rightarrow> nat \<Rightarrow> order option" where
  "load b p = pool_read (bk_pool b) p"

definition update_order :: "book \<Rightarrow> nat \<Rightarrow> (order \<Rightarrow> order) \<Rightarrow> book option" where
  "update_order b p f = do {
     x \<leftarrow> load b p;
     pl \<leftarrow> pool_write (bk_pool b) p (f x);
     Some (b\<lparr>bk_pool := pl\<rparr>)
   }"

definition update_level :: "book \<Rightarrow> nat \<Rightarrow> (price_level \<Rightarrow> price_level) \<Rightarrow> book option" where
  "update_level b i f = do {
     l \<leftarrow> aget (bk_levels b) i;
     ls \<leftarrow> aput (bk_levels b) i (f l);
     Some (b\<lparr>bk_levels := ls\<rparr>)
   }"

definition bump_generation :: "book \<Rightarrow> nat \<Rightarrow> book option" where
  "bump_generation b slot = do {
     g \<leftarrow> aget (bk_gens b) slot;
     gs \<leftarrow> aput (bk_gens b) slot (g + 1);
     Some (b\<lparr>bk_gens := gs\<rparr>)
   }"

definition release_order :: "book \<Rightarrow> nat \<Rightarrow> book option" where
  "release_order b p = do {
     pl \<leftarrow> pool_release (bk_pool b) p;
     Some (b\<lparr>bk_pool := pl\<rparr>)
   }"

definition idx_of :: "book \<Rightarrow> price \<Rightarrow> nat" where
  "idx_of b p = unat (p - bk_base b)"

definition mk_id :: "u32 \<Rightarrow> nat \<Rightarrow> order_id" where
  "mk_id g slot = push_bit 32 (ucast g) OR (word_of_nat slot + 1)"

section \<open>Cancel and reduce\<close>

definition hop_best_bid :: "book \<Rightarrow> nat \<Rightarrow> book option" where
  "hop_best_bid b idx = do {
     prv \<leftarrow> bm_prev_set (bk_bids b) idx;
     Some (b\<lparr>bk_best_bid := prv\<rparr>)
   }"

definition hop_best_ask :: "book \<Rightarrow> nat \<Rightarrow> book option" where
  "hop_best_ask b idx = do {
     nxt \<leftarrow> bm_next_set (bk_asks b) idx;
     Some (b\<lparr>bk_best_ask := (if nxt = NPOS then NumTicks b else nxt)\<rparr>)
   }"

definition level_emptied :: "book \<Rightarrow> side \<Rightarrow> nat \<Rightarrow> book option" where
  "level_emptied b s idx = (case s of
     Buy \<Rightarrow> do {
       bm \<leftarrow> bm_reset (bk_bids b) idx;
       let b = b\<lparr>bk_bids := bm\<rparr>;
       if idx = bk_best_bid b then hop_best_bid b idx else Some b
     }
   | Sell \<Rightarrow> do {
       bm \<leftarrow> bm_reset (bk_asks b) idx;
       let b = b\<lparr>bk_asks := bm\<rparr>;
       if idx = bk_best_ask b then hop_best_ask b idx else Some b
     })"

text \<open>The three statements of \<open>unlink_and_release\<close> that take the order out of its queue.\<close>

definition unlink :: "book \<Rightarrow> nat \<Rightarrow> nat \<Rightarrow> book option" where
  "unlink b slot idx = do {
     x \<leftarrow> load b slot;
     b \<leftarrow> (case o_prev x of
       Some p \<Rightarrow> update_order b p (\<lambda>y. y\<lparr>o_next := o_next x\<rparr>)
     | None \<Rightarrow> update_level b idx (\<lambda>l. l\<lparr>lv_head := o_next x\<rparr>));
     x \<leftarrow> load b slot;
     b \<leftarrow> (case o_next x of
       Some n \<Rightarrow> update_order b n (\<lambda>y. y\<lparr>o_prev := o_prev x\<rparr>)
     | None \<Rightarrow> update_level b idx (\<lambda>l. l\<lparr>lv_tail := o_prev x\<rparr>));
     x \<leftarrow> load b slot;
     update_level b idx (\<lambda>l. l\<lparr>lv_total_qty := lv_total_qty l - o_qty x\<rparr>)
   }"

definition unlink_and_release :: "book \<Rightarrow> nat \<Rightarrow> book option" where
  "unlink_and_release b slot = do {
     x \<leftarrow> load b slot;
     let idx = idx_of b (o_price x);
     b \<leftarrow> unlink b slot idx;
     l \<leftarrow> aget (bk_levels b) idx;
     x \<leftarrow> load b slot;
     b \<leftarrow> (if lv_head l = None then level_emptied b (o_side x) idx else Some b);
     b \<leftarrow> bump_generation b slot;
     release_order b slot
   }"

definition cancel :: "book \<Rightarrow> order_id \<Rightarrow> (bool \<times> book) option" where
  "cancel b oid = do {
     let slot = unat ((oid AND 0xFFFFFFFF) - 1);
     if PoolCap b \<le> slot then Some (False, b)
     else do {
       g \<leftarrow> aget (bk_gens b) slot;
       if g \<noteq> ucast (drop_bit 32 oid) then Some (False, b)
       else do {
         b \<leftarrow> unlink_and_release b slot;
         Some (True, b)
       }
     }
   }"

definition reduce :: "book \<Rightarrow> order_id \<Rightarrow> qty \<Rightarrow> (qty \<times> book) option" where
  "reduce b oid q = do {
     let slot = unat ((oid AND 0xFFFFFFFF) - 1);
     if PoolCap b \<le> slot then Some (0, b)
     else do {
       g \<leftarrow> aget (bk_gens b) slot;
       if g \<noteq> ucast (drop_bit 32 oid) then Some (0, b)
       else do {
         x \<leftarrow> load b slot;
         if sint q < sint (o_qty x) then do {
           b \<leftarrow> update_order b slot (\<lambda>y. y\<lparr>o_qty := o_qty y - q\<rparr>);
           b \<leftarrow> update_level b (idx_of b (o_price x)) (\<lambda>l. l\<lparr>lv_total_qty := lv_total_qty l - q\<rparr>);
           Some (q, b)
         }
         else do {
           let removed = o_qty x;
           b \<leftarrow> unlink_and_release b slot;
           Some (removed, b)
         }
       }
     }
   }"

section \<open>Sweeping one level\<close>

text \<open>The locals of \<open>sweep_level\<close>'s loop, with the book and the trades reported so far.\<close>

record sweep_state =
  s_book :: book
  s_o :: ptr
  s_qty :: qty
  s_reload_head :: ptr
  s_reload_tail :: ptr
  s_trades :: "trade list"

definition sweep_step :: "price \<Rightarrow> nat \<Rightarrow> sweep_state \<Rightarrow> sweep_state option" where
  "sweep_step px idx s = do {
     p \<leftarrow> s_o s;
     x \<leftarrow> load (s_book s) p;
     let fill = (if sint (o_qty x) < sint (s_qty s) then o_qty x else s_qty s);
     b \<leftarrow> update_order (s_book s) p (\<lambda>y. y\<lparr>o_qty := o_qty y - fill\<rparr>);
     b \<leftarrow> update_level b idx (\<lambda>l. l\<lparr>lv_total_qty := lv_total_qty l - fill\<rparr>);
     let s = s\<lparr>s_qty := s_qty s - fill, s_trades := s_trades s @
       [\<lparr>maker_id = o_id x, taker_id = 0, t_price = px, t_qty = fill\<rparr>]\<rparr>;
     x \<leftarrow> load b p;
     if o_qty x = 0 then do {
       let nxt = o_next x;
       if 0 < sint (o_hidden_qty x) then do {
         let refill = (if sint (o_display_qty x) < sint (o_hidden_qty x)
                       then o_display_qty x else o_hidden_qty x);
         b \<leftarrow> update_order b p (\<lambda>y. y\<lparr>o_qty := refill, o_hidden_qty := o_hidden_qty y - refill\<rparr>);
         b \<leftarrow> update_level b idx (\<lambda>l. l\<lparr>lv_total_qty := lv_total_qty l + refill\<rparr>);
         b \<leftarrow> update_order b p (\<lambda>y. y\<lparr>o_next := None, o_prev := s_reload_tail s\<rparr>);
         b \<leftarrow> (case s_reload_tail s of
           Some r \<Rightarrow> update_order b r (\<lambda>y. y\<lparr>o_next := Some p\<rparr>)
         | None \<Rightarrow> Some b);
         Some (s\<lparr>s_book := b, s_o := nxt,
           s_reload_head := (if s_reload_tail s = None then Some p else s_reload_head s),
           s_reload_tail := Some p\<rparr>)
       }
       else do {
         b \<leftarrow> bump_generation b p;
         b \<leftarrow> release_order b p;
         Some (s\<lparr>s_book := b, s_o := nxt\<rparr>)
       }
     }
     else Some (s\<lparr>s_book := b\<rparr>)
   }"

partial_function (option) sweep_loop :: "price \<Rightarrow> nat \<Rightarrow> sweep_state \<Rightarrow> sweep_state option" where
  "sweep_loop px idx s =
     (if s_o s \<noteq> None \<and> 0 < sint (s_qty s) then do {
        s' \<leftarrow> sweep_step px idx s;
        sweep_loop px idx s'
      }
      else Some s)"

text \<open>The level was swept clean: clear the bitmap bit and hop to the next best.\<close>

definition sweep_clean :: "side \<Rightarrow> book \<Rightarrow> nat \<Rightarrow> book option" where
  "sweep_clean maker b idx = (case maker of
     Sell \<Rightarrow> do {
       bm \<leftarrow> bm_reset (bk_asks b) idx;
       hop_best_ask (b\<lparr>bk_asks := bm\<rparr>) idx
     }
   | Buy \<Rightarrow> do {
       bm \<leftarrow> bm_reset (bk_bids b) idx;
       hop_best_bid (b\<lparr>bk_bids := bm\<rparr>) idx
     })"

text \<open>What follows the loop: the splice of the reload chain, or the new head of the level.\<close>

definition sweep_finish :: "side \<Rightarrow> nat \<Rightarrow> sweep_state \<Rightarrow> book option" where
  "sweep_finish maker idx s = (case s_reload_head s of
     Some rh \<Rightarrow> (case s_o s of
       Some p \<Rightarrow> do {
         l \<leftarrow> aget (bk_levels (s_book s)) idx;
         b \<leftarrow> update_order (s_book s) rh (\<lambda>y. y\<lparr>o_prev := lv_tail l\<rparr>);
         t \<leftarrow> lv_tail l;
         b \<leftarrow> update_order b t (\<lambda>y. y\<lparr>o_next := Some rh\<rparr>);
         b \<leftarrow> update_level b idx (\<lambda>l. l\<lparr>lv_tail := s_reload_tail s\<rparr>);
         b \<leftarrow> update_order b p (\<lambda>y. y\<lparr>o_prev := None\<rparr>);
         update_level b idx (\<lambda>l. l\<lparr>lv_head := Some p\<rparr>)
       }
     | None \<Rightarrow> do {
         b \<leftarrow> update_level (s_book s) idx (\<lambda>l. l\<lparr>lv_head := Some rh\<rparr>);
         update_level b idx (\<lambda>l. l\<lparr>lv_tail := s_reload_tail s\<rparr>)
       })
   | None \<Rightarrow> do {
       b \<leftarrow> update_level (s_book s) idx (\<lambda>l. l\<lparr>lv_head := s_o s\<rparr>);
       case s_o s of
         Some p \<Rightarrow> update_order b p (\<lambda>y. y\<lparr>o_prev := None\<rparr>)
       | None \<Rightarrow> do {
           b \<leftarrow> update_level b idx (\<lambda>l. l\<lparr>lv_tail := None\<rparr>);
           sweep_clean maker b idx
         }
     })"

definition sweep_level :: "side \<Rightarrow> book \<Rightarrow> nat \<Rightarrow> qty \<Rightarrow> trade list \<Rightarrow>
    (qty \<times> book \<times> trade list) option" where
  "sweep_level maker b idx q ts = do {
     l \<leftarrow> aget (bk_levels b) idx;
     let px = bk_base b + word_of_nat idx;
     s \<leftarrow> sweep_loop px idx \<lparr>s_book = b, s_o = lv_head l, s_qty = q,
       s_reload_head = None, s_reload_tail = None, s_trades = ts\<rparr>;
     b \<leftarrow> sweep_finish maker idx s;
     Some (s_qty s, b, s_trades s)
   }"

section \<open>Resting\<close>

definition append_order :: "book \<Rightarrow> nat \<Rightarrow> nat \<Rightarrow> qty \<Rightarrow> book option" where
  "append_order b idx slot q = do {
     l \<leftarrow> aget (bk_levels b) idx;
     b \<leftarrow> update_order b slot (\<lambda>y. y\<lparr>o_prev := lv_tail l\<rparr>);
     b \<leftarrow> (case lv_tail l of
       Some t \<Rightarrow> update_order b t (\<lambda>y. y\<lparr>o_next := Some slot\<rparr>)
     | None \<Rightarrow> update_level b idx (\<lambda>l. l\<lparr>lv_head := Some slot\<rparr>));
     b \<leftarrow> update_level b idx (\<lambda>l. l\<lparr>lv_tail := Some slot\<rparr>);
     update_level b idx (\<lambda>l. l\<lparr>lv_total_qty := lv_total_qty l + q\<rparr>)
   }"

definition mark_best :: "book \<Rightarrow> side \<Rightarrow> nat \<Rightarrow> book option" where
  "mark_best b s idx = (case s of
     Buy \<Rightarrow> do {
       bm \<leftarrow> bm_set (bk_bids b) idx;
       let b = b\<lparr>bk_bids := bm\<rparr>;
       Some (if bk_best_bid b = NPOS \<or> bk_best_bid b < idx then b\<lparr>bk_best_bid := idx\<rparr> else b)
     }
   | Sell \<Rightarrow> do {
       bm \<leftarrow> bm_set (bk_asks b) idx;
       let b = b\<lparr>bk_asks := bm\<rparr>;
       Some (if idx < bk_best_ask b then b\<lparr>bk_best_ask := idx\<rparr> else b)
     })"

definition rest :: "side \<Rightarrow> book \<Rightarrow> nat \<Rightarrow> price \<Rightarrow> qty \<Rightarrow> (order_id \<times> book) option" where
  "rest s b idx px q = do {
     (o1, pl) \<leftarrow> pool_acquire (bk_pool b) order_zero;
     case o1 of
       None \<Rightarrow> Some (0, b)
     | Some slot \<Rightarrow> do {
         b \<leftarrow> bump_generation (b\<lparr>bk_pool := pl\<rparr>) slot;
         g \<leftarrow> aget (bk_gens b) slot;
         let oid = mk_id g slot;
         b \<leftarrow> update_order b slot (order_init oid s px q);
         b \<leftarrow> append_order b idx slot q;
         b \<leftarrow> mark_best b s idx;
         Some (oid, b)
       }
   }"

definition rest_iceberg :: "side \<Rightarrow> book \<Rightarrow> nat \<Rightarrow> price \<Rightarrow> qty \<Rightarrow> qty \<Rightarrow> (order_id \<times> book) option" where
  "rest_iceberg s b idx px display_qty remaining = do {
     (o1, pl) \<leftarrow> pool_acquire (bk_pool b) order_zero;
     case o1 of
       None \<Rightarrow> Some (0, b)
     | Some slot \<Rightarrow> do {
         b \<leftarrow> bump_generation (b\<lparr>bk_pool := pl\<rparr>) slot;
         g \<leftarrow> aget (bk_gens b) slot;
         let oid = mk_id g slot;
         let visible = (if sint display_qty < sint remaining then display_qty else remaining);
         b \<leftarrow> update_order b slot (order_init oid s px visible);
         b \<leftarrow> update_order b slot (\<lambda>y. y\<lparr>o_display_qty := display_qty\<rparr>);
         b \<leftarrow> update_order b slot (\<lambda>y. y\<lparr>o_hidden_qty := remaining - visible\<rparr>);
         b \<leftarrow> append_order b idx slot visible;
         b \<leftarrow> mark_best b s idx;
         Some (oid, b)
       }
   }"

section \<open>New orders\<close>

definition crosses :: "book \<Rightarrow> side \<Rightarrow> nat \<Rightarrow> bool" where
  "crosses b s idx = (case s of
     Buy \<Rightarrow> bk_best_ask b \<le> idx
   | Sell \<Rightarrow> bk_best_bid b \<noteq> NPOS \<and> idx \<le> bk_best_bid b)"

definition best_level :: "book \<Rightarrow> side \<Rightarrow> nat" where
  "best_level b s = (case s of Buy \<Rightarrow> bk_best_bid b | Sell \<Rightarrow> bk_best_ask b)"

partial_function (option) match_loop :: "side \<Rightarrow> nat \<Rightarrow> qty \<times> book \<times> trade list \<Rightarrow>
    (qty \<times> book \<times> trade list) option" where
  "match_loop s idx r =
     (if 0 < sint (fst r) \<and> crosses (fst (snd r)) s idx then do {
        r' \<leftarrow> sweep_level (opposite s) (fst (snd r)) (best_level (fst (snd r)) (opposite s))
          (fst r) (snd (snd r));
        match_loop s idx r'
      }
      else Some r)"

definition new_order :: "book \<Rightarrow> side \<Rightarrow> price \<Rightarrow> qty \<Rightarrow> bool \<Rightarrow>
    (order_id \<times> book \<times> trade list) option" where
  "new_order b s px q post_only = do {
     let idx = idx_of b px;
     if NumTicks b \<le> idx \<or> sint q \<le> 0 then Some (0, b, [])
     else if post_only \<and> crosses b s idx then Some (0, b, [])
     else do {
       (q, b, ts) \<leftarrow> match_loop s idx (q, b, []);
       if q = 0 then Some (TAKER_FILLED_ID, b, ts)
       else do {
         (oid, b) \<leftarrow> rest s b idx px q;
         Some (oid, b, ts)
       }
     }
   }"

definition new_iceberg_order :: "book \<Rightarrow> side \<Rightarrow> price \<Rightarrow> qty \<Rightarrow> qty \<Rightarrow>
    (order_id \<times> book \<times> trade list) option" where
  "new_iceberg_order b s px display_qty total_qty = do {
     let idx = idx_of b px;
     if NumTicks b \<le> idx \<or> sint total_qty \<le> 0 \<or> sint display_qty \<le> 0 then Some (0, b, [])
     else do {
       (q, b, ts) \<leftarrow> match_loop s idx (total_qty, b, []);
       if q = 0 then Some (TAKER_FILLED_ID, b, ts)
       else do {
         (oid, b) \<leftarrow> rest_iceberg s b idx px display_qty q;
         Some (oid, b, ts)
       }
     }
   }"

definition book_apply :: "book \<Rightarrow> message \<Rightarrow> (book \<times> trade list) option" where
  "book_apply b m = (case m_type m of
     NewOrder \<Rightarrow> do {
       (oid, b, ts) \<leftarrow> new_order b (m_side m) (m_price m) (m_qty m) False;
       Some (b, ts)
     }
   | Cancel \<Rightarrow> do {
       (r, b) \<leftarrow> cancel b (m_id m);
       Some (b, [])
     }
   | Execute \<Rightarrow> do {
       (r, b) \<leftarrow> reduce b (m_id m) (m_qty m);
       Some (b, [])
     }
   | Reduce \<Rightarrow> do {
       (r, b) \<leftarrow> reduce b (m_id m) (m_qty m);
       Some (b, [])
     })"

section \<open>Observers\<close>

definition best_bid :: "book \<Rightarrow> price" where
  "best_bid b = (if bk_best_bid b = NPOS then - 1 else bk_base b + word_of_nat (bk_best_bid b))"

definition best_ask :: "book \<Rightarrow> price" where
  "best_ask b = (if NumTicks b \<le> bk_best_ask b then - 1 else bk_base b + word_of_nat (bk_best_ask b))"

definition level_qty :: "book \<Rightarrow> price \<Rightarrow> qty" where
  "level_qty b p = (if idx_of b p < NumTicks b then lv_total_qty (bk_levels b ! idx_of b p) else 0)"

declare sweep_loop.simps [code] match_loop.simps [code]

end
