(* ===== verification/Book_Rep.thy ===== *)
theory Book_Rep
  imports Order_Book
begin

text \<open>
  The representation invariant of the order book. A level of the ladder stands for a queue of
  arena slots: \<open>chain\<close> says that the intrusive \<open>next\<close> and \<open>prev\<close> links of the orders spell
  exactly that queue, \<open>level_ok\<close> adds the head, the tail, the aggregate size and the
  well-formedness of each order, and \<open>book_rep\<close> ties the levels to the arena (every live slot
  is in exactly one queue), to the generation array (odd exactly on the live slots) and to the
  two occupancy indices with the cached best prices. The queue is read off the book by
  following the links (\<open>level_queue\<close>), so that \<open>book_ok\<close> is a statement about the book alone.
\<close>

named_theorems exec "symbolic execution of loads and stores"

section \<open>The heap of orders\<close>

definition heap :: "book \<Rightarrow> nat \<Rightarrow> order option" where
  "heap b = pool_read (bk_pool b)"

definition pool_put :: "'a pool \<Rightarrow> nat \<Rightarrow> 'a \<Rightarrow> 'a pool" where
  "pool_put pl p x = pl\<lparr>p_storage := (p_storage pl)[p := Obj x]\<rparr>"

definition pool_free :: "'a pool \<Rightarrow> nat \<Rightarrow> 'a pool" where
  "pool_free pl p = pl\<lparr>p_storage := (p_storage pl)[p := FreeNode (p_free_head pl)], p_free_head := Some p\<rparr>"

lemma pool_write_put: "pool_read pl p = Some x \<Longrightarrow> pool_write pl p y = Some (pool_put pl p y)"
  by (simp add: pool_write_def pool_put_def)

lemma pool_release_free: "pool_read pl p = Some x \<Longrightarrow> pool_release pl p = Some (pool_free pl p)"
  by (simp add: pool_release_def pool_free_def pool_read_Some p_capacity_def)

lemma pool_put_read [simp]:
  "pool_read pl p \<noteq> None \<Longrightarrow> pool_read (pool_put pl p y) = (pool_read pl)(p \<mapsto> y)"
  by (auto simp: fun_eq_iff pool_put_def pool_read_def aget_def nth_list_update)

lemma pool_free_read [simp]:
  "pool_read pl p \<noteq> None \<Longrightarrow> pool_read (pool_free pl p) = (pool_read pl)(p := None)"
  by (auto simp: fun_eq_iff pool_free_def pool_read_def aget_def nth_list_update)

lemma pool_put_inv [simp]:
  assumes "pool_read pl p \<noteq> None" and "pool_inv pl"
  shows "pool_inv (pool_put pl p y)"
  using assms arena.put_law [of pl p _ y] by (auto simp: pool_write_put)

lemma pool_free_inv [simp]:
  assumes "pool_read pl p \<noteq> None" and "pool_inv pl"
  shows "pool_inv (pool_free pl p)"
  using assms arena.free_law [of pl p] by (auto simp: pool_release_free)

lemma pool_put_cap [simp]: "p_capacity (pool_put pl p y) = p_capacity pl"
  and pool_free_cap [simp]: "p_capacity (pool_free pl p) = p_capacity pl"
  by (simp_all add: pool_put_def pool_free_def p_capacity_def)

lemma heap_simps [simp]:
  "heap (b\<lparr>bk_pool := P\<rparr>) = pool_read P" "heap (b\<lparr>bk_levels := L\<rparr>) = heap b"
  "heap (b\<lparr>bk_bids := B\<rparr>) = heap b" "heap (b\<lparr>bk_asks := B\<rparr>) = heap b"
  "heap (b\<lparr>bk_gens := G\<rparr>) = heap b" "heap (b\<lparr>bk_best_bid := m\<rparr>) = heap b"
  "heap (b\<lparr>bk_best_ask := m\<rparr>) = heap b"
  by (simp_all add: heap_def)

lemma size_simps [simp]:
  "NumTicks (b\<lparr>bk_pool := P\<rparr>) = NumTicks b" "NumTicks (b\<lparr>bk_bids := B\<rparr>) = NumTicks b"
  "NumTicks (b\<lparr>bk_asks := B\<rparr>) = NumTicks b" "NumTicks (b\<lparr>bk_gens := G\<rparr>) = NumTicks b"
  "NumTicks (b\<lparr>bk_best_bid := m\<rparr>) = NumTicks b" "NumTicks (b\<lparr>bk_best_ask := m\<rparr>) = NumTicks b"
  "NumTicks (b\<lparr>bk_levels := L\<rparr>) = length L"
  "PoolCap (b\<lparr>bk_pool := P\<rparr>) = PoolCap b" "PoolCap (b\<lparr>bk_bids := B\<rparr>) = PoolCap b"
  "PoolCap (b\<lparr>bk_asks := B\<rparr>) = PoolCap b" "PoolCap (b\<lparr>bk_levels := L\<rparr>) = PoolCap b"
  "PoolCap (b\<lparr>bk_best_bid := m\<rparr>) = PoolCap b" "PoolCap (b\<lparr>bk_best_ask := m\<rparr>) = PoolCap b"
  "PoolCap (b\<lparr>bk_gens := G\<rparr>) = length G"
  by (simp_all add: NumTicks_def PoolCap_def)

lemma length_book [simp]: "length (bk_levels b) = NumTicks b" "length (bk_gens b) = PoolCap b"
  by (simp_all add: NumTicks_def PoolCap_def)

lemma load_heap [exec]: "load b p = heap b p"
  by (simp add: load_def heap_def)

lemma update_order_exec [exec]:
  "heap b p = Some x \<Longrightarrow> update_order b p f = Some (b\<lparr>bk_pool := pool_put (bk_pool b) p (f x)\<rparr>)"
  by (simp add: update_order_def load_def heap_def pool_write_put)

lemma release_order_exec [exec]:
  "heap b p = Some x \<Longrightarrow> release_order b p = Some (b\<lparr>bk_pool := pool_free (bk_pool b) p\<rparr>)"
  by (simp add: release_order_def heap_def pool_release_free)

lemma update_level_exec [exec]:
  "i < NumTicks b \<Longrightarrow> update_level b i f = Some (b\<lparr>bk_levels := (bk_levels b)[i := f (bk_levels b ! i)]\<rparr>)"
  by (simp add: update_level_def)

lemma bump_generation_exec [exec]:
  "p < PoolCap b \<Longrightarrow> bump_generation b p = Some (b\<lparr>bk_gens := (bk_gens b)[p := bk_gens b ! p + 1]\<rparr>)"
  by (simp add: bump_generation_def)

section \<open>Chains of links\<close>

fun head_of :: "nat list \<Rightarrow> ptr \<Rightarrow> ptr" where
  "head_of [] nx = nx"
| "head_of (p # ps) nx = Some p"

fun last_of :: "ptr \<Rightarrow> nat list \<Rightarrow> ptr" where
  "last_of pv [] = pv"
| "last_of pv (p # ps) = last_of (Some p) ps"

text \<open>The slots \<open>ps\<close> are linked in both directions, between the outer pointers \<open>pv\<close> and \<open>nx\<close>.\<close>

fun chain :: "(nat \<Rightarrow> order option) \<Rightarrow> ptr \<Rightarrow> nat list \<Rightarrow> ptr \<Rightarrow> bool" where
  "chain H pv [] nx \<longleftrightarrow> True"
| "chain H pv (p # ps) nx \<longleftrightarrow>
     (\<exists>x. H p = Some x \<and> o_prev x = pv \<and> o_next x = head_of ps nx) \<and> chain H (Some p) ps nx"

lemma head_of_append [simp]: "head_of (ps @ qs) nx = head_of ps (head_of qs nx)"
  by (cases ps) auto

lemma last_of_append [simp]: "last_of pv (ps @ qs) = last_of (last_of pv ps) qs"
  by (induction ps arbitrary: pv) auto

lemma head_of_None [simp]: "head_of ps None = None \<longleftrightarrow> ps = []"
  by (cases ps) auto

lemma last_of_None [simp]: "last_of None ps = None \<longleftrightarrow> ps = []"
proof -
  have "last_of (Some p) ps \<noteq> None" for p by (induction ps arbitrary: p) auto
  then show ?thesis by (cases ps) auto
qed

lemma last_of_last: "ps \<noteq> [] \<Longrightarrow> last_of pv ps = Some (last ps)"
  by (induction ps arbitrary: pv) auto

lemma head_of_hd: "ps \<noteq> [] \<Longrightarrow> head_of ps nx = Some (hd ps)"
  by (cases ps) auto

lemma chain_append: "chain H pv (ps @ qs) nx \<longleftrightarrow>
    chain H pv ps (head_of qs nx) \<and> chain H (last_of pv ps) qs nx"
  by (induction ps arbitrary: pv) auto

lemma chain_frame [simp]: "p \<notin> set ps \<Longrightarrow> chain (H(p := v)) pv ps nx = chain H pv ps nx"
  by (induction ps arbitrary: pv) auto

lemma chain_cong: "(\<And>p. p \<in> set ps \<Longrightarrow> H' p = H p) \<Longrightarrow> chain H' pv ps nx = chain H pv ps nx"
  by (induction ps arbitrary: pv) auto

lemma chain_live: "chain H pv ps nx \<Longrightarrow> p \<in> set ps \<Longrightarrow> \<exists>x. H p = Some x"
  by (induction ps arbitrary: pv) auto

text \<open>Redirecting the outer links of a chain.\<close>

lemma chain_set_next:
  assumes "chain H pv ps nx" and "distinct ps" and "last_of None ps = Some p" and "H p = Some x"
  shows "chain (H(p \<mapsto> x\<lparr>o_next := nx'\<rparr>)) pv ps nx'"
proof -
  from assms(3) have ne: "ps \<noteq> []" by auto
  with assms(3) obtain us where us: "ps = us @ [p]"
    by (metis append_butlast_last_id last_of_last option.inject)
  with assms show ?thesis by (auto simp: chain_append)
qed

lemma chain_set_prev:
  assumes "chain H pv ps nx" and "distinct ps" and "head_of ps None = Some p" and "H p = Some x"
  shows "chain (H(p \<mapsto> x\<lparr>o_prev := pv'\<rparr>)) pv' ps nx"
  using assms by (cases ps) auto

section \<open>The invariant\<close>

definition order_ok :: "book \<Rightarrow> nat \<Rightarrow> nat \<Rightarrow> order \<Rightarrow> bool" where
  "order_ok b i p x \<longleftrightarrow> o_price x = bk_base b + word_of_nat i \<and> 0 < sint (o_qty x) \<and>
     0 \<le> sint (o_hidden_qty x) \<and> (0 < sint (o_hidden_qty x) \<longrightarrow> 0 < sint (o_display_qty x)) \<and>
     o_id x = mk_id (bk_gens b ! p) p \<and> o_side x = (if i \<in> bm_abs (bk_bids b) then Buy else Sell)"

definition qty_at :: "(nat \<Rightarrow> order option) \<Rightarrow> nat \<Rightarrow> qty" where
  "qty_at H p = (case H p of Some x \<Rightarrow> o_qty x | None \<Rightarrow> 0)"

definition level_linked :: "(nat \<Rightarrow> order option) \<Rightarrow> price_level \<Rightarrow> nat list \<Rightarrow> bool" where
  "level_linked H l ps \<longleftrightarrow> chain H None ps None \<and> lv_head l = head_of ps None \<and>
     lv_tail l = last_of None ps \<and> lv_total_qty l = sum_list (map (qty_at H) ps)"

definition level_ok :: "book \<Rightarrow> nat \<Rightarrow> nat list \<Rightarrow> bool" where
  "level_ok b i ps \<longleftrightarrow> level_linked (heap b) (bk_levels b ! i) ps \<and>
     (\<forall>p\<in>set ps. \<forall>x. heap b p = Some x \<longrightarrow> order_ok b i p x)"

definition shape :: "book \<Rightarrow> bool" where
  "shape b \<longleftrightarrow> bm_inv (bk_bids b) \<and> bm_inv (bk_asks b) \<and> bm_bits (bk_bids b) = NumTicks b \<and>
     bm_bits (bk_asks b) = NumTicks b \<and> pool_inv (bk_pool b) \<and> p_capacity (bk_pool b) = PoolCap b \<and>
     PoolCap b < 2 ^ 32 - 1"

definition owned :: "book \<Rightarrow> (nat \<Rightarrow> nat list) \<Rightarrow> bool" where
  "owned b qs \<longleftrightarrow> (\<forall>p. heap b p \<noteq> None \<longleftrightarrow> (\<exists>i. p \<in> set (qs i))) \<and> (\<forall>i. distinct (qs i)) \<and>
     (\<forall>i j p. p \<in> set (qs i) \<longrightarrow> p \<in> set (qs j) \<longrightarrow> i = j)"

definition gens_ok :: "book \<Rightarrow> bool" where
  "gens_ok b \<longleftrightarrow> (\<forall>p<PoolCap b. odd (bk_gens b ! p) \<longleftrightarrow> heap b p \<noteq> None)"

definition marks_ok :: "book \<Rightarrow> (nat \<Rightarrow> nat list) \<Rightarrow> bool" where
  "marks_ok b qs \<longleftrightarrow> bm_abs (bk_bids b) \<union> bm_abs (bk_asks b) = {i. qs i \<noteq> []} \<and>
     (\<forall>i\<in>bm_abs (bk_bids b). \<forall>j\<in>bm_abs (bk_asks b). i < j)"

definition best_ok :: "book \<Rightarrow> bool" where
  "best_ok b \<longleftrightarrow> bk_best_bid b = best_bid_of (bm_abs (bk_bids b)) \<and>
     bk_best_ask b = best_ask_of (NumTicks b) (bm_abs (bk_asks b))"

definition book_rep :: "book \<Rightarrow> (nat \<Rightarrow> nat list) \<Rightarrow> bool" where
  "book_rep b qs \<longleftrightarrow> shape b \<and> (\<forall>i<NumTicks b. level_ok b i (qs i)) \<and> owned b qs \<and> gens_ok b \<and>
     marks_ok b qs \<and> best_ok b"

section \<open>Changes to the links only\<close>

definition strip :: "order \<Rightarrow> order" where
  "strip x = x\<lparr>o_next := None, o_prev := None\<rparr>"

text \<open>The heaps differ only in the links of the slots \<open>A\<close>.\<close>

definition relinked :: "nat set \<Rightarrow> (nat \<Rightarrow> order option) \<Rightarrow> (nat \<Rightarrow> order option) \<Rightarrow> bool" where
  "relinked A H H' \<longleftrightarrow> (\<forall>p. map_option strip (H' p) = map_option strip (H p)) \<and>
     (\<forall>p. p \<notin> A \<longrightarrow> H' p = H p)"

lemma strip_links [simp]: "strip (x\<lparr>o_next := n\<rparr>) = strip x" "strip (x\<lparr>o_prev := n\<rparr>) = strip x"
  by (simp_all add: strip_def)

lemma strip_eqD:
  assumes "strip x = strip y"
  shows "o_qty x = o_qty y" "o_price x = o_price y" "o_id x = o_id y" "o_side x = o_side y"
    "o_hidden_qty x = o_hidden_qty y" "o_display_qty x = o_display_qty y"
  using assms by (auto simp: strip_def order.defs dest: arg_cong [where f = o_qty] arg_cong [where f = o_price]
      arg_cong [where f = o_id] arg_cong [where f = o_side] arg_cong [where f = o_hidden_qty]
      arg_cong [where f = o_display_qty])

lemma relinked_refl [simp]: "relinked A H H"
  by (simp add: relinked_def)

lemma relinked_trans: "relinked A H H' \<Longrightarrow> relinked A H' H'' \<Longrightarrow> relinked A H H''"
  by (simp add: relinked_def)

lemma relinked_upd:
  "p \<in> A \<Longrightarrow> H p = Some x \<Longrightarrow> strip y = strip x \<Longrightarrow> relinked A H H' \<Longrightarrow> H' p = Some z \<Longrightarrow>
   relinked A H (H'(p \<mapsto> y))"
  by (auto simp: relinked_def)

lemma relinked_Some:
  assumes "relinked A H H'" and "H' p = Some y"
  obtains x where "H p = Some x" and "strip y = strip x"
  using assms by (metis relinked_def map_option_eq_Some)

lemma relinked_None: "relinked A H H' \<Longrightarrow> H' p = None \<longleftrightarrow> H p = None"
  by (metis relinked_def map_option_is_None)

lemma relinked_qty: "relinked A H H' \<Longrightarrow> qty_at H' = qty_at H"
proof
  fix p assume r: "relinked A H H'"
  show "qty_at H' p = qty_at H p"
  proof (cases "H' p")
    case None
    with r have "H p = None" by (simp add: relinked_None)
    with None show ?thesis by (simp add: qty_at_def)
  next
    case (Some y)
    with r obtain x where "H p = Some x" "strip y = strip x" by (rule relinked_Some)
    with Some strip_eqD(1) [of y x] show ?thesis by (simp add: qty_at_def)
  qed
qed

lemma order_ok_strip: "strip x = strip y \<Longrightarrow> order_ok b i p x = order_ok b i p y"
  by (frule strip_eqD(1), frule strip_eqD(2), frule strip_eqD(3), frule strip_eqD(4),
      frule strip_eqD(5), drule strip_eqD(6)) (simp add: order_ok_def)

section \<open>Frames\<close>

lemma order_ok_cong:
  "bk_base b' = bk_base b \<Longrightarrow> bk_gens b' ! p = bk_gens b ! p \<Longrightarrow>
   (i \<in> bm_abs (bk_bids b') \<longleftrightarrow> i \<in> bm_abs (bk_bids b)) \<Longrightarrow> order_ok b' i p x = order_ok b i p x"
  by (simp add: order_ok_def)

lemma level_ok_frame:
  assumes "level_ok b j ps" and "\<And>p. p \<in> set ps \<Longrightarrow> heap b' p = heap b p"
    and "\<And>p. p \<in> set ps \<Longrightarrow> bk_gens b' ! p = bk_gens b ! p"
    and "bk_levels b' ! j = bk_levels b ! j" and "bk_base b' = bk_base b"
    and "j \<in> bm_abs (bk_bids b') \<longleftrightarrow> j \<in> bm_abs (bk_bids b)"
  shows "level_ok b' j ps"
proof -
  have "map (qty_at (heap b')) ps = map (qty_at (heap b)) ps"
    unfolding map_eq_conv using assms(2) by (simp add: qty_at_def)
  then have "sum_list (map (qty_at (heap b')) ps) = sum_list (map (qty_at (heap b)) ps)"
    by (simp only:)
  moreover have "chain (heap b') None ps None = chain (heap b) None ps None"
    using assms(2) by (rule chain_cong)
  ultimately show ?thesis
    using assms order_ok_cong [of b' b] by (simp add: level_ok_def level_linked_def)
qed

lemma level_linked_chain: "level_linked H l ps \<Longrightarrow> chain H None ps None"
  by (simp add: level_linked_def)

text \<open>Orders of a level keep their well-formedness when only links change.\<close>

lemma orders_ok_relinked:
  assumes "relinked A (heap b) (heap b')" and "\<forall>x. heap b p = Some x \<longrightarrow> order_ok b i p x"
    and "bk_base b' = bk_base b" and "bk_gens b' ! p = bk_gens b ! p"
    and "i \<in> bm_abs (bk_bids b') \<longleftrightarrow> i \<in> bm_abs (bk_bids b)"
  shows "\<forall>x. heap b' p = Some x \<longrightarrow> order_ok b' i p x"
proof (intro allI impI)
  fix y assume "heap b' p = Some y"
  with assms(1) obtain x where "heap b p = Some x" "strip y = strip x" by (rule relinked_Some)
  with assms(2) order_ok_strip [of y x] have "order_ok b i p y" by simp
  with assms(3-5) order_ok_cong [of b' b] show "order_ok b' i p y" by simp
qed

section \<open>Appending to and unlinking from a queue\<close>

lemma append_order_links:
  assumes i: "i < NumTicks b" and inv: "pool_inv (bk_pool b)"
    and lv: "level_linked (heap b) (bk_levels b ! i) ps" and d: "distinct ps" "p \<notin> set ps"
    and p: "heap b p = Some x" "o_next x = None" "q = o_qty x"
  shows "\<exists>P l. append_order b i p q = Some (b\<lparr>bk_pool := P, bk_levels := (bk_levels b)[i := l]\<rparr>) \<and>
    pool_inv P \<and> p_capacity P = p_capacity (bk_pool b) \<and> level_linked (pool_read P) l (ps @ [p]) \<and>
    relinked (set (ps @ [p])) (heap b) (pool_read P)"
proof (cases ps)
  case Nil
  define l where "l = (bk_levels b ! i)\<lparr>lv_head := Some p, lv_tail := Some p, lv_total_qty := o_qty x\<rparr>"
  define P where "P = pool_put (bk_pool b) p (x\<lparr>o_prev := None\<rparr>)"
  have "append_order b i p q = Some (b\<lparr>bk_pool := P, bk_levels := (bk_levels b)[i := l]\<rparr>)"
    using i lv p Nil by (simp add: append_order_def exec P_def l_def level_linked_def heap_def)
  moreover have "level_linked (pool_read P) l (ps @ [p])" "relinked (set (ps @ [p])) (heap b) (pool_read P)"
    using p Nil by (simp_all add: P_def l_def level_linked_def heap_def qty_at_def relinked_upd)
  moreover have "pool_inv P" "p_capacity P = p_capacity (bk_pool b)"
    using inv p by (simp_all add: P_def heap_def)
  ultimately show ?thesis by blast
next
  case (Cons a as)
  then obtain t where t: "last_of None ps = Some t" "t \<in> set ps"
    by (metis last_of_last last_in_set list.distinct(1))
  with lv obtain y where y: "heap b t = Some y" by (meson chain_live level_linked_chain)
  from t d have pt: "p \<noteq> t" by auto
  define l where "l = (bk_levels b ! i)\<lparr>lv_tail := Some p,
    lv_total_qty := lv_total_qty (bk_levels b ! i) + o_qty x\<rparr>"
  define P where "P = pool_put (pool_put (bk_pool b) p (x\<lparr>o_prev := Some t\<rparr>)) t (y\<lparr>o_next := Some p\<rparr>)"
  have P: "pool_read P = (heap b)(p \<mapsto> x\<lparr>o_prev := Some t\<rparr>, t \<mapsto> y\<lparr>o_next := Some p\<rparr>)"
    using p y pt by (simp add: P_def heap_def)
  have r: "relinked (set (ps @ [p])) (heap b) (pool_read P)"
    unfolding P using p y pt t by (intro relinked_upd) auto
  have "append_order b i p q = Some (b\<lparr>bk_pool := P, bk_levels := (bk_levels b)[i := l]\<rparr>)"
    using i lv p y pt t by (simp add: append_order_def exec P_def l_def level_linked_def heap_def)
  moreover have "chain (pool_read P) None ps (Some p)"
    unfolding P using lv y t d pt by (intro chain_set_next) (auto simp: level_linked_def)
  then have "level_linked (pool_read P) l (ps @ [p])"
    using lv p t pt Cons unfolding level_linked_def relinked_qty [OF r]
    by (auto simp: chain_append l_def P qty_at_def)
  moreover have "pool_inv P" "p_capacity P = p_capacity (bk_pool b)"
    using inv p y pt by (simp_all add: P_def heap_def)
  ultimately show ?thesis using r by blast
qed

lemma unlink_prev:
  assumes i: "i < NumTicks b" and inv: "pool_inv (bk_pool b)"
    and ch: "chain (heap b) None us (Some p)" "o_prev x = last_of None us"
    and d: "distinct us" "p \<notin> set us" "o_next x \<noteq> Some p" and p: "heap b p = Some x"
    and hd: "lv_head (bk_levels b ! i) = head_of us (Some p)"
  obtains P l where "(case o_prev x of
       Some p \<Rightarrow> update_order b p (\<lambda>y. y\<lparr>o_next := o_next x\<rparr>)
     | None \<Rightarrow> update_level b i (\<lambda>l. l\<lparr>lv_head := o_next x\<rparr>)) =
       Some (b\<lparr>bk_pool := P, bk_levels := (bk_levels b)[i := l]\<rparr>)"
    and "pool_inv P" and "p_capacity P = p_capacity (bk_pool b)"
    and "chain (pool_read P) None us (o_next x)" and "pool_read P p = Some x"
    and "lv_head l = head_of us (o_next x)" and "lv_tail l = lv_tail (bk_levels b ! i)"
    and "lv_total_qty l = lv_total_qty (bk_levels b ! i)" and "relinked (set us) (heap b) (pool_read P)"
proof (cases "us = []")
  case True
  then show ?thesis using assms
    by (intro that [where P = "bk_pool b" and l = "(bk_levels b ! i)\<lparr>lv_head := o_next x\<rparr>"])
      (simp_all add: exec heap_def)
next
  case False
  then obtain t where t: "last_of None us = Some t" "t \<in> set us"
    by (metis last_of_last last_in_set)
  with ch obtain y where y: "heap b t = Some y" by (meson chain_live)
  let ?P = "pool_put (bk_pool b) t (y\<lparr>o_next := o_next x\<rparr>)"
  have "chain (pool_read ?P) None us (o_next x)"
    using chain_set_next [OF ch(1) d(1) t(1) y, of "o_next x"] y by (simp add: heap_def)
  moreover have "relinked (set us) (heap b) (pool_read ?P)"
    using y t by (simp add: heap_def relinked_upd)
  moreover have "head_of us (Some p) = head_of us (o_next x)" using False by (cases us) auto
  ultimately show ?thesis using assms t y False
    by (intro that [where P = ?P and l = "bk_levels b ! i"]) (auto simp: exec heap_def)
qed

lemma unlink_next:
  assumes i: "i < NumTicks b" and inv: "pool_inv (bk_pool b)"
    and ch: "chain (heap b) (Some p) vs None" "o_next x = head_of vs None"
    and d: "distinct vs" "p \<notin> set vs" and p: "heap b p = Some x"
    and hd: "lv_tail (bk_levels b ! i) = last_of (Some p) vs"
  obtains P l where "(case o_next x of
       Some p \<Rightarrow> update_order b p (\<lambda>y. y\<lparr>o_prev := o_prev x\<rparr>)
     | None \<Rightarrow> update_level b i (\<lambda>l. l\<lparr>lv_tail := o_prev x\<rparr>)) =
       Some (b\<lparr>bk_pool := P, bk_levels := (bk_levels b)[i := l]\<rparr>)"
    and "pool_inv P" and "p_capacity P = p_capacity (bk_pool b)"
    and "chain (pool_read P) (o_prev x) vs None" and "pool_read P p = Some x"
    and "lv_tail l = last_of (o_prev x) vs" and "lv_head l = lv_head (bk_levels b ! i)"
    and "lv_total_qty l = lv_total_qty (bk_levels b ! i)" and "relinked (set vs) (heap b) (pool_read P)"
proof (cases vs)
  case Nil
  then show ?thesis using assms
    by (intro that [where P = "bk_pool b" and l = "(bk_levels b ! i)\<lparr>lv_tail := o_prev x\<rparr>"])
      (simp_all add: exec heap_def)
next
  case (Cons v ws)
  with ch obtain y where y: "heap b v = Some y" by auto
  let ?P = "pool_put (bk_pool b) v (y\<lparr>o_prev := o_prev x\<rparr>)"
  have "chain (pool_read ?P) (o_prev x) vs None"
    using chain_set_prev [OF ch(1) d(1) _ y, of "o_prev x"] y Cons by (simp add: heap_def)
  moreover have "relinked (set vs) (heap b) (pool_read ?P)"
    using y Cons by (simp add: heap_def relinked_upd)
  ultimately show ?thesis using assms y Cons
    by (intro that [where P = ?P and l = "bk_levels b ! i"]) (auto simp: exec heap_def)
qed

lemma relinked_mono: "relinked A H H' \<Longrightarrow> A \<subseteq> B \<Longrightarrow> relinked B H H'"
  by (auto simp: relinked_def)

lemma unlink_links:
  assumes i: "i < NumTicks b" and inv: "pool_inv (bk_pool b)"
    and lv: "level_linked (heap b) (bk_levels b ! i) (us @ p # vs)"
    and d: "distinct (us @ p # vs)" and p: "heap b p = Some x"
  shows "\<exists>P l. unlink b p i = Some (b\<lparr>bk_pool := P, bk_levels := (bk_levels b)[i := l]\<rparr>) \<and>
    pool_inv P \<and> p_capacity P = p_capacity (bk_pool b) \<and> pool_read P p = Some x \<and>
    level_linked (pool_read P) l (us @ vs) \<and> relinked (set (us @ vs)) (heap b) (pool_read P)"
proof -
  from lv p have c: "chain (heap b) None us (Some p)" "chain (heap b) (Some p) vs None"
    "o_prev x = last_of None us" "o_next x = head_of vs None"
    and l: "lv_head (bk_levels b ! i) = head_of us (Some p)"
      "lv_tail (bk_levels b ! i) = last_of (Some p) vs"
      "lv_total_qty (bk_levels b ! i) = sum_list (map (qty_at (heap b)) (us @ p # vs))"
    by (auto simp: level_linked_def chain_append)
  from d have d': "distinct us" "distinct vs" "p \<notin> set us" "p \<notin> set vs" "set us \<inter> set vs = {}" by auto
  have nx: "o_next x \<noteq> Some p" using c(4) d'(4) by (cases vs) auto
  obtain P1 l1 where 1: "(case o_prev x of
       Some p \<Rightarrow> update_order b p (\<lambda>y. y\<lparr>o_next := o_next x\<rparr>)
     | None \<Rightarrow> update_level b i (\<lambda>l. l\<lparr>lv_head := o_next x\<rparr>)) =
       Some (b\<lparr>bk_pool := P1, bk_levels := (bk_levels b)[i := l1]\<rparr>)" (is "_ = Some ?b1")
    "pool_inv P1" "p_capacity P1 = p_capacity (bk_pool b)"
    "chain (pool_read P1) None us (o_next x)" "pool_read P1 p = Some x"
    "lv_head l1 = head_of us (o_next x)" "lv_tail l1 = lv_tail (bk_levels b ! i)"
    "lv_total_qty l1 = lv_total_qty (bk_levels b ! i)" "relinked (set us) (heap b) (pool_read P1)"
    using unlink_prev [OF i inv c(1,3) d'(1,3) nx p l(1)] by blast
  have "chain (pool_read P1) (Some p) vs None"
    using 1(9) d'(5) c(2) by (auto simp: relinked_def intro: chain_cong [THEN iffD2])
  then have b1: "i < NumTicks ?b1" "pool_inv (bk_pool ?b1)" "chain (heap ?b1) (Some p) vs None"
    "heap ?b1 p = Some x" "lv_tail (bk_levels ?b1 ! i) = last_of (Some p) vs"
    using 1 i l by simp_all
  obtain P2 l2 where 2: "(case o_next x of
       Some p \<Rightarrow> update_order ?b1 p (\<lambda>y. y\<lparr>o_prev := o_prev x\<rparr>)
     | None \<Rightarrow> update_level ?b1 i (\<lambda>l. l\<lparr>lv_tail := o_prev x\<rparr>)) =
       Some (?b1\<lparr>bk_pool := P2, bk_levels := (bk_levels ?b1)[i := l2]\<rparr>)"
    "pool_inv P2" "p_capacity P2 = p_capacity (bk_pool ?b1)"
    "chain (pool_read P2) (o_prev x) vs None" "pool_read P2 p = Some x"
    "lv_tail l2 = last_of (o_prev x) vs" "lv_head l2 = lv_head (bk_levels ?b1 ! i)"
    "lv_total_qty l2 = lv_total_qty (bk_levels ?b1 ! i)"
    "relinked (set vs) (heap ?b1) (pool_read P2)"
    using unlink_next [OF b1(1-3) c(4) d'(2,4) b1(4,5)] by blast
  let ?l = "l2\<lparr>lv_total_qty := lv_total_qty l2 - o_qty x\<rparr>"
  have r: "relinked (set (us @ vs)) (heap b) (pool_read P2)"
    using relinked_mono [OF 1(9), of "set (us @ vs)"] relinked_mono [OF 2(9), of "set (us @ vs)"]
    by (auto intro: relinked_trans)
  have "chain (pool_read P2) None us (o_next x)"
    using 2(9) d'(5) 1(4) by (auto simp: relinked_def intro: chain_cong [THEN iffD2])
  then have "level_linked (pool_read P2) ?l (us @ vs)"
    using 2 1 i c l p unfolding level_linked_def relinked_qty [OF r]
    by (simp add: chain_append qty_at_def)
  moreover have "unlink b p i = Some (b\<lparr>bk_pool := P2, bk_levels := (bk_levels b)[i := ?l]\<rparr>)"
    using p 1(1,5) 2(1,5) i by (simp add: unlink_def load_heap update_level_exec)
  ultimately show ?thesis using 1 2 r by auto
qed

end
