(* ===== verification/Book_Ops.thy ===== *)
theory Book_Ops
  imports Book_Rep
begin

text \<open>
  The state-changing operations that touch one queue: resting an order (\<open>rest\<close>,
  \<open>rest_iceberg\<close>) and taking one out (\<open>unlink_and_release\<close>, hence \<open>cancel\<close> and \<open>reduce\<close>).
  Each is shown to return, to keep \<open>book_rep\<close>, and to change the ghost queues exactly as the
  code's comment says; the maintenance of the occupancy index and of the cached best prices is
  taken from the contract \<open>occupancy_index\<close>.
\<close>

section \<open>The occupancy index of the book\<close>

fun marked :: "book \<Rightarrow> side \<Rightarrow> nat set" where
  "marked b Buy = bm_abs (bk_bids b)"
| "marked b Sell = bm_abs (bk_asks b)"

lemma marked_frame [simp]:
  "marked (b\<lparr>bk_pool := P\<rparr>) = marked b" "marked (b\<lparr>bk_levels := L\<rparr>) = marked b"
  "marked (b\<lparr>bk_gens := G\<rparr>) = marked b"
  by (rule ext; rename_tac s; case_tac s; simp)+

lemma book_same [simp]:
  "b\<lparr>bk_pool := bk_pool b\<rparr> = b" "b\<lparr>bk_levels := bk_levels b\<rparr> = b"
  "b\<lparr>bk_bids := bk_bids b\<rparr> = b" "b\<lparr>bk_asks := bk_asks b\<rparr> = b"
  "b\<lparr>bk_best_bid := bk_best_bid b\<rparr> = b" "b\<lparr>bk_best_ask := bk_best_ask b\<rparr> = b"
  by (cases b; simp)+

text \<open>Only the occupancy index and the cached best prices differ.\<close>

definition reindexed :: "book \<Rightarrow> book \<Rightarrow> bool" where
  "reindexed b b' \<longleftrightarrow> (\<exists>B A bb ba.
     b' = b\<lparr>bk_bids := B, bk_asks := A, bk_best_bid := bb, bk_best_ask := ba\<rparr>)"

lemma reindexedI: "b' = b\<lparr>bk_bids := B, bk_asks := A, bk_best_bid := bb, bk_best_ask := ba\<rparr> \<Longrightarrow>
    reindexed b b'"
  by (auto simp: reindexed_def)

lemma reindexed_refl [simp]: "reindexed b b"
  by (rule reindexedI [where B = "bk_bids b" and A = "bk_asks b" and bb = "bk_best_bid b"
        and ba = "bk_best_ask b"]) simp

lemma reindexedD:
  assumes "reindexed b b'"
  shows "heap b' = heap b" "bk_pool b' = bk_pool b" "bk_levels b' = bk_levels b"
    "bk_gens b' = bk_gens b" "bk_base b' = bk_base b" "NumTicks b' = NumTicks b" "PoolCap b' = PoolCap b"
  using assms by (auto simp: reindexed_def)

lemma shape_bits:
  assumes "shape b"
  shows "bm_inv (bk_bids b)" "bm_inv (bk_asks b)" "bm_bits (bk_bids b) = NumTicks b"
    "bm_bits (bk_asks b) = NumTicks b"
  using assms by (auto simp: shape_def)

lemma marked_bound: "shape b \<Longrightarrow> i \<in> marked b s \<Longrightarrow> i < NumTicks b"
  by (cases s) (auto dest: bm_abs_bound simp: shape_def)

lemma NumTicks_NPOS: "shape b \<Longrightarrow> NumTicks b < NPOS"
  using bitmap.small [of "bk_bids b"] by (simp add: shape_def)

lemma mark_best_correct:
  assumes sh: "shape b" and best: "best_ok b" and i: "i < NumTicks b"
  obtains b' where "mark_best b s i = Some b'" and "reindexed b b'" and "shape b'" and "best_ok b'"
    and "marked b' s = insert i (marked b s)" and "marked b' (opposite s) = marked b (opposite s)"
proof (cases s)
  case Buy
  note inv = shape_bits(1,3) [OF sh]
  from bitmap.mark_law [OF inv(1)] i inv(2) obtain B where B: "bm_set (bk_bids b) i = Some B"
    "bm_inv B" "bm_bits B = NumTicks b" "bm_abs B = insert i (bm_abs (bk_bids b))" by auto
  let ?b = "b\<lparr>bk_bids := B, bk_asks := bk_asks b,
    bk_best_bid := best_bid_of (insert i (bm_abs (bk_bids b))), bk_best_ask := bk_best_ask b\<rparr>"
  have "mark_best b s i = Some ?b"
    using Buy B bitmap.raise_best_bid [OF inv(1), of i] best
    by (auto simp: mark_best_def best_ok_def split: if_splits)
  then show ?thesis using Buy B sh best
    by (intro that [of ?b] reindexedI [OF refl]) (auto simp: shape_def best_ok_def)
next
  case Sell
  note inv = shape_bits(2,4) [OF sh]
  from bitmap.mark_law [OF inv(1)] i inv(2) obtain B where B: "bm_set (bk_asks b) i = Some B"
    "bm_inv B" "bm_bits B = NumTicks b" "bm_abs B = insert i (bm_abs (bk_asks b))" by auto
  let ?b = "b\<lparr>bk_bids := bk_bids b, bk_asks := B, bk_best_bid := bk_best_bid b,
    bk_best_ask := best_ask_of (NumTicks b) (insert i (bm_abs (bk_asks b)))\<rparr>"
  have "mark_best b s i = Some ?b"
    using Sell B bitmap.lower_best_ask [OF inv(1), of i] i inv(2) best
    by (auto simp: mark_best_def best_ok_def split: if_splits)
  then show ?thesis using Sell B sh best
    by (intro that [of ?b] reindexedI [OF refl]) (auto simp: shape_def best_ok_def)
qed

text \<open>Unmarking the best level of a side and hopping to the next one.\<close>

definition is_best :: "book \<Rightarrow> side \<Rightarrow> nat \<Rightarrow> bool" where
  "is_best b s i \<longleftrightarrow> i \<in> marked b s \<and> (\<forall>j\<in>marked b s. (case s of Buy \<Rightarrow> j \<le> i | Sell \<Rightarrow> i \<le> j))"

lemma best_level_is_best:
  assumes "shape b" and "best_ok b" and "i \<in> marked b s"
  shows "is_best b s (best_level b s)" and "i = best_level b s \<longleftrightarrow> is_best b s i"
proof -
  have f: "finite (marked b s)" by (cases s) auto
  show 1: "is_best b s (best_level b s)"
    using assms f by (cases s) (auto simp: is_best_def best_level_def best_ok_def best_bid_of_def best_ask_of_def)
  show "i = best_level b s \<longleftrightarrow> is_best b s i"
    using 1 assms by (cases s) (auto simp: is_best_def intro: antisym)
qed

lemma sweep_clean_correct:
  assumes sh: "shape b" and best: "best_ok b" and i: "is_best b s i"
  obtains b' where "sweep_clean s b i = Some b'" and "reindexed b b'" and "shape b'" and "best_ok b'"
    and "marked b' s = marked b s - {i}" and "marked b' (opposite s) = marked b (opposite s)"
proof -
  from i sh have lt: "i < NumTicks b" by (auto simp: is_best_def intro: marked_bound)
  show ?thesis
  proof (cases s)
    case Buy
    note inv = shape_bits(1,3) [OF sh]
    from bitmap.unmark_law [OF inv(1)] lt inv(2) obtain B where B: "bm_reset (bk_bids b) i = Some B"
      "bm_inv B" "bm_bits B = NumTicks b" "bm_abs B = bm_abs (bk_bids b) - {i}" by auto
    let ?b = "b\<lparr>bk_bids := B, bk_asks := bk_asks b,
      bk_best_bid := best_bid_of (bm_abs B), bk_best_ask := bk_best_ask b\<rparr>"
    have "sweep_clean s b i = Some ?b"
      using Buy B i lt bitmap.hop_bid [OF B(2), of i] by (auto simp: sweep_clean_def hop_best_bid_def is_best_def)
    then show ?thesis using Buy B sh best
      by (intro that [of ?b] reindexedI [OF refl]) (auto simp: shape_def best_ok_def)
  next
    case Sell
    note inv = shape_bits(2,4) [OF sh]
    from bitmap.unmark_law [OF inv(1)] lt inv(2) obtain B where B: "bm_reset (bk_asks b) i = Some B"
      "bm_inv B" "bm_bits B = NumTicks b" "bm_abs B = bm_abs (bk_asks b) - {i}" by auto
    let ?b = "b\<lparr>bk_bids := bk_bids b, bk_asks := B, bk_best_bid := bk_best_bid b,
      bk_best_ask := best_ask_of (NumTicks b) (bm_abs B)\<rparr>"
    have "sweep_clean s b i = Some ?b"
      using Sell B i bitmap.hop_ask [OF B(2), of i] by (auto simp: sweep_clean_def hop_best_ask_def is_best_def)
    then show ?thesis using Sell B sh best
      by (intro that [of ?b] reindexedI [OF refl]) (auto simp: shape_def best_ok_def)
  qed
qed

lemma level_emptied_correct:
  assumes sh: "shape b" and best: "best_ok b" and i: "i \<in> marked b s"
  obtains b' where "level_emptied b s i = Some b'" and "reindexed b b'" and "shape b'" and "best_ok b'"
    and "marked b' s = marked b s - {i}" and "marked b' (opposite s) = marked b (opposite s)"
proof (cases "i = best_level b s")
  case True
  then have "level_emptied b s i = sweep_clean s b i"
    by (cases s) (simp_all add: level_emptied_def sweep_clean_def best_level_def)
  moreover from True assms have "is_best b s i" using best_level_is_best(2) by blast
  ultimately show ?thesis using sweep_clean_correct [OF sh best] that by metis
next
  case False
  from i sh have lt: "i < NumTicks b" by (rule marked_bound [rotated])
  show ?thesis
  proof (cases s)
    case Buy
    note inv = shape_bits(1,3) [OF sh]
    from bitmap.unmark_law [OF inv(1)] lt inv(2) obtain B where B: "bm_reset (bk_bids b) i = Some B"
      "bm_inv B" "bm_bits B = NumTicks b" "bm_abs B = bm_abs (bk_bids b) - {i}" by auto
    let ?b = "b\<lparr>bk_bids := B, bk_asks := bk_asks b, bk_best_bid := bk_best_bid b, bk_best_ask := bk_best_ask b\<rparr>"
    have "level_emptied b s i = Some ?b" using Buy B False by (simp add: level_emptied_def best_level_def)
    then show ?thesis using Buy B sh best False bitmap.keep_best_bid [of i "bk_bids b"]
      by (intro that [of ?b] reindexedI [OF refl]) (auto simp: shape_def best_ok_def best_level_def)
  next
    case Sell
    note inv = shape_bits(2,4) [OF sh]
    from bitmap.unmark_law [OF inv(1)] lt inv(2) obtain B where B: "bm_reset (bk_asks b) i = Some B"
      "bm_inv B" "bm_bits B = NumTicks b" "bm_abs B = bm_abs (bk_asks b) - {i}" by auto
    let ?b = "b\<lparr>bk_bids := bk_bids b, bk_asks := B, bk_best_bid := bk_best_bid b, bk_best_ask := bk_best_ask b\<rparr>"
    have "level_emptied b s i = Some ?b" using Sell B False by (simp add: level_emptied_def best_level_def)
    then show ?thesis using Sell B sh best False bitmap.keep_best_ask [of i "NumTicks b" "bk_asks b"]
      by (intro that [of ?b] reindexedI [OF refl]) (auto simp: shape_def best_ok_def best_level_def)
  qed
qed

section \<open>Resting an order\<close>

lemma book_repD:
  assumes "book_rep b qs"
  shows "shape b" "\<And>i. i < NumTicks b \<Longrightarrow> level_ok b i (qs i)" "owned b qs" "gens_ok b"
    "marks_ok b qs" "best_ok b"
  using assms by (auto simp: book_rep_def)

lemma owned_live: "owned b qs \<Longrightarrow> p \<in> set (qs i) \<Longrightarrow> \<exists>x. heap b p = Some x"
  by (auto simp: owned_def)

lemma owned_disjoint: "owned b qs \<Longrightarrow> p \<in> set (qs i) \<Longrightarrow> i \<noteq> j \<Longrightarrow> p \<notin> set (qs j)"
  by (auto simp: owned_def)

lemma owned_distinct: "owned b qs \<Longrightarrow> distinct (qs i)"
  by (auto simp: owned_def)

lemma heap_slot: "shape b \<Longrightarrow> heap b p = Some x \<Longrightarrow> p < PoolCap b"
  using arena.live_range [of "bk_pool b" p x] by (simp add: shape_def heap_def)

lemma marks_nonempty: "marks_ok b qs \<Longrightarrow> qs i \<noteq> [] \<longleftrightarrow> i \<in> marked b Buy \<or> i \<in> marked b Sell"
  by (auto simp: marks_ok_def)

lemma marks_side: "marks_ok b qs \<Longrightarrow> i \<in> marked b s \<Longrightarrow> i \<notin> marked b (opposite s)"
  by (cases s) (auto simp: marks_ok_def)

text \<open>An order of side \<open>s\<close> at level \<open>i\<close> does not meet an order of the other side.\<close>

definition uncrossing :: "book \<Rightarrow> side \<Rightarrow> nat \<Rightarrow> bool" where
  "uncrossing b s i \<longleftrightarrow> (\<forall>j\<in>marked b (opposite s). (case s of Buy \<Rightarrow> i < j | Sell \<Rightarrow> j < i))"

lemma uncrossing_crosses:
  assumes "shape b" and "best_ok b" and "i < NumTicks b"
  shows "uncrossing b s i \<longleftrightarrow> \<not> crosses b s i"
  using assms NumTicks_NPOS [OF assms(1)] bitmap.best_bid_NPOS [of "bk_bids b"]
  by (cases s) (auto simp: uncrossing_def crosses_def best_ok_def best_ask_of_def best_bid_of_def
      shape_def not_le split: if_splits)

lemma place_correct:
  assumes rep: "book_rep b qs" and i: "i < NumTicks b" and p: "p < PoolCap b" "heap b p = None"
    and P: "pool_inv P" "p_capacity P = PoolCap b" "pool_read P = (heap b)(p \<mapsto> x)"
    and x: "o_next x = None" "o_price x = bk_base b + word_of_nat i" "0 < sint (o_qty x)"
      "0 \<le> sint (o_hidden_qty x)" "0 < sint (o_hidden_qty x) \<longrightarrow> 0 < sint (o_display_qty x)"
      "o_id x = mk_id (bk_gens b ! p + 1) p" "o_side x = s"
    and un: "uncrossing b s i"
    and b1: "b1 = b\<lparr>bk_gens := (bk_gens b)[p := bk_gens b ! p + 1], bk_pool := P\<rparr>"
  obtains b2 b' where "append_order b1 i p (o_qty x) = Some b2" and "mark_best b2 s i = Some b'"
    and "book_rep b' (qs(i := qs i @ [p]))"
    and "relinked (set (qs i @ [p])) ((heap b)(p \<mapsto> x)) (heap b')"
    and "bk_gens b' = (bk_gens b)[p := bk_gens b ! p + 1]" and "bk_base b' = bk_base b"
    and "NumTicks b' = NumTicks b" and "marked b' s = insert i (marked b s)"
    and "marked b' (opposite s) = marked b (opposite s)"
proof -
  note R = book_repD [OF rep]
  let ?qs = "qs(i := qs i @ [p])"
  have pn: "p \<notin> set (qs j)" for j using p(2) owned_live [OF R(3)] by fastforce
  have H1: "heap b1 = (heap b)(p \<mapsto> x)" by (simp add: b1 P)
  have lk: "level_linked (heap b1) (bk_levels b1 ! i) (qs i)"
  proof -
    have "map (qty_at (heap b1)) (qs i) = map (qty_at (heap b)) (qs i)"
      unfolding map_eq_conv using pn H1 by (auto simp: qty_at_def)
    then have "sum_list (map (qty_at (heap b1)) (qs i)) = sum_list (map (qty_at (heap b)) (qs i))"
      by (simp only:)
    with R(2) [OF i] pn show ?thesis by (simp add: level_ok_def level_linked_def H1) (simp add: b1)
  qed
  have b1': "i < NumTicks b1" "pool_inv (bk_pool b1)" "heap b1 p = Some x"
    using i P by (simp_all add: b1)
  from append_order_links [OF b1'(1,2) lk owned_distinct [OF R(3)] pn b1'(3) x(1) refl]
  obtain P2 l where 2: "append_order b1 i p (o_qty x) =
      Some (b1\<lparr>bk_pool := P2, bk_levels := (bk_levels b1)[i := l]\<rparr>)" (is "_ = Some ?b2")
    "pool_inv P2" "p_capacity P2 = PoolCap b" "level_linked (pool_read P2) l (qs i @ [p])"
    "relinked (set (qs i @ [p])) (heap b1) (pool_read P2)"
    by (auto simp: b1 P)
  have sh2: "shape ?b2" and best2: "best_ok ?b2" and lt2: "i < NumTicks ?b2"
    using R(1,6) i 2 by (auto simp: shape_def best_ok_def b1)
  obtain b' where m: "mark_best ?b2 s i = Some b'" "reindexed ?b2 b'" "shape b'" "best_ok b'"
    "marked b' s = insert i (marked ?b2 s)" "marked b' (opposite s) = marked ?b2 (opposite s)"
    by (rule mark_best_correct [OF sh2 best2 lt2])
  have mk: "marked b' s = insert i (marked b s)" "marked b' (opposite s) = marked b (opposite s)"
    using m(5,6) by (simp_all add: b1)
  note D = reindexedD [OF m(2)]
  have h': "heap b' = pool_read P2" "bk_levels b' = (bk_levels b)[i := l]"
    "bk_gens b' = (bk_gens b)[p := bk_gens b ! p + 1]" "bk_base b' = bk_base b"
    "NumTicks b' = NumTicks b" "PoolCap b' = PoolCap b"
    using D by (simp_all add: b1)
  have far: "heap b' q = heap b q" if "q \<notin> set (qs i)" "q \<noteq> p" for q
    using that 2(5) by (simp add: h' relinked_def H1)
  have bids: "j \<in> bm_abs (bk_bids b') \<longleftrightarrow> j \<in> bm_abs (bk_bids b) \<or> j = i \<and> s = Buy" for j
    using mk by (cases s) auto
  have lv: "level_ok b' j (?qs j)" if "j < NumTicks b'" for j
  proof (cases "j = i")
    case False
    have "level_ok b' j (qs j)"
    proof (rule level_ok_frame)
      show "level_ok b j (qs j)" using R(2) that by (simp add: h')
      show "bk_gens b' ! q = bk_gens b ! q" if "q \<in> set (qs j)" for q
        using that pn [of j] by (cases "p = q") (auto simp: h')
    qed (use False bids pn in \<open>auto simp: h'(2-6) intro!: far dest: owned_disjoint [OF R(3)]\<close>)
    with False show ?thesis by simp
  next
    case True
    have "order_ok b' i q y" if "q \<in> set (qs i @ [p])" "heap b' q = Some y" for q y
    proof -
      from that(2) 2(5) obtain z where z: "heap b1 q = Some z" "strip y = strip z"
        by (auto simp: h' elim: relinked_Some)
      have "order_ok b' i q z"
      proof (cases "q = p")
        case True
        with z H1 have "z = x" by simp
        moreover have "i \<in> bm_abs (bk_bids b') \<longleftrightarrow> s = Buy"
          using bids un by (cases s) (auto simp: uncrossing_def)
        ultimately show ?thesis using True x p by (cases s) (auto simp: order_ok_def h')
      next
        case False
        with that have q: "q \<in> set (qs i)" by simp
        have "i \<in> bm_abs (bk_bids b') \<longleftrightarrow> i \<in> bm_abs (bk_bids b)"
          using q marks_nonempty [OF R(5), of i] bids un by (cases s) (auto simp: uncrossing_def)
        moreover have "order_ok b i q z" using R(2) [OF i] q z False by (auto simp: level_ok_def H1)
        ultimately show ?thesis using False order_ok_cong [of b' b q i z] by (simp add: h')
      qed
      with z(2) order_ok_strip [of y z] show ?thesis by simp
    qed
    with 2(4) True i show ?thesis by (simp add: level_ok_def h')
  qed
  have own: "owned b' ?qs"
  proof -
    have "heap b' q = None \<longleftrightarrow> heap b q = None \<and> q \<noteq> p" for q
      using relinked_None [OF 2(5), of q] by (simp add: h' H1)
    moreover have "q \<in> set (?qs j) \<longleftrightarrow> q \<in> set (qs j) \<or> j = i \<and> q = p" for q j by auto
    moreover have "distinct (?qs j)" for j using pn owned_distinct [OF R(3)] by simp
    ultimately show ?thesis using R(3) pn unfolding owned_def by (auto simp del: fun_upd_apply)
  qed
  have "gens_ok b'"
    using R(4) p relinked_None [OF 2(5)] by (auto simp: gens_ok_def h' H1 nth_list_update)
  moreover have "marks_ok b' ?qs"
    using R(5) un mk by (cases s) (auto simp: marks_ok_def uncrossing_def)
  ultimately have "book_rep b' ?qs"
    using lv own m(3,4) by (simp add: book_rep_def)
  then show ?thesis using that 2(1,5) m(1) h' mk H1 by simp
qed

text \<open>The outcome of resting order value \<open>x\<close> (up to its id) at level \<open>i\<close>.\<close>

definition rested :: "book \<Rightarrow> (nat \<Rightarrow> nat list) \<Rightarrow> side \<Rightarrow> nat \<Rightarrow> order \<Rightarrow>
    (order_id \<times> book) option \<Rightarrow> bool" where
  "rested b qs s i x r \<longleftrightarrow>
     r = Some (0, b) \<and> dom (heap b) = {..<PoolCap b} \<or>
     (\<exists>p b'. p < PoolCap b \<and> heap b p = None \<and> r = Some (mk_id (bk_gens b ! p + 1) p, b') \<and>
       book_rep b' (qs(i := qs i @ [p])) \<and>
       relinked (set (qs i @ [p])) ((heap b)(p \<mapsto> x\<lparr>o_id := mk_id (bk_gens b ! p + 1) p\<rparr>)) (heap b') \<and>
       bk_gens b' = (bk_gens b)[p := bk_gens b ! p + 1] \<and> bk_base b' = bk_base b \<and>
       NumTicks b' = NumTicks b \<and> marked b' s = insert i (marked b s) \<and>
       marked b' (opposite s) = marked b (opposite s))"

definition fresh_order :: "side \<Rightarrow> price \<Rightarrow> qty \<Rightarrow> qty \<Rightarrow> qty \<Rightarrow> order" where
  "fresh_order s px q h d = \<lparr>o_qty = q, o_next = None, o_prev = None, o_price = px, o_id = 0,
     o_side = s, o_hidden_qty = h, o_display_qty = d\<rparr>"

lemma arena_full: "shape b \<Longrightarrow> pool_acquire (bk_pool b) x = Some (None, bk_pool b) \<Longrightarrow>
    dom (heap b) = {..<PoolCap b}"
  by (rule arena.alloc_cases [of "bk_pool b" x]) (simp_all add: shape_def heap_def)

lemma rest_correct:
  assumes rep: "book_rep b qs" and i: "i < NumTicks b" and px: "px = bk_base b + word_of_nat i"
    and q: "0 < sint q" and un: "uncrossing b s i"
  shows "rested b qs s i (fresh_order s px q 0 0) (rest s b i px q)"
proof -
  note R = book_repD [OF rep]
  then have inv: "pool_inv (bk_pool b)" "p_capacity (bk_pool b) = PoolCap b" by (auto simp: shape_def)
  show ?thesis
  proof (rule arena.alloc_cases [OF inv(1), of order_zero])
    assume "pool_acquire (bk_pool b) order_zero = Some (None, bk_pool b)"
      "dom (pool_read (bk_pool b)) = {..<p_capacity (bk_pool b)}"
    then show ?thesis by (simp add: rested_def rest_def inv heap_def)
  next
    fix p P assume a: "pool_acquire (bk_pool b) order_zero = Some (Some p, P)" "pool_inv P"
      "p_capacity P = p_capacity (bk_pool b)" "p < p_capacity (bk_pool b)"
      "pool_read (bk_pool b) p = None" "pool_read P = (pool_read (bk_pool b))(p \<mapsto> order_zero)"
    let ?x = "(fresh_order s px q 0 0)\<lparr>o_id := mk_id (bk_gens b ! p + 1) p\<rparr>"
    let ?P = "pool_put P p ?x"
    let ?b1 = "b\<lparr>bk_gens := (bk_gens b)[p := bk_gens b ! p + 1], bk_pool := ?P\<rparr>"
    have p: "p < PoolCap b" "heap b p = None" using a inv by (simp_all add: heap_def)
    have P: "pool_inv ?P" "p_capacity ?P = PoolCap b" "pool_read ?P = (heap b)(p \<mapsto> ?x)"
      using a inv by (simp_all add: heap_def)
    have x: "o_next ?x = None" "o_price ?x = bk_base b + word_of_nat i" "0 < sint (o_qty ?x)"
      "0 \<le> sint (o_hidden_qty ?x)" "0 < sint (o_hidden_qty ?x) \<longrightarrow> 0 < sint (o_display_qty ?x)"
      "o_id ?x = mk_id (bk_gens b ! p + 1) p" "o_side ?x = s"
      using q px by (simp_all add: fresh_order_def)
    obtain b2 b' where m: "append_order ?b1 i p (o_qty ?x) = Some b2" "mark_best b2 s i = Some b'"
      "book_rep b' (qs(i := qs i @ [p]))"
      "relinked (set (qs i @ [p])) ((heap b)(p \<mapsto> ?x)) (heap b')"
      "bk_gens b' = (bk_gens b)[p := bk_gens b ! p + 1]" "bk_base b' = bk_base b"
      "NumTicks b' = NumTicks b" "marked b' s = insert i (marked b s)"
      "marked b' (opposite s) = marked b (opposite s)"
      by (rule place_correct [OF rep i p P x un refl])
    have "order_init (mk_id (bk_gens b ! p + 1) p) s px q order_zero = ?x"
      by (simp add: order_init_def order_zero_def fresh_order_def)
    then have "rest s b i px q = Some (mk_id (bk_gens b ! p + 1) p, b')"
      using a p m(1,2) by (simp add: rest_def exec Let_def fresh_order_def)
    with p m show ?thesis unfolding rested_def by blast
  qed
qed

lemma rest_iceberg_correct:
  assumes rep: "book_rep b qs" and i: "i < NumTicks b" and px: "px = bk_base b + word_of_nat i"
    and q: "0 < sint d" "0 < sint q" and un: "uncrossing b s i"
    and v: "v = (if sint d < sint q then d else q)"
  shows "rested b qs s i (fresh_order s px v (q - v) d) (rest_iceberg s b i px d q)"
proof -
  note R = book_repD [OF rep]
  then have inv: "pool_inv (bk_pool b)" "p_capacity (bk_pool b) = PoolCap b" by (auto simp: shape_def)
  show ?thesis
  proof (rule arena.alloc_cases [OF inv(1), of order_zero])
    assume "pool_acquire (bk_pool b) order_zero = Some (None, bk_pool b)"
      "dom (pool_read (bk_pool b)) = {..<p_capacity (bk_pool b)}"
    then show ?thesis by (simp add: rested_def rest_iceberg_def inv heap_def)
  next
    fix p P assume a: "pool_acquire (bk_pool b) order_zero = Some (Some p, P)" "pool_inv P"
      "p_capacity P = p_capacity (bk_pool b)" "p < p_capacity (bk_pool b)"
      "pool_read (bk_pool b) p = None" "pool_read P = (pool_read (bk_pool b))(p \<mapsto> order_zero)"
    let ?id = "mk_id (bk_gens b ! p + 1) p"
    let ?x = "(fresh_order s px v (q - v) d)\<lparr>o_id := ?id\<rparr>"
    let ?y = "order_init ?id s px v order_zero"
    let ?P = "pool_put (pool_put (pool_put P p ?y) p (?y\<lparr>o_display_qty := d\<rparr>)) p
      (?y\<lparr>o_display_qty := d, o_hidden_qty := q - v\<rparr>)"
    let ?b1 = "b\<lparr>bk_gens := (bk_gens b)[p := bk_gens b ! p + 1], bk_pool := ?P\<rparr>"
    have xy: "?y\<lparr>o_display_qty := d, o_hidden_qty := q - v\<rparr> = ?x"
      by (simp add: order_init_def order_zero_def fresh_order_def)
    have p: "p < PoolCap b" "heap b p = None" using a inv by (simp_all add: heap_def)
    have P: "pool_inv ?P" "p_capacity ?P = PoolCap b" "pool_read ?P = (heap b)(p \<mapsto> ?x)"
      using a inv unfolding xy by (simp_all add: heap_def)
    have h: "0 \<le> sint (q - v)" using sint_sub_le [of v q] q by (auto simp: v)
    have x: "o_next ?x = None" "o_price ?x = bk_base b + word_of_nat i" "0 < sint (o_qty ?x)"
      "0 \<le> sint (o_hidden_qty ?x)" "0 < sint (o_hidden_qty ?x) \<longrightarrow> 0 < sint (o_display_qty ?x)"
      "o_id ?x = mk_id (bk_gens b ! p + 1) p" "o_side ?x = s"
      using q px h by (simp_all add: fresh_order_def v)
    obtain b2 b' where m: "append_order ?b1 i p (o_qty ?x) = Some b2" "mark_best b2 s i = Some b'"
      "book_rep b' (qs(i := qs i @ [p]))"
      "relinked (set (qs i @ [p])) ((heap b)(p \<mapsto> ?x)) (heap b')"
      "bk_gens b' = (bk_gens b)[p := bk_gens b ! p + 1]" "bk_base b' = bk_base b"
      "NumTicks b' = NumTicks b" "marked b' s = insert i (marked b s)"
      "marked b' (opposite s) = marked b (opposite s)"
      by (rule place_correct [OF rep i p P x un refl])
    have "o_qty ?x = v" by (simp add: fresh_order_def)
    with m(1) have ap: "append_order ?b1 i p v = Some b2" by simp
    have "rest_iceberg s b i px d q = Some (?id, b')"
      using a p ap m(2) by (simp add: rest_iceberg_def exec Let_def v [symmetric])
    with p m show ?thesis unfolding rested_def by blast
  qed
qed

section \<open>Taking an order out\<close>

lemma NumTicks_64: "shape b \<Longrightarrow> i < NumTicks b \<Longrightarrow> i < 2 ^ 64"
  by (auto simp: shape_def bm_inv_def)

lemma idx_of_level: "shape b \<Longrightarrow> i < NumTicks b \<Longrightarrow> idx_of b (bk_base b + word_of_nat i) = i"
  using NumTicks_64 [of b i] by (simp add: idx_of_def unat_of_nat_small)

lemma live_level:
  assumes "book_rep b qs" and "heap b p = Some x"
  obtains i us vs where "i < NumTicks b" and "qs i = us @ p # vs" and "order_ok b i p x"
proof -
  note R = book_repD [OF assms(1)]
  from R(3) assms(2) obtain i where i: "p \<in> set (qs i)" by (force simp: owned_def)
  then have "i \<in> marked b Buy \<or> i \<in> marked b Sell" using marks_nonempty [OF R(5), of i] by auto
  then have lt: "i < NumTicks b" using marked_bound [OF R(1)] by blast
  from i obtain us vs where "qs i = us @ p # vs" by (auto simp: in_set_conv_decomp)
  then show ?thesis using that lt R(2) [OF lt] i assms(2) by (auto simp: level_ok_def)
qed

lemma order_level: "shape b \<Longrightarrow> i < NumTicks b \<Longrightarrow> order_ok b i p x \<Longrightarrow> idx_of b (o_price x) = i"
  by (simp add: order_ok_def idx_of_level)

lemma order_marked: "marks_ok b qs \<Longrightarrow> qs i \<noteq> [] \<Longrightarrow> order_ok b i p x \<Longrightarrow> i \<in> marked b (o_side x)"
  by (auto simp: order_ok_def marks_ok_def)

lemma unlink_and_release_correct:
  assumes rep: "book_rep b qs" and i: "i < NumTicks b" and qi: "qs i = us @ p # vs"
    and p: "heap b p = Some x" and ok: "order_ok b i p x"
  obtains b' where "unlink_and_release b p = Some b'" and "book_rep b' (qs(i := us @ vs))"
    and "relinked (set (us @ vs)) ((heap b)(p := None)) (heap b')"
    and "bk_gens b' = (bk_gens b)[p := bk_gens b ! p + 1]" and "bk_base b' = bk_base b"
    and "NumTicks b' = NumTicks b"
    and "marked b' (o_side x) = (if us @ vs = [] then marked b (o_side x) - {i} else marked b (o_side x))"
    and "marked b' (opposite (o_side x)) = marked b (opposite (o_side x))"
proof -
  note R = book_repD [OF rep]
  let ?qs = "qs(i := us @ vs)" and ?s = "o_side x"
  have d: "distinct (us @ p # vs)" using owned_distinct [OF R(3), of i] qi by simp
  have idx: "idx_of b (o_price x) = i" by (rule order_level [OF R(1) i ok])
  have mk: "i \<in> marked b ?s" using order_marked [OF R(5) _ ok] qi by simp
  have lv: "level_linked (heap b) (bk_levels b ! i) (us @ p # vs)"
    using R(2) [OF i] qi by (simp add: level_ok_def)
  have inv: "pool_inv (bk_pool b)" "p_capacity (bk_pool b) = PoolCap b" using R(1) by (auto simp: shape_def)
  from unlink_links [OF i inv(1) lv d p] obtain P l where
    1: "unlink b p i = Some (b\<lparr>bk_pool := P, bk_levels := (bk_levels b)[i := l]\<rparr>)" (is "_ = Some ?b1")
    "pool_inv P" "p_capacity P = PoolCap b" "pool_read P p = Some x"
    "level_linked (pool_read P) l (us @ vs)" "relinked (set (us @ vs)) (heap b) (pool_read P)"
    by (auto simp: inv)
  have sh1: "shape ?b1" and best1: "best_ok ?b1" using R(1,6) 1 by (auto simp: shape_def best_ok_def)
  obtain b2 where 2: "(if lv_head l = None then level_emptied ?b1 ?s i else Some ?b1) = Some b2"
    "reindexed ?b1 b2" "shape b2" "best_ok b2"
    "marked b2 ?s = (if us @ vs = [] then marked b ?s - {i} else marked b ?s)"
    "marked b2 (opposite ?s) = marked b (opposite ?s)"
  proof (cases "us @ vs = []")
    case True
    obtain b2 where "level_emptied ?b1 ?s i = Some b2" "reindexed ?b1 b2" "shape b2" "best_ok b2"
      "marked b2 ?s = marked ?b1 ?s - {i}" "marked b2 (opposite ?s) = marked ?b1 (opposite ?s)"
      by (rule level_emptied_correct [OF sh1 best1, of i ?s]) (simp add: mk)
    with True show ?thesis using 1(5) that [of b2] by (simp add: level_linked_def)
  next
    case False
    then have "lv_head l \<noteq> None" using 1(5) by (auto simp: level_linked_def head_of_hd simp del: head_of_append)
    with False show ?thesis using sh1 best1 by (intro that [of ?b1]) auto
  qed
  note D = reindexedD [OF 2(2)]
  let ?b' = "b2\<lparr>bk_gens := (bk_gens b2)[p := bk_gens b2 ! p + 1], bk_pool := pool_free (bk_pool b2) p\<rparr>"
  have pc: "p < PoolCap b" using heap_slot [OF R(1) p] .
  have run: "unlink_and_release b p = Some ?b'"
    using 1(1,4) 2(1) p pc i D
    by (simp add: unlink_and_release_def exec idx Let_def cong: if_cong split del: if_split)
  have b': "heap ?b' = (pool_read P)(p := None)" "bk_levels ?b' = (bk_levels b)[i := l]"
    "bk_gens ?b' = (bk_gens b)[p := bk_gens b ! p + 1]" "bk_base ?b' = bk_base b"
    "NumTicks ?b' = NumTicks b" "PoolCap ?b' = PoolCap b" "marked ?b' = marked b2"
    using D 1(4) by simp_all
  define b'' where "b'' = ?b'"
  note b' = b' [folded b''_def]
  have rl: "relinked (set (us @ vs)) ((heap b)(p := None)) (heap b'')"
    using 1(6) d by (auto simp: b' relinked_def)
  have far: "heap b'' q = heap b q" if "q \<notin> set (qs i)" for q
    using that 1(6) qi by (simp add: b' relinked_def)
  have mks: "marked b'' ?s = (if us @ vs = [] then marked b ?s - {i} else marked b ?s)"
    "marked b'' (opposite ?s) = marked b (opposite ?s)" using 2(5,6) by (simp_all add: b')
  have bids: "j \<in> bm_abs (bk_bids b'') \<longleftrightarrow> j \<in> bm_abs (bk_bids b)" if "j \<noteq> i \<or> us @ vs \<noteq> []" for j
    using mks that by (cases ?s) (auto split: if_splits)
  have lvl: "level_ok b'' j (?qs j)" if "j < NumTicks b''" for j
  proof (cases "j = i")
    case False
    have "level_ok b'' j (qs j)"
    proof (rule level_ok_frame)
      show "level_ok b j (qs j)" using R(2) that by (simp add: b')
      show "bk_gens b'' ! q = bk_gens b ! q" if "q \<in> set (qs j)" for q
        using that owned_disjoint [OF R(3) that False] qi by (cases "p = q") (auto simp: b')
    qed (use False bids in \<open>auto simp: b'(2-6) intro!: far dest: owned_disjoint [OF R(3)]\<close>)
    with False show ?thesis by simp
  next
    case True
    have "\<forall>y. heap b'' q = Some y \<longrightarrow> order_ok b'' i q y" if q: "q \<in> set (us @ vs)" for q
    proof (rule orders_ok_relinked)
      show "relinked (set (us @ p # vs)) ((heap (b\<lparr>bk_pool := pool_free (bk_pool b) p\<rparr>))) (heap b'')"
        using relinked_mono [OF rl, of "set (us @ p # vs)"] p by (auto simp: heap_def)
      show "\<forall>y. heap (b\<lparr>bk_pool := pool_free (bk_pool b) p\<rparr>) q = Some y \<longrightarrow>
          order_ok (b\<lparr>bk_pool := pool_free (bk_pool b) p\<rparr>) i q y"
        using R(2) [OF i] q d p qi by (auto simp: level_ok_def order_ok_def heap_def)
      show "bk_gens b'' ! q = bk_gens (b\<lparr>bk_pool := pool_free (bk_pool b) p\<rparr>) ! q"
        using q d by (cases "p = q") (auto simp: b')
      have "us @ vs \<noteq> []" using q by auto
      then show "i \<in> bm_abs (bk_bids b'') \<longleftrightarrow>
          i \<in> bm_abs (bk_bids (b\<lparr>bk_pool := pool_free (bk_pool b) p\<rparr>))" using bids [of i] by simp
    qed (simp add: b')
    moreover have "level_linked (heap b'') l (us @ vs)"
    proof -
      have "map (qty_at (heap b'')) (us @ vs) = map (qty_at (pool_read P)) (us @ vs)"
        unfolding map_eq_conv using d by (auto simp: b' qty_at_def)
      then have "sum_list (map (qty_at (heap b'')) (us @ vs)) = sum_list (map (qty_at (pool_read P)) (us @ vs))"
        by (simp only:)
      with 1(5) d show ?thesis by (simp add: level_linked_def b' del: map_append sum_list_append)
    qed
    ultimately show ?thesis using True i by (simp add: level_ok_def b')
  qed
  have own: "owned b'' ?qs"
  proof -
    have "heap b'' q = None \<longleftrightarrow> heap b q = None \<or> q = p" for q
      using relinked_None [OF 1(6), of q] by (simp add: b')
    moreover have "q \<in> set (?qs j) \<longleftrightarrow> q \<in> set (qs j) \<and> q \<noteq> p" for q j
      using d qi owned_disjoint [OF R(3), of p i j] by (cases "j = i") auto
    moreover have "distinct (?qs j)" for j using d owned_distinct [OF R(3)] by simp
    ultimately show ?thesis using R(3) unfolding owned_def by (auto simp del: fun_upd_apply)
  qed
  have "heap b'' q \<noteq> None \<longleftrightarrow> heap b q \<noteq> None \<and> q \<noteq> p" for q
    using relinked_None [OF 1(6), of q] by (simp add: b' del: not_None_eq)
  then have "gens_ok b''"
    using R(4) p pc by (simp add: gens_ok_def b'(3,6) nth_list_update del: not_None_eq)
  moreover have "marks_ok b'' ?qs"
  proof -
    have "i \<notin> marked b (opposite ?s)" using marks_side [OF R(5) mk] .
    with R(5) mks qi mk show ?thesis by (cases ?s) (auto simp: marks_ok_def split: if_splits)
  qed
  moreover have "shape b''" "best_ok b''"
    using 2(3,4) D 1(2,4) by (auto simp: b''_def shape_def best_ok_def)
  ultimately have "book_rep b'' ?qs" using lvl own by (simp add: book_rep_def)
  then show ?thesis using that [of b''] run rl b' mks by (simp add: b''_def)
qed

end
