(* ===== verification/Price_Time.thy ===== *)
theory Price_Time
  imports Common
begin

text \<open>
  The abstract specification of the matching engine: one side of the book is the list of its
  resting orders in the order of their priority (best price first, oldest first within a
  price), quantities are mathematical integers, and a price is an index of the ladder. There
  are no slots, links, bitmaps or cached prices. \<open>amatch\<close> is price-time priority matching with
  iceberg reload: trade with the head of the list as long as its price meets the limit; a head
  whose visible clip is used up leaves, or refills from its reserve and goes behind every
  order of its price. The section of properties shows that the specification conserves
  quantity, respects the limit and the priority, and leaves nothing executable behind.
\<close>

record aorder =
  a_id :: order_id
  a_tick :: nat
  a_qty :: int
  a_hidden :: int
  a_display :: int

type_synonym abook = "side \<Rightarrow> aorder list"

type_synonym atrade = "order_id \<times> nat \<times> int"

text \<open>\<open>ahead s i j\<close>: on side \<open>s\<close>, price \<open>i\<close> is at least as good as price \<open>j\<close>.\<close>

fun ahead :: "side \<Rightarrow> nat \<Rightarrow> nat \<Rightarrow> bool" where
  "ahead Buy i j \<longleftrightarrow> j \<le> i"
| "ahead Sell i j \<longleftrightarrow> i \<le> j"

text \<open>\<open>meets s lim t\<close>: a taker of side \<open>s\<close> with limit \<open>lim\<close> trades at price \<open>t\<close>.\<close>

fun meets :: "side \<Rightarrow> nat \<Rightarrow> nat \<Rightarrow> bool" where
  "meets Buy lim t \<longleftrightarrow> t \<le> lim"
| "meets Sell lim t \<longleftrightarrow> lim \<le> t"

definition ainsert :: "side \<Rightarrow> aorder \<Rightarrow> aorder list \<Rightarrow> aorder list" where
  "ainsert s x L = takeWhile (\<lambda>y. ahead s (a_tick y) (a_tick x)) L @ x #
     dropWhile (\<lambda>y. ahead s (a_tick y) (a_tick x)) L"

definition areload :: "aorder \<Rightarrow> aorder" where
  "areload x = (let r = min (a_display x) (a_hidden x) in x\<lparr>a_qty := r, a_hidden := a_hidden x - r\<rparr>)"

text \<open>What is left of the opposite side after a fill of \<open>f\<close> against its head.\<close>

definition afilled :: "side \<Rightarrow> int \<Rightarrow> aorder \<Rightarrow> aorder list \<Rightarrow> aorder list" where
  "afilled m f x L =
     (if f < a_qty x then x\<lparr>a_qty := a_qty x - f\<rparr> # L
      else if 0 < a_hidden x then ainsert m (areload x) L
      else L)"

text \<open>An order in a book always shows a positive quantity, so the last guard is never what stops.\<close>

function amatch :: "side \<Rightarrow> nat \<Rightarrow> int \<Rightarrow> aorder list \<Rightarrow> int \<times> aorder list \<times> atrade list" where
  "amatch s lim q [] = (q, [], [])"
| "amatch s lim q (x # L) =
     (if 0 < q \<and> meets s lim (a_tick x) \<and> 0 < a_qty x then
        (let f = min q (a_qty x);
             (q', R, ts) = amatch s lim (q - f) (afilled (opposite s) f x L)
         in (q', R, (a_id x, a_tick x, f) # ts))
      else (q, x # L, []))"
  by pat_completeness auto
termination by (relation "measure (\<lambda>(s, lim, q, L). nat q)") (auto simp: min_def)

text \<open>Order entry, with the id \<open>oid\<close> the arena would grant (0 when it is exhausted).\<close>

definition arest :: "abook \<Rightarrow> side \<Rightarrow> aorder \<Rightarrow> order_id \<times> abook" where
  "arest B s x = (if a_id x = 0 then (0, B) else (a_id x, B(s := ainsert s x (B s))))"

definition anew_order :: "abook \<Rightarrow> side \<Rightarrow> nat \<Rightarrow> int \<Rightarrow> bool \<Rightarrow> order_id \<Rightarrow>
    order_id \<times> abook \<times> atrade list" where
  "anew_order B s lim q post_only oid =
     (if post_only \<and> (\<exists>x\<in>set (B (opposite s)). meets s lim (a_tick x)) then (0, B, [])
      else (let (q', L, ts) = amatch s lim q (B (opposite s));
                B' = B(opposite s := L)
            in if q' = 0 then (- 1, B', ts)
               else (let (r, B'') = arest B' s \<lparr>a_id = oid, a_tick = lim, a_qty = q', a_hidden = 0,
                       a_display = 0\<rparr>
                     in (r, B'', ts))))"

definition anew_iceberg :: "abook \<Rightarrow> side \<Rightarrow> nat \<Rightarrow> int \<Rightarrow> int \<Rightarrow> order_id \<Rightarrow>
    order_id \<times> abook \<times> atrade list" where
  "anew_iceberg B s lim display tot oid =
     (let (q', L, ts) = amatch s lim tot (B (opposite s));
          B' = B(opposite s := L)
      in if q' = 0 then (- 1, B', ts)
         else (let v = min display q';
                   (r, B'') = arest B' s \<lparr>a_id = oid, a_tick = lim, a_qty = v, a_hidden = q' - v,
                     a_display = display\<rparr>
               in (r, B'', ts)))"

definition acancel :: "abook \<Rightarrow> order_id \<Rightarrow> abook" where
  "acancel B oid = (\<lambda>s. filter (\<lambda>x. a_id x \<noteq> oid) (B s))"

text \<open>Fill or cancel \<open>q\<close> of one order: it stays while its visible quantity exceeds \<open>q\<close>.\<close>

definition areduce :: "abook \<Rightarrow> order_id \<Rightarrow> int \<Rightarrow> abook" where
  "areduce B oid q = (\<lambda>s. map (\<lambda>x. if a_id x = oid then x\<lparr>a_qty := a_qty x - q\<rparr> else x)
     (filter (\<lambda>x. a_id x = oid \<longrightarrow> q < a_qty x) (B s)))"

section \<open>Well-formed sides\<close>

definition aorder_ok :: "aorder \<Rightarrow> bool" where
  "aorder_ok x \<longleftrightarrow> 0 < a_qty x \<and> 0 \<le> a_hidden x \<and> (0 < a_hidden x \<longrightarrow> 0 < a_display x)"

definition by_price :: "side \<Rightarrow> aorder list \<Rightarrow> bool" where
  "by_price s = sorted_wrt (\<lambda>x y. ahead s (a_tick x) (a_tick y))"

definition volume :: "aorder list \<Rightarrow> int" where
  "volume L = (\<Sum>x\<leftarrow>L. a_qty x + a_hidden x)"

definition traded :: "atrade list \<Rightarrow> int" where
  "traded ts = (\<Sum>t\<leftarrow>ts. snd (snd t))"

lemma volume_simps [simp]: "volume [] = 0" "volume (x # L) = a_qty x + a_hidden x + volume L"
  "volume (L @ M) = volume L + volume M"
  by (simp_all add: volume_def)

lemma traded_simps [simp]: "traded [] = 0" "traded (t # ts) = snd (snd t) + traded ts"
  "traded (ts @ us) = traded ts + traded us"
  by (simp_all add: traded_def)

lemma ahead_refl [simp]: "ahead s i i"
  by (cases s) auto

lemma ahead_trans: "ahead s i j \<Longrightarrow> ahead s j k \<Longrightarrow> ahead s i k"
  by (cases s) auto

lemma ahead_linear: "ahead s i j \<or> ahead s j i"
  by (cases s) auto

lemma meets_ahead: "meets s lim t \<Longrightarrow> ahead (opposite s) t' t \<Longrightarrow> meets s lim t'"
  by (cases s) auto

lemma set_ainsert [simp]: "set (ainsert s x L) = insert x (set L)"
  unfolding ainsert_def by (metis set_append list.simps(15) takeWhile_dropWhile_id Un_insert_right)

lemma mset_ainsert: "sum_list (map f (ainsert s x L)) = f x + (sum_list (map f L) :: int)"
proof -
  have "sum_list (map f L) = sum_list (map f (takeWhile (\<lambda>y. ahead s (a_tick y) (a_tick x)) L)) +
      sum_list (map f (dropWhile (\<lambda>y. ahead s (a_tick y) (a_tick x)) L))"
    by (metis map_append sum_list_append takeWhile_dropWhile_id)
  then show ?thesis by (simp add: ainsert_def)
qed

lemma length_ainsert: "length (ainsert s x L) = Suc (length L)"
proof -
  let ?P = "\<lambda>y. ahead s (a_tick y) (a_tick x)"
  have "length L = length (takeWhile ?P L) + length (dropWhile ?P L)" by (metis length_append takeWhile_dropWhile_id)
  then show ?thesis by (simp add: ainsert_def)
qed

lemma volume_ainsert [simp]: "volume (ainsert s x L) = a_qty x + a_hidden x + volume L"
  by (simp add: volume_def mset_ainsert)

lemma volume_areload [simp]: "a_qty (areload x) + a_hidden (areload x) = a_hidden x"
  "a_id (areload x) = a_id x" "a_tick (areload x) = a_tick x" "a_display (areload x) = a_display x"
  by (simp_all add: areload_def Let_def)

lemma aorder_ok_areload: "aorder_ok x \<Longrightarrow> 0 < a_hidden x \<Longrightarrow> aorder_ok (areload x)"
  by (auto simp: aorder_ok_def areload_def Let_def min_def)

lemma by_price_ainsert:
  assumes "by_price s L"
  shows "by_price s (ainsert s x L)"
proof -
  let ?P = "\<lambda>y. ahead s (a_tick y) (a_tick x)"
  have split: "sorted_wrt (\<lambda>x y. ahead s (a_tick x) (a_tick y)) (takeWhile ?P L @ dropWhile ?P L)"
    using assms by (simp add: by_price_def)
  have up: "ahead s (a_tick y) (a_tick x)" if "y \<in> set (takeWhile ?P L)" for y
    using that by (auto dest: set_takeWhileD)
  have down: "ahead s (a_tick x) (a_tick y)" if "y \<in> set (dropWhile ?P L)" for y
  proof (cases "dropWhile ?P L")
    case Nil with that show ?thesis by (metis empty_iff list.set(1))
  next
    case (Cons z Z)
    then have "\<not> ?P z" by (metis hd_dropWhile list.distinct(1) list.sel(1))
    then have "ahead s (a_tick x) (a_tick z)" using ahead_linear by blast
    moreover have "y = z \<or> ahead s (a_tick z) (a_tick y)"
      using split that Cons by (auto simp: sorted_wrt_append)
    ultimately show ?thesis by (auto intro: ahead_trans)
  qed
  show ?thesis
    using split up down by (auto simp: by_price_def ainsert_def sorted_wrt_append intro: ahead_trans)
qed

lemma by_price_afilled: "by_price m (x # L) \<Longrightarrow> by_price m (afilled m f x L)"
  by (auto simp: afilled_def by_price_def [symmetric] intro!: by_price_ainsert)
    (auto simp: by_price_def)

lemma aorder_ok_afilled: "\<forall>y\<in>set (x # L). aorder_ok y \<Longrightarrow> f \<le> a_qty x \<Longrightarrow>
    \<forall>y\<in>set (afilled m f x L). aorder_ok y"
  by (auto simp: afilled_def aorder_ok_areload) (auto simp: aorder_ok_def)

lemma volume_afilled: "aorder_ok x \<Longrightarrow> f \<le> a_qty x \<Longrightarrow> volume (afilled m f x L) = volume (x # L) - f"
  by (auto simp: afilled_def aorder_ok_def)

section \<open>What matching guarantees\<close>

lemma amatch_wf:
  assumes "amatch s lim q L = (q', R, ts)" and "\<forall>x\<in>set L. aorder_ok x" and "by_price (opposite s) L"
  shows "(\<forall>x\<in>set R. aorder_ok x) \<and> by_price (opposite s) R"
  using assms
proof (induction s lim q L arbitrary: q' R ts rule: amatch.induct)
  case (2 s lim q x L)
  let ?f = "min q (a_qty x)"
  show ?case
  proof (cases "0 < q \<and> meets s lim (a_tick x) \<and> 0 < a_qty x")
    case True
    then obtain ts' where m: "amatch s lim (q - ?f) (afilled (opposite s) ?f x L) = (q', R, ts')"
      using 2(2) by (auto simp: Let_def split: prod.splits)
    show ?thesis
      by (rule 2(1) [OF True refl m aorder_ok_afilled by_price_afilled]) (use 2(3,4) in auto)
  qed (use 2 in auto)
qed auto

text \<open>Every lot the taker loses was traded, and every lot traded was resting before.\<close>

lemma amatch_volume:
  assumes "amatch s lim q L = (q', R, ts)" and "\<forall>x\<in>set L. aorder_ok x"
  shows "q = q' + traded ts \<and> volume L = volume R + traded ts"
  using assms
proof (induction s lim q L arbitrary: q' R ts rule: amatch.induct)
  case (2 s lim q x L)
  let ?f = "min q (a_qty x)"
  show ?case
  proof (cases "0 < q \<and> meets s lim (a_tick x) \<and> 0 < a_qty x")
    case True
    then obtain ts' where m: "amatch s lim (q - ?f) (afilled (opposite s) ?f x L) = (q', R, ts')"
      "ts = (a_id x, a_tick x, ?f) # ts'"
      using 2(2) by (auto simp: Let_def split: prod.splits)
    have "q - ?f = q' + traded ts' \<and> volume (afilled (opposite s) ?f x L) = volume R + traded ts'"
      by (rule 2(1) [OF True refl m(1) aorder_ok_afilled]) (use 2(3) in auto)
    with 2(3) m(2) volume_afilled [of x ?f "opposite s" L] show ?thesis by auto
  qed (use 2 in auto)
qed auto

text \<open>Trades have positive size, meet the taker's limit, and go from better to worse prices.\<close>

lemma set_afilled_ticks: "y \<in> set (afilled m f x L) \<Longrightarrow> a_tick y = a_tick x \<or> y \<in> set L"
  by (auto simp: afilled_def split: if_splits)

lemma amatch_trades:
  assumes "amatch s lim q L = (q', R, ts)"
  shows "\<forall>(oid, t, f)\<in>set ts. 0 < f \<and> meets s lim t \<and> (\<exists>x\<in>set L. a_tick x = t)"
  using assms
proof (induction s lim q L arbitrary: q' R ts rule: amatch.induct)
  case (2 s lim q x L)
  let ?f = "min q (a_qty x)"
  show ?case
  proof (cases "0 < q \<and> meets s lim (a_tick x) \<and> 0 < a_qty x")
    case True
    then obtain ts' where m: "amatch s lim (q - ?f) (afilled (opposite s) ?f x L) = (q', R, ts')"
      "ts = (a_id x, a_tick x, ?f) # ts'"
      using 2(2) by (auto simp: Let_def split: prod.splits)
    with 2(1) [OF True refl m(1)] True show ?thesis by (fastforce dest: set_afilled_ticks)
  qed (use 2 in auto)
qed auto

lemma amatch_priority:
  assumes "amatch s lim q L = (q', R, ts)" and "by_price (opposite s) L"
  shows "sorted_wrt (\<lambda>t u. ahead (opposite s) (fst (snd t)) (fst (snd u))) ts"
  using assms
proof (induction s lim q L arbitrary: q' R ts rule: amatch.induct)
  case (2 s lim q x L)
  let ?f = "min q (a_qty x)"
  show ?case
  proof (cases "0 < q \<and> meets s lim (a_tick x) \<and> 0 < a_qty x")
    case True
    then obtain ts' where m: "amatch s lim (q - ?f) (afilled (opposite s) ?f x L) = (q', R, ts')"
      "ts = (a_id x, a_tick x, ?f) # ts'"
      using 2(2) by (auto simp: Let_def split: prod.splits)
    have "ahead (opposite s) (a_tick x) (fst (snd u))" if u: "u \<in> set ts'" for u
    proof -
      from amatch_trades [OF m(1)] u obtain y where "y \<in> set (afilled (opposite s) ?f x L)"
        "a_tick y = fst (snd u)" by (cases u) fastforce
      then have "fst (snd u) = a_tick x \<or> (\<exists>z\<in>set L. a_tick z = fst (snd u))"
        using set_afilled_ticks by metis
      with 2(3) show ?thesis by (auto simp: by_price_def)
    qed
    with 2(1) [OF True refl m(1) by_price_afilled [OF 2(3)]] m(2) show ?thesis by auto
  qed (use 2 in auto)
qed auto

text \<open>Matching stops only when the taker is filled or nothing executable is left.\<close>

lemma amatch_exhaustive:
  assumes "amatch s lim q L = (q', R, ts)" and "\<forall>x\<in>set L. aorder_ok x" and "by_price (opposite s) L"
    and "0 \<le> q"
  shows "0 \<le> q' \<and> (q' = 0 \<or> (\<forall>x\<in>set R. \<not> meets s lim (a_tick x)))"
  using assms
proof (induction s lim q L arbitrary: q' R ts rule: amatch.induct)
  case (2 s lim q x L)
  let ?f = "min q (a_qty x)"
  show ?case
  proof (cases "0 < q \<and> meets s lim (a_tick x) \<and> 0 < a_qty x")
    case True
    then obtain ts' where m: "amatch s lim (q - ?f) (afilled (opposite s) ?f x L) = (q', R, ts')"
      using 2(2) by (auto simp: Let_def split: prod.splits)
    show ?thesis
      by (rule 2(1) [OF True refl m aorder_ok_afilled by_price_afilled]) (use 2(3-5) in auto)
  next
    case False
    with 2(2) have r: "q' = q" "R = x # L" by (auto split: if_splits)
    have "\<not> meets s lim (a_tick y)" if "q \<noteq> 0" "y \<in> set (x # L)" for y
      using False that 2(3,4,5) by (auto simp: by_price_def aorder_ok_def dest: meets_ahead)
    with r 2(5) show ?thesis by blast
  qed
qed auto

text \<open>
  Per order: what an order loses in visible and hidden quantity is what the trades with its id
  report.
\<close>

definition volume_of :: "order_id \<Rightarrow> aorder list \<Rightarrow> int" where
  "volume_of oid L = volume (filter (\<lambda>x. a_id x = oid) L)"

definition traded_of :: "order_id \<Rightarrow> atrade list \<Rightarrow> int" where
  "traded_of oid ts = traded (filter (\<lambda>t. fst t = oid) ts)"

lemma volume_of_alt: "volume_of oid L = (\<Sum>x\<leftarrow>L. if a_id x = oid then a_qty x + a_hidden x else 0)"
  by (induction L) (auto simp: volume_of_def)

lemma volume_of_afilled: "aorder_ok x \<Longrightarrow> f \<le> a_qty x \<Longrightarrow>
    volume_of oid (afilled m f x L) = volume_of oid (x # L) - (if a_id x = oid then f else 0)"
  by (auto simp: volume_of_alt afilled_def mset_ainsert aorder_ok_def)

lemma amatch_volume_of:
  assumes "amatch s lim q L = (q', R, ts)" and "\<forall>x\<in>set L. aorder_ok x"
  shows "volume_of oid L = volume_of oid R + traded_of oid ts"
  using assms
proof (induction s lim q L arbitrary: q' R ts rule: amatch.induct)
  case (2 s lim q x L)
  let ?f = "min q (a_qty x)"
  show ?case
  proof (cases "0 < q \<and> meets s lim (a_tick x) \<and> 0 < a_qty x")
    case True
    then obtain ts' where m: "amatch s lim (q - ?f) (afilled (opposite s) ?f x L) = (q', R, ts')"
      "ts = (a_id x, a_tick x, ?f) # ts'"
      using 2(2) by (auto simp: Let_def split: prod.splits)
    have "volume_of oid (afilled (opposite s) ?f x L) = volume_of oid R + traded_of oid ts'"
      by (rule 2(1) [OF True refl m(1) aorder_ok_afilled]) (use 2(3) in auto)
    with 2(3) m(2) volume_of_afilled [of x ?f oid "opposite s" L] show ?thesis
      by (auto simp: traded_of_def)
  qed (use 2 in \<open>auto simp: traded_of_def\<close>)
qed (auto simp: traded_of_def)

text \<open>Without reserves, matching is first in, first out: a prefix goes, in order.\<close>

lemma amatch_fifo:
  assumes "amatch s lim q L = (q', R, ts)" and "\<forall>x\<in>set L. a_hidden x = 0"
  shows "\<exists>n. map fst ts = map a_id (take (length ts) L) \<and>
    map a_id R = map a_id (drop n L) \<and> (n = length ts \<or> Suc n = length ts)"
  using assms
proof (induction s lim q L arbitrary: q' R ts rule: amatch.induct)
  case (2 s lim q x L)
  let ?f = "min q (a_qty x)"
  show ?case
  proof (cases "0 < q \<and> meets s lim (a_tick x) \<and> 0 < a_qty x")
    case True
    then obtain ts' where m: "amatch s lim (q - ?f) (afilled (opposite s) ?f x L) = (q', R, ts')"
      "ts = (a_id x, a_tick x, ?f) # ts'"
      using 2(2) by (auto simp: Let_def split: prod.splits)
    show ?thesis
    proof (cases "?f < a_qty x")
      case less: True
      then have "ts' = []" "map a_id R = map a_id (x # L)"
        using m(1) by (auto simp: afilled_def min_def split: if_splits)
      then show ?thesis using m(2) by (intro exI [of _ 0]) auto
    next
      case False
      with 2(3) have L: "afilled (opposite s) ?f x L = L" by (auto simp: afilled_def)
      from 2(1) [OF True refl m(1)] 2(3) L obtain n where "map fst ts' = map a_id (take (length ts') L)"
        "map a_id R = map a_id (drop n L)" "n = length ts' \<or> Suc n = length ts'" by auto
      then show ?thesis using m(2) by (intro exI [of _ "Suc n"]) auto
    qed
  qed (use 2 in \<open>auto intro: exI [of _ 0]\<close>)
qed auto

text \<open>A taker that is not filled has taken every order its limit meets, reserves included.\<close>

lemma filter_ainsert: "\<not> P x \<Longrightarrow> filter P (ainsert s x L) = filter P L"
proof -
  let ?Q = "\<lambda>y. ahead s (a_tick y) (a_tick x)"
  assume "\<not> P x"
  then have "filter P (ainsert s x L) = filter P (takeWhile ?Q L @ dropWhile ?Q L)"
    by (simp only: ainsert_def filter_append filter.simps if_False)
  then show ?thesis by simp
qed

lemma amatch_leftover:
  assumes "amatch s lim q L = (q', R, ts)" and "\<forall>x\<in>set L. aorder_ok x" and "by_price (opposite s) L"
    and "0 \<le> q" and "q' \<noteq> 0"
  shows "R = filter (\<lambda>x. \<not> meets s lim (a_tick x)) L"
  using assms
proof (induction s lim q L arbitrary: q' R ts rule: amatch.induct)
  case (2 s lim q x L)
  let ?f = "min q (a_qty x)"
  show ?case
  proof (cases "0 < q \<and> meets s lim (a_tick x) \<and> 0 < a_qty x")
    case True
    then obtain ts' where m: "amatch s lim (q - ?f) (afilled (opposite s) ?f x L) = (q', R, ts')"
      using 2(2) by (auto simp: Let_def split: prod.splits)
    have "R = filter (\<lambda>x. \<not> meets s lim (a_tick x)) (afilled (opposite s) ?f x L)"
      by (rule 2(1) [OF True refl m aorder_ok_afilled by_price_afilled]) (use 2(3-6) in auto)
    moreover have "filter (\<lambda>x. \<not> meets s lim (a_tick x)) (afilled (opposite s) ?f x L) =
        filter (\<lambda>x. \<not> meets s lim (a_tick x)) (x # L)"
      using True by (auto simp: afilled_def filter_ainsert)
    ultimately show ?thesis by simp
  next
    case False
    with 2(2) have r: "q' = q" "R = x # L" by (auto split: if_splits)
    have "\<not> meets s lim (a_tick y)" if "y \<in> set (x # L)" for y
      using False that 2(3,4,5,6) r by (auto simp: by_price_def aorder_ok_def dest: meets_ahead)
    then have "filter (\<lambda>x. \<not> meets s lim (a_tick x)) (x # L) = x # L" by (simp add: filter_id_conv)
    with r show ?thesis by simp
  qed
qed auto

lemma amatch_none: "\<forall>x\<in>set L. \<not> meets s lim (a_tick x) \<Longrightarrow> amatch s lim q L = (q, L, [])"
  by (cases L) auto

lemma amatch_done: "q \<le> 0 \<Longrightarrow> amatch s lim q L = (q, L, [])"
  by (cases L) auto

lemma amatch_shrinks:
  assumes "amatch s lim q L = (q', R, ts)" and "\<forall>x\<in>set L. aorder_ok x" and "by_price (opposite s) L"
    and "0 \<le> q" and "q' \<noteq> 0" and "ts \<noteq> []"
  shows "length R < length L"
proof -
  from amatch_trades [OF assms(1)] assms(6) obtain x where "x \<in> set L" "meets s lim (a_tick x)"
    by (cases ts) auto
  then have "length (filter (\<lambda>x. \<not> meets s lim (a_tick x)) L) < length L"
    by (intro length_filter_less [of x]) auto
  with amatch_leftover [OF assms(1-5)] show ?thesis by simp
qed

lemma amatch_makers:
  assumes "amatch s lim q L = (q', R, ts)"
  shows "fst ` set ts \<subseteq> a_id ` set L"
  using assms
proof (induction s lim q L arbitrary: q' R ts rule: amatch.induct)
  case (2 s lim q x L)
  let ?f = "min q (a_qty x)"
  have ids: "a_id ` set (afilled (opposite s) ?f x L) \<subseteq> a_id ` set (x # L)"
    by (auto simp: afilled_def)
  show ?case
  proof (cases "0 < q \<and> meets s lim (a_tick x) \<and> 0 < a_qty x")
    case True
    then obtain ts' where m: "amatch s lim (q - ?f) (afilled (opposite s) ?f x L) = (q', R, ts')"
      "ts = (a_id x, a_tick x, ?f) # ts'"
      using 2(2) by (auto simp: Let_def split: prod.splits)
    with 2(1) [OF True refl m(1)] ids show ?thesis by auto
  qed (use 2 in auto)
qed auto

lemma amatch_quiet: "amatch s lim q L = (q', R, []) \<Longrightarrow> R = L \<and> q' = q"
  by (cases L) (auto simp: Let_def split: if_splits prod.splits)

end
