(* ===== verification/Book_View.thy ===== *)
theory Book_View
  imports Book_Ops Price_Time
begin

text \<open>
  The abstraction function from the order book to the price-time specification: follow the
  links of every level of the ladder from its head, read the orders, and put the levels in the
  priority order of the side. \<open>book_ok\<close>, the invariant without ghost variables, says that the
  queues found by following the links represent the book.
\<close>

section \<open>Reading the queues off the book\<close>

fun walk :: "(nat \<Rightarrow> order option) \<Rightarrow> nat \<Rightarrow> ptr \<Rightarrow> nat list" where
  "walk H 0 h = []"
| "walk H (Suc n) None = []"
| "walk H (Suc n) (Some p) = (case H p of None \<Rightarrow> [] | Some x \<Rightarrow> p # walk H n (o_next x))"

definition level_queue :: "book \<Rightarrow> nat \<Rightarrow> nat list" where
  "level_queue b i = (if i < NumTicks b then walk (heap b) (PoolCap b) (lv_head (bk_levels b ! i)) else [])"

definition book_ok :: "book \<Rightarrow> bool" where
  "book_ok b \<longleftrightarrow> book_rep b (level_queue b)"

definition oview :: "price \<Rightarrow> order \<Rightarrow> aorder" where
  "oview base x = \<lparr>a_id = o_id x, a_tick = unat (o_price x - base), a_qty = sint (o_qty x),
     a_hidden = sint (o_hidden_qty x), a_display = sint (o_display_qty x)\<rparr>"

definition ticks :: "side \<Rightarrow> nat \<Rightarrow> nat list" where
  "ticks s n = (case s of Buy \<Rightarrow> rev [0..<n] | Sell \<Rightarrow> [0..<n])"

definition level_orders :: "book \<Rightarrow> side \<Rightarrow> nat \<Rightarrow> aorder list" where
  "level_orders b s i = map (oview (bk_base b))
     (filter (\<lambda>x. o_side x = s) (map (\<lambda>p. the (heap b p)) (level_queue b i)))"

definition abs_book :: "book \<Rightarrow> abook" where
  "abs_book b = (\<lambda>s. concat (map (level_orders b s) (ticks s (NumTicks b))))"

lemma walk_chain: "chain H pv ps None \<Longrightarrow> length ps \<le> n \<Longrightarrow> walk H n (head_of ps None) = ps"
proof (induction ps arbitrary: pv n)
  case Nil then show ?case by (cases n) auto
next
  case (Cons p ps) then show ?case by (cases n) auto
qed

lemma owned_length:
  assumes "shape b" and "owned b qs"
  shows "length (qs i) \<le> PoolCap b"
proof -
  have "set (qs i) \<subseteq> {..<PoolCap b}"
    using owned_live [OF assms(2)] heap_slot [OF assms(1)] by blast
  then have "card (set (qs i)) \<le> PoolCap b" using card_mono [of "{..<PoolCap b}"] by simp
  with owned_distinct [OF assms(2)] show ?thesis by (simp add: distinct_card)
qed

lemma rep_out: "book_rep b qs \<Longrightarrow> NumTicks b \<le> i \<Longrightarrow> qs i = []"
  using marks_nonempty [of b qs i] marked_bound [of b i] by (fastforce simp: book_rep_def)

lemma level_queue_rep:
  assumes "book_rep b qs"
  shows "level_queue b = qs"
proof
  fix i
  note R = book_repD [OF assms]
  show "level_queue b i = qs i"
  proof (cases "i < NumTicks b")
    case True
    from R(2) [OF True] show ?thesis
      using walk_chain owned_length [OF R(1,3), of i] True
      by (auto simp: level_queue_def level_ok_def level_linked_def)
  qed (use rep_out [OF assms] in \<open>simp add: level_queue_def\<close>)
qed

lemma book_ok_rep: "book_rep b qs \<Longrightarrow> book_ok b"
  by (simp add: book_ok_def level_queue_rep)

lemma book_okE:
  assumes "book_ok b"
  obtains qs where "book_rep b qs"
  using assms by (auto simp: book_ok_def)

section \<open>The abstraction through the ghost queues\<close>

definition cont :: "price \<Rightarrow> (nat \<Rightarrow> order option) \<Rightarrow> nat list \<Rightarrow> aorder list" where
  "cont base H ps = map (\<lambda>p. oview base (the (H p))) ps"

definition lvl :: "book \<Rightarrow> (nat \<Rightarrow> nat list) \<Rightarrow> side \<Rightarrow> nat \<Rightarrow> aorder list" where
  "lvl b qs s i = (if i \<in> marked b s then cont (bk_base b) (heap b) (qs i) else [])"

lemma cont_simps [simp]: "cont base H [] = []"
  "cont base H (p # ps) = oview base (the (H p)) # cont base H ps"
  "cont base H (ps @ rs) = cont base H ps @ cont base H rs"
  by (simp_all add: cont_def)

lemma cont_cong: "(\<And>p. p \<in> set ps \<Longrightarrow> H' p = H p) \<Longrightarrow> cont base H' ps = cont base H ps"
  by (simp add: cont_def)

lemma oview_strip: "strip x = strip y \<Longrightarrow> oview base x = oview base y"
  by (frule strip_eqD(1), frule strip_eqD(2), frule strip_eqD(3), frule strip_eqD(5), drule strip_eqD(6))
    (simp add: oview_def)

lemma cont_relinked:
  assumes "relinked A H H'" and "\<And>p. p \<in> set ps \<Longrightarrow> H p \<noteq> None"
  shows "cont base H' ps = cont base H ps"
proof -
  have "oview base (the (H' p)) = oview base (the (H p))" if p: "p \<in> set ps" for p
  proof -
    from assms(2) [OF p] relinked_None [OF assms(1), of p] obtain y where y: "H' p = Some y" by auto
    with assms(1) obtain x where "H p = Some x" "strip y = strip x" by (rule relinked_Some)
    with y oview_strip [of y x] show ?thesis by simp
  qed
  then show ?thesis by (simp add: cont_def)
qed

lemma level_orders_rep:
  assumes rep: "book_rep b qs" and i: "i < NumTicks b"
  shows "level_orders b s i = lvl b qs s i"
proof -
  note R = book_repD [OF rep]
  have side: "o_side (the (heap b p)) = s \<longleftrightarrow> i \<in> marked b s" if p: "p \<in> set (qs i)" for p
  proof -
    obtain x where x: "heap b p = Some x" using owned_live [OF R(3) p] by blast
    with R(2) [OF i] p have ok: "order_ok b i p x" by (auto simp: level_ok_def)
    from p have "qs i \<noteq> []" by auto
    then have m: "i \<in> marked b (o_side x)" using order_marked [OF R(5) _ ok] by blast
    have "i \<notin> marked b s" if "s \<noteq> o_side x"
      using marks_side [OF R(5) m] that by (cases s; cases "o_side x") auto
    with m x show ?thesis by auto
  qed
  have "filter (\<lambda>x. o_side x = s) (map (\<lambda>p. the (heap b p)) (qs i)) =
      map (\<lambda>p. the (heap b p)) (filter (\<lambda>p. i \<in> marked b s) (qs i))"
    using side by (simp add: filter_map o_def cong: filter_cong)
  then show ?thesis by (simp add: level_orders_def level_queue_rep [OF rep] lvl_def cont_def o_def)
qed

lemma set_ticks [simp]: "set (ticks s n) = {..<n}"
  by (cases s) (auto simp: ticks_def)

lemma abs_book_rep:
  assumes "book_rep b qs"
  shows "abs_book b s = concat (map (lvl b qs s) (ticks s (NumTicks b)))"
  unfolding abs_book_def by (rule arg_cong [where f = concat]) (simp add: level_orders_rep [OF assms])

text \<open>The levels before and after level \<open>i\<close> in the priority order of a side.\<close>

lemma ticks_split:
  assumes "i < n"
  obtains pre post where "ticks s n = pre @ i # post" and "\<And>j. j \<in> set pre \<Longrightarrow> ahead s j i \<and> j \<noteq> i"
    and "\<And>j. j \<in> set post \<Longrightarrow> \<not> ahead s j i"
proof (cases s)
  case Sell
  from assms have "[0..<n] = [0..<i] @ i # [Suc i..<n]"
    using upt_add_eq_append [of 0 i "n - i"] by (simp add: upt_conv_Cons)
  then show ?thesis using that [of "[0..<i]" "[Suc i..<n]"] Sell by (auto simp: ticks_def)
next
  case Buy
  from assms have "[0..<n] = [0..<i] @ i # [Suc i..<n]"
    using upt_add_eq_append [of 0 i "n - i"] by (simp add: upt_conv_Cons)
  then have "rev [0..<n] = rev [Suc i..<n] @ i # rev [0..<i]" by simp
  then show ?thesis using that [of "rev [Suc i..<n]" "rev [0..<i]"] Buy by (auto simp: ticks_def)
qed

lemma ainsert_split:
  assumes "\<forall>y\<in>set A. ahead s (a_tick y) (a_tick x)" and "\<forall>y\<in>set C. \<not> ahead s (a_tick y) (a_tick x)"
  shows "ainsert s x (A @ C) = A @ x # C"
proof -
  have "takeWhile (\<lambda>y. ahead s (a_tick y) (a_tick x)) C = []"
    "dropWhile (\<lambda>y. ahead s (a_tick y) (a_tick x)) C = C"
    using assms(2) by (cases C; simp)+
  with assms(1) show ?thesis by (simp add: ainsert_def)
qed

lemma lvl_tick:
  assumes "book_rep b qs" and "i < NumTicks b" and "y \<in> set (lvl b qs s i)"
  shows "a_tick y = i" and "aorder_ok y"
proof -
  note R = book_repD [OF assms(1)]
  from assms(3) obtain p where p: "p \<in> set (qs i)" "y = oview (bk_base b) (the (heap b p))"
    by (auto simp: lvl_def cont_def split: if_splits)
  obtain x where x: "heap b p = Some x" using owned_live [OF R(3) p(1)] by blast
  with R(2) [OF assms(2)] p have ok: "order_ok b i p x" by (auto simp: level_ok_def)
  then show "a_tick y = i" using order_level [OF R(1) assms(2) ok] p x by (simp add: oview_def idx_of_def)
  from ok p x show "aorder_ok y" by (auto simp: order_ok_def aorder_ok_def oview_def)
qed

lemma abs_book_wf:
  assumes "book_rep b qs"
  shows "\<forall>x\<in>set (abs_book b s). aorder_ok x" and "by_price s (abs_book b s)"
proof -
  show "\<forall>x\<in>set (abs_book b s). aorder_ok x"
    using lvl_tick(2) [OF assms] by (auto simp: abs_book_rep [OF assms])
  have srt: "sorted_wrt (ahead s) (ticks s n)" for n
  proof (cases s)
    case Buy
    have "sorted_wrt (\<lambda>x y. ahead Buy y x) [0..<n]" by (rule sorted_wrt_mono_rel [OF _ sorted_upt]) simp
    with Buy show ?thesis by (simp add: ticks_def sorted_wrt_rev)
  next
    case Sell
    have "sorted_wrt (ahead Sell) [0..<n]" by (rule sorted_wrt_mono_rel [OF _ sorted_upt]) simp
    with Sell show ?thesis by (simp add: ticks_def)
  qed
  have "by_price s (concat (map (lvl b qs s) ks))"
    if "sorted_wrt (ahead s) ks" "set ks \<subseteq> {..<NumTicks b}" for ks
    using that
  proof (induction ks)
    case (Cons k ks)
    have "sorted_wrt (\<lambda>x y. ahead s (a_tick x) (a_tick y)) (lvl b qs s k)"
      using lvl_tick(1) [OF assms, of k _ s] Cons.prems by (simp add: sorted_wrt_iff_nth_less)
    with Cons show ?case
      by (auto simp: by_price_def sorted_wrt_append dest!: lvl_tick(1) [OF assms, rotated])
  qed (simp add: by_price_def)
  with srt show "by_price s (abs_book b s)" by (simp add: abs_book_rep [OF assms])
qed

section \<open>Order ids\<close>

text \<open>The slot and the generation that \<open>cancel\<close> and \<open>reduce\<close> decode from an id.\<close>

definition id_slot :: "order_id \<Rightarrow> nat" where
  "id_slot oid = unat ((oid AND 0xFFFFFFFF) - 1)"

definition id_gen :: "order_id \<Rightarrow> u32" where
  "id_gen oid = ucast (drop_bit 32 oid)"

lemma low_mask: "(oid :: u64) AND 0xFFFFFFFF = take_bit 32 oid"
proof -
  have "(0xFFFFFFFF :: u64) = mask 32" by (simp add: mask_eq_exp_minus_1)
  then show ?thesis by (simp only: take_bit_eq_mask [symmetric])
qed

lemma slot_word: "p < 2 ^ 32 - 1 \<Longrightarrow> take_bit 32 (word_of_nat p + 1 :: u64) = word_of_nat p + 1"
proof -
  assume "p < 2 ^ 32 - 1"
  then have "unat (word_of_nat (p + 1) :: u64) = p + 1" by (intro unat_of_nat_small) simp
  with \<open>p < 2 ^ 32 - 1\<close> have "unat (take_bit 32 (word_of_nat (p + 1) :: u64)) = unat (word_of_nat (p + 1) :: u64)"
    by (simp add: unsigned_take_bit_eq take_bit_nat_eq_self)
  then show ?thesis by (simp add: word_unat_eq_iff add.commute)
qed

lemma mk_id_low: "p < 2 ^ 32 - 1 \<Longrightarrow> take_bit 32 (mk_id g p) = word_of_nat p + 1"
proof -
  assume p: "p < 2 ^ 32 - 1"
  have "take_bit 32 (mk_id g p) = take_bit 32 (push_bit 32 (ucast g)) OR take_bit 32 (word_of_nat p + 1 :: u64)"
    by (simp add: mk_id_def)
  also have "take_bit 32 (push_bit 32 (ucast g) :: u64) = 0"
    by (rule bit_eqI) (simp add: bit_simps)
  finally show ?thesis using slot_word [OF p] by simp
qed

lemma mk_id_slot: "p < 2 ^ 32 - 1 \<Longrightarrow> id_slot (mk_id g p) = p"
  by (simp add: id_slot_def low_mask mk_id_low unat_of_nat_small)

lemma mk_id_gen: "p < 2 ^ 32 - 1 \<Longrightarrow> id_gen (mk_id g p) = g"
proof -
  assume p: "p < 2 ^ 32 - 1"
  have hi: "\<not> bit (word_of_nat p + 1 :: u64) k" if "32 \<le> k" for k
    using slot_word [OF p] that by (metis bit_take_bit_iff linorder_not_less)
  show ?thesis
    by (rule bit_eqI) (auto simp: id_gen_def mk_id_def bit_simps hi)
qed

lemma mk_id_nonzero: "p < 2 ^ 32 - 1 \<Longrightarrow> mk_id g p \<noteq> 0"
proof
  assume p: "p < 2 ^ 32 - 1" and "mk_id g p = 0"
  then have "word_of_nat (p + 1) = (0 :: u64)" using mk_id_low [OF p, of g] by (simp add: add.commute)
  with p unat_of_nat_small [of "p + 1"] show False by simp
qed

lemma mk_id_not_filled: "p < 2 ^ 32 - 2 \<Longrightarrow> mk_id g p \<noteq> - 1"
proof
  assume p: "p < 2 ^ 32 - 2" and m: "mk_id g p = - 1"
  from p have "id_slot (mk_id g p) = p" by (intro mk_id_slot) simp
  moreover have "id_slot (- 1) = 2 ^ 32 - 2" by (simp add: id_slot_def)
  ultimately show False using m p by simp
qed

lemma mk_id_inj: "p < 2 ^ 32 - 1 \<Longrightarrow> p' < 2 ^ 32 - 1 \<Longrightarrow> mk_id g p = mk_id g' p' \<longleftrightarrow> g = g' \<and> p = p'"
  by (metis mk_id_slot mk_id_gen)

text \<open>An id whose slot field is not empty is the id of its slot and its generation.\<close>

lemma mk_id_decode: "id_slot oid < 2 ^ 32 - 1 \<Longrightarrow> mk_id (id_gen oid) (id_slot oid) = oid"
proof -
  assume s: "id_slot oid < 2 ^ 32 - 1"
  have w: "word_of_nat (id_slot oid) + 1 = take_bit 32 oid" by (simp add: id_slot_def low_mask)
  show ?thesis unfolding mk_id_def w id_gen_def
    by (rule bit_eqI) (auto simp: bit_simps)
qed

end
