(* ===== verification/Book_Refine.thy ===== *)
theory Book_Refine
  imports Book_View
begin

text \<open>
  Resting, cancelling and reducing refine the price-time specification: what the links, the
  bitmap and the arena do to the book is, through \<open>abs_book\<close>, an insertion behind the orders
  of the same price, a deletion by id, or a smaller quantity.
\<close>

section \<open>Changes to one level\<close>

lemma abs_book_split:
  assumes rep: "book_rep b qs" and rep': "book_rep b' qs'" and n: "NumTicks b' = NumTicks b"
    and i: "i < NumTicks b"
    and same: "\<And>j. j < NumTicks b \<Longrightarrow> j \<noteq> i \<Longrightarrow> lvl b' qs' s j = lvl b qs s j"
  obtains A C where "abs_book b s = A @ lvl b qs s i @ C" and "abs_book b' s = A @ lvl b' qs' s i @ C"
    and "\<forall>y\<in>set A. ahead s (a_tick y) i \<and> a_tick y \<noteq> i" and "\<forall>y\<in>set C. \<not> ahead s (a_tick y) i"
proof -
  obtain pre post where t: "ticks s (NumTicks b) = pre @ i # post"
    and pre: "\<And>j. j \<in> set pre \<Longrightarrow> ahead s j i \<and> j \<noteq> i"
    and post: "\<And>j. j \<in> set post \<Longrightarrow> \<not> ahead s j i"
    by (rule ticks_split [OF i, of s]) (rule that; blast)
  have "set (pre @ i # post) = {..<NumTicks b}" using set_ticks [of s "NumTicks b"] t by simp
  then have lt: "\<And>j. j \<in> set pre \<Longrightarrow> j < NumTicks b" "\<And>j. j \<in> set post \<Longrightarrow> j < NumTicks b" by auto
  have ne: "j \<noteq> i" if "j \<in> set post" for j using post [OF that] by auto
  have f: "map (lvl b' qs' s) pre = map (lvl b qs s) pre" "map (lvl b' qs' s) post = map (lvl b qs s) post"
    using same lt pre ne by auto
  show ?thesis
  proof (rule that)
    show "abs_book b s = concat (map (lvl b qs s) pre) @ lvl b qs s i @ concat (map (lvl b qs s) post)"
      by (simp add: abs_book_rep [OF rep] t)
    show "abs_book b' s = concat (map (lvl b qs s) pre) @ lvl b' qs' s i @ concat (map (lvl b qs s) post)"
      by (simp add: abs_book_rep [OF rep'] n t f)
  qed (use pre post lt lvl_tick(1) [OF rep] in fastforce)+
qed

lemma abs_book_same:
  assumes "book_rep b qs" and "book_rep b' qs'" and "NumTicks b' = NumTicks b"
    and "\<And>j. j < NumTicks b \<Longrightarrow> lvl b' qs' s j = lvl b qs s j"
  shows "abs_book b' s = abs_book b s"
  unfolding abs_book_rep [OF assms(1)] abs_book_rep [OF assms(2)]
  by (rule arg_cong [where f = concat]) (simp add: assms)

lemma side_cases: "s' = s \<or> s' = opposite s"
  by (cases s; cases s') auto

lemma side_fun_eq:
  assumes "f (opposite s) = g (opposite s)" and "f s = v"
  shows "f = g(s := v)"
proof
  fix s'
  show "f s' = (g(s := v)) s'" using assms side_cases [of s' s] by (cases s; cases s') auto
qed

section \<open>Resting\<close>

lemma shape_cap: "shape b \<Longrightarrow> PoolCap b < 2 ^ 32 - 1"
  by (simp add: shape_def)

lemma rested_abs:
  assumes rep: "book_rep b qs" and i: "i < NumTicks b" and un: "uncrossing b s i"
    and r: "rested b qs s i x r" and px: "o_price x = bk_base b + word_of_nat i"
  obtains (full) "r = Some (0, b)" "dom (heap b) = {..<PoolCap b}"
  | (placed) oid b' where "r = Some (oid, b')" "oid \<noteq> 0" "oid \<noteq> - 1" "odd (id_gen oid)" "book_ok b'"
      "NumTicks b' = NumTicks b" "bk_base b' = bk_base b" "PoolCap b' = PoolCap b"
      "abs_book b' = (abs_book b)(s := ainsert s (oview (bk_base b) (x\<lparr>o_id := oid\<rparr>)) (abs_book b s))"
proof -
  note R = book_repD [OF rep]
  from r consider "r = Some (0, b)" "dom (heap b) = {..<PoolCap b}"
    | p b' where "p < PoolCap b" "heap b p = None" "r = Some (mk_id (bk_gens b ! p + 1) p, b')"
       "book_rep b' (qs(i := qs i @ [p]))"
       "relinked (set (qs i @ [p])) ((heap b)(p \<mapsto> x\<lparr>o_id := mk_id (bk_gens b ! p + 1) p\<rparr>)) (heap b')"
       "bk_base b' = bk_base b" "NumTicks b' = NumTicks b" "marked b' s = insert i (marked b s)"
       "marked b' (opposite s) = marked b (opposite s)"
       "bk_gens b' = (bk_gens b)[p := bk_gens b ! p + 1]"
    unfolding rested_def by blast
  then show ?thesis
  proof cases
    case 1 then show ?thesis by (rule full)
  next
    case (2 p b')
    let ?g = "bk_gens b ! p + 1"
    let ?oid = "mk_id ?g p" and ?x = "x\<lparr>o_id := mk_id (bk_gens b ! p + 1) p\<rparr>" and ?qs = "qs(i := qs i @ [p])"
    have pc: "p < 2 ^ 32 - 2" "p < 2 ^ 32 - 1" using 2(1) shape_cap [OF R(1)] by auto
    have gen: "odd (id_gen ?oid)" using R(4) 2(1,2) mk_id_gen [OF pc(2)] by (simp add: gens_ok_def)
    have pn: "p \<notin> set (qs j)" for j using 2(2) owned_live [OF R(3)] by fastforce
    have live: "((heap b)(p \<mapsto> ?x)) q \<noteq> None" if "q \<in> set (qs j)" for q j
      using owned_live [OF R(3) that] by auto
    have c: "cont (bk_base b) (heap b') (qs j) = cont (bk_base b) (heap b) (qs j)" for j
      using cont_relinked [OF 2(5), of "qs j"] live pn cont_cong [of "qs j" "(heap b)(p \<mapsto> ?x)" "heap b"]
      by (metis fun_upd_other)
    have new: "cont (bk_base b) (heap b') [p] = [oview (bk_base b) ?x]"
      using cont_relinked [OF 2(5), of "[p]"] by simp
    have opp: "qs i = []" if "i \<notin> marked b s"
    proof -
      have "i \<notin> marked b (opposite s)" using un by (cases s) (auto simp: uncrossing_def)
      with that marks_nonempty [OF R(5), of i] show ?thesis by (cases s) auto
    qed
    have t: "a_tick (oview (bk_base b) ?x) = i"
      using idx_of_level [OF R(1) i] px by (simp add: oview_def idx_of_def)
    have "abs_book b' (opposite s) = abs_book b (opposite s)"
    proof (rule abs_book_same [OF rep 2(4,7)])
      fix j
      have "j = i \<Longrightarrow> j \<notin> marked b (opposite s)" using un by (cases s) (auto simp: uncrossing_def)
      then show "lvl b' ?qs (opposite s) j = lvl b qs (opposite s) j"
        using c [of j] 2(6,9) by (auto simp: lvl_def)
    qed
    moreover have "abs_book b' s = ainsert s (oview (bk_base b) ?x) (abs_book b s)"
    proof (rule abs_book_split [OF rep 2(4,7) i, of s])
      show "lvl b' ?qs s j = lvl b qs s j" if "j \<noteq> i" for j
        using that c [of j] 2(6,8) by (simp add: lvl_def)
      fix A C assume AC: "abs_book b s = A @ lvl b qs s i @ C" "abs_book b' s = A @ lvl b' ?qs s i @ C"
        "\<forall>y\<in>set A. ahead s (a_tick y) i \<and> a_tick y \<noteq> i" "\<forall>y\<in>set C. \<not> ahead s (a_tick y) i"
      have "lvl b' ?qs s i = lvl b qs s i @ [oview (bk_base b) ?x]"
        using c [of i] new opp 2(6,8) by (simp add: lvl_def)
      moreover have "\<forall>y\<in>set (lvl b qs s i). a_tick y = i" using lvl_tick(1) [OF rep i] by blast
      then have "ainsert s (oview (bk_base b) ?x) ((A @ lvl b qs s i) @ C) =
          (A @ lvl b qs s i) @ oview (bk_base b) ?x # C"
        using AC(3,4) t by (intro ainsert_split) auto
      ultimately show ?thesis by (simp add: AC(1,2))
    qed
    ultimately have "abs_book b' = (abs_book b)(s := ainsert s (oview (bk_base b) ?x) (abs_book b s))"
      by (rule side_fun_eq)
    moreover have "PoolCap b' = PoolCap b" using length_book(2) [of b'] 2(10) by simp
    ultimately show ?thesis using 2(3,6,7) pc gen book_ok_rep [OF 2(4)]
      by (intro placed [of ?oid b']) (simp_all add: mk_id_nonzero mk_id_not_filled)
  qed
qed

section \<open>Cancelling\<close>

lemma live_id:
  assumes "book_rep b qs" and "heap b p = Some x"
  shows "o_id x = mk_id (bk_gens b ! p) p" and "p < PoolCap b" and "p < 2 ^ 32 - 1"
    and "odd (bk_gens b ! p)"
proof -
  note R = book_repD [OF assms(1)]
  from live_level [OF assms] show "o_id x = mk_id (bk_gens b ! p) p" by (metis order_ok_def)
  show pc: "p < PoolCap b" by (rule heap_slot [OF R(1) assms(2)])
  with shape_cap [OF R(1)] show "p < 2 ^ 32 - 1" by simp
  from R(4) pc assms(2) show "odd (bk_gens b ! p)" by (auto simp: gens_ok_def)
qed

lemma live_id_inj:
  assumes "book_rep b qs" and "heap b p = Some x" and "heap b q = Some y"
  shows "o_id x = o_id y \<longleftrightarrow> p = q"
  using live_id [OF assms(1,2)] live_id [OF assms(1,3)] by (auto simp: mk_id_inj)

text \<open>The orders in the abstract book are exactly the live slots of the arena.\<close>

definition alive :: "abook \<Rightarrow> order_id \<Rightarrow> bool" where
  "alive B oid \<longleftrightarrow> (\<exists>s. \<exists>x\<in>set (B s). a_id x = oid)"

lemma alive_heap:
  assumes rep: "book_rep b qs"
  shows "alive (abs_book b) oid \<longleftrightarrow> (\<exists>p x. heap b p = Some x \<and> o_id x = oid)"
proof
  note R = book_repD [OF rep]
  assume "alive (abs_book b) oid"
  then obtain s i p where "i < NumTicks b" "p \<in> set (qs i)" "o_id (the (heap b p)) = oid"
    by (auto simp: alive_def abs_book_rep [OF rep] lvl_def cont_def oview_def split: if_splits)
  then show "\<exists>p x. heap b p = Some x \<and> o_id x = oid" using owned_live [OF R(3)] by fastforce
next
  note R = book_repD [OF rep]
  assume "\<exists>p x. heap b p = Some x \<and> o_id x = oid"
  then obtain p x where x: "heap b p = Some x" "o_id x = oid" by blast
  obtain i us vs where l: "i < NumTicks b" "qs i = us @ p # vs" "order_ok b i p x"
    by (rule live_level [OF rep x(1)])
  have "i \<in> marked b (o_side x)" using order_marked [OF R(5) _ l(3)] l(2) by simp
  with l x have "oview (bk_base b) x \<in> set (lvl b qs (o_side x) i)" by (simp add: lvl_def)
  with l(1) have "oview (bk_base b) x \<in> set (abs_book b (o_side x))"
    by (auto simp: abs_book_rep [OF rep])
  moreover have "a_id (oview (bk_base b) x) = oid" using x by (simp add: oview_def)
  ultimately show "alive (abs_book b) oid" by (auto simp: alive_def)
qed

lemma unlink_abs:
  assumes rep: "book_rep b qs" and p: "heap b p = Some x"
  obtains b' where "unlink_and_release b p = Some b'" and "book_ok b'"
    and "abs_book b' = acancel (abs_book b) (o_id x)"
    and "bk_gens b' = (bk_gens b)[p := bk_gens b ! p + 1]" and "bk_base b' = bk_base b"
    and "NumTicks b' = NumTicks b" and "heap b' p = None" and "PoolCap b' = PoolCap b"
proof -
  note R = book_repD [OF rep]
  obtain i us vs where l: "i < NumTicks b" "qs i = us @ p # vs" "order_ok b i p x"
    by (rule live_level [OF rep p])
  obtain b' where u: "unlink_and_release b p = Some b'" "book_rep b' (qs(i := us @ vs))"
    "relinked (set (us @ vs)) ((heap b)(p := None)) (heap b')"
    "bk_gens b' = (bk_gens b)[p := bk_gens b ! p + 1]" "bk_base b' = bk_base b"
    "NumTicks b' = NumTicks b"
    "marked b' (o_side x) = (if us @ vs = [] then marked b (o_side x) - {i} else marked b (o_side x))"
    "marked b' (opposite (o_side x)) = marked b (opposite (o_side x))"
    by (rule unlink_and_release_correct [OF rep l(1,2) p l(3)])
  let ?qs = "qs(i := us @ vs)"
  have d: "distinct (us @ p # vs)" using owned_distinct [OF R(3), of i] l by simp
  have mem: "q \<in> set (?qs j) \<longleftrightarrow> q \<in> set (qs j) \<and> q \<noteq> p" for q j
    using d l owned_disjoint [OF R(3), of p i j] by (cases "j = i") auto
  have c: "cont (bk_base b) (heap b') (?qs j) = cont (bk_base b) (heap b) (?qs j)" for j
  proof -
    have "((heap b)(p := None)) q \<noteq> None" if "q \<in> set (?qs j)" for q
      using that mem owned_live [OF R(3)] by fastforce
    then have "cont (bk_base b) (heap b') (?qs j) = cont (bk_base b) ((heap b)(p := None)) (?qs j)"
      by (rule cont_relinked [OF u(3)])
    also have "\<dots> = cont (bk_base b) (heap b) (?qs j)"
      using mem by (intro cont_cong) auto
    finally show ?thesis .
  qed
  have keep: "filter (\<lambda>y. a_id y \<noteq> o_id x) (cont (bk_base b) (heap b) ps) = cont (bk_base b) (heap b) ps"
    if "set ps \<subseteq> set (?qs j)" for ps j
  proof -
    have "a_id (oview (bk_base b) (the (heap b q))) \<noteq> o_id x" if "q \<in> set ps" for q
    proof -
      from that \<open>set ps \<subseteq> _\<close> mem have q: "q \<in> set (qs j)" "q \<noteq> p" by auto
      then obtain y where y: "heap b q = Some y" using owned_live [OF R(3)] by blast
      with q live_id_inj [OF rep p y] show ?thesis by (auto simp: oview_def)
    qed
    then show ?thesis by (simp add: cont_def filter_id_conv)
  qed
  have f: "filter (\<lambda>y. a_id y \<noteq> o_id x) (cont (bk_base b) (heap b) (qs j)) = cont (bk_base b) (heap b) (?qs j)" for j
  proof (cases "j = i")
    case True
    have "a_id (oview (bk_base b) x) = o_id x" by (simp add: oview_def)
    with True l p keep [of us i] keep [of vs i] show ?thesis by simp
  qed (use keep [of "qs j" j] in simp)
  have mi: "i \<in> marked b (o_side x)" "i \<notin> marked b (opposite (o_side x))"
    using order_marked [OF R(5) _ l(3)] marks_side [OF R(5)] l(2) by auto
  have "lvl b' ?qs s j = filter (\<lambda>y. a_id y \<noteq> o_id x) (lvl b qs s j)" for s j
  proof -
    have m: "j \<in> marked b' s \<longleftrightarrow> j \<in> marked b s \<and> \<not> (j = i \<and> us @ vs = [])"
      using u(7,8) mi side_cases [of s "o_side x"] by (cases "us @ vs = []") auto
    show ?thesis
    proof (cases "j = i \<and> us @ vs = []")
      case True
      with f [of i] m show ?thesis by (simp add: lvl_def)
    qed (use m f [of j] c [of j] u(5) in \<open>auto simp: lvl_def\<close>)
  qed
  then have "lvl b' ?qs s = (\<lambda>j. filter (\<lambda>y. a_id y \<noteq> o_id x) (lvl b qs s j))" for s by (intro ext)
  then have "abs_book b' = acancel (abs_book b) (o_id x)"
    unfolding acancel_def
    by (intro ext) (simp add: abs_book_rep [OF rep] abs_book_rep [OF u(2)] u(6) filter_concat o_def)
  moreover have "heap b' p = None" using relinked_None [OF u(3), of p] by simp
  moreover have "PoolCap b' = PoolCap b" using length_book(2) [of b'] u(4) by simp
  ultimately show ?thesis using that u book_ok_rep [OF u(2)] by blast
qed

text \<open>The ids that callers hold: 0 for a rejected order, else an id with an odd generation.\<close>

definition issued :: "order_id \<Rightarrow> bool" where
  "issued oid \<longleftrightarrow> oid = 0 \<or> odd (id_gen oid)"

text \<open>The generation check accepts an id exactly when its order is resting.\<close>

lemma id_check:
  assumes rep: "book_rep b qs" and oid: "issued oid"
  shows "id_slot oid < PoolCap b \<and> bk_gens b ! id_slot oid = id_gen oid \<longleftrightarrow>
    (\<exists>x. heap b (id_slot oid) = Some x \<and> o_id x = oid)"
    and "alive (abs_book b) oid \<longleftrightarrow> (\<exists>x. heap b (id_slot oid) = Some x \<and> o_id x = oid)"
proof -
  note R = book_repD [OF rep]
  have z: "id_slot 0 = 2 ^ 64 - 1" by (simp add: id_slot_def unsigned_minus_1_eq_mask mask_eq_exp_minus_1)
  show "id_slot oid < PoolCap b \<and> bk_gens b ! id_slot oid = id_gen oid \<longleftrightarrow>
      (\<exists>x. heap b (id_slot oid) = Some x \<and> o_id x = oid)"
  proof
    assume a: "id_slot oid < PoolCap b \<and> bk_gens b ! id_slot oid = id_gen oid"
    with z shape_cap [OF R(1)] have "oid \<noteq> 0" by auto
    with oid a R(4) obtain x where x: "heap b (id_slot oid) = Some x"
      by (auto simp: issued_def gens_ok_def)
    with a live_id [OF rep x] mk_id_decode [of oid] show "\<exists>x. heap b (id_slot oid) = Some x \<and> o_id x = oid"
      by simp
  next
    assume "\<exists>x. heap b (id_slot oid) = Some x \<and> o_id x = oid"
    then obtain x where x: "heap b (id_slot oid) = Some x" "o_id x = oid" by blast
    note L = live_id [OF rep x(1)]
    have "id_gen oid = bk_gens b ! id_slot oid" using L(1,3) x(2) mk_id_gen [OF L(3)] by metis
    with L(2) show "id_slot oid < PoolCap b \<and> bk_gens b ! id_slot oid = id_gen oid" by simp
  qed
  have "id_slot (o_id x) = p" if "heap b p = Some x" for p x
    using live_id [OF rep that] by (simp add: mk_id_slot)
  then show "alive (abs_book b) oid \<longleftrightarrow> (\<exists>x. heap b (id_slot oid) = Some x \<and> o_id x = oid)"
    by (auto simp: alive_heap [OF rep])
qed

lemma acancel_dead: "\<not> alive B oid \<Longrightarrow> acancel B oid = B"
  by (auto simp: alive_def acancel_def fun_eq_iff filter_id_conv)

lemma cancel_rep:
  assumes rep: "book_rep b qs" and oid: "issued oid"
  obtains b' where "cancel b oid = Some (alive (abs_book b) oid, b')" and "book_ok b'"
    and "abs_book b' = acancel (abs_book b) oid" and "\<not> alive (abs_book b) oid \<Longrightarrow> b' = b"
    and "NumTicks b' = NumTicks b" and "bk_base b' = bk_base b" and "PoolCap b' = PoolCap b"
proof (cases "alive (abs_book b) oid")
  case True
  then obtain x where x: "heap b (id_slot oid) = Some x" "o_id x = oid"
    using id_check(2) [OF rep oid] by blast
  with id_check(1) [OF rep oid] have g: "id_slot oid < PoolCap b" "bk_gens b ! id_slot oid = id_gen oid"
    by blast+
  obtain b' where "unlink_and_release b (id_slot oid) = Some b'" "book_ok b'"
    "abs_book b' = acancel (abs_book b) (o_id x)" "bk_base b' = bk_base b" "NumTicks b' = NumTicks b" "PoolCap b' = PoolCap b"
    by (rule unlink_abs [OF rep x(1)])
  with g x True show ?thesis
    by (intro that [of b']) (auto simp: cancel_def id_slot_def [symmetric] id_gen_def [symmetric])
next
  case False
  then have "PoolCap b \<le> id_slot oid \<or> bk_gens b ! id_slot oid \<noteq> id_gen oid"
    using id_check [OF rep oid] by auto
  then have "cancel b oid = Some (False, b)"
    by (auto simp: cancel_def id_slot_def [symmetric] id_gen_def [symmetric] aget_def Let_def)
  with False show ?thesis using book_ok_rep [OF rep]
    by (intro that [of b]) (simp_all add: acancel_dead)
qed

section \<open>Reducing\<close>

lemma chain_data: "H p = Some x \<Longrightarrow> o_next y = o_next x \<Longrightarrow> o_prev y = o_prev x \<Longrightarrow>
    chain (H(p \<mapsto> y)) pv ps nx = chain H pv ps nx"
  by (induction ps arbitrary: pv) auto

lemma qty_sum_upd:
  assumes "distinct ps" and "p \<in> set ps" and "H p = Some x"
  shows "sum_list (map (qty_at (H(p \<mapsto> y))) ps) = sum_list (map (qty_at H) ps) - o_qty x + o_qty y"
  using assms
proof (induction ps)
  case (Cons q ps)
  show ?case
  proof (cases "q = p")
    case True
    with Cons.prems have "p \<notin> set ps" by auto
    then have "map (qty_at (H(p \<mapsto> y))) ps = map (qty_at H) ps" by (auto simp: qty_at_def)
    then have "sum_list (map (qty_at (H(p \<mapsto> y))) ps) = sum_list (map (qty_at H) ps)" by (simp only:)
    moreover have "qty_at (H(p \<mapsto> y)) p = o_qty y" "qty_at H p = o_qty x"
      using Cons.prems(3) by (simp_all add: qty_at_def)
    ultimately show ?thesis using True by (simp del: fun_upd_apply)
  next
    case False
    with Cons show ?thesis by (simp add: qty_at_def [of _ q] algebra_simps)
  qed
qed simp

text \<open>A smaller (or larger) visible quantity for one resting order.\<close>

lemma set_qty_rep:
  assumes rep: "book_rep b qs" and i: "i < NumTicks b" and pi: "p \<in> set (qs i)"
    and p: "heap b p = Some x" and v: "0 < sint v"
    and P: "P = pool_put (bk_pool b) p (x\<lparr>o_qty := v\<rparr>)"
    and l: "l = (bk_levels b ! i)\<lparr>lv_total_qty := lv_total_qty (bk_levels b ! i) - (o_qty x - v)\<rparr>"
  shows "book_rep (b\<lparr>bk_pool := P, bk_levels := (bk_levels b)[i := l]\<rparr>) qs" (is "book_rep ?b qs")
proof -
  note R = book_repD [OF rep]
  have H: "pool_read P = (heap b)(p \<mapsto> x\<lparr>o_qty := v\<rparr>)" "pool_inv P" "p_capacity P = PoolCap b"
    using P p R(1) by (simp_all add: heap_def shape_def)
  have "level_ok ?b j (qs j)" if j: "j < NumTicks ?b" for j
  proof (cases "j = i")
    case False
    show ?thesis
    proof (rule level_ok_frame)
      show "level_ok b j (qs j)" using R(2) j by simp
      show "heap ?b q = heap b q" if "q \<in> set (qs j)" for q
        using that owned_disjoint [OF R(3) pi, of j] False by (auto simp: H)
    qed (use False in auto)
  next
    case True
    from R(2) [OF i] have L: "level_linked (heap b) (bk_levels b ! i) (qs i)"
      "\<And>q y. q \<in> set (qs i) \<Longrightarrow> heap b q = Some y \<Longrightarrow> order_ok b i q y" by (auto simp: level_ok_def)
    have "level_linked (pool_read P) l (qs i)"
      using L(1) qty_sum_upd [of "qs i" p "heap b" x, OF owned_distinct [OF R(3), of i] pi p] chain_data [of "heap b" p x "x\<lparr>o_qty := v\<rparr>", OF p]
      by (simp add: level_linked_def H l)
    moreover have "order_ok ?b i q y" if "q \<in> set (qs i)" "pool_read P q = Some y" for q y
      using that L(2) [OF that(1)] p v by (cases "q = p") (auto simp: H order_ok_def)
    ultimately show ?thesis using True i by (simp add: level_ok_def)
  qed
  moreover have "(\<exists>y. ((heap b)(p \<mapsto> x\<lparr>o_qty := v\<rparr>)) q = Some y) \<longleftrightarrow> (\<exists>y. heap b q = Some y)" for q
    using p by auto
  then have "owned ?b qs" "gens_ok ?b" using R(3,4) by (simp_all add: owned_def gens_ok_def H)
  moreover have "shape ?b" "marks_ok ?b qs" "best_ok ?b"
    using R(1,5,6) H by (simp_all add: shape_def marks_ok_def best_ok_def)
  ultimately show ?thesis by (simp add: book_rep_def)
qed

lemma idx_of_frame: "idx_of (b\<lparr>bk_pool := P\<rparr>) = idx_of b"
  by (simp add: idx_of_def fun_eq_iff)

lemma areduce_dead: "\<not> alive B oid \<Longrightarrow> areduce B oid q = B"
  by (auto simp: alive_def areduce_def fun_eq_iff filter_id_conv intro!: map_idI)

lemma areduce_all:
  "(\<And>s x. x \<in> set (B s) \<Longrightarrow> a_id x = oid \<Longrightarrow> a_qty x \<le> q) \<Longrightarrow> areduce B oid q = acancel B oid"
  unfolding areduce_def acancel_def
proof (intro ext)
  fix s
  assume le: "\<And>s x. x \<in> set (B s) \<Longrightarrow> a_id x = oid \<Longrightarrow> a_qty x \<le> q"
  have "filter (\<lambda>x. a_id x = oid \<longrightarrow> q < a_qty x) (B s) = filter (\<lambda>x. a_id x \<noteq> oid) (B s)"
    using le by (intro filter_cong refl) fastforce
  then show "map (\<lambda>x. if a_id x = oid then x\<lparr>a_qty := a_qty x - q\<rparr> else x)
      (filter (\<lambda>x. a_id x = oid \<longrightarrow> q < a_qty x) (B s)) = filter (\<lambda>x. a_id x \<noteq> oid) (B s)"
    by (auto intro!: map_idI)
qed

lemma abs_member:
  assumes rep: "book_rep b qs" and y: "y \<in> set (abs_book b s)"
  obtains i p x where "i < NumTicks b" and "p \<in> set (qs i)" and "heap b p = Some x"
    and "y = oview (bk_base b) x" and "o_side x = s"
proof -
  note R = book_repD [OF rep]
  from y obtain i p where ip: "i < NumTicks b" "p \<in> set (qs i)" "i \<in> marked b s"
    "y = oview (bk_base b) (the (heap b p))"
    by (auto simp: abs_book_rep [OF rep] lvl_def cont_def split: if_splits)
  obtain x where x: "heap b p = Some x" using owned_live [OF R(3) ip(2)] by blast
  with R(2) [OF ip(1)] ip(2) have ok: "order_ok b i p x" by (auto simp: level_ok_def)
  from ip(2) have "qs i \<noteq> []" by auto
  then have "i \<in> marked b (o_side x)" using order_marked [OF R(5) _ ok] by blast
  with marks_side [OF R(5) ip(3)] have "o_side x = s" by (cases s; cases "o_side x") auto
  with ip x that show ?thesis by auto
qed

lemma reduce_rep:
  assumes rep: "book_rep b qs" and oid: "issued oid" and q: "0 \<le> sint q"
  obtains r b' where "reduce b oid q = Some (r, b')" and "book_ok b'"
    and "abs_book b' = areduce (abs_book b) oid (sint q)"
    and "\<And>s x. x \<in> set (abs_book b s) \<Longrightarrow> a_id x = oid \<Longrightarrow> sint r = min (sint q) (a_qty x)"
    and "\<not> alive (abs_book b) oid \<Longrightarrow> r = 0 \<and> b' = b"
    and "NumTicks b' = NumTicks b" and "bk_base b' = bk_base b" and "PoolCap b' = PoolCap b"
proof (cases "alive (abs_book b) oid")
  case False
  then have "PoolCap b \<le> id_slot oid \<or> bk_gens b ! id_slot oid \<noteq> id_gen oid"
    using id_check [OF rep oid] by auto
  then have "reduce b oid q = Some (0, b)"
    by (auto simp: reduce_def id_slot_def [symmetric] id_gen_def [symmetric] aget_def Let_def)
  with False show ?thesis using book_ok_rep [OF rep]
    by (intro that [of 0 b]) (auto simp: areduce_dead alive_def)
next
  case True
  note R = book_repD [OF rep]
  let ?p = "id_slot oid"
  obtain x where x: "heap b ?p = Some x" "o_id x = oid" using True id_check(2) [OF rep oid] by blast
  with id_check(1) [OF rep oid] have g: "?p < PoolCap b" "bk_gens b ! ?p = id_gen oid" by blast+
  obtain i us vs where l: "i < NumTicks b" "qs i = us @ ?p # vs" "order_ok b i ?p x"
    by (rule live_level [OF rep x(1)])
  have idx: "idx_of b (o_price x) = i" by (rule order_level [OF R(1) l(1,3)])
  have uniq: "a_qty y = sint (o_qty x)" if "y \<in> set (abs_book b s)" "a_id y = oid" for y s
  proof (rule abs_member [OF rep that(1)])
    fix i' p' x' assume y: "heap b p' = Some x'" "y = oview (bk_base b) x'"
    with live_id_inj [OF rep x(1) y(1)] x that(2) have "p' = ?p" by (auto simp: oview_def)
    with x y show ?thesis by (simp add: oview_def)
  qed
  show ?thesis
  proof (cases "sint q < sint (o_qty x)")
    case less: True
    define v where "v = o_qty x - q"
    have v: "sint v = sint (o_qty x) - sint q" using sint_sub_le [of q "o_qty x"] q less by (simp add: v_def)
    define P where "P = pool_put (bk_pool b) ?p (x\<lparr>o_qty := v\<rparr>)"
    define lev where "lev = (bk_levels b ! i)\<lparr>lv_total_qty := lv_total_qty (bk_levels b ! i) - q\<rparr>"
    let ?b = "b\<lparr>bk_pool := P, bk_levels := (bk_levels b)[i := lev]\<rparr>"
    have rep': "book_rep ?b qs"
      by (rule set_qty_rep [OF rep l(1) _ x(1), of v]) (use l v less in \<open>simp_all add: P_def lev_def v_def\<close>)
    have run: "reduce b oid q = Some (q, ?b)"
      using g x l(1) less idx
      by (simp add: reduce_def id_slot_def [symmetric] id_gen_def [symmetric] exec P_def lev_def v_def
        Let_def idx_of_frame)
    have H: "heap ?b = (heap b)(?p \<mapsto> x\<lparr>o_qty := v\<rparr>)" using x by (simp add: P_def heap_def)
    let ?f = "\<lambda>y. if a_id y = oid then y\<lparr>a_qty := a_qty y - sint q\<rparr> else y"
    have "lvl ?b qs s j = map ?f (lvl b qs s j)" for s j
    proof -
      have "oview (bk_base b) (the (heap ?b r)) = ?f (oview (bk_base b) (the (heap b r)))"
        if rj: "r \<in> set (qs j)" for r
      proof -
        obtain z where z: "heap b r = Some z" using owned_live [OF R(3) rj] by blast
        show ?thesis
        proof (cases "r = ?p")
          case True
          with z x have "z = x" by simp
          then show ?thesis unfolding H using True z x(2) v by (simp add: oview_def)
        next
          case False
          then have "o_id z \<noteq> oid" using live_id_inj [OF rep x(1) z] x(2) by metis
          then show ?thesis unfolding H using False z by (simp add: oview_def)
        qed
      qed
      then show ?thesis by (simp add: lvl_def cont_def)
    qed
    then have "lvl ?b qs s = (\<lambda>j. map ?f (lvl b qs s j))" for s by (intro ext)
    then have "abs_book ?b s = map ?f (abs_book b s)" for s
      by (simp add: abs_book_rep [OF rep] abs_book_rep [OF rep'] map_concat o_def)
    moreover have "filter (\<lambda>y. a_id y = oid \<longrightarrow> sint q < a_qty y) (abs_book b s) = abs_book b s" for s
      using uniq less by (auto simp: filter_id_conv)
    ultimately have "abs_book ?b = areduce (abs_book b) oid (sint q)"
      by (intro ext) (simp add: areduce_def)
    with run rep' True uniq less show ?thesis
      by (intro that [of q ?b]) (auto simp: book_ok_rep)
  next
    case False
    obtain b' where b': "unlink_and_release b ?p = Some b'" "book_ok b'"
      "abs_book b' = acancel (abs_book b) (o_id x)" "bk_base b' = bk_base b" "NumTicks b' = NumTicks b" "PoolCap b' = PoolCap b"
      by (rule unlink_abs [OF rep x(1)])
    have "reduce b oid q = Some (o_qty x, b')"
      using g x False b'(1)
      by (simp add: reduce_def id_slot_def [symmetric] id_gen_def [symmetric] exec)
    moreover have "areduce (abs_book b) oid (sint q) = acancel (abs_book b) oid"
      using uniq False by (intro areduce_all) auto
    ultimately show ?thesis using b' x True uniq False
      by (intro that [of "o_qty x" b']) auto
  qed
qed

end
