(* ===== verification/Book_Match.thy ===== *)
theory Book_Match
  imports Book_Refine
begin

text \<open>
  Matching. \<open>sweep_rep\<close> is the invariant of the loop of \<open>sweep_level\<close>, in which the level is
  in pieces: the orders not yet reached (\<open>xs\<close>, whose first \<open>prev\<close> link and whose level head are
  stale), and the local chain of reloaded icebergs (\<open>re\<close>). One iteration is one step of the
  abstract \<open>amatch\<close>; the splice after the loop puts the pieces back together; and the loop over
  the levels is \<open>amatch\<close> on the whole opposite side.
\<close>

section \<open>The invariant of the sweep\<close>

definition sweep_rep :: "nat \<Rightarrow> (nat \<Rightarrow> nat list) \<Rightarrow> book \<Rightarrow> nat list \<Rightarrow> nat list \<Rightarrow>
    sweep_state \<Rightarrow> bool" where
  "sweep_rep i qs b0 xs re s \<longleftrightarrow>
     shape (s_book s) \<and> best_ok (s_book s) \<and> gens_ok (s_book s) \<and>
     owned (s_book s) (qs(i := xs @ re)) \<and>
     (\<forall>j<NumTicks b0. j \<noteq> i \<longrightarrow> level_ok (s_book s) j (qs j)) \<and>
     (\<forall>j. j \<noteq> i \<longrightarrow> (\<forall>q\<in>set (qs j). heap (s_book s) q = heap b0 q)) \<and>
     bk_bids (s_book s) = bk_bids b0 \<and> bk_asks (s_book s) = bk_asks b0 \<and>
     bk_base (s_book s) = bk_base b0 \<and> NumTicks (s_book s) = NumTicks b0 \<and>
     (\<exists>pv. chain (heap (s_book s)) pv xs None) \<and> chain (heap (s_book s)) None re None \<and>
     s_o s = head_of xs None \<and> s_reload_head s = head_of re None \<and> s_reload_tail s = last_of None re \<and>
     (xs \<noteq> [] \<longrightarrow> lv_tail (bk_levels (s_book s) ! i) = last_of None xs) \<and>
     lv_total_qty (bk_levels (s_book s) ! i) = sum_list (map (qty_at (heap (s_book s))) (xs @ re)) \<and>
     (\<forall>q\<in>set (xs @ re). \<forall>x. heap (s_book s) q = Some x \<longrightarrow> order_ok (s_book s) i q x) \<and>
     PoolCap (s_book s) = PoolCap b0"

lemma sweep_repD:
  assumes "sweep_rep i qs b0 xs re s"
  shows "shape (s_book s)" "best_ok (s_book s)" "gens_ok (s_book s)"
    "owned (s_book s) (qs(i := xs @ re))"
    "\<And>j. j < NumTicks b0 \<Longrightarrow> j \<noteq> i \<Longrightarrow> level_ok (s_book s) j (qs j)"
    "\<And>j q. j \<noteq> i \<Longrightarrow> q \<in> set (qs j) \<Longrightarrow> heap (s_book s) q = heap b0 q"
    "bk_bids (s_book s) = bk_bids b0" "bk_asks (s_book s) = bk_asks b0"
    "bk_base (s_book s) = bk_base b0" "NumTicks (s_book s) = NumTicks b0"
    "\<exists>pv. chain (heap (s_book s)) pv xs None" "chain (heap (s_book s)) None re None"
    "s_o s = head_of xs None" "s_reload_head s = head_of re None" "s_reload_tail s = last_of None re"
    "xs \<noteq> [] \<Longrightarrow> lv_tail (bk_levels (s_book s) ! i) = last_of None xs"
    "lv_total_qty (bk_levels (s_book s) ! i) = sum_list (map (qty_at (heap (s_book s))) (xs @ re))"
    "\<And>q x. q \<in> set (xs @ re) \<Longrightarrow> heap (s_book s) q = Some x \<Longrightarrow> order_ok (s_book s) i q x"
    "PoolCap (s_book s) = PoolCap b0"
  using assms unfolding sweep_rep_def by blast+

lemma sweep_live:
  assumes "sweep_rep i qs b0 xs re s" and "q \<in> set (xs @ re)"
  obtains x where "heap (s_book s) q = Some x"
  using assms owned_live [OF sweep_repD(4), of i qs b0 xs re s q i] by auto

lemma sweep_distinct: "sweep_rep i qs b0 xs re s \<Longrightarrow> distinct (xs @ re)"
  using owned_distinct [OF sweep_repD(4), of i qs b0 xs re s i] by simp

text \<open>A state that differs from a good one at level \<open>i\<close> and at the orders of level \<open>i\<close> only.\<close>

lemma sweep_rep_step:
  assumes S: "sweep_rep i qs b0 xs re s"
    and idx: "bk_bids (s_book s') = bk_bids (s_book s)" "bk_asks (s_book s') = bk_asks (s_book s)"
      "bk_best_bid (s_book s') = bk_best_bid (s_book s)" "bk_best_ask (s_book s') = bk_best_ask (s_book s)"
      "bk_base (s_book s') = bk_base (s_book s)" "PoolCap (s_book s') = PoolCap (s_book s)"
      "bk_levels (s_book s') = (bk_levels (s_book s))[i := l]"
    and pool: "pool_inv (bk_pool (s_book s'))" "p_capacity (bk_pool (s_book s')) = p_capacity (bk_pool (s_book s))"
    and far: "\<And>q. q \<notin> set (xs @ re) \<Longrightarrow> heap (s_book s') q = heap (s_book s) q"
      "\<And>q. q \<notin> set (xs @ re) \<Longrightarrow> bk_gens (s_book s') ! q = bk_gens (s_book s) ! q"
    and sub: "set (xs' @ re') \<subseteq> set (xs @ re)" "distinct (xs' @ re')"
    and live: "\<And>q. q \<in> set (xs @ re) \<Longrightarrow> heap (s_book s') q \<noteq> None \<longleftrightarrow> q \<in> set (xs' @ re')"
    and gens: "gens_ok (s_book s')"
    and ch: "chain (heap (s_book s')) pv xs' None" "chain (heap (s_book s')) None re' None"
      "s_o s' = head_of xs' None" "s_reload_head s' = head_of re' None" "s_reload_tail s' = last_of None re'"
    and lev: "xs' \<noteq> [] \<longrightarrow> lv_tail l = last_of None xs'"
      "lv_total_qty l = sum_list (map (qty_at (heap (s_book s'))) (xs' @ re'))"
    and ord: "\<And>q x. q \<in> set (xs' @ re') \<Longrightarrow> heap (s_book s') q = Some x \<Longrightarrow> order_ok (s_book s') i q x"
    and i: "i < NumTicks b0"
  shows "sweep_rep i qs b0 xs' re' s'"
proof -
  note D = sweep_repD [OF S]
  have n: "NumTicks (s_book s') = NumTicks b0" using idx(7) D(10) length_book(1) [of "s_book s'"] by simp
  have dis: "q \<notin> set (xs @ re)" if "j \<noteq> i" "q \<in> set (qs j)" for j q
    using that owned_disjoint [OF D(4), of q j i] by simp
  have lv: "level_ok (s_book s') j (qs j)" if j: "j < NumTicks b0" "j \<noteq> i" for j
  proof (rule level_ok_frame)
    show "level_ok (s_book s) j (qs j)" by (rule D(5) [OF j])
    show "heap (s_book s') q = heap (s_book s) q" if "q \<in> set (qs j)" for q
      using far(1) [OF dis [OF j(2) that]] .
    show "bk_gens (s_book s') ! q = bk_gens (s_book s) ! q" if "q \<in> set (qs j)" for q
      using far(2) [OF dis [OF j(2) that]] .
  qed (use idx j in auto)
  have own: "owned (s_book s') (qs(i := xs' @ re'))"
  proof -
    have "heap (s_book s') q \<noteq> None \<longleftrightarrow> (\<exists>j. q \<in> set ((qs(i := xs' @ re')) j))" for q
    proof (cases "q \<in> set (xs @ re)")
      case True
      then have "q \<notin> set (qs j)" if "j \<noteq> i" for j using dis [OF that] by blast
      with live [OF True] show ?thesis by (auto split: if_splits)
    next
      case False
      have "heap (s_book s) q \<noteq> None \<longleftrightarrow> (\<exists>j. q \<in> set ((qs(i := xs @ re)) j))"
        using D(4) unfolding owned_def by blast
      also have "\<dots> \<longleftrightarrow> (\<exists>j. j \<noteq> i \<and> q \<in> set (qs j))" using False by auto
      also have "\<dots> \<longleftrightarrow> (\<exists>j. q \<in> set ((qs(i := xs' @ re')) j))" using False sub(1) by auto
      finally show ?thesis using far(1) [OF False] by simp
    qed
    moreover have "j = k" if "q \<in> set ((qs(i := xs' @ re')) j)" "q \<in> set ((qs(i := xs' @ re')) k)" for q j k
    proof -
      have "q \<in> set ((qs(i := xs @ re)) j)" "q \<in> set ((qs(i := xs @ re)) k)"
        using that sub(1) by (auto split: if_splits)
      with D(4) show ?thesis unfolding owned_def by blast
    qed
    moreover have "distinct ((qs(i := xs' @ re')) j)" for j
      using sub(2) owned_distinct [OF D(4), of j] by (cases "j = i") auto
    ultimately show ?thesis unfolding owned_def by blast
  qed
  have "shape (s_book s')" "best_ok (s_book s')"
    using D(1,2) idx pool n D(10) by (simp_all add: shape_def best_ok_def)
  moreover have "bk_levels (s_book s') ! i = l" using idx(7) i D(10) by simp
  moreover have "heap (s_book s') q = heap b0 q" if "j \<noteq> i" "q \<in> set (qs j)" for j q
    using far(1) [OF dis [OF that]] D(6) [OF that] by simp
  ultimately show ?thesis
    using gens own lv D(7-10,19) idx n ch lev ord unfolding sweep_rep_def by auto
qed

section \<open>One iteration\<close>

lemma gens_upd_live:
  "gens_ok b \<Longrightarrow> (\<And>q. heap b' q = None \<longleftrightarrow> heap b q = None) \<Longrightarrow> bk_gens b' = bk_gens b \<Longrightarrow>
   PoolCap b' = PoolCap b \<Longrightarrow> gens_ok b'"
  by (simp add: gens_ok_def)

lemma fill_eq: "sint (o_qty x) \<le> sint q \<Longrightarrow> (if sint (o_qty x) < sint q then o_qty x else q) = o_qty x"
  using signed_word_eqI [where ?'a = int, of "o_qty x" q] by auto

lemma sweep_partial:
  assumes S: "sweep_rep i qs b0 (p # xs) re s" and i: "i < NumTicks b0"
    and p: "heap (s_book s) p = Some x" and q: "0 < sint (s_qty s)" "sint (s_qty s) < sint (o_qty x)"
    and P: "P = pool_put (bk_pool (s_book s)) p (x\<lparr>o_qty := o_qty x - s_qty s\<rparr>)"
    and l: "l = (bk_levels (s_book s) ! i)
      \<lparr>lv_total_qty := lv_total_qty (bk_levels (s_book s) ! i) - s_qty s\<rparr>"
    and s': "s' = s\<lparr>s_book := (s_book s)\<lparr>bk_pool := P, bk_levels := (bk_levels (s_book s))[i := l]\<rparr>,
      s_qty := 0, s_trades := s_trades s @ [\<lparr>maker_id = o_id x, taker_id = 0, t_price = px, t_qty = s_qty s\<rparr>]\<rparr>"
  shows "sweep_step px i s = Some s'" and "sweep_rep i qs b0 (p # xs) re s'"
proof -
  note D = sweep_repD [OF S]
  let ?b = "s_book s"
  have d: "distinct (p # xs @ re)" using sweep_distinct [OF S] by simp
  have v: "sint (o_qty x - s_qty s) = sint (o_qty x) - sint (s_qty s)"
    using q sint_sub_le [of "s_qty s" "o_qty x"] by simp
  then have nz: "o_qty x - s_qty s \<noteq> 0" using q sint_zero_iff [of "o_qty x - s_qty s"] by auto
  have H: "pool_read P = (heap ?b)(p \<mapsto> x\<lparr>o_qty := o_qty x - s_qty s\<rparr>)" "pool_inv P"
    "p_capacity P = p_capacity (bk_pool ?b)"
    using P p D(1) by (simp_all add: heap_def shape_def)
  show "sweep_step px i s = Some s'"
    using D(10,13) i p q nz by (simp add: sweep_step_def exec Let_def s' P l)
      (simp add: heap_def)
  obtain pv where pv: "chain (heap ?b) pv (p # xs) None" using D(11) by blast
  have cd: "chain (pool_read P) pv' ps nx = chain (heap ?b) pv' ps nx" for pv' ps nx
    unfolding H(1) by (rule chain_data [of "heap ?b" p x, OF p]) simp_all
  show "sweep_rep i qs b0 (p # xs) re s'"
  proof (rule sweep_rep_step [OF S, where l = l and pv = pv])
    show "gens_ok (s_book s')"
      by (rule gens_upd_live [OF D(3)]) (use p in \<open>auto simp: s' H(1)\<close>)
    show "lv_total_qty l = sum_list (map (qty_at (heap (s_book s'))) ((p # xs) @ re))"
      using qty_sum_upd [of "(p # xs) @ re" p "heap ?b" x] d p D(17)
      by (simp add: s' H(1) l del: fun_upd_apply)
    show "order_ok (s_book s') i r y" if "r \<in> set ((p # xs) @ re)" "heap (s_book s') r = Some y" for r y
      using that D(18) [OF that(1)] p v q by (cases "r = p") (auto simp: s' H(1) order_ok_def)
    show "heap (s_book s') r \<noteq> None \<longleftrightarrow> r \<in> set ((p # xs) @ re)" if "r \<in> set ((p # xs) @ re)" for r
      using that sweep_live [OF S that] by (auto simp: s' H(1))
  qed (use i d D H pv cd in \<open>auto simp: s' l simp del: chain.simps\<close>)
qed

text \<open>The maker is used up and has no reserve: its id dies and its slot returns to the arena.\<close>

lemma sweep_remove:
  assumes S: "sweep_rep i qs b0 (p # xs) re s" and i: "i < NumTicks b0"
    and p: "heap (s_book s) p = Some x" and q: "0 < sint (s_qty s)" "sint (o_qty x) \<le> sint (s_qty s)"
    and h: "sint (o_hidden_qty x) \<le> 0"
    and P: "P = pool_free (pool_put (bk_pool (s_book s)) p (x\<lparr>o_qty := 0\<rparr>)) p"
    and l: "l = (bk_levels (s_book s) ! i)
      \<lparr>lv_total_qty := lv_total_qty (bk_levels (s_book s) ! i) - o_qty x\<rparr>"
    and s': "s' = s\<lparr>s_book := (s_book s)\<lparr>bk_levels := (bk_levels (s_book s))[i := l],
        bk_gens := (bk_gens (s_book s))[p := bk_gens (s_book s) ! p + 1], bk_pool := P\<rparr>,
      s_o := head_of xs None, s_qty := s_qty s - o_qty x,
      s_trades := s_trades s @ [\<lparr>maker_id = o_id x, taker_id = 0, t_price = px, t_qty = o_qty x\<rparr>]\<rparr>"
  shows "sweep_step px i s = Some s'" and "sweep_rep i qs b0 xs re s'"
proof -
  note D = sweep_repD [OF S]
  let ?b = "s_book s"
  have d: "distinct (p # xs @ re)" using sweep_distinct [OF S] by simp
  have pc: "p < PoolCap ?b" by (rule heap_slot [OF D(1) p])
  have rp: "pool_read (bk_pool ?b) p = Some x" using p by (simp add: heap_def)
  obtain pv where pv: "chain (heap ?b) pv (p # xs) None" using D(11) by blast
  with p have x: "o_next x = head_of xs None" and ch: "chain (heap ?b) (Some p) xs None" by auto
  have H: "pool_read P = (heap ?b)(p := None)" "pool_inv P" "p_capacity P = p_capacity (bk_pool ?b)"
    using P p D(1) by (simp_all add: heap_def shape_def)
  show "sweep_step px i s = Some s'"
    using D(10,13) i p rp pc h x
    by (simp add: sweep_step_def exec Let_def s' P l fill_eq [OF q(2)] split del: if_split)
  show "sweep_rep i qs b0 xs re s'"
  proof (rule sweep_rep_step [OF S, where l = l and pv = "Some p"])
    show "gens_ok (s_book s')"
      using D(3) p pc by (auto simp: gens_ok_def s' H(1) nth_list_update)
    have "map (qty_at (heap (s_book s'))) (xs @ re) = map (qty_at (heap ?b)) (xs @ re)"
      unfolding map_eq_conv using d by (auto simp: s' H(1) qty_at_def)
    then have "sum_list (map (qty_at (heap (s_book s'))) (xs @ re)) = sum_list (map (qty_at (heap ?b)) (xs @ re))"
      by (simp only:)
    then show "lv_total_qty l = sum_list (map (qty_at (heap (s_book s'))) (xs @ re))"
      using p D(17) by (simp add: l qty_at_def [of _ p])
    show "order_ok (s_book s') i r y" if "r \<in> set (xs @ re)" "heap (s_book s') r = Some y" for r y
    proof -
      have "r \<noteq> p" using that(1) d by auto
      then show ?thesis using that D(18) [of r y] by (auto simp: s' H(1) order_ok_def)
    qed
    show "heap (s_book s') r \<noteq> None \<longleftrightarrow> r \<in> set (xs @ re)" if "r \<in> set ((p # xs) @ re)" for r
      using that d sweep_live [OF S that] by (auto simp: s' H(1))
  qed (use i d D H ch in \<open>auto simp: s' l last_of_last\<close>)
qed

text \<open>The maker reloads from its reserve and joins the local chain.\<close>

lemma sweep_reload:
  assumes S: "sweep_rep i qs b0 (p # xs) re s" and i: "i < NumTicks b0"
    and p: "heap (s_book s) p = Some x" and q: "0 < sint (s_qty s)" "sint (o_qty x) \<le> sint (s_qty s)"
    and h: "0 < sint (o_hidden_qty x)"
    and f: "f = (if sint (o_display_qty x) < sint (o_hidden_qty x) then o_display_qty x else o_hidden_qty x)"
    and x2: "x2 = x\<lparr>o_qty := f, o_hidden_qty := o_hidden_qty x - f, o_next := None, o_prev := last_of None re\<rparr>"
  obtains s' where "sweep_step px i s = Some s'" and "sweep_rep i qs b0 xs (re @ [p]) s'"
    and "s_qty s' = s_qty s - o_qty x"
    and "s_trades s' = s_trades s @ [\<lparr>maker_id = o_id x, taker_id = 0, t_price = px, t_qty = o_qty x\<rparr>]"
    and "relinked (set re) ((heap (s_book s))(p \<mapsto> x2)) (heap (s_book s'))"
proof -
  note D = sweep_repD [OF S]
  let ?b = "s_book s" and ?x1 = "x\<lparr>o_qty := f, o_hidden_qty := o_hidden_qty x - f\<rparr>"
  have d: "distinct (p # xs @ re)" using sweep_distinct [OF S] by simp
  have rp: "pool_read (bk_pool ?b) p = Some x" using p by (simp add: heap_def)
  obtain pv where pv: "chain (heap ?b) pv (p # xs) None" using D(11) by blast
  with p have x: "o_next x = head_of xs None" and ch: "chain (heap ?b) (Some p) xs None" by auto
  have ok: "order_ok ?b i p x" using D(18) [of p x] p by simp
  have dis: "0 < sint (o_display_qty x)" using ok h by (auto simp: order_ok_def)
  have fh: "0 < sint f" "sint (o_hidden_qty x - f) = sint (o_hidden_qty x) - sint f"
    "0 \<le> sint (o_hidden_qty x) - sint f"
    using h dis sint_sub_le [of f "o_hidden_qty x"] by (auto simp: f)
  define P1 where "P1 = pool_put (pool_put (pool_put (bk_pool ?b) p (x\<lparr>o_qty := 0\<rparr>)) p ?x1) p x2"
  define l where "l = (bk_levels ?b ! i)
    \<lparr>lv_total_qty := lv_total_qty (bk_levels ?b ! i) - o_qty x + f\<rparr>"
  have P1: "pool_read P1 = (heap ?b)(p \<mapsto> x2)" "pool_inv P1" "p_capacity P1 = p_capacity (bk_pool ?b)"
    using p rp D(1) by (simp_all add: P1_def heap_def shape_def)
  obtain P where P: "(case last_of None re of
        Some r \<Rightarrow> update_order (?b\<lparr>bk_levels := (bk_levels ?b)[i := l], bk_pool := P1\<rparr>) r (\<lambda>y. y\<lparr>o_next := Some p\<rparr>)
      | None \<Rightarrow> Some (?b\<lparr>bk_levels := (bk_levels ?b)[i := l], bk_pool := P1\<rparr>)) =
      Some (?b\<lparr>bk_levels := (bk_levels ?b)[i := l], bk_pool := P\<rparr>)"
    "pool_inv P" "p_capacity P = p_capacity (bk_pool ?b)" "chain (pool_read P) None re (Some p)"
    "relinked (set re) (pool_read P1) (pool_read P)"
  proof (cases "re = []")
    case True then show ?thesis using P1 that [of P1] by simp
  next
    case False
    then obtain r where r: "last_of None re = Some r" "r \<in> set re"
      by (metis last_of_last last_in_set)
    with d have rn: "r \<noteq> p" by auto
    obtain y where y: "heap ?b r = Some y" using sweep_live [OF S, of r] r by auto
    let ?P = "pool_put P1 r (y\<lparr>o_next := Some p\<rparr>)"
    have "chain (pool_read P1) None re None" using D(12) d by (simp add: P1)
    then have "chain ((pool_read P1)(r \<mapsto> y\<lparr>o_next := Some p\<rparr>)) None re (Some p)"
      using d r rn y by (intro chain_set_next) (simp_all add: P1)
    then show ?thesis using P1 r rn y that [of ?P]
      by (simp add: update_order_exec relinked_upd)
  qed
  define s' where "s' = s\<lparr>s_book := ?b\<lparr>bk_levels := (bk_levels ?b)[i := l], bk_pool := P\<rparr>,
    s_o := head_of xs None, s_qty := s_qty s - o_qty x,
    s_reload_head := (if last_of None re = None then Some p else s_reload_head s),
    s_reload_tail := Some p,
    s_trades := s_trades s @ [\<lparr>maker_id = o_id x, taker_id = 0, t_price = px, t_qty = o_qty x\<rparr>]\<rparr>"
  have run: "sweep_step px i s = Some s'"
    using D(10,13,15) i p rp h x P(1)
    by (cases "last_of None re")
      (simp_all add: sweep_step_def load_heap update_order_exec [of ?b p x] update_order_exec [where p = p]
        update_level_exec Let_def s'_def P1_def x2 l_def f [symmetric] fill_eq [OF q(2)] cong: if_cong split del: if_split)
  have live: "heap (s_book s') r = None \<longleftrightarrow> heap ?b r = None" for r
    using relinked_None [OF P(5), of r] p by (auto simp: s'_def P1)
  have Pp: "pool_read P p = Some x2" using P(5) d by (simp add: relinked_def P1)
  have "sweep_rep i qs b0 xs (re @ [p]) s'"
  proof (rule sweep_rep_step [OF S, where l = l and pv = "Some p"])
    show "gens_ok (s_book s')" by (rule gens_upd_live [OF D(3) live]) (simp_all add: s'_def)
    have "sum_list (map (qty_at (heap (s_book s'))) (xs @ re @ [p])) =
        sum_list (map (qty_at ((heap ?b)(p \<mapsto> x2))) (p # xs @ re))"
      using relinked_qty [OF P(5)] by (simp add: s'_def P1 del: fun_upd_apply)
    also have "\<dots> = sum_list (map (qty_at (heap ?b)) (p # xs @ re)) - o_qty x + f"
      using qty_sum_upd [of "p # xs @ re" p "heap ?b" x x2] d p by (simp add: x2 del: fun_upd_apply)
    finally show "lv_total_qty l = sum_list (map (qty_at (heap (s_book s'))) (xs @ re @ [p]))"
      using D(17) by (simp add: l_def)
    show "order_ok (s_book s') i r y" if "r \<in> set (xs @ re @ [p])" "heap (s_book s') r = Some y" for r y
    proof -
      from that(2) P(5) obtain z where z: "pool_read P1 r = Some z" "strip y = strip z"
        by (auto simp: s'_def elim: relinked_Some)
      have "order_ok (s_book s') i r z"
      proof (cases "r = p")
        case True
        with z have "z = x2" by (simp add: P1)
        with True ok fh dis show ?thesis by (simp add: order_ok_def s'_def x2)
      next
        case False
        with z have "heap ?b r = Some z" by (simp add: P1)
        with that(1) False D(18) [of r z] show ?thesis by (auto simp: order_ok_def s'_def)
      qed
      with z(2) order_ok_strip [of y z] show ?thesis by simp
    qed
    show "heap (s_book s') r \<noteq> None \<longleftrightarrow> r \<in> set (xs @ re @ [p])" if "r \<in> set ((p # xs) @ re)" for r
      using that live [of r] sweep_live [OF S that] by auto
    show "heap (s_book s') r = heap ?b r" if "r \<notin> set ((p # xs) @ re)" for r
      using that P(5) by (simp add: relinked_def s'_def P1)
    show "chain (heap (s_book s')) (Some p) xs None"
    proof -
      have "chain (pool_read P) (Some p) xs None = chain (heap ?b) (Some p) xs None"
        using P(5) d by (intro chain_cong) (auto simp: relinked_def P1)
      with ch show ?thesis by (simp add: s'_def)
    qed
    show "chain (heap (s_book s')) None (re @ [p]) None"
      using P(4) Pp by (simp add: chain_append s'_def x2)
    show "s_reload_head s' = head_of (re @ [p]) None" using D(14) by (cases "re = []") (auto simp: s'_def head_of_hd)
  qed (use i d D P in \<open>auto simp: s'_def l_def last_of_last\<close>)
  with run P(5) show ?thesis by (intro that [of s']) (simp_all add: s'_def P1)
qed

section \<open>The loop over one level\<close>

definition atrade_of :: "price \<Rightarrow> trade \<Rightarrow> atrade" where
  "atrade_of base t = (maker_id t, unat (t_price t - base), sint (t_qty t))"

text \<open>Trades in front of an abstract result.\<close>

definition after :: "atrade list \<Rightarrow> int \<times> aorder list \<times> atrade list \<Rightarrow> int \<times> aorder list \<times> atrade list" where
  "after us r = (fst r, fst (snd r), us @ snd (snd r))"

lemma after_simps [simp]: "after [] r = r" "after us (after vs r) = after (us @ vs) r"
  "fst (after us r) = fst r"
  by (simp_all add: after_def)

lemma amatch_step:
  "0 < q \<Longrightarrow> meets s lim (a_tick x) \<Longrightarrow> 0 < a_qty x \<Longrightarrow> f = min q (a_qty x) \<Longrightarrow>
   amatch s lim q (x # L) = after [(a_id x, a_tick x, f)] (amatch s lim (q - f) (afilled (opposite s) f x L))"
  by (simp add: after_def Let_def split: prod.splits)

lemma cont_upd_other: "p \<notin> set ps \<Longrightarrow> cont base (H(p := v)) ps = cont base H ps"
  by (rule cont_cong) auto

lemma sweep_step_abs:
  assumes S: "sweep_rep i qs b0 (p # xs) re s" and i: "i < NumTicks b0" and q: "0 < sint (s_qty s)"
    and px: "px = bk_base b0 + word_of_nat i" and lim: "meets tk lim i"
  obtains s' xs' re' t where "sweep_step px i s = Some s'" and "sweep_rep i qs b0 xs' re' s'"
    and "length xs' < length (p # xs) \<or> sint (s_qty s') = 0"
    and "0 \<le> sint (s_qty s')" and "sint (s_qty s') < sint (s_qty s)" and "s_trades s' = s_trades s @ [t]"
    and "\<And>C. \<forall>y\<in>set C. \<not> ahead (opposite tk) (a_tick y) i \<Longrightarrow>
      amatch tk lim (sint (s_qty s)) (cont (bk_base b0) (heap (s_book s)) ((p # xs) @ re) @ C) =
      after [atrade_of (bk_base b0) t]
        (amatch tk lim (sint (s_qty s')) (cont (bk_base b0) (heap (s_book s')) (xs' @ re') @ C))"
proof -
  note D = sweep_repD [OF S]
  let ?base = "bk_base b0" and ?H = "heap (s_book s)"
  obtain x where x: "?H p = Some x" using sweep_live [OF S] by auto
  have ok: "order_ok (s_book s) i p x" using D(18) [of p x] x by simp
  have d: "distinct (p # xs @ re)" using sweep_distinct [OF S] by simp
  let ?f = "min (sint (s_qty s)) (sint (o_qty x))" and ?a = "oview ?base x"
  have tick: "unat (word_of_nat i :: u64) = i"
    using NumTicks_64 [OF D(1), of i] i D(10) by (simp add: unat_of_nat_small)
  have a: "a_id ?a = o_id x" "a_tick ?a = i" "a_qty ?a = sint (o_qty x)"
    "a_hidden ?a = sint (o_hidden_qty x)" "a_display ?a = sint (o_display_qty x)"
    using ok tick D(9) by (simp_all add: oview_def order_ok_def)
  have pos: "0 < sint (o_qty x)" using ok by (simp add: order_ok_def)
  have am: "amatch tk lim (sint (s_qty s)) (cont ?base ?H ((p # xs) @ re) @ C) =
      after [(o_id x, i, ?f)] (amatch tk lim (sint (s_qty s) - ?f)
        (afilled (opposite tk) ?f ?a (cont ?base ?H (xs @ re) @ C)))" for C
  proof -
    have e: "cont ?base ?H ((p # xs) @ re) @ C = ?a # (cont ?base ?H (xs @ re) @ C)" by (simp add: x)
    show ?thesis unfolding e
      by (rule amatch_step [of "sint (s_qty s)" tk lim ?a ?f, unfolded a, OF q lim pos refl])
  qed
  show ?thesis
  proof (cases "sint (s_qty s) < sint (o_qty x)")
    case True
    define P where "P = pool_put (bk_pool (s_book s)) p (x\<lparr>o_qty := o_qty x - s_qty s\<rparr>)"
    define l where "l = (bk_levels (s_book s) ! i)
      \<lparr>lv_total_qty := lv_total_qty (bk_levels (s_book s) ! i) - s_qty s\<rparr>"
    define t where "t = \<lparr>maker_id = o_id x, taker_id = 0, t_price = px, t_qty = s_qty s\<rparr>"
    define s' where "s' = s\<lparr>s_book := (s_book s)\<lparr>bk_pool := P, bk_levels := (bk_levels (s_book s))[i := l]\<rparr>,
      s_qty := 0, s_trades := s_trades s @ [t]\<rparr>"
    note R = sweep_partial [OF S i x q True P_def l_def s'_def [unfolded t_def]]
    have v: "sint (o_qty x - s_qty s) = sint (o_qty x) - sint (s_qty s)"
      using q True sint_sub_le [of "s_qty s" "o_qty x"] by simp
    have "heap (s_book s') = ?H(p \<mapsto> x\<lparr>o_qty := o_qty x - s_qty s\<rparr>)"
      using x by (simp add: s'_def P_def heap_def)
    then have "cont ?base (heap (s_book s')) ((p # xs) @ re) = ?a\<lparr>a_qty := a_qty ?a - ?f\<rparr> # cont ?base ?H (xs @ re)"
      using d True v cont_upd_other [of p "xs @ re" ?base ?H] by (simp add: oview_def)
    then have "cont ?base (heap (s_book s')) ((p # xs) @ re) @ C =
        afilled (opposite tk) ?f ?a (cont ?base ?H (xs @ re) @ C)" for C
      using True a by (simp add: afilled_def)
    moreover have "atrade_of ?base t = (o_id x, i, ?f)"
      using True px tick by (simp add: atrade_of_def t_def)
    moreover have "sint (s_qty s') = sint (s_qty s) - ?f" "s_trades s' = s_trades s @ [t]"
      using True by (simp_all add: s'_def)
    ultimately show ?thesis using that [OF R] am q True by simp
  next
    case False
    then have ge: "sint (o_qty x) \<le> sint (s_qty s)" by simp
    define t where "t = \<lparr>maker_id = o_id x, taker_id = 0, t_price = px, t_qty = o_qty x\<rparr>"
    have t: "atrade_of ?base t = (o_id x, i, ?f)" using ge px tick by (simp add: atrade_of_def t_def)
    have v: "sint (s_qty s - o_qty x) = sint (s_qty s) - ?f"
      using pos ge sint_sub_le [of "o_qty x" "s_qty s"] by simp
    show ?thesis
    proof (cases "0 < sint (o_hidden_qty x)")
      case True
      define f where "f = (if sint (o_display_qty x) < sint (o_hidden_qty x) then o_display_qty x else o_hidden_qty x)"
      define x2 where "x2 = x\<lparr>o_qty := f, o_hidden_qty := o_hidden_qty x - f, o_next := None, o_prev := last_of None re\<rparr>"
      have dis: "0 < sint (o_display_qty x)" using ok True by (auto simp: order_ok_def)
      obtain s' where s': "sweep_step px i s = Some s'" "sweep_rep i qs b0 xs (re @ [p]) s'"
        "s_qty s' = s_qty s - o_qty x" "s_trades s' = s_trades s @ [t]"
        "relinked (set re) (?H(p \<mapsto> x2)) (heap (s_book s'))"
        by (rule sweep_reload [OF S i x q ge True f_def x2_def, of px]) (simp add: t_def)
      have "sint f = min (a_display ?a) (a_hidden ?a)" using a by (auto simp: f_def)
      moreover have "sint (o_hidden_qty x - f) = sint (o_hidden_qty x) - sint f"
        using dis True sint_sub_le [of f "o_hidden_qty x"] by (auto simp: f_def)
      ultimately have x2: "oview ?base x2 = areload ?a" using a
        by (simp add: areload_def Let_def oview_def x2_def)
      have nn: "(?H(p \<mapsto> x2)) r \<noteq> None" if "r \<in> set (xs @ re @ [p])" for r
      proof (cases "r = p")
        case False
        with that obtain y where "?H r = Some y" using sweep_live [OF S, of r] by auto
        with False show ?thesis by simp
      qed simp
      have "cont ?base (heap (s_book s')) (xs @ re @ [p]) = cont ?base (?H(p \<mapsto> x2)) (xs @ re @ [p])"
        by (rule cont_relinked [OF s'(5) nn])
      also have "\<dots> = cont ?base ?H (xs @ re) @ [areload ?a]"
        using d x2 cont_upd_other [of p xs] cont_upd_other [of p re] by simp
      finally have c': "cont ?base (heap (s_book s')) (xs @ re @ [p]) = cont ?base ?H (xs @ re) @ [areload ?a]" .
      have ticks: "\<forall>y\<in>set (cont ?base ?H (xs @ re)). a_tick y = i"
      proof -
        have "a_tick (oview ?base (the (?H r))) = i" if r: "r \<in> set (xs @ re)" for r
        proof -
          from r obtain y where y: "?H r = Some y" using sweep_live [OF S, of r] by auto
          with r D(18) [of r y] have "order_ok (s_book s) i r y" by auto
          with y tick D(9) show ?thesis by (simp add: oview_def order_ok_def)
        qed
        then show ?thesis by (auto simp: cont_def)
      qed
      have "afilled (opposite tk) ?f ?a (cont ?base ?H (xs @ re) @ C) =
          cont ?base (heap (s_book s')) (xs @ re @ [p]) @ C"
        if "\<forall>y\<in>set C. \<not> ahead (opposite tk) (a_tick y) i" for C
      proof -
        have "ainsert (opposite tk) (areload ?a) (cont ?base ?H (xs @ re) @ C) =
            cont ?base ?H (xs @ re) @ areload ?a # C"
          using ticks that a by (intro ainsert_split) auto
        then show ?thesis using ge a True unfolding c' by (simp add: afilled_def)
      qed
      then show ?thesis
        using that [OF s'(1,2) _ _ _ s'(4)] am t v s'(3) pos ge q by auto
    next
      case hid: False
      define P where "P = pool_free (pool_put (bk_pool (s_book s)) p (x\<lparr>o_qty := 0\<rparr>)) p"
      define l where "l = (bk_levels (s_book s) ! i)
        \<lparr>lv_total_qty := lv_total_qty (bk_levels (s_book s) ! i) - o_qty x\<rparr>"
      define s' where "s' = s\<lparr>s_book := (s_book s)\<lparr>bk_levels := (bk_levels (s_book s))[i := l],
          bk_gens := (bk_gens (s_book s))[p := bk_gens (s_book s) ! p + 1], bk_pool := P\<rparr>,
        s_o := head_of xs None, s_qty := s_qty s - o_qty x, s_trades := s_trades s @ [t]\<rparr>"
      from hid have "sint (o_hidden_qty x) \<le> 0" by simp
      note R = sweep_remove [OF S i x q ge this P_def l_def s'_def [unfolded t_def]]
      have "heap (s_book s') = ?H(p := None)"
        using x by (simp add: s'_def P_def heap_def)
      then have "cont ?base (heap (s_book s')) (xs @ re) = cont ?base ?H (xs @ re)"
        using d cont_upd_other [of p "xs @ re"] by simp
      then have "cont ?base (heap (s_book s')) (xs @ re) @ C =
          afilled (opposite tk) ?f ?a (cont ?base ?H (xs @ re) @ C)" for C
        using ge a hid by (simp add: afilled_def)
      moreover have "s_qty s' = s_qty s - o_qty x" "s_trades s' = s_trades s @ [t]"
        by (simp_all add: s'_def)
      ultimately show ?thesis using that [OF R] am t v pos ge q by simp
    qed
  qed
qed

lemma sweep_loop_abs:
  assumes "sweep_rep i qs b0 xs re s" and i: "i < NumTicks b0" and q: "0 \<le> sint (s_qty s)"
    and px: "px = bk_base b0 + word_of_nat i" and lim: "meets tk lim i"
  shows "\<exists>s' xs' re' ts. sweep_loop px i s = Some s' \<and> sweep_rep i qs b0 xs' re' s' \<and>
    (xs' = [] \<or> s_qty s' = 0) \<and> 0 \<le> sint (s_qty s') \<and>
    (xs \<noteq> [] \<longrightarrow> 0 < sint (s_qty s) \<longrightarrow> ts \<noteq> [] \<and> sint (s_qty s') < sint (s_qty s)) \<and>
    sint (s_qty s') \<le> sint (s_qty s) \<and> s_trades s' = s_trades s @ ts \<and>
    (\<forall>C. (\<forall>y\<in>set C. \<not> ahead (opposite tk) (a_tick y) i) \<longrightarrow>
      amatch tk lim (sint (s_qty s)) (cont (bk_base b0) (heap (s_book s)) (xs @ re) @ C) =
      after (map (atrade_of (bk_base b0)) ts)
        (amatch tk lim (sint (s_qty s')) (cont (bk_base b0) (heap (s_book s')) (xs' @ re') @ C)))"
  using assms(1) q
proof (induction "length xs + (if 0 < sint (s_qty s) then 1 else 0)" arbitrary: xs re s rule: less_induct)
  case less
  note D = sweep_repD [OF less.prems(1)]
  show ?case
  proof (cases "xs \<noteq> [] \<and> 0 < sint (s_qty s)")
    case False
    then have "xs = [] \<or> s_qty s = 0" using less.prems(2) sint_zero_iff [of "s_qty s"] by force
    moreover have "sweep_loop px i s = Some s"
      using False D(13) by (subst sweep_loop.simps) auto
    ultimately show ?thesis using less.prems False
      by (intro exI [of _ s] exI [of _ xs] exI [of _ re] exI [of _ "[]"]) auto
  next
    case True
    then obtain p ps where xs: "xs = p # ps" by (cases xs) auto
    obtain s1 xs1 re1 t where 1: "sweep_step px i s = Some s1" "sweep_rep i qs b0 xs1 re1 s1"
      "length xs1 < length xs \<or> sint (s_qty s1) = 0"
      "0 \<le> sint (s_qty s1)" "sint (s_qty s1) < sint (s_qty s)" "s_trades s1 = s_trades s @ [t]"
      "\<And>C. \<forall>y\<in>set C. \<not> ahead (opposite tk) (a_tick y) i \<Longrightarrow>
        amatch tk lim (sint (s_qty s)) (cont (bk_base b0) (heap (s_book s)) (xs @ re) @ C) =
        after [atrade_of (bk_base b0) t]
          (amatch tk lim (sint (s_qty s1)) (cont (bk_base b0) (heap (s_book s1)) (xs1 @ re1) @ C))"
      unfolding xs
      by (rule sweep_step_abs [OF less.prems(1) [unfolded xs] i _ px lim]) (use True in blast)+
    have run: "sweep_loop px i s = sweep_loop px i s1"
      using True D(13) xs 1(1) by (subst sweep_loop.simps) simp
    show ?thesis
    proof (cases "sint (s_qty s1) = 0")
      case True
      then have z: "s_qty s1 = 0" by (simp add: sint_zero_iff)
      then have "sweep_loop px i s1 = Some s1" by (subst sweep_loop.simps) simp
      with run z 1 show ?thesis
        by (intro exI [of _ s1] exI [of _ xs1] exI [of _ re1] exI [of _ "[t]"]) auto
    next
      case False
      with 1(3) have "length xs1 + (if 0 < sint (s_qty s1) then 1 else 0) <
          length xs + (if 0 < sint (s_qty s) then 1 else (0::nat))" using True by auto
      from less.hyps [OF this 1(2,4)] obtain s' xs' re' ts where 2:
        "sweep_loop px i s1 = Some s'" "sweep_rep i qs b0 xs' re' s'"
        "xs' = [] \<or> s_qty s' = 0" "0 \<le> sint (s_qty s')" "sint (s_qty s') \<le> sint (s_qty s1)"
        "s_trades s' = s_trades s1 @ ts"
        "\<And>C. \<forall>y\<in>set C. \<not> ahead (opposite tk) (a_tick y) i \<Longrightarrow>
          amatch tk lim (sint (s_qty s1)) (cont (bk_base b0) (heap (s_book s1)) (xs1 @ re1) @ C) =
          after (map (atrade_of (bk_base b0)) ts)
            (amatch tk lim (sint (s_qty s')) (cont (bk_base b0) (heap (s_book s')) (xs' @ re') @ C))"
        by blast
      show ?thesis
      proof (intro exI conjI)
        show "sweep_loop px i s = Some s'" using run 2(1) by simp
        show "s_trades s' = s_trades s @ (t # ts)" using 1(6) 2(6) by simp
        show "\<forall>C. (\<forall>y\<in>set C. \<not> ahead (opposite tk) (a_tick y) i) \<longrightarrow>
          amatch tk lim (sint (s_qty s)) (cont (bk_base b0) (heap (s_book s)) (xs @ re) @ C) =
          after (map (atrade_of (bk_base b0)) (t # ts))
            (amatch tk lim (sint (s_qty s')) (cont (bk_base b0) (heap (s_book s')) (xs' @ re') @ C))"
          using 1(7) 2(7) by simp
      qed (use 1 2 in auto)
    qed
  qed
qed

section \<open>The splice after the loop\<close>

lemma book_upd_order:
  "b\<lparr>bk_levels := L, bk_pool := P\<rparr> = b\<lparr>bk_pool := P, bk_levels := L\<rparr>"
  by simp

lemma heap_put_read: "heap b p = Some x \<Longrightarrow> pool_read (bk_pool b) p = Some x"
  by (simp add: heap_def)

lemma level_linkedI: "chain H None ps None \<Longrightarrow> lv_head l = head_of ps None \<Longrightarrow> lv_tail l = last_of None ps \<Longrightarrow>
    lv_total_qty l = sum_list (map (qty_at H) ps) \<Longrightarrow> level_linked H l ps"
  by (simp add: level_linked_def)

text \<open>Setting the first \<open>prev\<close> link of what is left, and the head of the level.\<close>

lemma finish_links:
  assumes S: "sweep_rep i qs b0 xs re s" and i: "i < NumTicks b0" and ne: "xs @ re \<noteq> []"
  shows "\<exists>P l. sweep_finish m i s = Some ((s_book s)\<lparr>bk_pool := P, bk_levels := (bk_levels (s_book s))[i := l]\<rparr>) \<and>
    pool_inv P \<and> p_capacity P = p_capacity (bk_pool (s_book s)) \<and> level_linked (pool_read P) l (xs @ re) \<and>
    relinked (set (xs @ re)) (heap (s_book s)) (pool_read P)"
proof -
  note D = sweep_repD [OF S]
  let ?b = "s_book s" and ?H = "heap (s_book s)" and ?l = "bk_levels (s_book s) ! i"
  have d: "distinct (xs @ re)" by (rule sweep_distinct [OF S])
  have inv: "pool_inv (bk_pool ?b)" using D(1) by (simp add: shape_def)
  obtain pv where pv: "chain ?H pv xs None" using D(11) by blast
  consider (both) o1 xs1 r1 re1 where "xs = o1 # xs1" "re = r1 # re1" | (old) o1 xs1 where "xs = o1 # xs1" "re = []"
    | (new) r1 re1 where "xs = []" "re = r1 # re1" using ne by (cases xs; cases re) auto
  then show ?thesis
  proof cases
    case new
    let ?l' = "?l\<lparr>lv_head := Some r1, lv_tail := last_of None re\<rparr>"
    have "sweep_finish m i s = Some (?b\<lparr>bk_pool := bk_pool ?b, bk_levels := (bk_levels ?b)[i := ?l']\<rparr>)"
      using new D(10,13-15) i by (simp add: sweep_finish_def exec)
    moreover have "level_linked (pool_read (bk_pool ?b)) ?l' (xs @ re)"
      using new D(12,17) by (simp add: level_linked_def heap_def)
    ultimately show ?thesis using inv by (auto simp: heap_def intro!: exI [of _ "bk_pool ?b"])
  next
    case old
    obtain x where x: "?H o1 = Some x" using sweep_live [OF S, of o1] old by auto
    let ?l' = "?l\<lparr>lv_head := Some o1\<rparr>" and ?P = "pool_put (bk_pool ?b) o1 (x\<lparr>o_prev := None\<rparr>)"
    have P: "pool_read ?P = ?H(o1 \<mapsto> x\<lparr>o_prev := None\<rparr>)" using x by (simp add: heap_def)
    have r: "relinked (set (xs @ re)) ?H (pool_read ?P)" unfolding P using x old by (simp add: relinked_upd)
    have "sweep_finish m i s = Some (?b\<lparr>bk_pool := ?P, bk_levels := (bk_levels ?b)[i := ?l']\<rparr>)"
      using old D(10,13-15) i x by (simp add: sweep_finish_def exec)
    moreover have "level_linked (pool_read ?P) ?l' (xs @ re)"
    proof (rule level_linkedI)
      show "chain (pool_read ?P) None (xs @ re) None"
        unfolding P using old pv d x by (intro chain_set_prev) auto
      show "lv_total_qty ?l' = sum_list (map (qty_at (pool_read ?P)) (xs @ re))"
        using D(17) unfolding relinked_qty [OF r] by simp
    qed (use old D(16) in simp_all)
    ultimately show ?thesis using inv r x by (auto simp: heap_def intro!: exI [of _ ?P])
  next
    case both
    obtain x where x: "?H o1 = Some x" using sweep_live [OF S, of o1] both by auto
    obtain y where y: "?H r1 = Some y" using sweep_live [OF S, of r1] both by auto
    obtain t where t: "last_of None xs = Some t" "t \<in> set xs"
      using both by (metis last_of_last last_in_set list.distinct(1))
    obtain z where z: "?H t = Some z" using sweep_live [OF S, of t] t by auto
    have nr: "r1 \<noteq> t" "r1 \<noteq> o1" "o1 \<noteq> r1" using d both t by auto
    have tre: "t \<notin> set re" "o1 \<notin> set re" using d both t by auto
    let ?l' = "?l\<lparr>lv_tail := last_of None re, lv_head := Some o1\<rparr>"
    let ?P1 = "pool_put (pool_put (bk_pool ?b) r1 (y\<lparr>o_prev := Some t\<rparr>)) t (z\<lparr>o_next := Some r1\<rparr>)"
    have P1: "pool_read ?P1 = ?H(r1 \<mapsto> y\<lparr>o_prev := Some t\<rparr>, t \<mapsto> z\<lparr>o_next := Some r1\<rparr>)"
      using y z nr by (simp add: heap_def)
    obtain w where w: "pool_read ?P1 o1 = Some w" using x nr by (cases "o1 = t") (auto simp: P1)
    let ?P = "pool_put ?P1 o1 (w\<lparr>o_prev := None\<rparr>)"
    have P: "pool_read ?P = (pool_read ?P1)(o1 \<mapsto> w\<lparr>o_prev := None\<rparr>)" using w by simp
    have r1: "relinked (set (xs @ re)) ?H (pool_read ?P1)"
      unfolding P1 using y z t both nr by (intro relinked_upd [where z = z] relinked_upd [where z = y]) auto
    obtain v where v: "?H o1 = Some v" "strip w = strip v" using relinked_Some [OF r1 w] by blast
    have r: "relinked (set (xs @ re)) ?H (pool_read ?P)"
      unfolding P by (rule relinked_upd [OF _ v(1) _ r1 w]) (use both v in auto)
    have run: "sweep_finish m i s = Some (?b\<lparr>bk_pool := ?P, bk_levels := (bk_levels ?b)[i := ?l']\<rparr>)"
    proof -
      have "lv_tail ?l = Some t" using D(16) both t by simp
      then show ?thesis
        using both D(10,13-15) i y z nr w by (simp add: sweep_finish_def exec P1 heap_put_read [OF y] heap_put_read [OF z])
    qed
    have "level_linked (pool_read ?P) ?l' (xs @ re)"
    proof (rule level_linkedI)
      have "chain (?H(t \<mapsto> z\<lparr>o_next := Some r1\<rparr>)) pv xs (Some r1)"
        by (rule chain_set_next) (use pv d t z in auto)
      then have "chain (pool_read ?P1) pv xs (Some r1)"
        using d both by (simp add: P1 fun_upd_twist [OF nr(1)] del: chain.simps)
      then have "chain (pool_read ?P) None xs (Some r1)"
        unfolding P using both w d by (intro chain_set_prev) auto
      moreover have "chain (?H(r1 \<mapsto> y\<lparr>o_prev := Some t\<rparr>)) (Some t) re None"
        by (rule chain_set_prev) (use D(12) d y both in auto)
      then have "chain (pool_read ?P) (Some t) re None"
        using tre by (simp add: P P1)
      ultimately show "chain (pool_read ?P) None (xs @ re) None"
        using both(2) t(1) unfolding chain_append by (simp del: chain.simps)
      show "lv_total_qty ?l' = sum_list (map (qty_at (pool_read ?P)) (xs @ re))"
        using D(17) unfolding relinked_qty [OF r] by simp
    qed (use both in simp_all)
    moreover have "pool_inv ?P" "p_capacity ?P = p_capacity (bk_pool ?b)"
      using inv y z w nr by (simp_all add: heap_def)
    ultimately show ?thesis using run r by blast
  qed
qed

text \<open>The pieces, put back together, represent the book again.\<close>

lemma finish_rep:
  assumes S: "sweep_rep i qs b0 xs re s" and rep: "book_rep b0 qs" and best: "is_best b0 m i"
    and b1: "b1 = (s_book s)\<lparr>bk_pool := P, bk_levels := (bk_levels (s_book s))[i := l]\<rparr>"
    and P: "pool_inv P" "p_capacity P = p_capacity (bk_pool (s_book s))"
    and ll: "level_linked (pool_read P) l (xs @ re)"
    and rl: "relinked (set (xs @ re)) (heap (s_book s)) (pool_read P)"
    and b': "reindexed b1 b'" "shape b'" "best_ok b'"
      "marked b' m = (if xs @ re = [] then marked b0 m - {i} else marked b0 m)"
      "marked b' (opposite m) = marked b0 (opposite m)"
  shows "book_rep b' (qs(i := xs @ re))" and "bk_base b' = bk_base b0" and "NumTicks b' = NumTicks b0"
    and "PoolCap b' = PoolCap b0"
    and "\<And>j q. j \<noteq> i \<Longrightarrow> q \<in> set (qs j) \<Longrightarrow> heap b' q = heap b0 q"
    and "cont base (heap b') (xs @ re) = cont base (heap (s_book s)) (xs @ re)"
proof -
  note D = sweep_repD [OF S] and R = book_repD [OF rep] and X = reindexedD [OF b'(1)]
  have i: "i < NumTicks b0" using best marked_bound [OF R(1)] by (auto simp: is_best_def)
  have h: "heap b' = pool_read P" "bk_levels b' = (bk_levels (s_book s))[i := l]"
    "bk_gens b' = bk_gens (s_book s)" "bk_base b' = bk_base b0" "NumTicks b' = NumTicks b0"
    "PoolCap b' = PoolCap (s_book s)"
    using X D(9,10) by (simp_all add: b1)
  show "bk_base b' = bk_base b0" "NumTicks b' = NumTicks b0" by (fact h)+
  show "PoolCap b' = PoolCap b0" using h(6) D(19) by simp
  have dis: "q \<notin> set (xs @ re)" if "j \<noteq> i" "q \<in> set (qs j)" for j q
    using that owned_disjoint [OF D(4), of q j i] by simp
  have far: "heap b' q = heap (s_book s) q" if "j \<noteq> i" "q \<in> set (qs j)" for j q
    using rl dis [OF that] by (simp add: h relinked_def)
  show "heap b' q = heap b0 q" if "j \<noteq> i" "q \<in> set (qs j)" for j q
    using far [OF that] D(6) [OF that] by simp
  have none: "heap b' q = None \<longleftrightarrow> heap (s_book s) q = None" for q
    using relinked_None [OF rl, of q] by (simp add: h)
  have bids: "j \<in> bm_abs (bk_bids b') \<longleftrightarrow> j \<in> bm_abs (bk_bids (s_book s))" if "j \<noteq> i \<or> xs @ re \<noteq> []" for j
    using b'(4,5) D(7) that by (cases m) (auto split: if_splits)
  have "level_ok b' j ((qs(i := xs @ re)) j)" if j: "j < NumTicks b'" for j
  proof (cases "j = i")
    case False
    have "level_ok b' j (qs j)"
    proof (rule level_ok_frame)
      show "level_ok (s_book s) j (qs j)" using D(5) False j by (simp add: h)
      show "j \<in> bm_abs (bk_bids b') \<longleftrightarrow> j \<in> bm_abs (bk_bids (s_book s))" using bids False by simp
    qed (use False far D(9) in \<open>auto simp: h(2-6)\<close>)
    with False show ?thesis by simp
  next
    case True
    have "\<forall>x. heap b' q = Some x \<longrightarrow> order_ok b' i q x" if q: "q \<in> set (xs @ re)" for q
    proof (rule orders_ok_relinked)
      show "relinked (set (xs @ re)) (heap (s_book s)) (heap b')" using rl by (simp add: h)
      show "\<forall>x. heap (s_book s) q = Some x \<longrightarrow> order_ok (s_book s) i q x" using D(18) [OF q] by blast
      have "xs @ re \<noteq> []" using q by auto
      then show "i \<in> bm_abs (bk_bids b') \<longleftrightarrow> i \<in> bm_abs (bk_bids (s_book s))" using bids [of i] by blast
    qed (use D(9) in \<open>simp_all add: h\<close>)
    moreover have "level_linked (heap b') (bk_levels b' ! i) (xs @ re)"
      using i ll D(10) unfolding h(1,2) by simp
    ultimately have "level_ok b' i (xs @ re)" unfolding level_ok_def by blast
    with True show ?thesis by simp
  qed
  moreover have "owned b' (qs(i := xs @ re))" using D(4) unfolding owned_def none .
  moreover have "gens_ok b'" using D(3) unfolding gens_ok_def none h(3,6) .
  moreover have "marks_ok b' (qs(i := xs @ re))"
  proof -
    have mi: "i \<in> marked b0 m" using best by (simp add: is_best_def)
    have "i \<notin> marked b0 (opposite m)" by (rule marks_side [OF R(5) mi])
    with R(5) b'(4,5) mi show ?thesis by (cases m) (auto simp: marks_ok_def split: if_splits)
  qed
  ultimately show "book_rep b' (qs(i := xs @ re))" using b'(2,3) by (simp add: book_rep_def)
  show "cont base (heap b') (xs @ re) = cont base (heap (s_book s)) (xs @ re)"
    using owned_live [OF D(4), of _ i] rl by (intro cont_relinked) (auto simp: h)
qed

lemma sweep_finish_rep:
  assumes S: "sweep_rep i qs b0 xs re s" and rep: "book_rep b0 qs" and best: "is_best b0 m i"
  obtains b' where "sweep_finish m i s = Some b'" and "book_rep b' (qs(i := xs @ re))"
    and "bk_base b' = bk_base b0" and "NumTicks b' = NumTicks b0" and "PoolCap b' = PoolCap b0"
    and "\<And>j q. j \<noteq> i \<Longrightarrow> q \<in> set (qs j) \<Longrightarrow> heap b' q = heap b0 q"
    and "\<And>base. cont base (heap b') (xs @ re) = cont base (heap (s_book s)) (xs @ re)"
    and "marked b' m = (if xs @ re = [] then marked b0 m - {i} else marked b0 m)"
    and "marked b' (opposite m) = marked b0 (opposite m)"
proof -
  note D = sweep_repD [OF S] and R = book_repD [OF rep]
  have i: "i < NumTicks b0" using best marked_bound [OF R(1)] by (auto simp: is_best_def)
  have mk: "marked (s_book s) = marked b0"
    by (rule ext, rename_tac t, case_tac t) (simp_all add: D(7,8))
  show ?thesis
  proof (cases "xs @ re = []")
    case False
    obtain P l where F: "sweep_finish m i s = Some ((s_book s)\<lparr>bk_pool := P, bk_levels := (bk_levels (s_book s))[i := l]\<rparr>)"
      (is "_ = Some ?b") "pool_inv P" "p_capacity P = p_capacity (bk_pool (s_book s))"
      "level_linked (pool_read P) l (xs @ re)" "relinked (set (xs @ re)) (heap (s_book s)) (pool_read P)"
      using finish_links [OF S i False] by blast
    have sh: "shape ?b" "best_ok ?b"
      using D(1,2) F(2,3) by (simp_all add: shape_def best_ok_def)
    have m: "marked ?b m = (if xs @ re = [] then marked b0 m - {i} else marked b0 m)"
      "marked ?b (opposite m) = marked b0 (opposite m)" unfolding if_not_P [OF False] using mk by simp_all
    note B = finish_rep [OF S rep best refl F(2-5) reindexed_refl sh m]
    show ?thesis by (rule that [OF F(1) B(1-4) _ B(6) m]) (rule B(5))
  next
    case True
    define l where "l = (bk_levels (s_book s) ! i)\<lparr>lv_head := None, lv_tail := None\<rparr>"
    define b1 where "b1 = (s_book s)\<lparr>bk_pool := bk_pool (s_book s), bk_levels := (bk_levels (s_book s))[i := l]\<rparr>"
    have sh: "shape b1" "best_ok b1" using D(1,2) by (simp_all add: shape_def best_ok_def b1_def)
    have best1: "is_best b1 m i" using best mk by (simp add: is_best_def b1_def)
    obtain b' where c: "sweep_clean m b1 i = Some b'" "reindexed b1 b'" "shape b'" "best_ok b'"
      "marked b' m = marked b1 m - {i}" "marked b' (opposite m) = marked b1 (opposite m)"
      by (rule sweep_clean_correct [OF sh best1])
    have m: "marked b' m = (if xs @ re = [] then marked b0 m - {i} else marked b0 m)"
      "marked b' (opposite m) = marked b0 (opposite m)" using True c(5,6) mk by (simp_all add: b1_def)
    have run: "sweep_finish m i s = Some b'"
      using True D(10,13,14) i c(1) by (simp add: sweep_finish_def exec b1_def l_def)
    have ll: "level_linked (pool_read (bk_pool (s_book s))) l (xs @ re)"
      using True D(17) by (simp add: level_linked_def l_def)
    have inv: "pool_inv (bk_pool (s_book s))" using D(1) by (simp add: shape_def)
    have rl: "relinked (set (xs @ re)) (heap (s_book s)) (pool_read (bk_pool (s_book s)))"
      by (simp add: heap_def)
    note B = finish_rep [OF S rep best b1_def inv refl ll rl c(2-4) m]
    show ?thesis by (rule that [OF run B(1-4) _ B(6) m]) (rule B(5))
  qed
qed

section \<open>One level\<close>

lemma sweep_level_rep:
  assumes rep: "book_rep b qs" and best: "is_best b (opposite tk) i" and q: "0 < sint q"
    and lim: "meets tk lim i"
  obtains q' b' qs' us where "sweep_level (opposite tk) b i q ts = Some (q', b', ts @ us)"
    and "book_rep b' qs'" and "0 \<le> sint q'" and "sint q' < sint q" and "bk_base b' = bk_base b"
    and "NumTicks b' = NumTicks b" and "abs_book b' tk = abs_book b tk"
    and "amatch tk lim (sint q) (abs_book b (opposite tk)) =
      after (map (atrade_of (bk_base b)) us) (amatch tk lim (sint q') (abs_book b' (opposite tk)))"
    and "marked b' tk = marked b tk" and "PoolCap b' = PoolCap b" and "us \<noteq> []"
proof -
  let ?m = "opposite tk"
  note R = book_repD [OF rep]
  have mi: "i \<in> marked b ?m" using best by (simp add: is_best_def)
  then have i: "i < NumTicks b" by (rule marked_bound [OF R(1)])
  have ne: "qs i \<noteq> []" using mi marks_nonempty [OF R(5), of i] by (cases tk) auto
  define px where "px = bk_base b + word_of_nat i"
  define s0 where "s0 = \<lparr>s_book = b, s_o = lv_head (bk_levels b ! i), s_qty = q, s_reload_head = None,
    s_reload_tail = None, s_trades = ts\<rparr>"
  have S0: "sweep_rep i qs b (qs i) [] s0"
    using R(1-4,6) R(2) [OF i] unfolding sweep_rep_def s0_def
    by (auto simp: level_ok_def level_linked_def)
  have q0: "0 \<le> sint (s_qty s0)" "0 < sint (s_qty s0)" using q by (simp_all add: s0_def)
  from sweep_loop_abs [OF S0 i q0(1) px_def lim] obtain s' xs re us where L:
    "sweep_loop px i s0 = Some s'" "sweep_rep i qs b xs re s'" "0 \<le> sint (s_qty s')"
    "qs i \<noteq> [] \<longrightarrow> 0 < sint (s_qty s0) \<longrightarrow> us \<noteq> [] \<and> sint (s_qty s') < sint (s_qty s0)"
    "s_trades s' = s_trades s0 @ us"
    "\<And>C. \<forall>y\<in>set C. \<not> ahead ?m (a_tick y) i \<Longrightarrow>
      amatch tk lim (sint (s_qty s0)) (cont (bk_base b) (heap (s_book s0)) (qs i @ []) @ C) =
      after (map (atrade_of (bk_base b)) us)
        (amatch tk lim (sint (s_qty s')) (cont (bk_base b) (heap (s_book s')) (xs @ re) @ C))"
    by blast
  obtain b' where F: "sweep_finish ?m i s' = Some b'" "book_rep b' (qs(i := xs @ re))"
    "bk_base b' = bk_base b" "NumTicks b' = NumTicks b" "PoolCap b' = PoolCap b"
    "\<And>j q. j \<noteq> i \<Longrightarrow> q \<in> set (qs j) \<Longrightarrow> heap b' q = heap b q"
    "\<And>base. cont base (heap b') (xs @ re) = cont base (heap (s_book s')) (xs @ re)"
    "marked b' ?m = (if xs @ re = [] then marked b ?m - {i} else marked b ?m)"
    "marked b' (opposite ?m) = marked b (opposite ?m)"
    using sweep_finish_rep [OF L(2) rep best] by blast
  have otk: "opposite ?m = tk" by (cases tk) auto
  have run: "sweep_level ?m b i q ts = Some (s_qty s', b', ts @ us)"
    using i L(1,5) F(1) by (simp add: sweep_level_def px_def [symmetric] s0_def)
  have c: "cont (bk_base b) (heap b') (qs j) = cont (bk_base b) (heap b) (qs j)" if "j \<noteq> i" for j
    using F(6) [OF that] by (intro cont_cong) auto
  have "abs_book b' tk = abs_book b tk"
  proof (rule abs_book_same [OF rep F(2,4)])
    fix j
    have "i \<notin> marked b tk" using marks_side [OF R(5) mi] otk by simp
    then show "lvl b' (qs(i := xs @ re)) tk j = lvl b qs tk j"
      using c [of j] F(3,9) otk by (auto simp: lvl_def)
  qed
  moreover have "amatch tk lim (sint q) (abs_book b ?m) =
      after (map (atrade_of (bk_base b)) us) (amatch tk lim (sint (s_qty s')) (abs_book b' ?m))"
  proof (rule abs_book_split [OF rep F(2,4) i, of ?m])
    show "lvl b' (qs(i := xs @ re)) ?m j = lvl b qs ?m j" if "j \<noteq> i" for j
      using that c [of j] F(3,8) by (simp add: lvl_def)
    fix A C assume AC: "abs_book b ?m = A @ lvl b qs ?m i @ C"
      "abs_book b' ?m = A @ lvl b' (qs(i := xs @ re)) ?m i @ C"
      "\<forall>y\<in>set A. ahead ?m (a_tick y) i \<and> a_tick y \<noteq> i" "\<forall>y\<in>set C. \<not> ahead ?m (a_tick y) i"
    have "A = []"
    proof (rule ccontr)
      assume "A \<noteq> []"
      then obtain y where y: "y \<in> set A" by (cases A) auto
      then have "y \<in> set (abs_book b ?m)" by (simp add: AC(1))
      then obtain j where j: "j < NumTicks b" "y \<in> set (lvl b qs ?m j)" by (auto simp: abs_book_rep [OF rep])
      then have "a_tick y = j" "j \<in> marked b ?m"
        using lvl_tick(1) [OF rep j] by (auto simp: lvl_def split: if_splits)
      moreover have "ahead ?m (a_tick y) i" "a_tick y \<noteq> i" using AC(3) y by auto
      ultimately show False using best by (cases tk) (auto simp: is_best_def)
    qed
    moreover have "lvl b qs ?m i = cont (bk_base b) (heap b) (qs i @ [])" using mi by (simp add: lvl_def)
    moreover have "lvl b' (qs(i := xs @ re)) ?m i = cont (bk_base b) (heap (s_book s')) (xs @ re)"
      using mi F(3,7,8) by (simp add: lvl_def)
    ultimately show ?thesis using L(6) [OF AC(4)] AC(1,2) by (simp add: s0_def)
  qed
  ultimately show ?thesis
    using that [OF run F(2) L(3) _ F(3,4)] L(4) ne q0 F(5,9) otk by (simp add: s0_def)
qed

section \<open>The loop over the levels\<close>

lemma crosses_best:
  assumes rep: "book_rep b qs" and i: "i < NumTicks b" and c: "crosses b s i"
  shows "is_best b (opposite s) (best_level b (opposite s))" and "meets s i (best_level b (opposite s))"
proof -
  note R = book_repD [OF rep]
  have ne: "marked b (opposite s) \<noteq> {}"
  proof (cases s)
    case Buy
    with c i R(6) show ?thesis by (auto simp: crosses_def best_ok_def best_ask_of_def split: if_splits)
  next
    case Sell
    with c R(6) bitmap.best_bid_NPOS [OF shape_bits(1) [OF R(1)]] show ?thesis
      by (auto simp: crosses_def best_ok_def)
  qed
  then obtain j where "j \<in> marked b (opposite s)" by blast
  then show "is_best b (opposite s) (best_level b (opposite s))"
    by (rule best_level_is_best(1) [OF R(1,6)])
  show "meets s i (best_level b (opposite s))"
    using c by (cases s) (auto simp: crosses_def best_level_def)
qed

lemma abs_tick_marked:
  assumes "book_rep b qs" and "y \<in> set (abs_book b s)"
  shows "a_tick y \<in> marked b s"
proof -
  from assms obtain j where j: "j < NumTicks b" "y \<in> set (lvl b qs s j)" by (auto simp: abs_book_rep)
  with lvl_tick(1) [OF assms(1) j] show ?thesis by (auto simp: lvl_def split: if_splits)
qed

lemma marked_abs:
  assumes rep: "book_rep b qs" and j: "j \<in> marked b s"
  obtains y where "y \<in> set (abs_book b s)" and "a_tick y = j"
proof -
  note R = book_repD [OF rep]
  have lt: "j < NumTicks b" by (rule marked_bound [OF R(1) j])
  have "qs j \<noteq> []" using marks_nonempty [OF R(5), of j] j by (cases s) auto
  then obtain p ps where "qs j = p # ps" by (cases "qs j") auto
  with j have y: "oview (bk_base b) (the (heap b p)) \<in> set (lvl b qs s j)" by (simp add: lvl_def)
  with lt have "oview (bk_base b) (the (heap b p)) \<in> set (abs_book b s)" by (auto simp: abs_book_rep [OF rep])
  with that lvl_tick(1) [OF rep lt y] show ?thesis by blast
qed

lemma crosses_meets:
  assumes rep: "book_rep b qs" and i: "i < NumTicks b"
  shows "crosses b s i \<longleftrightarrow> (\<exists>x\<in>set (abs_book b (opposite s)). meets s i (a_tick x))"
proof
  assume "crosses b s i"
  note C = crosses_best [OF rep i this]
  from C(1) have "best_level b (opposite s) \<in> marked b (opposite s)" by (simp add: is_best_def)
  with C(2) show "\<exists>x\<in>set (abs_book b (opposite s)). meets s i (a_tick x)"
    by (metis marked_abs [OF rep])
next
  note R = book_repD [OF rep]
  assume "\<exists>x\<in>set (abs_book b (opposite s)). meets s i (a_tick x)"
  then have "\<not> uncrossing b s i"
    using abs_tick_marked [OF rep] by (cases s) (fastforce simp: uncrossing_def)+
  with uncrossing_crosses [OF R(1,6) i] show "crosses b s i" by simp
qed

lemma match_loop_rep:
  assumes "book_rep b qs" and "i < NumTicks b" and "0 \<le> sint q"
  shows "\<exists>q' b' qs' us. match_loop s i (q, b, ts) = Some (q', b', ts @ us) \<and> book_rep b' qs' \<and>
    bk_base b' = bk_base b \<and> NumTicks b' = NumTicks b \<and> 0 \<le> sint q' \<and>
    abs_book b' s = abs_book b s \<and> marked b' s = marked b s \<and>
    amatch s i (sint q) (abs_book b (opposite s)) =
      (sint q', abs_book b' (opposite s), map (atrade_of (bk_base b)) us) \<and>
    (q' = 0 \<or> \<not> crosses b' s i) \<and> PoolCap b' = PoolCap b \<and> (us = [] \<longrightarrow> b' = b \<and> q' = q)"
  using assms
proof (induction "nat (sint q)" arbitrary: q b qs ts rule: less_induct)
  case less
  note rep = less.prems(1) and i = less.prems(2)
  show ?case
  proof (cases "0 < sint q \<and> crosses b s i")
    case False
    have "match_loop s i (q, b, ts) = Some (q, b, ts)"
      using False by (subst match_loop.simps) auto
    moreover have "q = 0 \<or> \<not> crosses b s i" using False less.prems(3) sint_zero_iff [of q] by force
    moreover have "amatch s i (sint q) (abs_book b (opposite s)) = (sint q, abs_book b (opposite s), [])"
      using False crosses_meets [OF rep i, of s] by (metis amatch_none amatch_done not_le)
    ultimately show ?thesis using less.prems
      by (intro exI [of _ q] exI [of _ b] exI [of _ qs] exI [of _ "[]"]) auto
  next
    case True
    let ?lv = "best_level b (opposite s)"
    note C = crosses_best [OF rep i conjunct2 [OF True]]
    obtain q1 b1 qs1 us where 1: "sweep_level (opposite s) b ?lv q ts = Some (q1, b1, ts @ us)"
      "book_rep b1 qs1" "0 \<le> sint q1" "sint q1 < sint q" "bk_base b1 = bk_base b"
      "NumTicks b1 = NumTicks b" "abs_book b1 s = abs_book b s"
      "amatch s i (sint q) (abs_book b (opposite s)) =
        after (map (atrade_of (bk_base b)) us) (amatch s i (sint q1) (abs_book b1 (opposite s)))"
      "marked b1 s = marked b s" "PoolCap b1 = PoolCap b" "us \<noteq> []"
      by (rule sweep_level_rep [OF rep C(1) conjunct1 [OF True] C(2)])
    have run: "match_loop s i (q, b, ts) = match_loop s i (q1, b1, ts @ us)"
      using True 1(1) by (subst match_loop.simps) simp
    have "nat (sint q1) < nat (sint q)" using 1(3,4) by simp
    from less.hyps [OF this 1(2) _ 1(3), of "ts @ us"] i 1(6) obtain q' b' qs' us' where 2:
      "match_loop s i (q1, b1, ts @ us) = Some (q', b', (ts @ us) @ us')" "book_rep b' qs'"
      "bk_base b' = bk_base b1" "NumTicks b' = NumTicks b1" "0 \<le> sint q'"
      "abs_book b' s = abs_book b1 s" "marked b' s = marked b1 s"
      "amatch s i (sint q1) (abs_book b1 (opposite s)) =
        (sint q', abs_book b' (opposite s), map (atrade_of (bk_base b1)) us')"
      "q' = 0 \<or> \<not> crosses b' s i" "PoolCap b' = PoolCap b1"
      by auto
    show ?thesis
      by (intro exI [of _ q'] exI [of _ b'] exI [of _ qs'] exI [of _ "us @ us'"])
        (use run 1 2 in \<open>simp add: after_def\<close>)
  qed
qed

section \<open>New orders\<close>

lemma idx_price: "px = bk_base b + word_of_nat (idx_of b px)"
  by (simp add: idx_of_def)

text \<open>The arena is full exactly when the two sides hold \<open>PoolCap\<close> orders.\<close>

lemma abs_size:
  assumes rep: "book_rep b qs"
  shows "card (dom (heap b)) = length (abs_book b Buy) + length (abs_book b Sell)"
proof -
  note R = book_repD [OF rep]
  have len: "length (abs_book b s) = (\<Sum>i<NumTicks b. if i \<in> marked b s then length (qs i) else 0)" for s
  proof -
    have "length (abs_book b s) = sum_list (map (\<lambda>i. length (lvl b qs s i)) (ticks s (NumTicks b)))"
      by (simp add: abs_book_rep [OF rep] length_concat o_def)
    also have "\<dots> = (\<Sum>i<NumTicks b. length (lvl b qs s i))"
    proof -
      have "distinct (ticks s (NumTicks b))" by (cases s) (auto simp: ticks_def)
      then show ?thesis by (simp add: sum_list_distinct_conv_sum_set)
    qed
    also have "\<dots> = (\<Sum>i<NumTicks b. if i \<in> marked b s then length (qs i) else 0)"
      by (rule sum.cong) (auto simp: lvl_def cont_def)
    finally show ?thesis .
  qed
  have each: "length (qs i) = (if i \<in> marked b Buy then length (qs i) else 0) +
      (if i \<in> marked b Sell then length (qs i) else 0)" for i
    using marks_nonempty [OF R(5), of i] marks_side [OF R(5), of i Buy] by auto
  have "dom (heap b) = (\<Union>i\<in>{..<NumTicks b}. set (qs i))"
  proof -
    have "p \<in> dom (heap b) \<longleftrightarrow> (\<exists>i. p \<in> set (qs i))" for p
      using R(3) unfolding owned_def by blast
    moreover have "i < NumTicks b" if "p \<in> set (qs i)" for p i
      using rep_out [OF rep, of i] that by (cases "i < NumTicks b") auto
    ultimately show ?thesis by blast
  qed
  also have "card \<dots> = (\<Sum>i<NumTicks b. card (set (qs i)))"
    using R(3) by (intro card_UN_disjoint) (auto simp: owned_def)
  also have "\<dots> = (\<Sum>i<NumTicks b. length (qs i))"
    using owned_distinct [OF R(3)] by (simp add: distinct_card)
  also have "\<dots> = length (abs_book b Buy) + length (abs_book b Sell)"
    unfolding len sum.distrib [symmetric] by (rule sum.cong [OF refl]) (rule each)
  finally show ?thesis .
qed

text \<open>
  What order entry shares: match, and when something is left let \<open>rs\<close> rest it. The id \<open>oid\<close> is
  the one the arena grants, 0 when it is exhausted; then nothing was traded either, because a
  taker with a remainder has emptied at least one slot for every order it met.
\<close>

definition entry :: "book \<Rightarrow> side \<Rightarrow> nat \<Rightarrow> qty \<Rightarrow> (book \<Rightarrow> qty \<Rightarrow> (order_id \<times> book) option) \<Rightarrow>
    (order_id \<times> book \<times> trade list) option" where
  "entry b s i q rs = do {
     (q, b, ts) \<leftarrow> match_loop s i (q, b, []);
     if q = 0 then Some (TAKER_FILLED_ID, b, ts)
     else do {
       (oid, b) \<leftarrow> rs b q;
       Some (oid, b, ts)
     }
   }"

lemma uncrossed_when_left:
  assumes "book_rep b' qs'" and "i < NumTicks b'" and "\<not> crosses b' s i"
  shows "uncrossing b' s i"
  using assms uncrossing_crosses by (auto simp: book_rep_def)

lemma entry_rep:
  assumes rep: "book_rep b qs" and i: "i < NumTicks b" and q: "0 < sint q"
    and rs: "\<And>b' qs' q'. book_rep b' qs' \<Longrightarrow> NumTicks b' = NumTicks b \<Longrightarrow> bk_base b' = bk_base b \<Longrightarrow>
      uncrossing b' s i \<Longrightarrow> 0 < sint q' \<Longrightarrow> rested b' qs' s i (x q') (rs b' q')"
    and x: "\<And>q'. o_price (x q') = bk_base b + word_of_nat i"
    and ax: "\<And>q' oid. 0 < sint q' \<Longrightarrow> oview (bk_base b) ((x q')\<lparr>o_id := oid\<rparr>) = ax (sint q') oid"
      "\<And>q' oid. a_id (ax q' oid) = oid"
  obtains oid b' ts g where "entry b s i q rs = Some (oid, b', ts)" and "book_ok b'"
    and "NumTicks b' = NumTicks b" and "bk_base b' = bk_base b" and "PoolCap b' = PoolCap b" and "issued oid"
    and "(oid, abs_book b', map (atrade_of (bk_base b)) ts) =
      (let (q', L, us) = amatch s i (sint q) (abs_book b (opposite s));
           B = (abs_book b)(opposite s := L)
       in if q' = 0 then (- 1, B, us) else (let (r, B') = arest B s (ax q' g) in (r, B', us)))"
    and "oid = 0 \<Longrightarrow> b' = b \<and> ts = [] \<and>
      length (abs_book b Buy) + length (abs_book b Sell) = PoolCap b"
proof -
  note R = book_repD [OF rep]
  obtain q1 b1 qs1 us where m: "match_loop s i (q, b, []) = Some (q1, b1, us)" "book_rep b1 qs1"
    "bk_base b1 = bk_base b" "NumTicks b1 = NumTicks b" "0 \<le> sint q1" "abs_book b1 s = abs_book b s"
    "amatch s i (sint q) (abs_book b (opposite s)) =
      (sint q1, abs_book b1 (opposite s), map (atrade_of (bk_base b)) us)"
    "q1 = 0 \<or> \<not> crosses b1 s i" "PoolCap b1 = PoolCap b" "us = [] \<longrightarrow> b1 = b \<and> q1 = q"
    using match_loop_rep [OF rep i, of q s "[]"] q by auto
  have B: "(abs_book b)(opposite s := abs_book b1 (opposite s)) = abs_book b1"
  proof -
    have "opposite (opposite s) = s" by (cases s) auto
    with m(6) have "abs_book b1 = (abs_book b)(opposite s := abs_book b1 (opposite s))"
      by (intro side_fun_eq [of _ "opposite s"]) simp_all
    then show ?thesis by simp
  qed
  show ?thesis
  proof (cases "q1 = 0")
    case True
    have "id_gen (- 1) = - 1" by (rule bit_eqI) (simp add: id_gen_def bit_simps)
    then have "issued (- 1)" by (simp add: issued_def)
    with True m B show ?thesis
      by (intro that [of "- 1" b1 us 0]) (auto simp: entry_def TAKER_FILLED_ID_def book_ok_rep)
  next
    case False
    with m(5) have q1: "0 < sint q1" using sint_zero_iff [of q1] by force
    have un: "uncrossing b1 s i"
      using uncrossed_when_left [OF m(2)] i m(4,8) False by simp
    have i1: "i < NumTicks b1" using i m(4) by simp
    have px: "o_price (x q1) = bk_base b1 + word_of_nat i" using x m(3) by simp
    show ?thesis
    proof (rule rested_abs [OF m(2) i1 un rs [OF m(2,4,3) un q1] px])
      assume full: "rs b1 q1 = Some (0, b1)" "dom (heap b1) = {..<PoolCap b1}"
      have none: "us = []"
      proof (rule ccontr)
        assume "us \<noteq> []"
        note W = abs_book_wf [OF rep, of "opposite s"]
        have "length (abs_book b1 (opposite s)) < length (abs_book b (opposite s))"
          by (rule amatch_shrinks [OF m(7) W]) (use q q1 \<open>us \<noteq> []\<close> in auto)
        then have "card (dom (heap b1)) < card (dom (heap b))"
          using m(6) by (cases s) (simp_all add: abs_size [OF rep] abs_size [OF m(2)])
        moreover have "card (dom (heap b)) \<le> PoolCap b"
          using heap_slot [OF R(1)] card_mono [of "{..<PoolCap b}" "dom (heap b)"] by auto
        ultimately show False using full(2) m(9) by simp
      qed
      with m(10) have b1: "b1 = b" "q1 = q" by auto
      have "length (abs_book b Buy) + length (abs_book b Sell) = PoolCap b"
        using full(2) abs_size [OF rep] by (simp add: b1)
      with False m B full(1) none show ?thesis unfolding b1
        by (intro that [of 0 b "[]" 0]) (auto simp: entry_def issued_def arest_def ax Let_def sint_zero_iff
          book_ok_rep [OF rep])
    next
      fix oid b' assume "rs b1 q1 = Some (oid, b')" "oid \<noteq> 0" "oid \<noteq> - 1" "odd (id_gen oid)" "book_ok b'"
        "NumTicks b' = NumTicks b1" "bk_base b' = bk_base b1" "PoolCap b' = PoolCap b1"
        "abs_book b' = (abs_book b1)(s := ainsert s (oview (bk_base b1) ((x q1)\<lparr>o_id := oid\<rparr>)) (abs_book b1 s))"
      with False m B q1 ax show ?thesis
        by (intro that [of oid b' us oid]) (auto simp: entry_def issued_def arest_def sint_zero_iff)
    qed
  qed
qed

end
