(* ===== verification/Book_Props.thy ===== *)
theory Book_Props
  imports Book_Match
begin

text \<open>
  The theorems about the order book as its callers see it: every operation on a well-formed
  book returns, keeps the book well-formed and does to the abstract book what the price-time
  specification says; the fresh book is well-formed, so every reachable book is; and the
  observers and the trade reports mean what the comments in the header say.
\<close>

section \<open>The fresh book\<close>

definition sizes_ok :: "nat \<Rightarrow> nat \<Rightarrow> bool" where
  "sizes_ok n cap \<longleftrightarrow> n mod 64 = 0 \<and> 0 < n \<and> n \<le> 262144 \<and> cap < 2 ^ 32 - 1"

lemma book_new_sizes [simp]:
  "NumTicks (book_new n cap base) = n" "PoolCap (book_new n cap base) = cap"
  "bk_base (book_new n cap base) = base" "bk_pool (book_new n cap base) = pool_new cap"
  "bk_gens (book_new n cap base) = replicate cap 0"
  by (simp_all add: book_new_def NumTicks_def PoolCap_def del: length_book)

lemma book_new_heap [simp]: "heap (book_new n cap base) p = None"
  by (simp add: heap_def pool_new_props)

lemma book_new_rep:
  assumes "sizes_ok n cap"
  shows "book_rep (book_new n cap base) (\<lambda>i. [])"
proof -
  let ?b = "book_new n cap base"
  note C = bm_inv_clear [of n]
  have bits: "bk_bids ?b = bm_clear n" "bk_asks ?b = bm_clear n" "bk_best_bid ?b = NPOS"
    "bk_best_ask ?b = n" by (simp_all add: book_new_def)
  have "bm_bits (bm_clear n) = n" by (simp add: bm_clear_def)
  then have "shape ?b" using assms C by (simp add: shape_def bits sizes_ok_def pool_new_props)
  moreover have "level_ok ?b i []" if "i < n" for i
    using that by (simp add: level_ok_def level_linked_def book_new_def)
  moreover have "owned ?b (\<lambda>i. [])" by (simp add: owned_def)
  moreover have "gens_ok ?b" unfolding gens_ok_def by simp
  moreover have "marks_ok ?b (\<lambda>i. [])" "best_ok ?b"
    using C(2) assms by (simp_all add: marks_ok_def best_ok_def bits sizes_ok_def best_bid_of_def best_ask_of_def)
  ultimately show ?thesis by (simp add: book_rep_def)
qed

lemma book_new_ok: "sizes_ok n cap \<Longrightarrow> book_ok (book_new n cap base)"
  using book_new_rep book_ok_rep by blast

lemma book_new_abs: "sizes_ok n cap \<Longrightarrow> abs_book (book_new n cap base) = (\<lambda>s. [])"
proof
  fix s assume "sizes_ok n cap"
  then show "abs_book (book_new n cap base) s = []"
    using book_new_rep abs_size [of "book_new n cap base"] by (cases s) (fastforce simp: dom_def)+
qed

lemma sizes_small: "sizes_ok 64 4"
  by (simp add: sizes_ok_def)

section \<open>Order entry\<close>

definition accepts :: "book \<Rightarrow> price \<Rightarrow> qty \<Rightarrow> bool" where
  "accepts b px q \<longleftrightarrow> idx_of b px < NumTicks b \<and> 0 < sint q"

lemma fresh_view:
  assumes "book_rep b qs" and "i < NumTicks b" and "px = bk_base b + word_of_nat i"
  shows "oview (bk_base b) ((fresh_order s px q h d)\<lparr>o_id := oid\<rparr>) =
    \<lparr>a_id = oid, a_tick = i, a_qty = sint q, a_hidden = sint h, a_display = sint d\<rparr>"
  using idx_of_level [OF book_repD(1) [OF assms(1)] assms(2)] assms(3)
  by (simp add: oview_def fresh_order_def idx_of_def)

lemma new_order_entry:
  assumes "accepts b px q" and "\<not> (po \<and> crosses b s (idx_of b px))"
  shows "new_order b s px q po = entry b s (idx_of b px) q (\<lambda>b' q'. rest s b' (idx_of b px) px q')"
  using assms by (auto simp: new_order_def entry_def accepts_def Let_def)

lemma iceberg_entry:
  assumes "accepts b px q" and "0 < sint d"
  shows "new_iceberg_order b s px d q = entry b s (idx_of b px) q (\<lambda>b' q'. rest_iceberg s b' (idx_of b px) px d q')"
  using assms by (simp add: new_iceberg_order_def entry_def accepts_def Let_def cong: if_cong)

lemma new_order_run:
  assumes ok: "book_ok b" and acc: "accepts b px q"
  obtains oid b' ts g where "new_order b s px q po = Some (oid, b', ts)" and "book_ok b'"
    and "issued oid" and "NumTicks b' = NumTicks b" and "PoolCap b' = PoolCap b" and "bk_base b' = bk_base b"
    and "(oid, abs_book b', map (atrade_of (bk_base b)) ts) =
      anew_order (abs_book b) s (idx_of b px) (sint q) po g"
    and "oid = 0 \<Longrightarrow> b' = b \<and> ts = [] \<and> (po \<and> crosses b s (idx_of b px) \<or>
      length (abs_book b Buy) + length (abs_book b Sell) = PoolCap b)"
proof -
  from ok obtain qs where rep: "book_rep b qs" by (rule book_okE)
  let ?i = "idx_of b px"
  have i: "?i < NumTicks b" and q: "0 < sint q" using acc by (simp_all add: accepts_def)
  show ?thesis
  proof (cases "po \<and> crosses b s ?i")
    case True
    then have "new_order b s px q po = Some (0, b, [])" using i q by (simp add: new_order_def Let_def)
    moreover have "anew_order (abs_book b) s ?i (sint q) po 0 = (0, abs_book b, [])"
      using True crosses_meets [OF rep i] by (simp add: anew_order_def)
    ultimately show ?thesis using ok True by (intro that [of 0 b "[]" 0]) (simp_all add: issued_def)
  next
    case False
    let ?ax = "\<lambda>q' oid. \<lparr>a_id = oid, a_tick = ?i, a_qty = q', a_hidden = 0, a_display = 0\<rparr>"
    have rs: "rested b' qs' s ?i (fresh_order s px q' 0 0) (rest s b' ?i px q')"
      if "book_rep b' qs'" "NumTicks b' = NumTicks b" "bk_base b' = bk_base b" "uncrossing b' s ?i" "0 < sint q'"
      for b' qs' q'
      by (rule rest_correct [OF that(1) _ _ that(5,4)]) (use i that idx_price [of px b] in simp_all)
    obtain oid b' ts g where E: "entry b s ?i q (\<lambda>b' q'. rest s b' ?i px q') = Some (oid, b', ts)" "book_ok b'"
      "NumTicks b' = NumTicks b" "bk_base b' = bk_base b" "PoolCap b' = PoolCap b" "issued oid"
      "(oid, abs_book b', map (atrade_of (bk_base b)) ts) =
        (let (q', L, us) = amatch s ?i (sint q) (abs_book b (opposite s));
             B = (abs_book b)(opposite s := L)
         in if q' = 0 then (- 1, B, us) else (let (r, B') = arest B s (?ax q' g) in (r, B', us)))"
      "oid = 0 \<Longrightarrow> b' = b \<and> ts = [] \<and> length (abs_book b Buy) + length (abs_book b Sell) = PoolCap b"
      by (rule entry_rep [where ax = ?ax and x = "\<lambda>q'. fresh_order s px q' 0 0", OF rep i q rs])
        (simp_all add: fresh_order_def fresh_view [OF rep i idx_price, unfolded fresh_order_def, simplified] idx_of_def
          oview_def)
    have no: "anew_order (abs_book b) s ?i (sint q) po g =
      (let (q', L, us) = amatch s ?i (sint q) (abs_book b (opposite s));
           B = (abs_book b)(opposite s := L)
       in if q' = 0 then (- 1, B, us) else (let (r, B') = arest B s (?ax q' g) in (r, B', us)))"
      using False crosses_meets [OF rep i, of s] unfolding anew_order_def by presburger
    show ?thesis
    proof (rule that)
      show "new_order b s px q po = Some (oid, b', ts)" using E(1) False acc by (simp add: new_order_entry)
      show "(oid, abs_book b', map (atrade_of (bk_base b)) ts) = anew_order (abs_book b) s ?i (sint q) po g"
        using E(7) no by simp
    qed (use E in auto)
  qed
qed

lemma iceberg_run:
  assumes ok: "book_ok b" and acc: "accepts b px q" and d: "0 < sint d"
  obtains oid b' ts g where "new_iceberg_order b s px d q = Some (oid, b', ts)" and "book_ok b'"
    and "issued oid" and "NumTicks b' = NumTicks b" and "PoolCap b' = PoolCap b" and "bk_base b' = bk_base b"
    and "(oid, abs_book b', map (atrade_of (bk_base b)) ts) =
      anew_iceberg (abs_book b) s (idx_of b px) (sint d) (sint q) g"
    and "oid = 0 \<Longrightarrow> b' = b \<and> ts = [] \<and> length (abs_book b Buy) + length (abs_book b Sell) = PoolCap b"
proof -
  from ok obtain qs where rep: "book_rep b qs" by (rule book_okE)
  let ?i = "idx_of b px" and ?v = "\<lambda>q'. if sint d < sint q' then d else q'"
  have i: "?i < NumTicks b" and q: "0 < sint q" using acc by (simp_all add: accepts_def)
  let ?ax = "\<lambda>q' oid. \<lparr>a_id = oid, a_tick = ?i, a_qty = min (sint d) q', a_hidden = q' - min (sint d) q',
    a_display = sint d\<rparr>"
  have rs: "rested b' qs' s ?i (fresh_order s px (?v q') (q' - ?v q') d) (rest_iceberg s b' ?i px d q')"
    if "book_rep b' qs'" "NumTicks b' = NumTicks b" "bk_base b' = bk_base b" "uncrossing b' s ?i" "0 < sint q'"
    for b' qs' q'
    by (rule rest_iceberg_correct [OF that(1) _ _ d that(5,4) refl]) (use i that idx_price [of px b] in simp_all)
  have ax: "oview (bk_base b) ((fresh_order s px (?v q') (q' - ?v q') d)\<lparr>o_id := oid\<rparr>) = ?ax (sint q') oid"
    if "0 < sint q'" for q' oid
    using fresh_view [OF rep i idx_price, where s = s and q = "?v q'" and h = "q' - ?v q'" and d = d] that d sint_sub_le [of "?v q'" q']
    by (auto simp: min_def)
  obtain oid b' ts g where E: "entry b s ?i q (\<lambda>b' q'. rest_iceberg s b' ?i px d q') = Some (oid, b', ts)"
    "book_ok b'" "NumTicks b' = NumTicks b" "bk_base b' = bk_base b" "PoolCap b' = PoolCap b" "issued oid"
    "(oid, abs_book b', map (atrade_of (bk_base b)) ts) =
      (let (q', L, us) = amatch s ?i (sint q) (abs_book b (opposite s));
           B = (abs_book b)(opposite s := L)
       in if q' = 0 then (- 1, B, us) else (let (r, B') = arest B s (?ax q' g) in (r, B', us)))"
    "oid = 0 \<Longrightarrow> b' = b \<and> ts = [] \<and> length (abs_book b Buy) + length (abs_book b Sell) = PoolCap b"
    by (rule entry_rep [where ax = ?ax and x = "\<lambda>q'. fresh_order s px (?v q') (q' - ?v q') d", OF rep i q rs _ ax])
      (simp_all add: fresh_order_def idx_of_def)
  show ?thesis
  proof (rule that)
    show "new_iceberg_order b s px d q = Some (oid, b', ts)" using E(1) acc d by (simp add: iceberg_entry)
    show "(oid, abs_book b', map (atrade_of (bk_base b)) ts) =
        anew_iceberg (abs_book b) s ?i (sint d) (sint q) g"
      using E(7) unfolding anew_iceberg_def Let_def .
  qed (use E in auto)
qed

text \<open>C1. \<open>new_order\<close> refines price-time priority: on a well-formed book an order with a price
  in the ladder and a positive quantity returns (no undefined behaviour, no endless loop), the
  book stays well-formed, and the returned id, the new contents of both sides and the trades
  are exactly those of the abstract \<open>anew_order\<close>, for the id \<open>g\<close> that the arena grants.\<close>

theorem new_order_refines:
  assumes "book_ok b" and "accepts b px q"
  shows "\<exists>oid b' ts g. new_order b s px q po = Some (oid, b', ts) \<and> book_ok b' \<and> issued oid \<and>
    NumTicks b' = NumTicks b \<and> PoolCap b' = PoolCap b \<and> bk_base b' = bk_base b \<and>
    (oid, abs_book b', map (atrade_of (bk_base b)) ts) =
      anew_order (abs_book b) s (idx_of b px) (sint q) po g"
  by (rule new_order_run [OF assms, of s po]) blast

lemma accepts_small: "accepts (book_new 64 4 1000) 1005 10"
  by (simp add: accepts_def idx_of_def)

theorem new_order_refines_witness:
  "\<exists>oid b' ts g. new_order (book_new 64 4 1000) Buy 1005 10 False = Some (oid, b', ts) \<and> book_ok b' \<and>
    (oid, abs_book b', map (atrade_of 1000) ts) = anew_order (\<lambda>s. []) Buy 5 10 False g"
  using new_order_refines [OF book_new_ok [OF sizes_small] accepts_small, of Buy False]
  by (fastforce simp: book_new_abs [OF sizes_small] idx_of_def)

text \<open>C2. \<open>new_iceberg_order\<close> refines the specification with reserves: the whole quantity may
  trade on arrival, and what is left rests with at most the display size visible and the
  remainder hidden.\<close>

theorem new_iceberg_refines:
  assumes "book_ok b" and "accepts b px q" and "0 < sint d"
  shows "\<exists>oid b' ts g. new_iceberg_order b s px d q = Some (oid, b', ts) \<and> book_ok b' \<and> issued oid \<and>
    NumTicks b' = NumTicks b \<and> PoolCap b' = PoolCap b \<and> bk_base b' = bk_base b \<and>
    (oid, abs_book b', map (atrade_of (bk_base b)) ts) =
      anew_iceberg (abs_book b) s (idx_of b px) (sint d) (sint q) g"
  by (rule iceberg_run [OF assms, of s]) blast

theorem new_iceberg_refines_witness:
  "\<exists>oid b' ts g. new_iceberg_order (book_new 64 4 1000) Sell 1005 3 10 = Some (oid, b', ts) \<and> book_ok b' \<and>
    (oid, abs_book b', map (atrade_of 1000) ts) = anew_iceberg (\<lambda>s. []) Sell 5 3 10 g"
  using new_iceberg_refines [OF book_new_ok [OF sizes_small] accepts_small, of 3 Sell]
  by (fastforce simp: book_new_abs [OF sizes_small] idx_of_def)

section \<open>Cancel and reduce\<close>

text \<open>C5. \<open>cancel\<close> with an id the book has handed out answers whether that order rests, removes
  exactly that order when it does, and leaves the book untouched when it does not.\<close>

theorem cancel_refines:
  assumes "book_ok b" and "issued oid"
  shows "\<exists>b'. cancel b oid = Some (alive (abs_book b) oid, b') \<and> book_ok b' \<and>
    abs_book b' = acancel (abs_book b) oid \<and> (\<not> alive (abs_book b) oid \<longrightarrow> b' = b)"
proof -
  from assms(1) obtain qs where "book_rep b qs" by (rule book_okE)
  then show ?thesis by (rule cancel_rep [OF _ assms(2)]) blast
qed

theorem cancel_refines_witness:
  "\<exists>b'. cancel (book_new 64 4 1000) 0x100000001 = Some (False, b') \<and> b' = book_new 64 4 1000"
proof -
  have "issued 0x100000001" by (simp add: issued_def id_gen_def drop_bit_eq_div)
  from cancel_refines [OF book_new_ok [OF sizes_small, of 1000] this] show ?thesis
    by (auto simp: book_new_abs [OF sizes_small] alive_def)
qed



text \<open>An id that has been cancelled is dead: cancelling or reducing it again answers "not
  found" and changes nothing (the generation check in front of the recycled slot).\<close>

theorem cancelled_id_is_stale:
  assumes "book_ok b" and "issued oid" and "cancel b oid = Some (True, b')"
  shows "cancel b' oid = Some (False, b') \<and> (0 \<le> sint q \<longrightarrow> reduce b' oid q = Some (0, b'))"
proof -
  from assms(1) obtain qs where rep: "book_rep b qs" by (rule book_okE)
  from assms(3) have ok: "book_ok b'" and "abs_book b' = acancel (abs_book b) oid"
    by (auto intro: cancel_rep [OF rep assms(2)])
  then have dead: "\<not> alive (abs_book b') oid" by (auto simp: alive_def acancel_def)
  from ok obtain qs' where rep': "book_rep b' qs'" by (rule book_okE)
  have "cancel b' oid = Some (False, b')"
    by (rule cancel_rep [OF rep' assms(2)]) (use dead in auto)
  moreover have "reduce b' oid q = Some (0, b')" if "0 \<le> sint q"
    by (rule reduce_rep [OF rep' assms(2) that]) (use dead in auto)
  ultimately show ?thesis by blast
qed

lemma one_order:
  obtains oid b1 where "new_order (book_new 64 4 1000) Buy 1005 10 False = Some (oid, b1, [])"
    and "book_ok b1" and "issued oid" and "oid \<noteq> 0" and "NumTicks b1 = 64" and "bk_base b1 = 1000"
    and "PoolCap b1 = 4"
    and "abs_book b1 = (\<lambda>s. [])(Buy := [\<lparr>a_id = oid, a_tick = 5, a_qty = 10, a_hidden = 0, a_display = 0\<rparr>])"
proof (rule new_order_run [OF book_new_ok [OF sizes_small] accepts_small, of Buy False])
  fix oid b' ts g
  assume a: "new_order (book_new 64 4 1000) Buy 1005 10 False = Some (oid, b', ts)" "book_ok b'" "issued oid"
    "NumTicks b' = NumTicks (book_new 64 4 1000)" "PoolCap b' = PoolCap (book_new 64 4 1000)"
    "bk_base b' = bk_base (book_new 64 4 1000)"
    and r: "(oid, abs_book b', map (atrade_of (bk_base (book_new 64 4 1000))) ts) =
      anew_order (abs_book (book_new 64 4 1000)) Buy (idx_of (book_new 64 4 1000) 1005) (sint (10 :: i64)) False g"
    and z: "oid = 0 \<Longrightarrow> b' = book_new 64 4 1000 \<and> ts = [] \<and>
      (False \<and> crosses (book_new 64 4 1000) Buy (idx_of (book_new 64 4 1000) 1005) \<or>
       length (abs_book (book_new 64 4 1000) Buy) + length (abs_book (book_new 64 4 1000) Sell) =
       PoolCap (book_new 64 4 1000))"
  have nz: "oid \<noteq> 0" using z by (auto simp: book_new_abs [OF sizes_small])
  with r show thesis
    by (intro that [OF _ a(2,3) nz]) (use a in \<open>auto simp: book_new_abs [OF sizes_small] anew_order_def
      arest_def idx_of_def ainsert_def Let_def fun_upd_idem split: if_splits\<close>)
qed

theorem cancelled_id_is_stale_witness:
  "\<exists>oid b1 b2. new_order (book_new 64 4 1000) Buy 1005 10 False = Some (oid, b1, []) \<and>
    cancel b1 oid = Some (True, b2) \<and> cancel b2 oid = Some (False, b2) \<and> reduce b2 oid 3 = Some (0, b2)"
proof (rule one_order)
  fix oid b1
  assume a: "new_order (book_new 64 4 1000) Buy 1005 10 False = Some (oid, b1, [])" "book_ok b1" "issued oid"
    "abs_book b1 = (\<lambda>s. [])(Buy := [\<lparr>a_id = oid, a_tick = 5, a_qty = 10, a_hidden = 0, a_display = 0\<rparr>])"
  from a(2) obtain qs where rep: "book_rep b1 qs" by (rule book_okE)
  have "alive (abs_book b1) oid" by (auto simp: a(4) alive_def intro: exI [of _ Buy])
  then obtain b2 where c: "cancel b1 oid = Some (True, b2)" using cancel_rep [OF rep a(3)] by metis
  from cancelled_id_is_stale [OF a(2,3) c, of 3] a(1) c show ?thesis by auto
qed

lemma one_trade:
  obtains oid b1 b2 t where "new_order (book_new 64 4 1000) Buy 1005 10 False = Some (oid, b1, [])"
    and "book_ok b1" and "NumTicks b1 = 64" and "bk_base b1 = 1000" and "accepts b1 1003 4"
    and "abs_book b1 = (\<lambda>s. [])(Buy := [\<lparr>a_id = oid, a_tick = 5, a_qty = 10, a_hidden = 0, a_display = 0\<rparr>])"
    and "new_order b1 Sell 1003 4 False = Some (- 1, b2, [t])" and "book_ok b2"
    and "atrade_of 1000 t = (oid, 5, 4)"
    and "abs_book b2 = (\<lambda>s. [])(Buy := [\<lparr>a_id = oid, a_tick = 5, a_qty = 6, a_hidden = 0, a_display = 0\<rparr>])"
proof (rule one_order)
  fix oid b1
  assume a: "new_order (book_new 64 4 1000) Buy 1005 10 False = Some (oid, b1, [])" "book_ok b1"
    "NumTicks b1 = 64" "bk_base b1 = 1000"
    "abs_book b1 = (\<lambda>s. [])(Buy := [\<lparr>a_id = oid, a_tick = 5, a_qty = 10, a_hidden = 0, a_display = 0\<rparr>])"
  have acc: "accepts b1 1003 4" using a by (simp add: accepts_def idx_of_def)
  show thesis
  proof (rule new_order_run [OF a(2) acc, of Sell False])
    fix oid2 b2 ts g
    assume r: "new_order b1 Sell 1003 4 False = Some (oid2, b2, ts)" "book_ok b2"
      "(oid2, abs_book b2, map (atrade_of (bk_base b1)) ts) =
        anew_order (abs_book b1) Sell (idx_of b1 1003) (sint (4 :: i64)) False g"
    then have e: "oid2 = - 1" "map (atrade_of 1000) ts = [(oid, 5, 4)]"
      "abs_book b2 = (\<lambda>s. [])(Buy := [\<lparr>a_id = oid, a_tick = 5, a_qty = 6, a_hidden = 0, a_display = 0\<rparr>])"
      using a(4,5) by (auto simp: anew_order_def idx_of_def afilled_def Let_def)
    then obtain t where "ts = [t]" "atrade_of 1000 t = (oid, 5, 4)" by auto
    with e r(1,2) a acc show thesis by (intro that) auto
  qed
qed

section \<open>What the caller of \<open>new_order\<close> can rely on\<close>

lemma anew_orderD:
  assumes "(oid, B', ts) = anew_order B s lim q po g"
  obtains (post) "po" "\<exists>x\<in>set (B (opposite s)). meets s lim (a_tick x)" "oid = 0" "B' = B" "ts = []"
  | (run) q' where "amatch s lim q (B (opposite s)) = (q', B' (opposite s), ts)"
      "po \<Longrightarrow> \<forall>x\<in>set (B (opposite s)). \<not> meets s lim (a_tick x)"
      "q' = 0 \<Longrightarrow> oid = - 1 \<and> B' s = B s"
      "q' \<noteq> 0 \<Longrightarrow> oid = g \<and> (if g = 0 then B' s = B s else
        B' s = ainsert s \<lparr>a_id = oid, a_tick = lim, a_qty = q', a_hidden = 0, a_display = 0\<rparr> (B s))"
proof (cases "po \<and> (\<exists>x\<in>set (B (opposite s)). meets s lim (a_tick x))")
  case True
  then show ?thesis using assms post by (auto simp: anew_order_def)
next
  case False
  obtain q' L us where m: "amatch s lim q (B (opposite s)) = (q', L, us)" by (metis prod_cases3)
  have ne: "opposite s \<noteq> s" "s \<noteq> opposite s" by (cases s; simp)+
  show ?thesis
  proof (rule run)
    show "amatch s lim q (B (opposite s)) = (q', B' (opposite s), ts)"
      using assms False m ne by (auto simp: anew_order_def arest_def Let_def split: if_splits)
    show "q' = 0 \<Longrightarrow> oid = - 1 \<and> B' s = B s"
      using assms False m ne by (auto simp: anew_order_def)
    show "q' \<noteq> 0 \<Longrightarrow> oid = g \<and> (if g = 0 then B' s = B s else
        B' s = ainsert s \<lparr>a_id = oid, a_tick = lim, a_qty = q', a_hidden = 0, a_display = 0\<rparr> (B s))"
      using assms False m ne by (auto simp: anew_order_def arest_def)
    show "po \<Longrightarrow> \<forall>x\<in>set (B (opposite s)). \<not> meets s lim (a_tick x)" using False by blast
  qed
qed

text \<open>The facts of one call that the theorems below share.\<close>

lemma new_order_match:
  assumes ok: "book_ok b" and acc: "accepts b px q" and run: "new_order b s px q po = Some (oid, b', ts)"
  obtains (unchanged) "oid = 0" "b' = b" "ts = []"
  | (matched) q' where "oid \<noteq> 0" "book_ok b'"
      "amatch s (idx_of b px) (sint q) (abs_book b (opposite s)) =
        (q', abs_book b' (opposite s), map (atrade_of (bk_base b)) ts)"
      "po \<Longrightarrow> ts = []"
      "q' = 0 \<Longrightarrow> oid = - 1 \<and> abs_book b' s = abs_book b s"
      "q' \<noteq> 0 \<Longrightarrow> abs_book b' s = ainsert s \<lparr>a_id = oid, a_tick = idx_of b px, a_qty = q', a_hidden = 0,
        a_display = 0\<rparr> (abs_book b s)"
proof (rule new_order_run [OF ok acc, of s po])
  fix oid' b'' ts' g
  assume "new_order b s px q po = Some (oid', b'', ts')"
  with run have e: "oid' = oid" "b'' = b'" "ts' = ts" by simp_all
  assume "book_ok b''" and r: "(oid', abs_book b'', map (atrade_of (bk_base b)) ts') =
      anew_order (abs_book b) s (idx_of b px) (sint q) po g"
    and z: "oid' = 0 \<Longrightarrow> b'' = b \<and> ts' = [] \<and> (po \<and> crosses b s (idx_of b px) \<or>
      length (abs_book b Buy) + length (abs_book b Sell) = PoolCap b)"
  then have ok': "book_ok b'" and r: "(oid, abs_book b', map (atrade_of (bk_base b)) ts) =
      anew_order (abs_book b) s (idx_of b px) (sint q) po g"
    and z: "oid = 0 \<Longrightarrow> b' = b \<and> ts = []" using e by simp_all
  show thesis
  proof (cases "oid = 0")
    case True
    with z show ?thesis by (intro unchanged) auto
  next
    case False
    show ?thesis
    proof (rule anew_orderD [OF r])
      fix q' assume m: "amatch s (idx_of b px) (sint q) (abs_book b (opposite s)) =
          (q', abs_book b' (opposite s), map (atrade_of (bk_base b)) ts)"
        and p: "po \<Longrightarrow> \<forall>x\<in>set (abs_book b (opposite s)). \<not> meets s (idx_of b px) (a_tick x)"
        and rest: "q' = 0 \<Longrightarrow> oid = - 1 \<and> abs_book b' s = abs_book b s"
        "q' \<noteq> 0 \<Longrightarrow> oid = g \<and> (if g = 0 then abs_book b' s = abs_book b s else
          abs_book b' s = ainsert s \<lparr>a_id = oid, a_tick = idx_of b px, a_qty = q', a_hidden = 0, a_display = 0\<rparr> (abs_book b s))"
      have "po \<Longrightarrow> ts = []" using m p amatch_none by fastforce
      with m rest False ok' show ?thesis by (intro matched [of q']) auto
    qed (use False in auto)
  qed
qed

lemma abs_wf: "book_ok b \<Longrightarrow> (\<forall>x\<in>set (abs_book b s). aorder_ok x) \<and> by_price s (abs_book b s)"
  using abs_book_wf by (metis book_okE)

lemma atrade_of_simps [simp]:
  "fst (atrade_of base t) = maker_id t" "fst (snd (atrade_of base t)) = unat (t_price t - base)"
  "snd (snd (atrade_of base t)) = sint (t_qty t)"
  by (simp_all add: atrade_of_def)

text \<open>Trade protection: every trade a new order reports has a positive quantity, is against
  an order that was resting, at a price that meets the taker's limit, and the trades go from
  the best price to the worst.\<close>

lemma new_order_trades:
  assumes "book_ok b" and "accepts b px q" and "new_order b s px q po = Some (oid, b', ts)"
  shows "(\<forall>t\<in>set ts. 0 < sint (t_qty t) \<and> meets s (idx_of b px) (idx_of b (t_price t)) \<and>
      alive (abs_book b) (maker_id t)) \<and>
    sorted_wrt (\<lambda>t u. ahead (opposite s) (idx_of b (t_price t)) (idx_of b (t_price u))) ts"
proof (rule new_order_match [OF assms])
  fix q' assume m: "amatch s (idx_of b px) (sint q) (abs_book b (opposite s)) =
    (q', abs_book b' (opposite s), map (atrade_of (bk_base b)) ts)"
  note W = abs_wf [OF assms(1), of "opposite s"]
  have "maker_id t \<in> a_id ` set (abs_book b (opposite s))" if "t \<in> set ts" for t
    using amatch_makers [OF m] that by force
  then have "alive (abs_book b) (maker_id t)" if "t \<in> set ts" for t
    using that by (fastforce simp: alive_def)
  then show ?thesis
    using amatch_trades [OF m] amatch_priority [OF m] W
    by (auto simp: idx_of_def sorted_wrt_map atrade_of_def)
qed simp

text \<open>Conservation: the lots traded leave the opposite side, visible and hidden together, and
  what the taker does not trade rests on its own side (unless the order is rejected).\<close>

lemma new_order_conserves:
  assumes "book_ok b" and "accepts b px q" and "new_order b s px q po = Some (oid, b', ts)"
  shows "volume (abs_book b' (opposite s)) = volume (abs_book b (opposite s)) - (\<Sum>t\<leftarrow>ts. sint (t_qty t)) \<and>
    volume (abs_book b' s) = volume (abs_book b s) +
      (if oid = 0 then 0 else sint q - (\<Sum>t\<leftarrow>ts. sint (t_qty t)))"
proof (rule new_order_match [OF assms])
  fix q' assume m: "amatch s (idx_of b px) (sint q) (abs_book b (opposite s)) =
      (q', abs_book b' (opposite s), map (atrade_of (bk_base b)) ts)"
    and "oid \<noteq> 0" and r: "q' = 0 \<Longrightarrow> oid = - 1 \<and> abs_book b' s = abs_book b s"
      "q' \<noteq> 0 \<Longrightarrow> abs_book b' s = ainsert s \<lparr>a_id = oid, a_tick = idx_of b px, a_qty = q',
        a_hidden = 0, a_display = 0\<rparr> (abs_book b s)"
  have t: "traded (map (atrade_of (bk_base b)) ts) = (\<Sum>t\<leftarrow>ts. sint (t_qty t))"
    by (simp add: traded_def o_def)
  from amatch_volume [OF m] abs_wf [OF assms(1), of "opposite s"] r \<open>oid \<noteq> 0\<close> show ?thesis
    unfolding t by (cases "q' = 0") auto
qed simp



text \<open>Maker accounting: what any single order of the opposite side loses, visible and
  hidden, is exactly what the trades with its id report.\<close>

theorem maker_accounting:
  assumes "book_ok b" and "accepts b px q" and "new_order b s px q po = Some (oid, b', ts)"
  shows "volume_of maker (abs_book b (opposite s)) = volume_of maker (abs_book b' (opposite s)) +
    (\<Sum>t\<leftarrow>ts. if maker_id t = maker then sint (t_qty t) else 0)"
proof (rule new_order_match [OF assms])
  fix q' assume m: "amatch s (idx_of b px) (sint q) (abs_book b (opposite s)) =
      (q', abs_book b' (opposite s), map (atrade_of (bk_base b)) ts)"
  have "traded_of maker (map (atrade_of (bk_base b)) us) =
      (\<Sum>t\<leftarrow>us. if maker_id t = maker then sint (t_qty t) else 0)" for us
    by (induction us) (auto simp: traded_of_def)
  with amatch_volume_of [OF m] abs_wf [OF assms(1), of "opposite s"] show ?thesis by auto
qed simp

theorem maker_accounting_witness:
  "\<exists>oid b1 b2 t. new_order (book_new 64 4 1000) Buy 1005 10 False = Some (oid, b1, []) \<and>
    new_order b1 Sell 1003 4 False = Some (- 1, b2, [t]) \<and>
    volume_of oid (abs_book b2 Buy) = 10 - (if maker_id t = oid then sint (t_qty t) else 0)"
proof (rule one_trade)
  fix oid b1 b2 t
  assume a: "new_order (book_new 64 4 1000) Buy 1005 10 False = Some (oid, b1, [])" "book_ok b1"
    "accepts b1 1003 4" "new_order b1 Sell 1003 4 False = Some (- 1, b2, [t])"
    "abs_book b1 = (\<lambda>s. [])(Buy := [\<lparr>a_id = oid, a_tick = 5, a_qty = 10, a_hidden = 0, a_display = 0\<rparr>])"
  have "volume_of oid (abs_book b1 Buy) = 10" using a(5) by (simp add: volume_of_def)
  with maker_accounting [OF a(2,3,4), of oid] a(1,4) show ?thesis by auto
qed

text \<open>A rejected order (id 0) leaves the book as it was and reports no trade; an order inside
  the ladder is rejected only when it is post-only and would cross, or when every slot of the
  arena holds a resting order. In particular the arena never runs out after a partial fill.\<close>

theorem rejection_is_atomic:
  assumes "book_ok b" and "new_order b s px q po = Some (0, b', ts)"
  shows "b' = b \<and> ts = [] \<and> (NumTicks b \<le> idx_of b px \<or> sint q \<le> 0 \<or>
    po \<and> crosses b s (idx_of b px) \<or>
    length (abs_book b Buy) + length (abs_book b Sell) = PoolCap b)"
proof (cases "accepts b px q")
  case True
  show ?thesis
    by (rule new_order_run [OF assms(1) True, of s po]) (use assms(2) in auto)
next
  case False
  with assms(2) show ?thesis by (auto simp: accepts_def new_order_def)
qed

theorem rejection_is_atomic_witness:
  "new_order (book_new 64 4 1000) Buy 999 10 False = Some (0, book_new 64 4 1000, [])"
proof -
  have r: "new_order (book_new 64 4 1000) Buy 999 10 False = Some (0, book_new 64 4 1000, [])"
    by (simp add: new_order_def idx_of_def unsigned_minus_1_eq_mask mask_eq_exp_minus_1)
  from rejection_is_atomic [OF book_new_ok [OF sizes_small] r] r show ?thesis by simp
qed

text \<open>A post-only order never takes liquidity: it reports no trade and leaves the opposite
  side alone; when it would cross it is rejected outright.\<close>

theorem post_only_never_takes:
  assumes "book_ok b" and "new_order b s px q True = Some (oid, b', ts)"
  shows "ts = [] \<and> abs_book b' (opposite s) = abs_book b (opposite s) \<and>
    (crosses b s (idx_of b px) \<longrightarrow> oid = 0 \<and> b' = b)"
proof (cases "accepts b px q")
  case True
  show ?thesis
  proof (cases "crosses b s (idx_of b px)")
    case c: True
    with True assms(2) show ?thesis by (simp add: new_order_def accepts_def Let_def)
  next
    case False
    show ?thesis
      by (rule new_order_match [OF assms(1) True assms(2)])
        (use False amatch_volume in \<open>auto dest: amatch_quiet\<close>)
  qed
next
  case False
  with assms(2) show ?thesis by (auto simp: accepts_def new_order_def)
qed

theorem post_only_never_takes_witness:
  "\<exists>oid b1. new_order (book_new 64 4 1000) Buy 1005 10 False = Some (oid, b1, []) \<and>
    new_order b1 Sell 1003 4 True = Some (0, b1, [])"
proof (rule one_trade)
  fix oid b1
  assume a: "new_order (book_new 64 4 1000) Buy 1005 10 False = Some (oid, b1, [])" "book_ok b1"
    "NumTicks b1 = 64" "bk_base b1 = 1000"  "accepts b1 1003 4"
    "abs_book b1 = (\<lambda>s. [])(Buy := [\<lparr>a_id = oid, a_tick = 5, a_qty = 10, a_hidden = 0, a_display = 0\<rparr>])"
  from a(2) obtain qs where rep: "book_rep b1 qs" by (rule book_okE)
  have c: "crosses b1 Sell (idx_of b1 1003)"
    using crosses_meets [OF rep, of "idx_of b1 1003" Sell] a(3,4,6) by (simp add: idx_of_def)
  obtain oid2 b2 ts where r: "new_order b1 Sell 1003 4 True = Some (oid2, b2, ts)"
    by (rule new_order_run [OF a(2,5), of Sell True])
  from post_only_never_takes [OF a(2) r] c a(1) r show ?thesis by auto
qed

section \<open>Prices and sizes\<close>

lemma best_level_head:
  assumes rep: "book_rep b qs" and ne: "abs_book b s \<noteq> []"
  shows "best_level b s = a_tick (hd (abs_book b s))" and "a_tick (hd (abs_book b s)) \<in> marked b s"
proof -
  note R = book_repD [OF rep]
  let ?h = "hd (abs_book b s)"
  have hm: "?h \<in> set (abs_book b s)" using ne by simp
  show m: "a_tick ?h \<in> marked b s" by (rule abs_tick_marked [OF rep hm])
  have "ahead s (a_tick ?h) j" if jm: "j \<in> marked b s" for j
  proof -
    obtain y where y: "y \<in> set (abs_book b s)" "a_tick y = j" by (rule marked_abs [OF rep jm])
    have "by_price s (hd (abs_book b s) # tl (abs_book b s))" using abs_book_wf(2) [OF rep, of s] ne by simp
    with y ne show ?thesis by (cases "abs_book b s") (auto simp: by_price_def)
  qed
  with m have "is_best b s (a_tick ?h)" by (cases s) (auto simp: is_best_def)
  with best_level_is_best(2) [OF R(1,6) m] show "best_level b s = a_tick ?h" by simp
qed

lemma abs_empty_iff:
  assumes "book_rep b qs"
  shows "abs_book b s = [] \<longleftrightarrow> marked b s = {}"
  using abs_tick_marked [OF assms] marked_abs [OF assms] by (metis emptyE equals0I list.set(1) list.set_intros(1) neq_Nil_conv)

lemma best_prices_abs:
  assumes "book_ok b"
  shows "best_bid b = (if abs_book b Buy = [] then - 1 else bk_base b + word_of_nat (a_tick (hd (abs_book b Buy)))) \<and>
    best_ask b = (if abs_book b Sell = [] then - 1 else bk_base b + word_of_nat (a_tick (hd (abs_book b Sell)))) \<and>
    (\<forall>x\<in>set (abs_book b Buy). \<forall>y\<in>set (abs_book b Sell). a_tick x < a_tick y)"
proof -
  from assms obtain qs where rep: "book_rep b qs" by (rule book_okE)
  note R = book_repD [OF rep]
  have "best_bid b = (if abs_book b Buy = [] then - 1 else bk_base b + word_of_nat (a_tick (hd (abs_book b Buy))))"
    using best_level_head(1) [OF rep, of Buy] abs_empty_iff [OF rep, of Buy] R(6)
      bitmap.best_bid_NPOS [OF shape_bits(1) [OF R(1)]]
    by (auto simp: best_bid_def best_ok_def best_level_def)
  moreover have "best_ask b = (if abs_book b Sell = [] then - 1 else bk_base b + word_of_nat (a_tick (hd (abs_book b Sell))))"
  proof (cases "abs_book b Sell = []")
    case True
    with abs_empty_iff [OF rep, of Sell] R(6) show ?thesis
      by (simp add: best_ask_def best_ok_def best_ask_of_def)
  next
    case False
    with best_level_head [OF rep False] marked_bound [OF R(1), of _ Sell] have
      "bk_best_ask b = a_tick (hd (abs_book b Sell))" "a_tick (hd (abs_book b Sell)) < NumTicks b"
      by (simp_all add: best_level_def)
    with False show ?thesis by (simp add: best_ask_def)
  qed
  moreover have "a_tick x < a_tick y" if "x \<in> set (abs_book b Buy)" "y \<in> set (abs_book b Sell)" for x y
    using abs_tick_marked [OF rep that(1)] abs_tick_marked [OF rep that(2)] R(5) by (auto simp: marks_ok_def)
  ultimately show ?thesis by blast
qed

text \<open>C7. The observers \<open>best_bid\<close> and \<open>best_ask\<close> answer the price of the first order of each
  side (- 1 when the side is empty), and a well-formed book is never crossed or locked: every
  resting bid is strictly below every resting ask.\<close>

theorem best_prices:
  assumes "book_ok b"
  shows "best_bid b = (if abs_book b Buy = [] then - 1 else bk_base b + word_of_nat (a_tick (hd (abs_book b Buy)))) \<and>
    best_ask b = (if abs_book b Sell = [] then - 1 else bk_base b + word_of_nat (a_tick (hd (abs_book b Sell)))) \<and>
    (\<forall>x\<in>set (abs_book b Buy). \<forall>y\<in>set (abs_book b Sell). a_tick x < a_tick y)"
  by (rule best_prices_abs [OF assms])

theorem best_prices_witness:
  "\<exists>oid b1. new_order (book_new 64 4 1000) Buy 1005 10 False = Some (oid, b1, []) \<and>
    best_bid b1 = 1005 \<and> best_ask b1 = - 1"
proof (rule one_order)
  fix oid b1
  assume a: "new_order (book_new 64 4 1000) Buy 1005 10 False = Some (oid, b1, [])" "book_ok b1" "bk_base b1 = 1000"
    "abs_book b1 = (\<lambda>s. [])(Buy := [\<lparr>a_id = oid, a_tick = 5, a_qty = 10, a_hidden = 0, a_display = 0\<rparr>])"
  from best_prices [OF a(2)] a(1,3,4) show ?thesis by simp
qed

text \<open>The orders of one level inside the abstract side.\<close>

lemma abs_filter_tick:
  assumes rep: "book_rep b qs" and i: "i < NumTicks b"
  shows "filter (\<lambda>x. a_tick x = i) (abs_book b s) = lvl b qs s i"
proof (rule abs_book_split [OF rep rep refl i, of s])
  fix A C assume AC: "abs_book b s = A @ lvl b qs s i @ C" "\<forall>y\<in>set A. ahead s (a_tick y) i \<and> a_tick y \<noteq> i"
    "\<forall>y\<in>set C. \<not> ahead s (a_tick y) i"
  have "filter (\<lambda>x. a_tick x = i) A = []" "filter (\<lambda>x. a_tick x = i) C = []"
    using AC(2,3) by (auto simp: filter_empty_conv)
  moreover have "filter (\<lambda>x. a_tick x = i) (lvl b qs s i) = lvl b qs s i"
    using lvl_tick(1) [OF rep i] by (simp add: filter_id_conv)
  ultimately show ?thesis by (simp add: AC(1))
qed simp

lemma qty_sum_cont:
  assumes "\<forall>p\<in>set ps. H p \<noteq> None"
  shows "sum_list (map (qty_at H) ps) = of_int (\<Sum>x\<leftarrow>cont base H ps. a_qty x)"
  using assms by (induction ps) (auto simp: qty_at_def oview_def)

text \<open>\<open>level_qty\<close> is the sum of the visible quantities resting at that price (modulo \<open>2^64\<close>,
  as \<open>std::int64_t\<close> adds), over both sides, and 0 outside the ladder.\<close>

theorem level_qty_sum:
  assumes "book_ok b"
  shows "level_qty b p = (if idx_of b p < NumTicks b then
      of_int (\<Sum>x\<leftarrow>filter (\<lambda>x. a_tick x = idx_of b p) (abs_book b Buy @ abs_book b Sell). a_qty x) else 0)"
proof (cases "idx_of b p < NumTicks b")
  case i: True
  from assms obtain qs where rep: "book_rep b qs" by (rule book_okE)
  note R = book_repD [OF rep]
  let ?i = "idx_of b p"
  have live: "\<forall>p\<in>set (qs ?i). heap b p \<noteq> None" using owned_live [OF R(3)] by blast
  have "lvl b qs Buy ?i @ lvl b qs Sell ?i = cont (bk_base b) (heap b) (qs ?i)"
  proof (cases "qs ?i = []")
    case False
    then show ?thesis using marks_nonempty [OF R(5), of ?i] marks_side [OF R(5), of ?i Buy] by (auto simp: lvl_def)
  qed (simp add: lvl_def)
  then have e: "filter (\<lambda>x. a_tick x = ?i) (abs_book b Buy @ abs_book b Sell) = cont (bk_base b) (heap b) (qs ?i)"
    by (simp add: abs_filter_tick [OF rep i])
  have "lv_total_qty (bk_levels b ! ?i) = sum_list (map (qty_at (heap b)) (qs ?i))"
    using R(2) [OF i] by (simp add: level_ok_def level_linked_def)
  then show ?thesis unfolding e using i by (simp add: level_qty_def qty_sum_cont [OF live])
qed (simp add: level_qty_def)

theorem level_qty_sum_witness:
  "\<exists>oid b1. new_order (book_new 64 4 1000) Buy 1005 10 False = Some (oid, b1, []) \<and>
    level_qty b1 1005 = 10 \<and> level_qty b1 1006 = 0"
proof (rule one_order)
  fix oid b1
  assume a: "new_order (book_new 64 4 1000) Buy 1005 10 False = Some (oid, b1, [])" "book_ok b1" "bk_base b1 = 1000"
    "NumTicks b1 = 64"
    "abs_book b1 = (\<lambda>s. [])(Buy := [\<lparr>a_id = oid, a_tick = 5, a_qty = 10, a_hidden = 0, a_display = 0\<rparr>])"
  from level_qty_sum [OF a(2)] a(1,3-5) show ?thesis by (simp add: idx_of_def)
qed

section \<open>Reachable books\<close>

inductive book_reach :: "nat \<Rightarrow> nat \<Rightarrow> price \<Rightarrow> book \<Rightarrow> bool" for n cap base where
  fresh: "book_reach n cap base (book_new n cap base)"
| entry: "book_reach n cap base b \<Longrightarrow> new_order b s px q po = Some (oid, b', ts) \<Longrightarrow> book_reach n cap base b'"
| iceberg: "book_reach n cap base b \<Longrightarrow> new_iceberg_order b s px d q = Some (oid, b', ts) \<Longrightarrow>
    book_reach n cap base b'"
| cancelled: "book_reach n cap base b \<Longrightarrow> issued oid \<Longrightarrow> cancel b oid = Some (r, b') \<Longrightarrow> book_reach n cap base b'"
| reduced: "book_reach n cap base b \<Longrightarrow> issued oid \<Longrightarrow> 0 \<le> sint q \<Longrightarrow> reduce b oid q = Some (r, b') \<Longrightarrow>
    book_reach n cap base b'"

lemma new_order_keeps:
  assumes "book_ok b"
  obtains oid b' ts where "new_order b s px q po = Some (oid, b', ts)" and "book_ok b'"
    and "NumTicks b' = NumTicks b" and "PoolCap b' = PoolCap b" and "bk_base b' = bk_base b"
proof (cases "accepts b px q")
  case True
  show ?thesis by (rule new_order_run [OF assms True, of s po]) (rule that)
next
  case False
  then have "new_order b s px q po = Some (0, b, [])" by (auto simp: accepts_def new_order_def)
  with assms show ?thesis by (intro that) auto
qed

lemma iceberg_keeps:
  assumes "book_ok b"
  obtains oid b' ts where "new_iceberg_order b s px d q = Some (oid, b', ts)" and "book_ok b'"
    and "NumTicks b' = NumTicks b" and "PoolCap b' = PoolCap b" and "bk_base b' = bk_base b"
proof (cases "accepts b px q \<and> 0 < sint d")
  case True
  then have t: "accepts b px q" "0 < sint d" by auto
  show ?thesis by (rule iceberg_run [OF assms t, of s]) (rule that)
next
  case False
  then have "new_iceberg_order b s px d q = Some (0, b, [])" by (auto simp: accepts_def new_iceberg_order_def)
  with assms show ?thesis by (intro that) auto
qed

lemma cancel_keeps:
  assumes "book_ok b" and "issued oid"
  obtains r b' where "cancel b oid = Some (r, b')" and "book_ok b'"
    and "NumTicks b' = NumTicks b" and "PoolCap b' = PoolCap b" and "bk_base b' = bk_base b"
proof -
  from assms(1) obtain qs where "book_rep b qs" by (rule book_okE)
  then show ?thesis by (rule cancel_rep [OF _ assms(2)]) (rule that)
qed

lemma reduce_keeps:
  assumes "book_ok b" and "issued oid" and "0 \<le> sint q"
  obtains r b' where "reduce b oid q = Some (r, b')" and "book_ok b'"
    and "NumTicks b' = NumTicks b" and "PoolCap b' = PoolCap b" and "bk_base b' = bk_base b"
proof -
  from assms(1) obtain qs where "book_rep b qs" by (rule book_okE)
  then show ?thesis by (rule reduce_rep [OF _ assms(2,3)]) (rule that)
qed

lemma book_reach_ok:
  assumes "book_reach n cap base b" and "sizes_ok n cap"
  shows "book_ok b \<and> NumTicks b = n \<and> PoolCap b = cap \<and> bk_base b = base"
  using assms(1)
proof induction
  case fresh show ?case using book_new_ok [OF assms(2)] by simp
next
  case (entry b s px q po oid b' ts)
  then show ?case using new_order_keeps [of b s px q po] by auto
next
  case (iceberg b s px d q oid b' ts)
  then show ?case using iceberg_keeps [of b s px d q] by auto
next
  case (cancelled b oid r b')
  then show ?case using cancel_keeps [of b oid] by auto
next
  case (reduced b oid q r b')
  then show ?case using reduce_keeps [of b oid q] by auto
qed



text \<open>The dispatcher \<open>apply\<close> keeps the book well-formed on every message whose id was handed
  out and whose quantity is not negative, and returns.\<close>

theorem apply_safe:
  assumes "book_ok b" and "m_type m = NewOrder \<or> issued (m_id m)" and "0 \<le> sint (m_qty m)"
  shows "\<exists>b' ts. book_apply b m = Some (b', ts) \<and> book_ok b' \<and>
    (m_type m \<noteq> NewOrder \<longrightarrow> ts = [] \<and> abs_book b' =
      (if m_type m = Cancel then acancel (abs_book b) (m_id m)
       else areduce (abs_book b) (m_id m) (sint (m_qty m))))"
proof -
  from assms(1) obtain qs where rep: "book_rep b qs" by (rule book_okE)
  show ?thesis
  proof (cases "m_type m")
    case NewOrder
    show ?thesis
      by (rule new_order_keeps [OF assms(1), of "m_side m" "m_price m" "m_qty m" False])
        (use NewOrder in \<open>auto simp: book_apply_def\<close>)
  next
    case Cancel
    then have i: "issued (m_id m)" using assms(2) by auto
    show ?thesis by (rule cancel_rep [OF rep i]) (use Cancel in \<open>auto simp: book_apply_def\<close>)
  next
    case Execute
    then have i: "issued (m_id m)" using assms(2) by auto
    show ?thesis by (rule reduce_rep [OF rep i assms(3)]) (use Execute in \<open>auto simp: book_apply_def\<close>)
  next
    case Reduce
    then have i: "issued (m_id m)" using assms(2) by auto
    show ?thesis by (rule reduce_rep [OF rep i assms(3)]) (use Reduce in \<open>auto simp: book_apply_def\<close>)
  qed
qed

theorem apply_safe_witness:
  "\<exists>b' ts. book_apply (book_new 64 4 1000)
    \<lparr>m_price = 1005, m_qty = 10, m_id = 0, m_type = NewOrder, m_side = Buy\<rparr> = Some (b', ts) \<and> book_ok b'"
  using apply_safe [OF book_new_ok [OF sizes_small, of 1000],
      of "\<lparr>m_price = 1005, m_qty = 10, m_id = 0, m_type = NewOrder, m_side = Buy\<rparr>"] by auto

section \<open>Time priority and ids\<close>

text \<open>Time priority: when the opposite side holds no iceberg reserve, the makers of the trades
  are a prefix of that side in priority order, each at most once, so within a price the oldest
  order fills first.\<close>

theorem makers_are_fifo:
  assumes "book_ok b" and "accepts b px q" and "new_order b s px q po = Some (oid, b', ts)"
    and "\<forall>x\<in>set (abs_book b (opposite s)). a_hidden x = 0"
  shows "map maker_id ts = map a_id (take (length ts) (abs_book b (opposite s)))"
proof (rule new_order_match [OF assms(1-3)])
  fix q' assume m: "amatch s (idx_of b px) (sint q) (abs_book b (opposite s)) =
      (q', abs_book b' (opposite s), map (atrade_of (bk_base b)) ts)"
  from amatch_fifo [OF m assms(4)] show ?thesis by (auto simp: o_def)
qed simp

theorem makers_are_fifo_witness:
  "\<exists>oid b1 b2 t. new_order (book_new 64 4 1000) Buy 1005 10 False = Some (oid, b1, []) \<and>
    new_order b1 Sell 1003 4 False = Some (- 1, b2, [t]) \<and> maker_id t = oid"
proof (rule one_trade)
  fix oid b1 b2 t
  assume a: "new_order (book_new 64 4 1000) Buy 1005 10 False = Some (oid, b1, [])" "book_ok b1"
    "accepts b1 1003 4" "new_order b1 Sell 1003 4 False = Some (- 1, b2, [t])"
    "abs_book b1 = (\<lambda>s. [])(Buy := [\<lparr>a_id = oid, a_tick = 5, a_qty = 10, a_hidden = 0, a_display = 0\<rparr>])"
  from makers_are_fifo [OF a(2-4)] a show ?thesis by auto
qed

lemma rep_ids:
  assumes rep: "book_rep b qs"
  shows "distinct (map a_id (abs_book b s))"
proof -
  note R = book_repD [OF rep]
  have lv: "map a_id (lvl b qs s i) = (if i \<in> marked b s then map (\<lambda>p. o_id (the (heap b p))) (qs i) else [])" for i
    by (simp add: lvl_def cont_def oview_def o_def)
  have inj: "inj_on (\<lambda>p. o_id (the (heap b p))) (dom (heap b))"
    by (auto simp: inj_on_def dest: live_id_inj [OF rep])
  have sub: "set (qs i) \<subseteq> dom (heap b)" for i using owned_live [OF R(3)] by blast
  have "distinct (concat (map (\<lambda>i. map a_id (lvl b qs s i)) ks))" if "distinct ks" for ks
    using that
  proof (induction ks)
    case (Cons k ks)
    have "distinct (map a_id (lvl b qs s k))"
      using owned_distinct [OF R(3), of k] inj_on_subset [OF inj sub [of k]] by (simp add: lv distinct_map)
    moreover have "o_id (the (heap b p)) \<noteq> o_id (the (heap b p'))" if "p \<in> set (qs k)" "p' \<in> set (qs j)" "j \<in> set ks" for p p' j
    proof -
      have "j \<noteq> k" using that(3) Cons.prems by auto
      then have "p \<noteq> p'" using that owned_disjoint [OF R(3), of p k j] by auto
      with sub that inj_onD [OF inj, of p p'] show ?thesis by blast
    qed
    then have "set (map a_id (lvl b qs s k)) \<inter> set (concat (map (\<lambda>i. map a_id (lvl b qs s i)) ks)) = {}"
      by (auto simp: lv split: if_splits) metis+
    ultimately show ?case using Cons by simp
  qed simp
  moreover have "distinct (ticks s (NumTicks b))" by (cases s) (auto simp: ticks_def)
  ultimately show ?thesis by (simp add: abs_book_rep [OF rep] map_concat o_def)
qed

lemma ids_distinct:
  assumes "book_ok b"
  shows "distinct (map a_id (abs_book b Buy @ abs_book b Sell))"
proof -
  from assms obtain qs where rep: "book_rep b qs" by (rule book_okE)
  have "a_id x \<noteq> a_id y" if xy: "x \<in> set (abs_book b Buy)" "y \<in> set (abs_book b Sell)" for x y
  proof
    assume e: "a_id x = a_id y"
    obtain p u where p: "heap b p = Some u" "x = oview (bk_base b) u" "o_side u = Buy"
      by (rule abs_member [OF rep xy(1)])
    obtain r v where r: "heap b r = Some v" "y = oview (bk_base b) v" "o_side v = Sell"
      by (rule abs_member [OF rep xy(2)])
    from live_id_inj [OF rep p(1) r(1)] e p r show False by (auto simp: oview_def)
  qed
  then show ?thesis using rep_ids [OF rep] by (auto simp: distinct_append)
qed

text \<open>Ids identify: in a well-formed book no two resting orders share an id, no resting order
  has the ids 0 and \<open>TAKER_FILLED_ID\<close> of a rejected and of a filled order, and every resting id
  is one that \<open>cancel\<close> accepts.\<close>

theorem ids_identify:
  assumes "book_ok b"
  shows "distinct (map a_id (abs_book b Buy @ abs_book b Sell)) \<and> \<not> alive (abs_book b) 0 \<and>
    \<not> alive (abs_book b) TAKER_FILLED_ID \<and> (alive (abs_book b) oid \<longrightarrow> issued oid)"
proof -
  from assms obtain qs where rep: "book_rep b qs" by (rule book_okE)
  note R = book_repD [OF rep]
  have "o_id x \<noteq> 0 \<and> o_id x \<noteq> - 1" if x: "heap b p = Some x" for p x
  proof -
    note L = live_id [OF rep x]
    have "p < 2 ^ 32 - 2" using L(2) shape_cap [OF R(1)] by simp
    from mk_id_not_filled [OF this, of "bk_gens b ! p"] mk_id_nonzero [OF L(3), of "bk_gens b ! p"] L(1)
    show ?thesis by simp
  qed
  then have "\<not> alive (abs_book b) 0" "\<not> alive (abs_book b) TAKER_FILLED_ID"
    unfolding alive_heap [OF rep] TAKER_FILLED_ID_def by fastforce+
  moreover have "issued oid" if al: "alive (abs_book b) oid"
  proof -
    from al obtain p x where x: "heap b p = Some x" "o_id x = oid" unfolding alive_heap [OF rep] by blast
    note L = live_id [OF rep x(1)]
    from mk_id_gen [OF L(3), of "bk_gens b ! p"] L(1,4) x(2) show ?thesis by (simp add: issued_def)
  qed
  ultimately show ?thesis using ids_distinct [OF assms] by blast
qed

theorem ids_identify_witness:
  "\<exists>oid b1. new_order (book_new 64 4 1000) Buy 1005 10 False = Some (oid, b1, []) \<and>
    alive (abs_book b1) oid \<and> oid \<noteq> 0 \<and> oid \<noteq> TAKER_FILLED_ID \<and> issued oid"
proof (rule one_order)
  fix oid b1
  assume a: "new_order (book_new 64 4 1000) Buy 1005 10 False = Some (oid, b1, [])" "book_ok b1"
    "abs_book b1 = (\<lambda>s. [])(Buy := [\<lparr>a_id = oid, a_tick = 5, a_qty = 10, a_hidden = 0, a_display = 0\<rparr>])"
  have "alive (abs_book b1) oid" by (auto simp: a(3) alive_def intro: exI [of _ Buy])
  with ids_identify [OF a(2), of oid] a(1) show ?thesis by auto
qed

text \<open>C8. The liveness check has a hole: an id nobody was handed, made of a free slot and that
  slot's current (even) generation, passes the generation compare, and \<open>cancel\<close> and \<open>reduce\<close> go
  on to read an \<open>Order\<close> out of a slot that holds a free-list node, which is undefined. On a
  fresh book the ids 1 to \<open>PoolCap\<close> are such ids.\<close>

theorem forged_id_undefined:
  assumes "p < PoolCap b" and "PoolCap b < 2 ^ 32 - 1" and "load b p = None"
  shows "cancel b (mk_id (bk_gens b ! p) p) = None \<and> reduce b (mk_id (bk_gens b ! p) p) q = None"
proof -
  have p: "p < 2 ^ 32 - 1" using assms by simp
  show ?thesis
    using assms mk_id_slot [OF p, of "bk_gens b ! p", unfolded id_slot_def]
      mk_id_gen [OF p, of "bk_gens b ! p", unfolded id_gen_def]
    by (simp add: cancel_def reduce_def unlink_and_release_def Let_def)
qed

theorem forged_id_undefined_witness:
  "cancel (book_new 64 4 1000) 1 = None \<and> reduce (book_new 64 4 1000) 1 5 = None"
proof -
  have l: "load (book_new 64 4 1000) 0 = None" by (simp add: load_heap)
  have "mk_id (bk_gens (book_new 64 4 1000) ! 0) 0 = 1" by (simp add: mk_id_def)
  with forged_id_undefined [of 0 "book_new 64 4 1000" 5] l show ?thesis by simp
qed

end
