(* ===== verification/Bytes.thy ===== *)
theory Bytes
  imports Prelude
begin

text \<open>
  Integers as byte sequences. The host is little-endian, so an integer loaded from a byte buffer
  is \<open>le_word\<close> of its bytes; the wire format is big-endian, so \<open>include/lob/itch.hpp\<close> reverses
  the bytes of every field with \<open>bswap\<close> and \<open>bench/pipeline_common.hpp\<close> appends them with
  \<open>put_be16 .. put_be64\<close>. The lemmas say that the two are inverse, at every width.
\<close>

definition le_word :: "u8 list \<Rightarrow> 'a::len word" where
  "le_word bs = word_of_nat (horner_sum unat 256 bs)"

definition le_bytes :: "nat \<Rightarrow> 'a::len word \<Rightarrow> u8 list" where
  "le_bytes n w = map (\<lambda>i. ucast (drop_bit (8 * i) w)) [0..<n]"

text \<open>\<open>__builtin_bswap16\<close>, \<open>32\<close>, \<open>64\<close>: the bytes in reverse order.\<close>

definition bswap16 :: "u16 \<Rightarrow> u16" where
  "bswap16 v = le_word (rev (le_bytes 2 v))"

definition bswap32 :: "u32 \<Rightarrow> u32" where
  "bswap32 v = le_word (rev (le_bytes 4 v))"

definition bswap64 :: "u64 \<Rightarrow> u64" where
  "bswap64 v = le_word (rev (le_bytes 8 v))"

definition put_be16 :: "u16 \<Rightarrow> u8 list" where
  "put_be16 v = [ucast (drop_bit 8 v), ucast v]"

definition put_be32 :: "u32 \<Rightarrow> u8 list" where
  "put_be32 v = map (\<lambda>i. ucast (drop_bit (8 * i) v)) [3, 2, 1, 0]"

definition put_be48 :: "u64 \<Rightarrow> u8 list" where
  "put_be48 v = map (\<lambda>i. ucast (drop_bit (8 * i) v)) [5, 4, 3, 2, 1, 0]"

definition put_be64 :: "u64 \<Rightarrow> u8 list" where
  "put_be64 v = map (\<lambda>i. ucast (drop_bit (8 * i) v)) [7, 6, 5, 4, 3, 2, 1, 0]"

section \<open>Bits of byte sequences\<close>

lemma bit_byte_lt: "bit (w :: u8) k \<Longrightarrow> k < 8"
  using bit_imp_le_length [of w k] by simp

lemma bit_unat_byte: "bit (unat (w :: u8)) k \<longleftrightarrow> bit w k"
  by (auto simp: bit_unsigned_iff dest: bit_byte_lt)

lemma bit_add_256: "bit (unat (b :: u8) + 256 * h) k \<longleftrightarrow> (if k < 8 then bit b k else bit (h :: nat) (k - 8))"
proof -
  have "256 * h = push_bit 8 h" by (simp add: push_bit_eq_mult)
  moreover have "unat b + push_bit 8 h = unat b OR push_bit 8 h"
    by (rule disjunctive_add) (auto simp: bit_unat_byte bit_push_bit_iff dest: bit_byte_lt)
  ultimately show ?thesis by (auto simp: bit_or_iff bit_unat_byte bit_push_bit_iff dest: bit_byte_lt)
qed

lemma bit_horner_bytes:
  "bit (horner_sum unat 256 (bs :: u8 list) :: nat) k \<longleftrightarrow> k div 8 < length bs \<and> bit (bs ! (k div 8)) (k mod 8)"
proof (induction bs arbitrary: k)
  case (Cons b bs)
  show ?case
  proof (cases "k < 8")
    case True
    then show ?thesis by (simp add: bit_add_256)
  next
    case False
    then have "k div 8 = Suc ((k - 8) div 8)" "k mod 8 = (k - 8) mod 8"
      by (simp_all add: le_div_geq le_mod_geq)
    with False Cons.IH [of "k - 8"] show ?thesis by (simp add: bit_add_256)
  qed
qed simp

lemma bit_le_word:
  "bit (le_word bs :: 'a::len word) k \<longleftrightarrow> k < LENGTH('a) \<and> k div 8 < length bs \<and> bit (bs ! (k div 8)) (k mod 8)"
  by (auto simp: le_word_def bit_simps bit_horner_bytes)

lemma bit_le_bytes: "i < n \<Longrightarrow> j < 8 \<Longrightarrow> bit (le_bytes n w ! i) j \<longleftrightarrow> bit w (8 * i + j)"
  by (simp add: le_bytes_def bit_simps add.commute)

lemma length_le_bytes [simp]: "length (le_bytes n w) = n"
  by (simp add: le_bytes_def)

lemma le_bytes_word: "8 * length bs \<le> LENGTH('a) \<Longrightarrow> le_bytes (length bs) (le_word bs :: 'a::len word) = bs"
proof (rule nth_equalityI)
  fix i assume le: "8 * length bs \<le> LENGTH('a)" and "i < length (le_bytes (length bs) (le_word bs :: 'a word))"
  then have i: "i < length bs" by simp
  show "le_bytes (length bs) (le_word bs :: 'a word) ! i = bs ! i"
  proof (rule bit_eqI)
    fix j assume "possible_bit TYPE(8 word) j"
    then have j: "j < 8" by simp
    have "8 * i + j < LENGTH('a)" using le i j by linarith
    moreover have "(8 * i + j) div 8 = i" "(8 * i + j) mod 8 = j" using j by simp_all
    ultimately show "bit (le_bytes (length bs) (le_word bs :: 'a word) ! i) j = bit (bs ! i) j"
      using bit_le_bytes [OF i j, of "le_word bs :: 'a word"] i by (simp add: bit_le_word)
  qed
qed simp

lemma le_word_bytes: "8 * n = LENGTH('a) \<Longrightarrow> le_word (le_bytes n (w :: 'a::len word)) = w"
proof (rule bit_word_eqI)
  fix k assume n: "8 * n = LENGTH('a)" and k: "k < LENGTH('a)"
  then have "k div 8 < n" "k mod 8 < 8" by simp_all
  with bit_le_bytes [OF this, of w] k show "bit (le_word (le_bytes n w) :: 'a word) k = bit w k"
    by (simp add: bit_le_word)
qed

section \<open>Round trips\<close>

lemma rev_upt_lists:
  "rev [0..<2] = [1, 0]" "rev [0..<4] = [3, 2, 1, 0]" "rev [0..<6] = [5, 4, 3, 2, 1, 0]"
  "rev [0..<8] = [7, 6, 5, 4, 3, 2, 1, 0]"
  by (simp_all add: upt_rec)

lemma put_be_rev:
  "put_be16 v2 = rev (le_bytes 2 v2)" "put_be32 v4 = rev (le_bytes 4 v4)"
  "put_be48 v8 = rev (le_bytes 6 v8)" "put_be64 v8 = rev (le_bytes 8 v8)"
  unfolding le_bytes_def rev_map rev_upt_lists by (simp_all add: put_be16_def put_be32_def put_be48_def put_be64_def)

lemma put_be_length [simp]:
  "length (put_be16 v2) = 2" "length (put_be32 v4) = 4" "length (put_be48 v8) = 6" "length (put_be64 v8) = 8"
  by (simp_all add: put_be_rev)

lemma bswap_bytes:
  "length bs = 2 \<Longrightarrow> bswap16 (le_word bs) = le_word (rev bs)"
  "length bs = 4 \<Longrightarrow> bswap32 (le_word bs) = le_word (rev bs)"
  "length bs = 8 \<Longrightarrow> bswap64 (le_word bs) = le_word (rev bs)"
  using le_bytes_word [of bs, where 'a = 16] le_bytes_word [of bs, where 'a = 32] le_bytes_word [of bs, where 'a = 64]
  by (simp_all add: bswap16_def bswap32_def bswap64_def)

lemma bswap_put_be [simp]:
  "bswap16 (le_word (put_be16 v2)) = v2"
  "bswap32 (le_word (put_be32 v4)) = v4"
  "bswap64 (le_word (put_be64 v8)) = v8"
  by (simp_all add: bswap_bytes) (simp_all add: put_be_rev le_word_bytes)

lemma bswap_involutive: "bswap16 (bswap16 v2) = v2" "bswap32 (bswap32 v4) = v4" "bswap64 (bswap64 v8) = v8"
  by (simp_all add: bswap16_def [of v2] bswap32_def [of v4] bswap64_def [of v8] bswap_bytes le_word_bytes)

end
