(* ===== verification/Itch.thy ===== *)
theory Itch
  imports Bytes
begin

text \<open>
  \<open>include/lob/itch.hpp\<close>: the wire structs of the ITCH messages and the zero-copy parser. A
  buffer is the list of the bytes of the object the parser was pointed at; a pointer into it is
  an offset, and a read past its end is undefined (\<^const>\<open>None\<close>). Overlaying a packed struct on
  the buffer loads each integer field in the byte order of the host (\<open>le_word\<close>), so the fields
  hold byte-swapped values until they go through \<open>bswap\<close>, as in the code. The sink of the
  parser is a function on the state of its owner; its four overloads are the four constructors
  of \<open>wire_msg\<close>.
\<close>

record msg_header =
  h_type :: u8
  h_stock_locate :: u16
  h_tracking_number :: u16
  h_timestamp :: "u8 list"

record add_order =
  ao_h :: msg_header
  ao_order_ref :: u64
  ao_side :: u8
  ao_shares :: u32
  ao_stock :: "u8 list"
  ao_price :: u32

record order_executed =
  oe_h :: msg_header
  oe_order_ref :: u64
  oe_executed_shares :: u32
  oe_match_number :: u64

record order_cancel =
  oc_h :: msg_header
  oc_order_ref :: u64
  oc_canceled_shares :: u32

record order_delete =
  od_h :: msg_header
  od_order_ref :: u64

datatype wire_msg = WAdd add_order | WExecuted order_executed | WCancel order_cancel | WDelete order_delete

text \<open>The characters of the protocol and the sizes the \<open>static_assert\<close>s pin down.\<close>

definition chr_A :: u8 where "chr_A = 65"
definition chr_B :: u8 where "chr_B = 66"
definition chr_D :: u8 where "chr_D = 68"
definition chr_E :: u8 where "chr_E = 69"
definition chr_S :: u8 where "chr_S = 83"
definition chr_X :: u8 where "chr_X = 88"

definition sizeof_AddOrder :: nat where "sizeof_AddOrder = 36"
definition sizeof_OrderExecuted :: nat where "sizeof_OrderExecuted = 31"
definition sizeof_OrderCancel :: nat where "sizeof_OrderCancel = 23"
definition sizeof_OrderDelete :: nat where "sizeof_OrderDelete = 19"

lemmas wire_consts = chr_A_def chr_B_def chr_D_def chr_E_def chr_S_def chr_X_def
  sizeof_AddOrder_def sizeof_OrderExecuted_def sizeof_OrderCancel_def sizeof_OrderDelete_def

section \<open>Overlays\<close>

definition sub_bytes :: "u8 list \<Rightarrow> nat \<Rightarrow> nat \<Rightarrow> u8 list" where
  "sub_bytes bs off n = take n (drop off bs)"

definition bytes_at :: "u8 list \<Rightarrow> nat \<Rightarrow> nat \<Rightarrow> u8 list option" where
  "bytes_at buf off n = (if off + n \<le> length buf then Some (sub_bytes buf off n) else None)"

definition load_be16 :: "u8 list \<Rightarrow> nat \<Rightarrow> u16 option" where
  "load_be16 buf p = do {
     bs \<leftarrow> bytes_at buf p 2;
     Some (bswap16 (le_word bs))
   }"

definition as_header :: "u8 list \<Rightarrow> msg_header" where
  "as_header bs = \<lparr>h_type = bs ! 0, h_stock_locate = le_word (sub_bytes bs 1 2),
     h_tracking_number = le_word (sub_bytes bs 3 2), h_timestamp = sub_bytes bs 5 6\<rparr>"

definition as_add :: "u8 list \<Rightarrow> add_order" where
  "as_add bs = \<lparr>ao_h = as_header bs, ao_order_ref = le_word (sub_bytes bs 11 8), ao_side = bs ! 19,
     ao_shares = le_word (sub_bytes bs 20 4), ao_stock = sub_bytes bs 24 8,
     ao_price = le_word (sub_bytes bs 32 4)\<rparr>"

definition as_executed :: "u8 list \<Rightarrow> order_executed" where
  "as_executed bs = \<lparr>oe_h = as_header bs, oe_order_ref = le_word (sub_bytes bs 11 8),
     oe_executed_shares = le_word (sub_bytes bs 19 4), oe_match_number = le_word (sub_bytes bs 23 8)\<rparr>"

definition as_cancel :: "u8 list \<Rightarrow> order_cancel" where
  "as_cancel bs = \<lparr>oc_h = as_header bs, oc_order_ref = le_word (sub_bytes bs 11 8),
     oc_canceled_shares = le_word (sub_bytes bs 19 4)\<rparr>"

definition as_delete :: "u8 list \<Rightarrow> order_delete" where
  "as_delete bs = \<lparr>od_h = as_header bs, od_order_ref = le_word (sub_bytes bs 11 8)\<rparr>"

definition timestamp_ns :: "msg_header \<Rightarrow> u64" where
  "timestamp_ns h = push_bit 40 (ucast (h_timestamp h ! 0)) OR push_bit 32 (ucast (h_timestamp h ! 1)) OR
     push_bit 24 (ucast (h_timestamp h ! 2)) OR push_bit 16 (ucast (h_timestamp h ! 3)) OR
     push_bit 8 (ucast (h_timestamp h ! 4)) OR ucast (h_timestamp h ! 5)"

section \<open>The parser\<close>

record parser =
  ps_buf :: "u8 list"
  ps_cur :: nat
  ps_end :: nat

definition parser_new :: "u8 list \<Rightarrow> nat \<Rightarrow> parser" where
  "parser_new data len = \<lparr>ps_buf = data, ps_cur = 0, ps_end = len\<rparr>"

definition parser_next :: "(wire_msg \<Rightarrow> 's \<Rightarrow> 's option) \<Rightarrow> parser \<Rightarrow> 's \<Rightarrow> (bool \<times> parser \<times> 's) option" where
  "parser_next sink ps s =
     (if ps_end ps < ps_cur ps + 2 then Some (False, ps, s)
      else do {
        w \<leftarrow> load_be16 (ps_buf ps) (ps_cur ps);
        let len = unat w;
        let p = ps_cur ps + 2;
        if ps_end ps < p + len then Some (False, ps, s)
        else do {
          c \<leftarrow> aget (ps_buf ps) p;
          if c = chr_A then
            if len \<noteq> sizeof_AddOrder then Some (False, ps, s)
            else do {
              bs \<leftarrow> bytes_at (ps_buf ps) p sizeof_AddOrder;
              s \<leftarrow> sink (WAdd (as_add bs)) s;
              Some (True, ps\<lparr>ps_cur := p + len\<rparr>, s)
            }
          else if c = chr_E then
            if len \<noteq> sizeof_OrderExecuted then Some (False, ps, s)
            else do {
              bs \<leftarrow> bytes_at (ps_buf ps) p sizeof_OrderExecuted;
              s \<leftarrow> sink (WExecuted (as_executed bs)) s;
              Some (True, ps\<lparr>ps_cur := p + len\<rparr>, s)
            }
          else if c = chr_X then
            if len \<noteq> sizeof_OrderCancel then Some (False, ps, s)
            else do {
              bs \<leftarrow> bytes_at (ps_buf ps) p sizeof_OrderCancel;
              s \<leftarrow> sink (WCancel (as_cancel bs)) s;
              Some (True, ps\<lparr>ps_cur := p + len\<rparr>, s)
            }
          else if c = chr_D then
            if len \<noteq> sizeof_OrderDelete then Some (False, ps, s)
            else do {
              bs \<leftarrow> bytes_at (ps_buf ps) p sizeof_OrderDelete;
              s \<leftarrow> sink (WDelete (as_delete bs)) s;
              Some (True, ps\<lparr>ps_cur := p + len\<rparr>, s)
            }
          else Some (False, ps, s)
        }
      })"

definition exhausted :: "parser \<Rightarrow> bool" where
  "exhausted ps \<longleftrightarrow> ps_end ps \<le> ps_cur ps"

text \<open>The session loop \<open>while (p.next(sink)) {}\<close>.\<close>

partial_function (option) parse_all :: "(wire_msg \<Rightarrow> 's \<Rightarrow> 's option) \<Rightarrow> parser \<Rightarrow> 's \<Rightarrow> (parser \<times> 's) option" where
  "parse_all sink ps s = do {
     (more, ps, s) \<leftarrow> parser_next sink ps s;
     if more then parse_all sink ps s else Some (ps, s)
   }"

section \<open>Frames\<close>

text \<open>What the four arms of the dispatch do: the message a payload stands for, if it is one.\<close>

definition payload_msg :: "u8 list \<Rightarrow> wire_msg option" where
  "payload_msg bs =
     (if bs \<noteq> [] \<and> bs ! 0 = chr_A \<and> length bs = sizeof_AddOrder then Some (WAdd (as_add bs))
      else if bs \<noteq> [] \<and> bs ! 0 = chr_E \<and> length bs = sizeof_OrderExecuted then Some (WExecuted (as_executed bs))
      else if bs \<noteq> [] \<and> bs ! 0 = chr_X \<and> length bs = sizeof_OrderCancel then Some (WCancel (as_cancel bs))
      else if bs \<noteq> [] \<and> bs ! 0 = chr_D \<and> length bs = sizeof_OrderDelete then Some (WDelete (as_delete bs))
      else None)"

lemma payload_msg_length: "payload_msg bs = Some w \<Longrightarrow> 19 \<le> length bs \<and> length bs \<le> 36"
  by (auto simp: payload_msg_def wire_consts split: if_splits)

text \<open>The parser on a whole frame, whatever it holds, that lies inside the buffer.\<close>

lemma parser_next_frame:
  assumes cur: "ps_cur ps + 2 + unat w \<le> ps_end ps" and fit: "ps_end ps \<le> length (ps_buf ps)"
    and len: "load_be16 (ps_buf ps) (ps_cur ps) = Some w" and byte: "ps_cur ps + 2 < length (ps_buf ps)"
  shows "parser_next sink ps s = (case payload_msg (sub_bytes (ps_buf ps) (ps_cur ps + 2) (unat w)) of
     Some m \<Rightarrow> do { s \<leftarrow> sink m s; Some (True, ps\<lparr>ps_cur := ps_cur ps + 2 + unat w\<rparr>, s) }
   | None \<Rightarrow> Some (False, ps, s))"
proof -
  let ?bs = "sub_bytes (ps_buf ps) (ps_cur ps + 2) (unat w)"
  have c: "aget (ps_buf ps) (ps_cur ps + 2) = Some (ps_buf ps ! (ps_cur ps + 2))" using byte by simp
  have lb: "length ?bs = unat w" using cur fit by (simp add: sub_bytes_def)
  have hd: "?bs ! 0 = ps_buf ps ! (ps_cur ps + 2)" if "0 < unat w" using that byte by (simp add: sub_bytes_def)
  have ne: "?bs \<noteq> [] \<longleftrightarrow> 0 < unat w" by (simp only: lb flip: length_greater_0_conv)
  have go: "\<not> ps_end ps < ps_cur ps + 2" "\<not> ps_end ps < ps_cur ps + 2 + unat w" using cur by simp_all
  note run = parser_next_def [of sink ps s, unfolded if_not_P [OF go(1)] len, simplified, unfolded Let_def
    if_not_P [OF go(2)] c, simplified]
  show ?thesis
  proof (cases "0 < unat w")
    case False
    then show ?thesis using ne byte unfolding run payload_msg_def wire_consts by simp
  next
    case True
    note P = payload_msg_def [of ?bs, unfolded lb hd [OF True], simplified ne True simp_thms]
    consider "unat w = 36" | "unat w = 31" | "unat w = 23" | "unat w = 19"
      | "unat w \<noteq> 36 \<and> unat w \<noteq> 31 \<and> unat w \<noteq> 23 \<and> unat w \<noteq> 19" by blast
    then show ?thesis
      unfolding run P wire_consts using cur byte fit by cases (simp_all add: bytes_at_def)
  qed
qed

text \<open>Every call on a buffer with one byte to spare after the end is free of undefined behaviour,
  and a successful one moves the cursor by a whole frame.\<close>

lemma parser_next_total:
  assumes "ps_end ps < length (ps_buf ps)" and sink: "\<And>m s. sink m s \<noteq> None"
  obtains r ps' s' where "parser_next sink ps s = Some (r, ps', s')"
    and "ps_buf ps' = ps_buf ps" and "ps_end ps' = ps_end ps"
    and "r \<Longrightarrow> ps_cur ps + 21 \<le> ps_cur ps' \<and> ps_cur ps' \<le> ps_end ps" and "\<not> r \<Longrightarrow> ps' = ps \<and> s' = s"
proof (cases "ps_end ps < ps_cur ps + 2")
  case True
  then show ?thesis by (intro that [of False ps s]) (simp_all add: parser_next_def)
next
  case False
  with assms(1) obtain w where w: "load_be16 (ps_buf ps) (ps_cur ps) = Some w"
    by (simp add: load_be16_def bytes_at_def)
  show ?thesis
  proof (cases "ps_end ps < ps_cur ps + 2 + unat w")
    case True
    with False w show ?thesis by (intro that [of False ps s]) (simp_all add: parser_next_def Let_def)
  next
    case fits: False
    let ?bs = "sub_bytes (ps_buf ps) (ps_cur ps + 2) (unat w)"
    have run: "parser_next sink ps s = (case payload_msg ?bs of
       Some m \<Rightarrow> do { s \<leftarrow> sink m s; Some (True, ps\<lparr>ps_cur := ps_cur ps + 2 + unat w\<rparr>, s) }
     | None \<Rightarrow> Some (False, ps, s))"
      by (rule parser_next_frame) (use fits False assms(1) w in simp_all)
    have lb: "length ?bs = unat w" using fits assms(1) by (simp add: sub_bytes_def)
    show ?thesis
    proof (cases "payload_msg ?bs")
      case None
      with run show ?thesis by (intro that [of False ps s]) simp_all
    next
      case (Some m)
      from sink [of m s] obtain s' where "sink m s = Some s'" by auto
      with run Some payload_msg_length [OF Some] lb fits show ?thesis
        by (intro that [of True "ps\<lparr>ps_cur := ps_cur ps + 2 + unat w\<rparr>" s']) simp_all
    qed
  qed
qed

text \<open>C16. On any bytes whatsoever, with at least one readable byte after the end, the session
  loop ends, reads no byte outside the buffer, and leaves the cursor inside the stream.\<close>

theorem parse_all_safe:
  assumes "ps_end ps < length (ps_buf ps)" and "ps_cur ps \<le> ps_end ps" and "\<forall>m s. sink m s \<noteq> None"
  shows "\<exists>ps' s'. parse_all sink ps s = Some (ps', s') \<and> ps_cur ps \<le> ps_cur ps' \<and> ps_cur ps' \<le> ps_end ps"
  using assms(1,2)
proof (induction "ps_end ps - ps_cur ps" arbitrary: ps s rule: less_induct)
  case less
  show ?case
  proof (rule parser_next_total [OF less.prems(1), of sink s])
    fix r ps' s'
    assume n: "parser_next sink ps s = Some (r, ps', s')" "ps_buf ps' = ps_buf ps" "ps_end ps' = ps_end ps"
      "r \<Longrightarrow> ps_cur ps + 21 \<le> ps_cur ps' \<and> ps_cur ps' \<le> ps_end ps" "\<not> r \<Longrightarrow> ps' = ps \<and> s' = s"
    show ?thesis
    proof (cases r)
      case False
      with n less.prems show ?thesis by (subst parse_all.simps) simp
    next
      case True
      then have c: "ps_cur ps + 21 \<le> ps_cur ps'" "ps_cur ps' \<le> ps_end ps" using n(4) by simp_all
      have "\<exists>ps'' s''. parse_all sink ps' s' = Some (ps'', s'') \<and> ps_cur ps' \<le> ps_cur ps'' \<and> ps_cur ps'' \<le> ps_end ps'"
        by (rule less.hyps) (use c n(2,3) less.prems in simp_all)
      with True n(1,3) c show ?thesis by (subst parse_all.simps) auto
    qed
  qed (use assms(3) in simp)
qed

theorem parse_all_safe_witness:
  "\<exists>ps s. parse_all (\<lambda>m n. Some (n + 1)) (parser_new [0, 0, 7] 2) (0 :: nat) = Some (ps, s) \<and> ps_cur ps \<le> 2"
  using parse_all_safe [of "parser_new [0, 0, 7] 2" "\<lambda>m n. Some (n + 1)" "0 :: nat"] by (auto simp: parser_new_def)

text \<open>C17. Without the spare byte the parser can read past its buffer: on a stream that ends with
  the length prefix of an empty frame, \<open>next\<close> passes both bounds checks and then loads the type
  byte at the end of the buffer.\<close>

theorem empty_frame_overread:
  assumes "ps_end ps = length (ps_buf ps)" and "ps_cur ps + 2 = ps_end ps" and "sub_bytes (ps_buf ps) (ps_cur ps) 2 = [0, 0]"
  shows "parser_next sink ps s = None"
proof -
  have "bswap16 (le_word [0, 0]) = 0"
    using bswap_put_be(1) [of 0] by (simp add: put_be16_def)
  with assms show ?thesis
    by (simp add: parser_next_def load_be16_def bytes_at_def Let_def)
qed

theorem empty_frame_overread_witness:
  "parser_next (\<lambda>m n. Some (n + 1)) (parser_new [0, 0] 2) (0 :: nat) = None"
  using empty_frame_overread [of "parser_new [0, 0] 2" "\<lambda>m n. Some (n + 1)" "0 :: nat"] by (simp add: parser_new_def sub_bytes_def)

section \<open>A stream of frames\<close>

definition frame :: "u8 list \<Rightarrow> u8 list" where
  "frame bs = put_be16 (word_of_nat (length bs)) @ bs"

fun sink_all :: "(wire_msg \<Rightarrow> 's \<Rightarrow> 's option) \<Rightarrow> wire_msg list \<Rightarrow> 's \<Rightarrow> 's option" where
  "sink_all sink [] s = Some s"
| "sink_all sink (m # ms) s = sink m s \<bind> sink_all sink ms"

lemma sub_bytes_mid: "length xs = n \<Longrightarrow> length ys = k \<Longrightarrow> sub_bytes (xs @ ys @ zs) n k = ys"
  by (simp add: sub_bytes_def)

lemma parser_next_at_frame:
  assumes m: "payload_msg bs = Some m" and cur: "ps_cur ps = length pre" and buf: "ps_buf ps = pre @ frame bs @ post"
    and fin: "length pre + length (frame bs) \<le> ps_end ps" "ps_end ps \<le> length (ps_buf ps)"
  shows "parser_next sink ps s = do { s \<leftarrow> sink m s; Some (True, ps\<lparr>ps_cur := length pre + length (frame bs)\<rparr>, s) }"
proof -
  note L = payload_msg_length [OF m]
  let ?w = "word_of_nat (length bs) :: u16"
  have w: "unat ?w = length bs" using L by (simp add: unat_of_nat)
  have fl: "length (frame bs) = 2 + length bs" by (simp add: frame_def)
  have "sub_bytes (ps_buf ps) (ps_cur ps) 2 = put_be16 ?w"
    unfolding buf cur frame_def append_assoc by (rule sub_bytes_mid) simp_all
  then have load: "load_be16 (ps_buf ps) (ps_cur ps) = Some ?w"
    using fin fl by (simp add: load_be16_def bytes_at_def cur buf)
  have "sub_bytes (ps_buf ps) (ps_cur ps + 2) (unat ?w) = bs"
    using sub_bytes_mid [of "pre @ put_be16 ?w" _ bs "length bs" post] by (simp add: buf cur frame_def w)
  moreover have "ps_cur ps + 2 < length (ps_buf ps)" using fin fl L by (simp add: cur)
  ultimately show ?thesis
    using parser_next_frame [OF _ fin(2) load, of sink s] fin(1) w fl m by (simp add: cur add.assoc)
qed

lemma parse_frames:
  assumes "list_all2 (\<lambda>bs m. payload_msg bs = Some m) bss ms"
    and "ps_cur ps = length pre" and "ps_buf ps = pre @ concat (map frame bss) @ post"
    and "ps_end ps = length (pre @ concat (map frame bss))" and "sink_all sink ms s = Some s'"
  shows "parse_all sink ps s = Some (ps\<lparr>ps_cur := ps_end ps\<rparr>, s')"
  using assms
proof (induction bss ms arbitrary: ps pre s rule: list_all2_induct)
  case Nil
  then show ?case by (subst parse_all.simps) (simp add: parser_next_def)
next
  case (Cons bs bss m ms)
  from Cons.prems(4) obtain s1 where s1: "sink m s = Some s1" "sink_all sink ms s1 = Some s'"
    by (auto simp: bind_eq_Some_conv)
  let ?ps = "ps\<lparr>ps_cur := length pre + length (frame bs)\<rparr>"
  have "parser_next sink ps s = Some (True, ?ps, s1)"
    using parser_next_at_frame [of bs m ps pre "concat (map frame bss) @ post" sink s] Cons.hyps(1) Cons.prems s1(1) by simp
  moreover have "parse_all sink ?ps s1 = Some (?ps\<lparr>ps_cur := ps_end ?ps\<rparr>, s')"
    by (rule Cons.IH [of _ "pre @ frame bs"]) (use Cons.prems s1(2) in simp_all)
  ultimately show ?case by (subst parse_all.simps) simp
qed

text \<open>On a stream of well-formed frames the session loop delivers every message to the sink
  exactly once and in order, and ends with the stream exhausted.\<close>

theorem parse_all_frames:
  assumes "list_all2 (\<lambda>bs m. payload_msg bs = Some m) bss ms" and "sink_all sink ms s = Some s'"
  shows "\<exists>ps. parse_all sink (parser_new (concat (map frame bss)) (length (concat (map frame bss)))) s = Some (ps, s') \<and>
    exhausted ps"
proof -
  let ?p = "parser_new (concat (map frame bss)) (length (concat (map frame bss)))"
  have "parse_all sink ?p s = Some (?p\<lparr>ps_cur := ps_end ?p\<rparr>, s')"
    by (rule parse_frames [OF assms(1), of _ "[]" "[]"]) (use assms(2) in \<open>simp_all add: parser_new_def\<close>)
  then show ?thesis by (simp add: exhausted_def)
qed

theorem parse_all_frames_witness:
  "\<exists>ps. parse_all (\<lambda>m ms. Some (ms @ [m])) (parser_new (frame (68 # replicate 18 0)) 21) [] =
    Some (ps, [WDelete (as_delete (68 # replicate 18 0))]) \<and> exhausted ps"
proof -
  have "payload_msg (68 # replicate 18 0) = Some (WDelete (as_delete (68 # replicate 18 0)))"
    by (simp add: payload_msg_def wire_consts)
  then show ?thesis
    using parse_all_frames [of "[68 # replicate 18 0]" "[WDelete (as_delete (68 # replicate 18 0))]"
      "\<lambda>m ms. Some (ms @ [m])" "[]"] by (simp add: frame_def)
qed

end
