(* ===== verification/Bounded_Fifo.thy ===== *)
theory Bounded_Fifo
  imports Prelude
begin

text \<open>
  The contract of the two single-producer single-consumer queues: a bounded FIFO whose
  \<open>push\<close> refuses an item exactly when \<open>cap\<close> items are queued and whose \<open>pop\<close> refuses exactly
  when none is. The sequence numbers of both queues are 64-bit counters that are compared
  with \<open>\<ge>\<close>, so the laws are stated for fewer than \<open>2^64\<close> accepted items (\<open>sent\<close>). The lemma
  proved in the locale is what every client relies on: whatever the interleaving of pushes and
  pops, the items come out in the order in which they were accepted, none lost or duplicated.
\<close>

section \<open>Sequence numbers and slots\<close>

text \<open>Both queues number their items with 64-bit counters that are never wrapped and mask them
  to a slot: \<open>buf_[i & MASK]\<close> with a capacity that is a power of two (a \<open>static_assert\<close>).\<close>

definition slot_index :: "nat \<Rightarrow> u64 \<Rightarrow> nat" where
  "slot_index cap i = unat (i AND (word_of_nat cap - 1))"

definition pow2_cap :: "nat \<Rightarrow> bool" where
  "pow2_cap cap \<longleftrightarrow> (\<exists>k. 1 \<le> k \<and> k < 64 \<and> cap = 2 ^ k)"

lemma pow2_cap_bounds: "pow2_cap cap \<Longrightarrow> 0 < cap \<and> 2 \<le> cap \<and> cap < 2 ^ 64"
  using power_strict_increasing [of _ 64 "2 :: nat"] self_le_power [of "2 :: nat"]
  by (fastforce simp: pow2_cap_def)

lemma slot_index_mod:
  assumes "pow2_cap cap"
  shows "slot_index cap i = unat i mod cap"
proof -
  from assms obtain k where k: "k < 64" "cap = 2 ^ k" by (auto simp: pow2_cap_def)
  have "(word_of_nat (2 ^ k) - 1 :: u64) = mask k" by (simp add: mask_eq_exp_minus_1)
  then have "slot_index cap i = unat (take_bit k i)"
    by (simp only: slot_index_def k(2) take_bit_eq_mask)
  also have "\<dots> = take_bit k (unat i)" by (rule unsigned_take_bit_eq)
  finally show ?thesis by (simp only: k(2) take_bit_eq_mod)
qed

lemma slot_in_range: "pow2_cap cap \<Longrightarrow> slot_index cap i < cap"
  using pow2_cap_bounds [of cap] by (simp add: slot_index_mod)

lemma slot_clash:
  assumes "i mod cap = j mod cap" and "i < j + cap" and "j < i + cap"
  shows "i = (j::nat)"
proof -
  from assms(1) obtain k where "i = j + cap * k \<or> j = i + cap * k"
    by (metis le_add_diff_inverse linear mod_eq_dvd_iff_nat dvd_def)
  with assms(2,3) show ?thesis by (cases k) auto
qed

text \<open>\<open>queued buf cap T xs\<close>: the slots from sequence number \<open>T\<close> on hold \<open>xs\<close>.\<close>

definition queued :: "'a option list \<Rightarrow> nat \<Rightarrow> 'a list \<Rightarrow> bool" where
  "queued buf T xs \<longleftrightarrow> (\<forall>i<length xs. buf ! ((T + i) mod length buf) = Some (xs ! i))"

lemma queued_snoc:
  assumes "queued buf T xs" and "length xs < length buf"
  shows "queued (buf[(T + length xs) mod length buf := Some x]) T (xs @ [x])"
proof -
  have "(T + length xs) mod length buf \<noteq> (T + i) mod length buf" if "i < length xs" for i
    using slot_clash [of "T + length xs" "length buf" "T + i"] that assms(2) by auto
  moreover have "(T + length xs) mod length buf < length buf" using assms(2) by (intro mod_less_divisor) linarith
  ultimately show ?thesis using assms by (auto simp: queued_def nth_append less_Suc_eq)
qed

lemma queued_tl: "queued buf T (x # xs) \<Longrightarrow> queued buf (Suc T) xs"
  by (force simp: queued_def)

lemma queued_next: "queued buf T (drop T xs) \<Longrightarrow> T < length xs \<Longrightarrow> buf ! (T mod length buf) = Some (xs ! T)"
  by (auto simp: queued_def dest: spec [of _ 0])

lemma queued_hd: "queued buf T (x # xs) \<Longrightarrow> buf ! (T mod length buf) = Some x"
  by (force simp: queued_def)

lemma unat_Suc: "unat (h :: u64) + 1 < 2 ^ 64 \<Longrightarrow> unat (h + 1) = unat h + 1"
  using unat_add_lem [of h 1] by simp

section \<open>The contract\<close>

text \<open>A client's sequence of calls: \<open>Some x\<close> pushes \<open>x\<close>, \<open>None\<close> pops. The result lists the
  accepted items, the items received, and the queue left.\<close>

fun fifo_run :: "('q \<Rightarrow> 'a \<Rightarrow> (bool \<times> 'q) option) \<Rightarrow> ('q \<Rightarrow> ('a option \<times> 'q) option) \<Rightarrow>
    'a option list \<Rightarrow> 'q \<Rightarrow> ('a list \<times> 'a list \<times> 'q) option" where
  "fifo_run push pop [] q = Some ([], [], q)"
| "fifo_run push pop (Some x # ops) q = do {
     (r, q) \<leftarrow> push q x;
     (ins, outs, q) \<leftarrow> fifo_run push pop ops q;
     Some (if r then x # ins else ins, outs, q)
   }"
| "fifo_run push pop (None # ops) q = do {
     (r, q) \<leftarrow> pop q;
     (ins, outs, q) \<leftarrow> fifo_run push pop ops q;
     Some (ins, (case r of Some x \<Rightarrow> x # outs | None \<Rightarrow> outs), q)
   }"

locale bounded_fifo =
  fixes ok :: "'q \<Rightarrow> bool" and cap :: "'q \<Rightarrow> nat" and contents :: "'q \<Rightarrow> 'a list" and sent :: "'q \<Rightarrow> nat"
    and push :: "'q \<Rightarrow> 'a \<Rightarrow> (bool \<times> 'q) option" and pop :: "'q \<Rightarrow> ('a option \<times> 'q) option"
  assumes bound: "ok q \<Longrightarrow> length (contents q) \<le> cap q"
    and push_room: "ok q \<Longrightarrow> length (contents q) < cap q \<Longrightarrow> sent q + 1 < 2 ^ 64 \<Longrightarrow>
      \<exists>q'. push q x = Some (True, q') \<and> ok q' \<and> cap q' = cap q \<and> contents q' = contents q @ [x] \<and>
        sent q' = sent q + 1"
    and push_full: "ok q \<Longrightarrow> length (contents q) = cap q \<Longrightarrow>
      \<exists>q'. push q x = Some (False, q') \<and> ok q' \<and> cap q' = cap q \<and> contents q' = contents q \<and> sent q' = sent q"
    and pop_some: "ok q \<Longrightarrow> contents q = x # xs \<Longrightarrow>
      \<exists>q'. pop q = Some (Some x, q') \<and> ok q' \<and> cap q' = cap q \<and> contents q' = xs \<and> sent q' = sent q"
    and pop_none: "ok q \<Longrightarrow> contents q = [] \<Longrightarrow>
      \<exists>q'. pop q = Some (None, q') \<and> ok q' \<and> cap q' = cap q \<and> contents q' = [] \<and> sent q' = sent q"
begin

lemma push_cases:
  assumes "ok q" and "sent q + 1 < 2 ^ 64"
  obtains r q' where "push q x = Some (r, q')" "ok q'" "cap q' = cap q"
    "r \<longleftrightarrow> length (contents q) < cap q" "contents q' = (if r then contents q @ [x] else contents q)"
    "sent q' = (if r then sent q + 1 else sent q)"
proof (cases "length (contents q) < cap q")
  case True
  with push_room [OF assms(1) True assms(2), of x] that [of True] show ?thesis by auto
next
  case False
  with bound [OF assms(1)] push_full [OF assms(1), of x] that [of False] show ?thesis by auto
qed

lemma pop_cases:
  assumes "ok q"
  obtains (empty) q' where "contents q = []" "pop q = Some (None, q')" "ok q'" "cap q' = cap q"
      "sent q' = sent q" "contents q' = []"
  | (got) x q' where "contents q = x # contents q'" "pop q = Some (Some x, q')" "ok q'" "cap q' = cap q"
      "sent q' = sent q"
proof (cases "contents q")
  case Nil
  with pop_none [OF assms] empty show ?thesis by auto
next
  case (Cons x xs)
  with pop_some [OF assms Cons] got show ?thesis by auto
qed

lemma run_fifo:
  assumes "ok q" and "sent q + length ops < 2 ^ 64"
  shows "\<exists>ins outs q'. fifo_run push pop ops q = Some (ins, outs, q') \<and> ok q' \<and> cap q' = cap q \<and>
    contents q @ ins = outs @ contents q'"
  using assms
proof (induction ops arbitrary: q)
  case (Cons op ops)
  show ?case
  proof (cases op)
    case (Some x)
    from Cons.prems(2) have s: "sent q + 1 < 2 ^ 64" by simp
    show ?thesis
    proof (rule push_cases [OF Cons.prems(1) s, of x])
      fix r q1
      assume p: "push q x = Some (r, q1)" "ok q1" "cap q1 = cap q"
        "contents q1 = (if r then contents q @ [x] else contents q)"
        "sent q1 = (if r then sent q + 1 else sent q)"
      with Cons.prems(2) have "sent q1 + length ops < 2 ^ 64" by (cases r) simp_all
      from Cons.IH [OF p(2) this] p(1,3,4) Some show ?thesis by (cases r) auto
    qed
  next
    case None
    show ?thesis
    proof (cases rule: pop_cases [OF Cons.prems(1)])
      case (1 q1)
      with Cons.IH [of q1] Cons.prems(2) None show ?thesis by auto
    next
      case (2 x q1)
      with Cons.IH [of q1] Cons.prems(2) None show ?thesis by auto
    qed
  qed
qed simp

end

end
