(* ===== verification/Flat_Hash.thy ===== *)
theory Flat_Hash
  imports Bounded_Fifo
begin

text \<open>
  \<open>include/lob/flat_hash.hpp\<close>: the open-addressed hash map from 64-bit keys to 64-bit values,
  with linear probing and deletion by backward shift. The template parameters are the number of
  slots (the length of \<open>fm_slots\<close>) and \<open>fm_max_load_pct\<close>. Key 0 marks an empty slot. The probe
  loops end only because some slot is empty; they are \<open>partial_function\<close>s whose result
  \<^const>\<open>None\<close> is an endless loop or an access out of bounds, so the theorems, which give
  \<^const>\<open>Some\<close>, contain termination.

  Positions on the probe path are compared by \<open>cyc n h j\<close>, the number of steps from \<open>h\<close> to
  \<open>j\<close> around the table. The invariant \<open>fm_ok\<close> says that every slot between the home of a key
  and the slot that holds it is occupied, and \<open>fm_map\<close> is the map the table represents.
\<close>

record entry =
  e_key :: u64
  e_val :: u64

record flat_map =
  fm_slots :: "entry list"
  fm_size :: u64
  fm_max_load_pct :: nat

definition fm_cap :: "flat_map \<Rightarrow> nat" where
  "fm_cap m = length (fm_slots m)"

text \<open>\<open>LOG2\<close>, the loop of the constant's initialiser.\<close>

fun log2_loop :: "nat \<Rightarrow> nat \<Rightarrow> nat" where
  "log2_loop c n = (if c \<le> 1 then n else log2_loop (c div 2) (n + 1))"

declare log2_loop.simps [simp del]

definition LOG2 :: "nat \<Rightarrow> nat" where
  "LOG2 cap = log2_loop cap 0"

definition flat_map_new :: "nat \<Rightarrow> nat \<Rightarrow> flat_map" where
  "flat_map_new cap pct = \<lparr>fm_slots = replicate cap \<lparr>e_key = 0, e_val = 0\<rparr>, fm_size = 0, fm_max_load_pct = pct\<rparr>"

definition slot_of :: "nat \<Rightarrow> u64 \<Rightarrow> u64" where
  "slot_of cap key = drop_bit (64 - LOG2 cap) (key * 0x9E3779B97F4A7C15)"

definition next_slot :: "nat \<Rightarrow> u64 \<Rightarrow> u64" where
  "next_slot cap i = (i + 1) AND (word_of_nat cap - 1)"

definition load_cap :: "flat_map \<Rightarrow> u64" where
  "load_cap m = word_of_nat (fm_cap m) * word_of_nat (fm_max_load_pct m) div 100"

text \<open>The loop of \<open>insert\<close>: the slot it stops at, with whether the key is there.\<close>

partial_function (option) insert_probe :: "entry list \<Rightarrow> u64 \<Rightarrow> u64 \<Rightarrow> (u64 \<times> bool) option" where
  "insert_probe slots key i = do {
     e \<leftarrow> aget slots (unat i);
     if e_key e \<noteq> 0 then
       if e_key e = key then Some (i, True)
       else insert_probe slots key (next_slot (length slots) i)
     else Some (i, False)
   }"

definition fm_insert :: "flat_map \<Rightarrow> u64 \<Rightarrow> u64 \<Rightarrow> (bool \<times> flat_map) option" where
  "fm_insert m key v =
     (if load_cap m \<le> fm_size m then Some (False, m)
      else do {
        (i, present) \<leftarrow> insert_probe (fm_slots m) key (slot_of (fm_cap m) key);
        e \<leftarrow> aget (fm_slots m) (unat i);
        if present then do {
          slots \<leftarrow> aput (fm_slots m) (unat i) (e\<lparr>e_val := v\<rparr>);
          Some (True, m\<lparr>fm_slots := slots\<rparr>)
        }
        else do {
          slots \<leftarrow> aput (fm_slots m) (unat i) \<lparr>e_key = key, e_val = v\<rparr>;
          Some (True, m\<lparr>fm_slots := slots, fm_size := fm_size m + 1\<rparr>)
        }
      })"

partial_function (option) find_probe :: "entry list \<Rightarrow> u64 \<Rightarrow> u64 \<Rightarrow> u64 option" where
  "find_probe slots key i = do {
     e \<leftarrow> aget slots (unat i);
     if e_key e \<noteq> 0 then
       if e_key e = key then Some (e_val e)
       else find_probe slots key (next_slot (length slots) i)
     else Some 0
   }"

definition fm_find :: "flat_map \<Rightarrow> u64 \<Rightarrow> u64 option" where
  "fm_find m key = find_probe (fm_slots m) key (slot_of (fm_cap m) key)"

partial_function (option) erase_probe :: "entry list \<Rightarrow> u64 \<Rightarrow> u64 \<Rightarrow> u64 option option" where
  "erase_probe slots key i = do {
     e \<leftarrow> aget slots (unat i);
     if e_key e \<noteq> key then
       if e_key e = 0 then Some None
       else erase_probe slots key (next_slot (length slots) i)
     else Some (Some i)
   }"

text \<open>The \<open>for (;;)\<close> loop: \<open>i\<close> is the hole, \<open>j\<close> the slot examined last.\<close>

partial_function (option) shift_loop :: "entry list \<Rightarrow> u64 \<Rightarrow> u64 \<Rightarrow> (entry list \<times> u64) option" where
  "shift_loop slots i j = do {
     let cap = length slots;
     let j = next_slot cap j;
     e \<leftarrow> aget slots (unat j);
     if e_key e = 0 then Some (slots, i)
     else do {
       let h = slot_of cap (e_key e);
       if (j - i) AND (word_of_nat cap - 1) \<le> (j - h) AND (word_of_nat cap - 1) then do {
         slots \<leftarrow> aput slots (unat i) e;
         shift_loop slots j j
       }
       else shift_loop slots i j
     }
   }"

definition fm_erase :: "flat_map \<Rightarrow> u64 \<Rightarrow> (bool \<times> flat_map) option" where
  "fm_erase m key = do {
     r \<leftarrow> erase_probe (fm_slots m) key (slot_of (fm_cap m) key);
     case r of
       None \<Rightarrow> Some (False, m)
     | Some i \<Rightarrow> do {
         (slots, i) \<leftarrow> shift_loop (fm_slots m) i i;
         e \<leftarrow> aget slots (unat i);
         slots \<leftarrow> aput slots (unat i) (e\<lparr>e_key := 0\<rparr>);
         Some (True, m\<lparr>fm_slots := slots, fm_size := fm_size m - 1\<rparr>)
       }
   }"

section \<open>Positions\<close>

definition succ_pos :: "nat \<Rightarrow> nat \<Rightarrow> nat" where
  "succ_pos n j = (if j + 1 = n then 0 else j + 1)"

definition cyc :: "nat \<Rightarrow> nat \<Rightarrow> nat \<Rightarrow> nat" where
  "cyc n h j = (if h \<le> j then j - h else j + n - h)"

definition hash_cap :: "nat \<Rightarrow> bool" where
  "hash_cap cap \<longleftrightarrow> (\<exists>k. 2 \<le> k \<and> k \<le> 56 \<and> cap = 2 ^ k)"

lemma log2_loop_pow: "log2_loop (2 ^ k) n = n + k"
proof (induction k arbitrary: n)
  case 0
  show ?case by (subst log2_loop.simps) simp
next
  case (Suc k)
  have "1 < (2 :: nat) ^ Suc k" by (rule one_less_power) simp_all
  then have "log2_loop (2 ^ Suc k) n = log2_loop (2 ^ k) (n + 1)"
    by (subst log2_loop.simps) simp
  with Suc show ?case by simp
qed

lemma LOG2_pow: "LOG2 (2 ^ k) = k"
  by (simp add: LOG2_def log2_loop_pow)

lemma hash_cap_bounds: "hash_cap cap \<Longrightarrow> 4 \<le> cap \<and> cap \<le> 2 ^ 56"
  using power_increasing [of _ 56 "2 :: nat"] power_increasing [of 2 _ "2 :: nat"]
  by (fastforce simp: hash_cap_def)

lemma mask_mod:
  assumes "hash_cap cap"
  shows "unat (w AND (word_of_nat cap - 1) :: u64) = unat w mod cap"
proof -
  have "pow2_cap cap" using assms by (force simp: hash_cap_def pow2_cap_def)
  from slot_index_mod [OF this, of w] show ?thesis by (simp add: slot_index_def)
qed

lemma slot_of_bound:
  assumes "hash_cap cap"
  shows "unat (slot_of cap key) < cap"
proof -
  from assms obtain k where k: "k \<le> 56" "cap = 2 ^ k" by (auto simp: hash_cap_def)
  let ?w = "key * 0x9E3779B97F4A7C15 :: u64"
  have "unat ?w < 2 ^ (64 - k) * 2 ^ k"
    using unat_lt64 [of ?w] k(1) by (simp add: power_add [symmetric])
  then have "unat ?w div 2 ^ (64 - k) < 2 ^ k" by (simp add: less_mult_imp_div_less mult.commute)
  then show ?thesis by (simp only: slot_of_def k(2) LOG2_pow unat_drop_bit64)
qed

lemma next_slot_pos:
  assumes "hash_cap cap" and "unat i < cap"
  shows "unat (next_slot cap i) = succ_pos cap (unat i)"
proof -
  have "unat i + 1 < 2 ^ 64" using assms hash_cap_bounds [OF assms(1)] by simp
  then have "unat (i + 1) = unat i + 1" by (rule unat_Suc)
  with assms show ?thesis by (simp add: next_slot_def mask_mod succ_pos_def)
qed

lemma mask_cyc:
  assumes cap: "hash_cap cap" and "unat h < cap" and "unat j < cap"
  shows "unat ((j - h) AND (word_of_nat cap - 1) :: u64) = cyc cap (unat h) (unat j)"
proof -
  from cap obtain k where k: "k \<le> 56" "cap = 2 ^ k" by (auto simp: hash_cap_def)
  have m: "18446744073709551616 = cap * 2 ^ (64 - k)" using k by (simp add: power_add [symmetric])
  have r: "cap * (2 ^ (64 - k) - 1) = 18446744073709551616 - cap" by (simp add: m diff_mult_distrib2)
  have u: "unat (j - h) = (if unat h \<le> unat j then unat j - unat h else unat j + 18446744073709551616 - unat h)"
    by (simp add: unat_sub_if_size word_size)
  have "(unat j + 18446744073709551616 - unat h) mod cap = unat j + cap - unat h" if "unat j < unat h"
  proof -
    have "cap \<le> 18446744073709551616" using hash_cap_bounds [OF cap] by simp
    then have e: "unat j + 18446744073709551616 - unat h = (unat j + cap - unat h) + cap * (2 ^ (64 - k) - 1)"
      using that assms(2) unfolding r by linarith
    show ?thesis unfolding e using that assms(2) by (simp only: mod_mult_self2) simp
  qed
  then show ?thesis using assms u by (simp add: mask_mod [OF cap] cyc_def not_le)
qed

section \<open>The table as a map\<close>

definition kat :: "entry list \<Rightarrow> nat \<Rightarrow> u64" where
  "kat s p = e_key (s ! p)"

definition home :: "nat \<Rightarrow> u64 \<Rightarrow> nat" where
  "home n k = unat (slot_of n k)"

definition keys_distinct :: "entry list \<Rightarrow> bool" where
  "keys_distinct s \<longleftrightarrow> (\<forall>p<length s. \<forall>q<length s. kat s p \<noteq> 0 \<longrightarrow> kat s p = kat s q \<longrightarrow> p = q)"

text \<open>Nothing between the home of a key and its slot is empty.\<close>

definition reachable :: "entry list \<Rightarrow> bool" where
  "reachable s \<longleftrightarrow> (let n = length s in
     \<forall>p<n. kat s p \<noteq> 0 \<longrightarrow> (\<forall>x<n. cyc n (home n (kat s p)) x < cyc n (home n (kat s p)) p \<longrightarrow> kat s x \<noteq> 0))"

definition used :: "entry list \<Rightarrow> nat" where
  "used s = card {p. p < length s \<and> kat s p \<noteq> 0}"

definition slot_map :: "entry list \<Rightarrow> u64 \<rightharpoonup> u64" where
  "slot_map s k = (if k \<noteq> 0 \<and> (\<exists>p<length s. kat s p = k)
     then Some (e_val (s ! (THE p. p < length s \<and> kat s p = k))) else None)"

definition fm_map :: "flat_map \<Rightarrow> u64 \<rightharpoonup> u64" where
  "fm_map m = slot_map (fm_slots m)"

definition fm_ok :: "flat_map \<Rightarrow> bool" where
  "fm_ok m \<longleftrightarrow> hash_cap (fm_cap m) \<and> 10 \<le> fm_max_load_pct m \<and> fm_max_load_pct m \<le> 90 \<and>
     keys_distinct (fm_slots m) \<and> reachable (fm_slots m) \<and> unat (fm_size m) = used (fm_slots m) \<and>
     used (fm_slots m) < fm_cap m"

lemma slot_map_at:
  assumes "keys_distinct s" and "p < length s" and "kat s p = k" and "k \<noteq> 0"
  shows "slot_map s k = Some (e_val (s ! p))"
proof -
  have "(THE p. p < length s \<and> kat s p = k) = p"
    using assms by (intro the_equality) (auto simp: keys_distinct_def)
  with assms show ?thesis by (auto simp: slot_map_def)
qed

lemma slot_map_None: "slot_map s k = None \<longleftrightarrow> k = 0 \<or> (\<forall>p<length s. kat s p \<noteq> k)"
  by (auto simp: slot_map_def)

lemma slot_map_Some:
  assumes "keys_distinct s" and "slot_map s k = Some v"
  obtains p where "p < length s" "kat s p = k" "k \<noteq> 0" "e_val (s ! p) = v"
proof -
  from assms(2) have nz: "k \<noteq> 0" and "\<exists>p<length s. kat s p = k" by (auto simp: slot_map_def split: if_splits)
  then obtain p where p: "p < length s" "kat s p = k" by blast
  from slot_map_at [OF assms(1) p nz] assms(2) p nz that show ?thesis by simp
qed

lemma slot_map_eqI:
  assumes "keys_distinct s" and "keys_distinct s'"
    and "\<And>p. p < length s \<Longrightarrow> kat s p \<noteq> 0 \<Longrightarrow> \<exists>q<length s'. kat s' q = kat s p \<and> e_val (s' ! q) = e_val (s ! p)"
    and "\<And>p. p < length s' \<Longrightarrow> kat s' p \<noteq> 0 \<Longrightarrow> \<exists>q<length s. kat s q = kat s' p"
  shows "slot_map s' = slot_map s"
proof
  fix k
  show "slot_map s' k = slot_map s k"
  proof (cases "slot_map s k")
    case (Some v)
    obtain p where p: "p < length s" "kat s p = k" "k \<noteq> 0" "e_val (s ! p) = v"
      by (rule slot_map_Some [OF assms(1) Some])
    with assms(3) [OF p(1)] obtain q where "q < length s'" "kat s' q = k" "e_val (s' ! q) = v" by auto
    with slot_map_at [OF assms(2), of q k] p(3) Some show ?thesis by simp
  next
    case None
    with assms(4) have "slot_map s' k = None" unfolding slot_map_None by metis
    with None show ?thesis by simp
  qed
qed

lemma used_empty_slot:
  assumes "used s < length s"
  obtains z where "z < length s" "kat s z = 0"
proof (rule ccontr)
  assume "\<not> thesis"
  with that have "{p. p < length s \<and> kat s p \<noteq> 0} = {..<length s}" by auto
  with assms show False by (simp add: used_def)
qed

lemma used_update:
  assumes "p < length s"
  shows "used (s[p := e]) + (if kat s p \<noteq> 0 then 1 else 0) = used s + (if e_key e \<noteq> 0 then 1 else 0)"
proof -
  let ?A = "{q. q < length s \<and> kat s q \<noteq> 0}" and ?B = "{q. q < length s \<and> q \<noteq> p \<and> kat s q \<noteq> 0}"
  have fin: "finite ?B" by simp
  have "{q. q < length (s[p := e]) \<and> kat (s[p := e]) q \<noteq> 0} = (if e_key e \<noteq> 0 then insert p ?B else ?B)"
    using assms by (auto simp: kat_def nth_list_update)
  then have 1: "used (s[p := e]) = card ?B + (if e_key e \<noteq> 0 then 1 else 0)"
    using fin by (simp add: used_def)
  have "?A = (if kat s p \<noteq> 0 then insert p ?B else ?B)" using assms by auto
  then have "used s = card ?B + (if kat s p \<noteq> 0 then 1 else 0)" using fin by (simp add: used_def)
  with 1 show ?thesis by simp
qed

section \<open>Probing\<close>

text \<open>From a home slot \<open>h\<close> the linear probe visits \<open>h\<close>, \<open>h + 1\<close>, ... and ends at the first slot
  that is empty or holds the key.\<close>

definition stop_at :: "entry list \<Rightarrow> u64 \<Rightarrow> nat \<Rightarrow> nat \<Rightarrow> bool" where
  "stop_at s key h p \<longleftrightarrow> p < length s \<and> (kat s p = 0 \<or> kat s p = key) \<and>
     (\<forall>x<length s. cyc (length s) h x < cyc (length s) h p \<longrightarrow> kat s x \<noteq> 0 \<and> kat s x \<noteq> key)"

lemma cyc_bounds: "h < n \<Longrightarrow> j < n \<Longrightarrow> cyc n h j < n"
  by (auto simp: cyc_def)

lemma cyc_inj: "h < n \<Longrightarrow> j < n \<Longrightarrow> k < n \<Longrightarrow> cyc n h j = cyc n h k \<longleftrightarrow> j = k"
  by (auto simp: cyc_def split: if_splits)

lemma cyc_self [simp]: "cyc n h h = 0"
  by (simp add: cyc_def)

lemma succ_pos_bound: "j < n \<Longrightarrow> succ_pos n j < n"
  by (auto simp: succ_pos_def)

lemma cyc_succ: "h < n \<Longrightarrow> j < n \<Longrightarrow> succ_pos n j \<noteq> h \<Longrightarrow> cyc n h (succ_pos n j) = cyc n h j + 1"
  by (auto simp: cyc_def succ_pos_def split: if_splits)

lemma cyc_less_succ: "h < n \<Longrightarrow> j < n \<Longrightarrow> x < n \<Longrightarrow> succ_pos n j \<noteq> h \<Longrightarrow>
    cyc n h x < cyc n h (succ_pos n j) \<longleftrightarrow> cyc n h x < cyc n h j \<or> x = j"
  by (auto simp: cyc_def succ_pos_def split: if_splits)

lemma stop_exists:
  assumes "h < length s" and "z < length s" and "kat s z = 0"
  obtains p where "stop_at s key h p"
proof -
  let ?n = "length s"
  let ?P = "\<lambda>d. \<exists>p<?n. cyc ?n h p = d \<and> (kat s p = 0 \<or> kat s p = key)"
  from assms have "?P (cyc ?n h z)" by blast
  then have L: "?P (Least ?P)" by (rule LeastI)
  then obtain p where p: "p < ?n" "cyc ?n h p = Least ?P" "kat s p = 0 \<or> kat s p = key" by blast
  have "kat s x \<noteq> 0 \<and> kat s x \<noteq> key" if "x < ?n" "cyc ?n h x < cyc ?n h p" for x
    using not_less_Least [of "cyc ?n h x" ?P] that p(2) by auto
  with p have "stop_at s key h p" unfolding stop_at_def by blast
  then show ?thesis by (rule that)
qed

lemma stop_unique:
  assumes "stop_at s key h p" and "stop_at s key h q" and "h < length s"
  shows "p = q"
  using assms cyc_inj [of h "length s" p q]
  by (auto simp: stop_at_def)

text \<open>One induction serves the three probe loops: \<open>f\<close> is the result at the slot the probe stops at.\<close>

lemma probe_induct:
  assumes cap: "hash_cap (length s)" and st: "stop_at s key h p" and h: "h < length s"
    and step: "\<And>i. unat i < length s \<Longrightarrow> kat s (unat i) \<noteq> 0 \<Longrightarrow> kat s (unat i) \<noteq> key \<Longrightarrow>
      L i = L (next_slot (length s) i)"
    and i: "unat i < length s" "cyc (length s) h (unat i) \<le> cyc (length s) h p"
  shows "\<exists>j. unat j = p \<and> L i = L j"
  using i
proof (induction "cyc (length s) h p - cyc (length s) h (unat i)" arbitrary: i)
  case 0
  then have "cyc (length s) h (unat i) = cyc (length s) h p" by simp
  with 0 cyc_inj [of h "length s" "unat i" p] h st show ?case by (auto simp: stop_at_def)
next
  case (Suc d)
  let ?n = "length s"
  have lt: "cyc ?n h (unat i) < cyc ?n h p" and p: "p < ?n" using Suc.hyps(2) st by (auto simp: stop_at_def)
  have k: "kat s (unat i) \<noteq> 0" "kat s (unat i) \<noteq> key" using st lt Suc.prems by (auto simp: stop_at_def)
  have ne: "succ_pos ?n (unat i) \<noteq> h"
  proof
    assume "succ_pos ?n (unat i) = h"
    then have "cyc ?n h (unat i) + 1 = ?n" using Suc.prems(1) h by (auto simp: cyc_def succ_pos_def split: if_splits)
    with lt cyc_bounds [OF h p] show False by simp
  qed
  let ?i = "next_slot ?n i"
  have u: "unat ?i = succ_pos ?n (unat i)" by (rule next_slot_pos [OF cap Suc.prems(1)])
  have "d = cyc ?n h p - cyc ?n h (unat ?i)" "cyc ?n h (unat ?i) \<le> cyc ?n h p"
    using cyc_succ [OF h Suc.prems(1) ne] Suc.hyps(2) lt u by simp_all
  with Suc.hyps(1) [of ?i] succ_pos_bound [OF Suc.prems(1)] u step [OF Suc.prems(1) k] show ?case by auto
qed

lemma word_of_pos: "unat (i :: u64) = p \<Longrightarrow> i = word_of_nat p"
  by (metis word_unat_eq_iff unat_of_nat_small unat_lt64 of_nat_unat ucast_id)

lemma home_bound: "hash_cap n \<Longrightarrow> home n k < n"
  by (simp add: home_def slot_of_bound)

lemma stop_hit:
  assumes "hash_cap (length s)" and "keys_distinct s" and "reachable s" and q: "q < length s" "kat s q = key" "key \<noteq> 0"
    and st: "stop_at s key (home (length s) key) p"
  shows "p = q"
proof -
  let ?n = "length s" and ?h = "home (length s) key"
  have p: "p < ?n" "kat s p = 0 \<or> kat s p = key" using st by (auto simp: stop_at_def)
  have not_later: "\<not> cyc ?n ?h q < cyc ?n ?h p" using st q by (auto simp: stop_at_def)
  show ?thesis
  proof (cases "cyc ?n ?h p < cyc ?n ?h q")
    case True
    then have "kat s p \<noteq> 0" using assms(3) q p(1) unfolding reachable_def Let_def by metis
    then have "kat s p = kat s q" using p(2) q(2) by simp
    with assms(2) q p(1) show ?thesis unfolding keys_distinct_def by metis
  next
    case False
    with not_later have "cyc ?n ?h p = cyc ?n ?h q" by simp
    with cyc_inj [OF home_bound [OF assms(1)] p(1) q(1)] show ?thesis by blast
  qed
qed

lemma slots_ok_stop:
  assumes "hash_cap (length s)" and "keys_distinct s" and "reachable s" and "used s < length s"
  obtains p where "stop_at s key (home (length s) key) p"
    and "kat s p = key \<or> slot_map s key = None \<and> kat s p = 0" and "p < length s"
proof -
  obtain z where z: "z < length s" "kat s z = 0" by (rule used_empty_slot [OF assms(4)])
  obtain p where p: "stop_at s key (home (length s) key) p"
    by (rule stop_exists [OF home_bound [OF assms(1)] z])
  have "kat s p = key \<or> slot_map s key = None \<and> kat s p = 0"
  proof (cases "slot_map s key")
    case None
    with p show ?thesis by (auto simp: stop_at_def slot_map_None)
  next
    case (Some v)
    obtain q where "q < length s" "kat s q = key" "key \<noteq> 0" by (rule slot_map_Some [OF assms(2) Some])
    with stop_hit [OF assms(1-3) _ _ _ p] show ?thesis by blast
  qed
  with p that show ?thesis by (auto simp: stop_at_def)
qed

lemma kat_entry: "unat i < length s \<Longrightarrow> aget s (unat i) = Some (s ! unat i) \<and> e_key (s ! unat i) = kat s (unat i)"
  by (simp add: kat_def)

lemma find_probe_stop:
  assumes "hash_cap (length s)" and "stop_at s key (home (length s) key) p"
  shows "find_probe s key (slot_of (length s) key) = Some (if kat s p = 0 then 0 else e_val (s ! p))"
proof -
  have p: "p < length s" "kat s p = 0 \<or> kat s p = key" using assms(2) by (auto simp: stop_at_def)
  have "\<exists>j. unat j = p \<and> find_probe s key (slot_of (length s) key) = find_probe s key j"
  proof (rule probe_induct [OF assms home_bound [OF assms(1)]])
    fix i :: u64 assume "unat i < length s" "kat s (unat i) \<noteq> 0" "kat s (unat i) \<noteq> key"
    then show "find_probe s key i = find_probe s key (next_slot (length s) i)"
      by (subst find_probe.simps) (simp add: kat_def)
  qed (use slot_of_bound [OF assms(1)] in \<open>simp_all add: home_def\<close>)
  with p show ?thesis by (auto simp: find_probe.simps [of s key "_"] kat_def)
qed

lemma insert_probe_stop:
  assumes "hash_cap (length s)" and "stop_at s key (home (length s) key) p"
  shows "\<exists>i. unat i = p \<and> insert_probe s key (slot_of (length s) key) = Some (i, kat s p \<noteq> 0)"
proof -
  have p: "p < length s" "kat s p = 0 \<or> kat s p = key" using assms(2) by (auto simp: stop_at_def)
  have "\<exists>j. unat j = p \<and> insert_probe s key (slot_of (length s) key) = insert_probe s key j"
  proof (rule probe_induct [OF assms home_bound [OF assms(1)]])
    fix i :: u64 assume "unat i < length s" "kat s (unat i) \<noteq> 0" "kat s (unat i) \<noteq> key"
    then show "insert_probe s key i = insert_probe s key (next_slot (length s) i)"
      by (subst insert_probe.simps) (simp add: kat_def)
  qed (use slot_of_bound [OF assms(1)] in \<open>simp_all add: home_def\<close>)
  with p show ?thesis by (auto simp: insert_probe.simps [of s key "_"] kat_def)
qed

lemma erase_probe_stop:
  assumes "hash_cap (length s)" and "stop_at s key (home (length s) key) p"
  shows "\<exists>i. unat i = p \<and> erase_probe s key (slot_of (length s) key) =
    Some (if kat s p = key then Some i else None)"
proof -
  have p: "p < length s" "kat s p = 0 \<or> kat s p = key" using assms(2) by (auto simp: stop_at_def)
  have "\<exists>j. unat j = p \<and> erase_probe s key (slot_of (length s) key) = erase_probe s key j"
  proof (rule probe_induct [OF assms home_bound [OF assms(1)]])
    fix i :: u64 assume "unat i < length s" "kat s (unat i) \<noteq> 0" "kat s (unat i) \<noteq> key"
    then show "erase_probe s key i = erase_probe s key (next_slot (length s) i)"
      by (subst erase_probe.simps) (simp add: kat_def)
  qed (use slot_of_bound [OF assms(1)] in \<open>simp_all add: home_def\<close>)
  with p show ?thesis by (auto simp: erase_probe.simps [of s key "_"] kat_def)
qed

section \<open>Lookup and insertion\<close>

lemma fm_okD:
  assumes "fm_ok m"
  shows "hash_cap (length (fm_slots m))" "keys_distinct (fm_slots m)" "reachable (fm_slots m)"
    "used (fm_slots m) < length (fm_slots m)" "unat (fm_size m) = used (fm_slots m)"
    "10 \<le> fm_max_load_pct m" "fm_max_load_pct m \<le> 90"
  using assms by (simp_all add: fm_ok_def fm_cap_def)

definition or_zero :: "u64 option \<Rightarrow> u64" where
  "or_zero v = (case v of Some v \<Rightarrow> v | None \<Rightarrow> 0)"

lemma or_zero_simps [simp]: "or_zero None = 0" "or_zero (Some v) = v"
  by (simp_all add: or_zero_def)

lemma fm_find_correct:
  assumes "fm_ok m"
  shows "fm_find m key = Some (or_zero (fm_map m key))"
proof -
  note M = fm_okD [OF assms]
  obtain p where p: "stop_at (fm_slots m) key (home (length (fm_slots m)) key) p"
    "kat (fm_slots m) p = key \<or> slot_map (fm_slots m) key = None \<and> kat (fm_slots m) p = 0" "p < length (fm_slots m)"
    by (rule slots_ok_stop [OF M(1-4), of key])
  show ?thesis
  proof (cases "kat (fm_slots m) p = 0")
    case True
    then have "slot_map (fm_slots m) key = None" using p(2) by (auto simp: slot_map_None)
    with True find_probe_stop [OF M(1) p(1)] show ?thesis
      by (simp add: fm_find_def fm_cap_def fm_map_def)
  next
    case False
    with p slot_map_at [OF M(2) p(3), of key] find_probe_stop [OF M(1) p(1)] show ?thesis
      by (auto simp: fm_find_def fm_cap_def fm_map_def)
  qed
qed

lemma load_cap_nat:
  assumes "fm_ok m"
  shows "unat (load_cap m) = fm_cap m * fm_max_load_pct m div 100" and "unat (load_cap m) < fm_cap m"
proof -
  note M = fm_okD [OF assms]
  have c: "4 \<le> fm_cap m" "fm_cap m \<le> 2 ^ 56" using hash_cap_bounds [OF M(1)] by (simp_all add: fm_cap_def)
  have le: "fm_cap m * fm_max_load_pct m \<le> 2 ^ 56 * 90" using c(2) M(7) by (intro mult_mono) auto
  have "unat (word_of_nat (fm_cap m) * word_of_nat (fm_max_load_pct m) :: u64) = fm_cap m * fm_max_load_pct m"
    unfolding of_nat_mult [symmetric] by (rule unat_of_nat_small) (use le in simp)
  then show 1: "unat (load_cap m) = fm_cap m * fm_max_load_pct m div 100"
    by (simp add: load_cap_def unat_div)
  have "fm_cap m * fm_max_load_pct m \<le> fm_cap m * 90" using M(7) by simp
  then have "fm_cap m * fm_max_load_pct m < fm_cap m * 100" using c(1) by linarith
  then show "unat (load_cap m) < fm_cap m" unfolding 1 by (simp add: less_mult_imp_div_less)
qed

lemma kat_update: "kat (s[p := e]) q = (if q = p \<and> p < length s then e_key e else kat s q)"
  by (cases "p < length s") (auto simp: kat_def nth_list_update not_less list_update_beyond)

text \<open>Probing is first come, first served: with ages that count insertions, the keys a key was
  probed past are older than it. The slots of \<open>insert\<close> satisfy this, and so do the moves of
  \<open>erase\<close>; \<open>aged\<close> says nothing about empty slots.\<close>

definition aged :: "(u64 \<Rightarrow> nat) \<Rightarrow> entry list \<Rightarrow> bool" where
  "aged a s \<longleftrightarrow> (\<forall>p<length s. \<forall>x<length s. kat s p \<noteq> 0 \<longrightarrow> kat s x \<noteq> 0 \<longrightarrow>
     cyc (length s) (home (length s) (kat s p)) x < cyc (length s) (home (length s) (kat s p)) p \<longrightarrow>
     a (kat s x) < a (kat s p))"

lemma agedD: "aged a s \<Longrightarrow> p < length s \<Longrightarrow> x < length s \<Longrightarrow> kat s p \<noteq> 0 \<Longrightarrow> kat s x \<noteq> 0 \<Longrightarrow>
    cyc (length s) (home (length s) (kat s p)) x < cyc (length s) (home (length s) (kat s p)) p \<Longrightarrow>
    a (kat s x) < a (kat s p)"
  unfolding aged_def by blast

lemma slots_put:
  assumes "keys_distinct s" and "reachable s" and "p < length s" and "kat s p = 0" and "key \<noteq> 0"
    and "slot_map s key = None" and st: "stop_at s key (home (length s) key) p"
  shows "keys_distinct (s[p := \<lparr>e_key = key, e_val = v\<rparr>])" and "reachable (s[p := \<lparr>e_key = key, e_val = v\<rparr>])"
    and "slot_map (s[p := \<lparr>e_key = key, e_val = v\<rparr>]) = (slot_map s)(key \<mapsto> v)"
    and "used (s[p := \<lparr>e_key = key, e_val = v\<rparr>]) = used s + 1"
proof -
  let ?s = "s[p := \<lparr>e_key = key, e_val = v\<rparr>]"
  have new: "\<forall>q<length s. kat s q \<noteq> key" using assms(5,6) by (simp add: slot_map_None)
  show kd: "keys_distinct ?s" using assms(1,3) new unfolding keys_distinct_def by (auto simp: kat_update)
  show "reachable ?s"
    using assms(2-4) st unfolding reachable_def stop_at_def Let_def by (auto simp: kat_update)
  show "used ?s = used s + 1" using used_update [OF assms(3), of "\<lparr>e_key = key, e_val = v\<rparr>"] assms(4,5) by simp
  show "slot_map ?s = (slot_map s)(key \<mapsto> v)"
  proof
    fix k
    show "slot_map ?s k = ((slot_map s)(key \<mapsto> v)) k"
    proof (cases "k = key")
      case True
      with slot_map_at [OF kd, of p key] assms(3,5) show ?thesis by (simp add: kat_update)
    next
      case False
      show ?thesis
      proof (cases "slot_map s k")
        case None
        with False assms(3) have "slot_map ?s k = None" by (auto simp: slot_map_None kat_update)
        with None False show ?thesis by simp
      next
        case (Some w)
        obtain q where q: "q < length s" "kat s q = k" "k \<noteq> 0" "e_val (s ! q) = w"
          by (rule slot_map_Some [OF assms(1) Some])
        with assms(4) have "q \<noteq> p" by auto
        with slot_map_at [OF kd, of q k] q False Some show ?thesis by (simp add: kat_update)
      qed
    qed
  qed
qed

lemma put_aged:
  assumes ag: "aged a s" and re: "reachable s" and p: "p < length s" "kat s p = 0" "key \<noteq> 0"
    and new: "\<And>x. x < length s \<Longrightarrow> kat s x \<noteq> 0 \<Longrightarrow> kat s x \<noteq> key \<and> a (kat s x) < t"
  shows "aged (a(key := t)) (s[p := \<lparr>e_key = key, e_val = v\<rparr>])"
proof -
  let ?s = "s[p := \<lparr>e_key = key, e_val = v\<rparr>]" and ?n = "length s"
  have K: "kat ?s x = (if x = p then key else kat s x)" for x using p(1) by (simp add: kat_update)
  have "(a(key := t)) (kat ?s x) < (a(key := t)) (kat ?s q)"
    if q: "q < ?n" "kat ?s q \<noteq> 0" and x: "x < ?n" "kat ?s x \<noteq> 0"
      "cyc ?n (home ?n (kat ?s q)) x < cyc ?n (home ?n (kat ?s q)) q" for q x
  proof (cases "q = p")
    case True
    with x have "x \<noteq> p" by auto
    with True x new [OF x(1)] show ?thesis by (simp add: K)
  next
    case False
    with q have qs: "kat s q \<noteq> 0" "kat ?s q = kat s q" by (simp_all add: K)
    have "x \<noteq> p" using re q(1) qs x(1,3) p(2) unfolding reachable_def Let_def by metis
    then have xs: "kat s x \<noteq> 0" "kat ?s x = kat s x" using x(2) by (simp_all add: K)
    from agedD [OF ag q(1) x(1) qs(1) xs(1)] x(3) qs(2) have "a (kat s x) < a (kat s q)" by simp
    with new [OF q(1) qs(1)] new [OF x(1) xs(1)] xs(2) qs(2) show ?thesis by simp
  qed
  then show ?thesis unfolding aged_def by simp
qed

lemma slots_overwrite:
  assumes "keys_distinct s" and "reachable s" and "p < length s" and "kat s p = key" and "key \<noteq> 0"
  shows "keys_distinct (s[p := (s ! p)\<lparr>e_val := v\<rparr>])" and "reachable (s[p := (s ! p)\<lparr>e_val := v\<rparr>])"
    and "slot_map (s[p := (s ! p)\<lparr>e_val := v\<rparr>]) = (slot_map s)(key \<mapsto> v)"
    and "used (s[p := (s ! p)\<lparr>e_val := v\<rparr>]) = used s"
proof -
  let ?s = "s[p := (s ! p)\<lparr>e_val := v\<rparr>]"
  have same: "kat ?s = kat s" using assms(3) by (auto simp: kat_def nth_list_update fun_eq_iff)
  show kd: "keys_distinct ?s" "reachable ?s" "used ?s = used s"
    using assms(1,2) by (simp_all add: keys_distinct_def reachable_def used_def same)
  show "slot_map ?s = (slot_map s)(key \<mapsto> v)"
  proof
    fix k
    show "slot_map ?s k = ((slot_map s)(key \<mapsto> v)) k"
    proof (cases "k = key")
      case True
      with slot_map_at [OF kd(1), of p key] assms(3-5) show ?thesis by (simp add: same)
    next
      case False
      show ?thesis
      proof (cases "slot_map s k")
        case None
        then have "slot_map ?s k = None" by (simp add: slot_map_None same)
        with None False show ?thesis by simp
      next
        case (Some w)
        obtain q where q: "q < length s" "kat s q = k" "k \<noteq> 0" "e_val (s ! q) = w"
          by (rule slot_map_Some [OF assms(1) Some])
        with False assms(4) have "q \<noteq> p" by auto
        with slot_map_at [OF kd(1), of q k] q False Some show ?thesis by (simp add: same)
      qed
    qed
  qed
qed

text \<open>\<open>insert\<close>: refused at the load cap, and otherwise the map update.\<close>

lemma fm_insert_correct:
  assumes ok: "fm_ok m" and key: "key \<noteq> 0"
  shows "\<exists>m'. fm_insert m key v = Some (fm_size m < load_cap m, m') \<and> fm_ok m' \<and> fm_cap m' = fm_cap m \<and>
    load_cap m' = load_cap m \<and> fm_map m' = (if fm_size m < load_cap m then (fm_map m)(key \<mapsto> v) else fm_map m) \<and>
    unat (fm_size m') \<le> unat (fm_size m) + 1 \<and>
    (fm_size m < load_cap m \<longrightarrow> aged a (fm_slots m) \<longrightarrow> (\<forall>k\<in>dom (fm_map m). a k < t) \<longrightarrow>
      aged (if fm_map m key = None then a(key := t) else a) (fm_slots m'))"
proof (cases "fm_size m < load_cap m")
  case False
  then have "load_cap m \<le> fm_size m" by simp
  with ok False show ?thesis by (simp add: fm_insert_def)
next
  case True
  note M = fm_okD [OF ok]
  let ?s = "fm_slots m"
  obtain p where p: "stop_at ?s key (home (length ?s) key) p"
    "kat ?s p = key \<or> slot_map ?s key = None \<and> kat ?s p = 0" "p < length ?s"
    by (rule slots_ok_stop [OF M(1-4), of key])
  obtain i where i: "unat i = p" "insert_probe ?s key (slot_of (length ?s) key) = Some (i, kat ?s p \<noteq> 0)"
    using insert_probe_stop [OF M(1) p(1)] by blast
  have lc: "load_cap (m\<lparr>fm_slots := s, fm_size := n\<rparr>) = load_cap m" if "length s = length ?s" for s n
    using that by (simp add: load_cap_def fm_cap_def)
  show ?thesis
  proof (cases "kat ?s p = 0")
    case False
    with p have k: "kat ?s p = key" by blast
    let ?t = "?s[p := (?s ! p)\<lparr>e_val := v\<rparr>]"
    note W = slots_overwrite [OF M(2,3) p(3) k key, of v]
    have run: "fm_insert m key v = Some (True, m\<lparr>fm_slots := ?t\<rparr>)"
      using True i p(3) False by (simp add: fm_insert_def fm_cap_def not_le [symmetric])
    have "fm_ok (m\<lparr>fm_slots := ?t\<rparr>)" using ok W by (simp add: fm_ok_def fm_cap_def)
    moreover have "kat ?t = kat ?s" using p(3) by (auto simp: kat_def nth_list_update fun_eq_iff)
    then have "aged a ?s \<Longrightarrow> aged a ?t" by (simp add: aged_def)
    moreover have "fm_map m key \<noteq> None" using slot_map_at [OF M(2) p(3) k key] by (simp add: fm_map_def)
    ultimately show ?thesis using run W True lc [of ?t "fm_size m"] by (auto simp: fm_map_def fm_cap_def)
  next
    case z: True
    with p key have none: "slot_map ?s key = None" by auto
    let ?t = "?s[p := \<lparr>e_key = key, e_val = v\<rparr>]"
    note W = slots_put [OF M(2,3) p(3) z key none p(1), of v]
    have run: "fm_insert m key v = Some (True, m\<lparr>fm_slots := ?t, fm_size := fm_size m + 1\<rparr>)"
      using True i p(3) z by (simp add: fm_insert_def fm_cap_def not_le [symmetric])
    have lt: "unat (fm_size m) < unat (load_cap m)" using True by (simp add: word_less_nat_alt)
    then have "unat (fm_size m) + 1 < 2 ^ 64" using unat_lt64 [of "load_cap m"] by simp
    from unat_Suc [OF this] have sz: "unat (fm_size m + 1) = unat (fm_size m) + 1" .
    have "used ?s + 1 < fm_cap m" using lt load_cap_nat(2) [OF ok] M(5) by simp
    then have "fm_ok (m\<lparr>fm_slots := ?t, fm_size := fm_size m + 1\<rparr>)"
      using ok W sz by (simp add: fm_ok_def fm_cap_def)
    moreover have "aged (a(key := t)) ?t" if "aged a ?s" "\<forall>k\<in>dom (fm_map m). a k < t"
    proof (rule put_aged [OF that(1) M(3) p(3) z key])
      fix x assume x: "x < length ?s" "kat ?s x \<noteq> 0"
      then have "fm_map m (kat ?s x) \<noteq> None" using slot_map_at [OF M(2) x(1) refl x(2)] by (simp add: fm_map_def)
      with that(2) none show "kat ?s x \<noteq> key \<and> a (kat ?s x) < t" by (auto simp: fm_map_def)
    qed
    ultimately show ?thesis using run W True lc [of ?t "fm_size m + 1"] sz none by (simp add: fm_map_def fm_cap_def)
  qed
qed

section \<open>Deletion\<close>

text \<open>The table as if the hole at \<open>i\<close> were already empty. The loop of \<open>erase\<close> keeps the map of
  this table and restores \<open>reachable\<close>: until the loop ends, the hole may lie on the probe path
  of keys that the scan (which has reached \<open>j\<close>) has not examined yet.\<close>

definition punch :: "entry list \<Rightarrow> nat \<Rightarrow> entry list" where
  "punch s i = s[i := (s ! i)\<lparr>e_key := 0\<rparr>]"

lemma punch_simps [simp]:
  "length (punch s i) = length s" "i < length s \<Longrightarrow> kat (punch s i) i = 0" "p \<noteq> i \<Longrightarrow> kat (punch s i) p = kat s p"
  "e_val (punch s i ! p) = e_val (s ! p)"
  by (auto simp: punch_def kat_def nth_list_update)
    (metis entry.select_convs(2) entry.surjective entry.update_convs(1) list_update_beyond not_le nth_list_update)

definition shift_inv :: "entry list \<Rightarrow> nat \<Rightarrow> nat \<Rightarrow> nat \<Rightarrow> bool" where
  "shift_inv s i j z \<longleftrightarrow> (let n = length s; C = punch s i in
     i < n \<and> j < n \<and> z < n \<and> kat s z = 0 \<and> z \<noteq> i \<and> cyc n i j < cyc n i z \<and> keys_distinct C \<and>
     (\<forall>x<n. 0 < cyc n i x \<longrightarrow> cyc n i x \<le> cyc n i j \<longrightarrow> kat s x \<noteq> 0) \<and>
     (\<forall>p<n. kat C p \<noteq> 0 \<longrightarrow> (\<forall>x<n. cyc n (home n (kat C p)) x < cyc n (home n (kat C p)) p \<longrightarrow>
        kat C x \<noteq> 0 \<or> x = i \<and> cyc n i j < cyc n i p)))"

lemma shift_invD:
  assumes "shift_inv s i j z"
  shows "i < length s" "j < length s" "z < length s" "kat s z = 0" "z \<noteq> i" "cyc (length s) i j < cyc (length s) i z"
    "keys_distinct (punch s i)"
    "x < length s \<Longrightarrow> 0 < cyc (length s) i x \<Longrightarrow> cyc (length s) i x \<le> cyc (length s) i j \<Longrightarrow> kat s x \<noteq> 0"
    "p < length s \<Longrightarrow> kat (punch s i) p \<noteq> 0 \<Longrightarrow> x < length s \<Longrightarrow>
      cyc (length s) (home (length s) (kat (punch s i) p)) x < cyc (length s) (home (length s) (kat (punch s i) p)) p \<Longrightarrow>
      kat (punch s i) x \<noteq> 0 \<or> x = i \<and> cyc (length s) i j < cyc (length s) i p"
  using assms unfolding shift_inv_def Let_def by blast+

lemma shift_invI:
  assumes "i < length s" "j < length s" "z < length s" "kat s z = 0" "z \<noteq> i" "cyc (length s) i j < cyc (length s) i z"
    "keys_distinct (punch s i)"
    "\<And>x. x < length s \<Longrightarrow> 0 < cyc (length s) i x \<Longrightarrow> cyc (length s) i x \<le> cyc (length s) i j \<Longrightarrow> kat s x \<noteq> 0"
    "\<And>p x. p < length s \<Longrightarrow> kat (punch s i) p \<noteq> 0 \<Longrightarrow> x < length s \<Longrightarrow>
      cyc (length s) (home (length s) (kat (punch s i) p)) x < cyc (length s) (home (length s) (kat (punch s i) p)) p \<Longrightarrow>
      kat (punch s i) x \<noteq> 0 \<or> x = i \<and> cyc (length s) i j < cyc (length s) i p"
  shows "shift_inv s i j z"
  unfolding shift_inv_def Let_def using assms by blast

lemma aged_punch: "aged a s \<Longrightarrow> i < length s \<Longrightarrow> aged a (punch s i)"
  unfolding aged_def punch_simps(1) by (metis punch_simps(2,3))

lemma cyc_zero: "h < n \<Longrightarrow> j < n \<Longrightarrow> cyc n h j = 0 \<longleftrightarrow> h = j"
  by (auto simp: cyc_def split: if_splits)

text \<open>The facts about positions that the three cases of the loop need.\<close>

lemma cyc_beyond:
  assumes "h < n" "i < n" "p < n" "x < n"
    and "cyc n h i < cyc n h p" and "cyc n i x < cyc n i p"
  shows "cyc n h x < cyc n h p"
  using assms by (auto simp: cyc_def split: if_splits)

lemma cyc_on_path:
  assumes "h < n" "i < n" "j < n" "i \<noteq> j"
  shows "cyc n i j \<le> cyc n h j \<longleftrightarrow> cyc n h i < cyc n h j"
  using assms by (auto simp: cyc_def split: if_splits)

lemma cyc_before:
  assumes "h < n" "i < n" "j < n" "x < n" and "cyc n h x < cyc n h i" and "cyc n h i < cyc n h j"
  shows "x \<noteq> i \<and> x \<noteq> j \<and> cyc n h x < cyc n h j"
  using assms by auto

lemma succ_toward:
  assumes "i < n" "j < n" "z < n" "cyc n i j < cyc n i z"
  shows "succ_pos n j \<noteq> i" and "cyc n i (succ_pos n j) = cyc n i j + 1"
    and "cyc n j z = cyc n (succ_pos n j) z + 1"
  using assms by (auto simp: cyc_def succ_pos_def split: if_splits)

lemma shift_done:
  assumes inv: "shift_inv s i j z" and e: "kat s (succ_pos (length s) j) = 0" and cap: "hash_cap (length s)"
  shows "reachable (punch s i)"
  unfolding reachable_def Let_def punch_simps
proof (intro allI impI)
  note I = shift_invD [OF inv]
  let ?n = "length s" and ?C = "punch s i"
  fix p x
  assume p: "p < ?n" "kat ?C p \<noteq> 0" and x: "x < ?n"
    "cyc ?n (home ?n (kat ?C p)) x < cyc ?n (home ?n (kat ?C p)) p"
  let ?h = "home ?n (kat ?C p)" and ?j = "succ_pos ?n j"
  note T = succ_toward [OF I(1-3,6)]
  have j: "?j < ?n" using I(2) by (rule succ_pos_bound)
  show "kat ?C x \<noteq> 0"
  proof (rule ccontr)
    assume "\<not> kat ?C x \<noteq> 0"
    with I(9) [OF p x] have xi: "x = i" "cyc ?n i j < cyc ?n i p" by auto
    have Cj: "kat ?C ?j = 0" using e T(1) by simp
    with p have "?j \<noteq> p" by auto
    with xi(2) T(2) cyc_inj [OF I(1) j p(1)] have "cyc ?n i ?j < cyc ?n i p" by auto
    from cyc_beyond [OF home_bound [OF cap] I(1) p(1) j _ this] x(2) xi(1)
    have "cyc ?n ?h ?j < cyc ?n ?h p" by simp
    from I(9) [OF p j this] Cj T(1) show False by simp
  qed
qed

lemma shift_skip:
  assumes inv: "shift_inv s i j z" and k: "kat s (succ_pos (length s) j) \<noteq> 0" and cap: "hash_cap (length s)"
    and off: "\<not> cyc (length s) i (succ_pos (length s) j) \<le>
      cyc (length s) (home (length s) (kat s (succ_pos (length s) j))) (succ_pos (length s) j)"
  shows "shift_inv s i (succ_pos (length s) j) z"
proof -
  note I = shift_invD [OF inv]
  let ?n = "length s" and ?C = "punch s i" and ?j = "succ_pos (length s) j"
  note T = succ_toward [OF I(1-3,6)]
  have j: "?j < ?n" using I(2) by (rule succ_pos_bound)
  have "?j \<noteq> z" using k I(4) by auto
  then have "cyc ?n i ?j < cyc ?n i z" using T(2) I(6) cyc_inj [OF I(1) j I(3)] by auto
  moreover have "kat s x \<noteq> 0" if "x < ?n" "0 < cyc ?n i x" "cyc ?n i x \<le> cyc ?n i ?j" for x
  proof (cases "x = ?j")
    case False
    with that T(2) cyc_inj [OF I(1) that(1) j] have "cyc ?n i x \<le> cyc ?n i j" by auto
    with I(8) that show ?thesis by blast
  qed (use k in simp)
  moreover have "kat ?C x \<noteq> 0 \<or> x = i \<and> cyc ?n i ?j < cyc ?n i p"
    if p: "p < ?n" "kat ?C p \<noteq> 0" and x: "x < ?n" "cyc ?n (home ?n (kat ?C p)) x < cyc ?n (home ?n (kat ?C p)) p" for p x
  proof (cases "kat ?C x = 0")
    case True
    with I(9) [OF p x] have xi: "x = i" "cyc ?n i j < cyc ?n i p" by auto
    have "p \<noteq> ?j"
    proof
      assume pj: "p = ?j"
      then have "kat ?C p = kat s ?j" using T(1) by simp
      with off cyc_on_path [OF home_bound [OF cap] I(1) j T(1) [symmetric]] x(2) xi(1) pj show False by simp
    qed
    with xi T(2) cyc_inj [OF I(1) p(1) j] show ?thesis by auto
  qed simp
  ultimately show ?thesis using I(1,3-5,7) j unfolding shift_inv_def Let_def by blast
qed

lemma kat_moved:
  assumes "i < length s" and "j < length s" and "i \<noteq> j"
  shows "kat (punch (s[i := s ! j]) j) x = (if x = j then 0 else if x = i then kat s j else kat s x)"
  using assms by (auto simp: punch_def kat_def nth_list_update)

lemma shift_move:
  assumes inv: "shift_inv s i j z" and k: "kat s (succ_pos (length s) j) \<noteq> 0" and cap: "hash_cap (length s)"
    and on: "cyc (length s) i (succ_pos (length s) j) \<le>
      cyc (length s) (home (length s) (kat s (succ_pos (length s) j))) (succ_pos (length s) j)"
  shows "shift_inv (s[i := s ! succ_pos (length s) j]) (succ_pos (length s) j) (succ_pos (length s) j) z"
proof -
  note I = shift_invD [OF inv]
  let ?n = "length s" and ?C = "punch s i" and ?j = "succ_pos (length s) j"
  let ?s = "s[i := s ! ?j]"
  note T = succ_toward [OF I(1-3,6)]
  have j: "?j < ?n" using I(2) by (rule succ_pos_bound)
  have zj: "?j \<noteq> z" using k I(4) by auto
  note K = kat_moved [OF I(1) j T(1) [symmetric]]
  have C: "kat ?C x = (if x = i then 0 else kat s x)" for x using I(1) by simp
  have kd: "keys_distinct (punch ?s ?j)"
    unfolding keys_distinct_def punch_simps length_list_update
  proof (intro allI impI)
    let ?f = "\<lambda>x. if x = i then ?j else x"
    fix p q assume pq: "p < ?n" "q < ?n" "kat (punch ?s ?j) p \<noteq> 0" "kat (punch ?s ?j) p = kat (punch ?s ?j) q"
    have "kat (punch ?s ?j) ?j = 0" by (simp add: K)
    with pq have ne: "p \<noteq> ?j" "q \<noteq> ?j" by metis+
    have f: "kat (punch ?s ?j) y = kat ?C (?f y)" if "y \<noteq> ?j" for y
      using that T(1) by (simp add: K C)
    have "kat ?C (?f p) \<noteq> 0" "kat ?C (?f p) = kat ?C (?f q)"
      using pq(3,4) f [OF ne(1)] f [OF ne(2)] by metis+
    moreover have "?f p < ?n" "?f q < ?n" using pq(1,2) j by simp_all
    ultimately have "?f p = ?f q" using I(7) unfolding keys_distinct_def punch_simps(1) by blast
    with ne show "p = q" by (cases "p = i"; cases "q = i") simp_all
  qed
  have reach: "kat (punch ?s ?j) x \<noteq> 0 \<or> x = ?j \<and> cyc ?n ?j ?j < cyc ?n ?j p"
    if p: "p < ?n" "kat (punch ?s ?j) p \<noteq> 0" and x: "x < ?n"
      "cyc ?n (home ?n (kat (punch ?s ?j) p)) x < cyc ?n (home ?n (kat (punch ?s ?j) p)) p" for p x
  proof (cases "x = ?j")
    case True
    have "p \<noteq> ?j" using p(2) by (auto simp: K)
    with True cyc_zero [OF j p(1)] show ?thesis by auto
  next
    case xj: False
    show ?thesis
    proof (cases "p = i")
      case True
      let ?h = "home ?n (kat s ?j)"
      have h: "?h < ?n" by (rule home_bound [OF cap])
      have kp: "kat (punch ?s ?j) p = kat s ?j" using True T(1) by (simp add: K)
      have hi: "cyc ?n ?h i < cyc ?n ?h ?j" using cyc_on_path [OF h I(1) j T(1) [symmetric]] on by blast
      from x(2) have "cyc ?n ?h x < cyc ?n ?h i" by (simp add: kp) (simp add: True)
      from cyc_before [OF h I(1) j x(1) this hi] have "x \<noteq> i" "cyc ?n ?h x < cyc ?n ?h ?j" by auto
      with I(9) [OF j _ x(1)] C [of ?j] C [of x] T(1) k have "kat s x \<noteq> 0" by auto
      with xj \<open>x \<noteq> i\<close> show ?thesis by (simp add: K)
    next
      case pi: False
      have pj: "p \<noteq> ?j" using p(2) by (auto simp: K)
      then have kp: "kat (punch ?s ?j) p = kat ?C p" using pi by (simp add: K C)
      show ?thesis
      proof (cases "x = i")
        case True
        with xj k show ?thesis by (simp add: K)
      next
        case False
        from I(9) [OF p(1) _ x(1)] p(2) x(2) False have "kat ?C x \<noteq> 0" by (simp add: kp)
        with False xj show ?thesis by (simp add: K C)
      qed
    qed
  qed
  have m: "cyc ?n ?j ?j < cyc ?n ?j z" using cyc_zero [OF j I(3)] zj by auto
  have z: "kat ?s z = 0" using I(4,5) by (simp add: kat_def)
  show ?thesis
    by (rule shift_invI, unfold length_list_update)
      (fact j I(3) z m kd zj [symmetric] | (rule reach, assumption+) | simp)+
qed

lemma move_same:
  assumes inv: "shift_inv s i j z" and k: "kat s (succ_pos (length s) j) \<noteq> 0"
    and inv': "shift_inv (s[i := s ! succ_pos (length s) j]) (succ_pos (length s) j) (succ_pos (length s) j) z"
  shows "slot_map (punch (s[i := s ! succ_pos (length s) j]) (succ_pos (length s) j)) = slot_map (punch s i)"
    and "used (punch (s[i := s ! succ_pos (length s) j]) (succ_pos (length s) j)) = used (punch s i)"
proof -
  note I = shift_invD [OF inv]
  let ?n = "length s" and ?C = "punch s i" and ?j = "succ_pos (length s) j"
  let ?s = "s[i := s ! ?j]"
  note T = succ_toward [OF I(1-3,6)]
  have j: "?j < ?n" using I(2) by (rule succ_pos_bound)
  note K = kat_moved [OF I(1) j T(1) [symmetric]]
  have C: "kat ?C x = (if x = i then 0 else kat s x)" for x using I(1) by simp
  let ?f = "\<lambda>x. if x = i then ?j else x" and ?g = "\<lambda>x. if x = ?j then i else x"
  have val: "e_val (?s ! i) = e_val (s ! ?j)" "x \<noteq> i \<Longrightarrow> e_val (?s ! x) = e_val (s ! x)" for x
    using I(1) by simp_all
  show "slot_map (punch ?s ?j) = slot_map ?C"
  proof (rule slot_map_eqI [OF I(7) shift_invD(7) [OF inv']])
    fix p assume p: "p < length ?C" "kat ?C p \<noteq> 0"
    then have "p \<noteq> i" using C by auto
    then have "kat (punch ?s ?j) (?g p) = kat ?C p" "e_val (punch ?s ?j ! ?g p) = e_val (?C ! p)"
      using T(1) val by (auto simp: K C)
    moreover have "?g p < length (punch ?s ?j)" using p(1) I(1) by simp
    ultimately show "\<exists>q<length (punch ?s ?j). kat (punch ?s ?j) q = kat ?C p \<and>
      e_val (punch ?s ?j ! q) = e_val (?C ! p)" by blast
  next
    fix p assume p: "p < length (punch ?s ?j)" "kat (punch ?s ?j) p \<noteq> 0"
    then have "p \<noteq> ?j" using K by auto
    then have "kat ?C (?f p) = kat (punch ?s ?j) p" using T(1) by (auto simp: K C)
    moreover have "?f p < length ?C" using p(1) j by simp
    ultimately show "\<exists>q<length ?C. kat ?C q = kat (punch ?s ?j) p" by blast
  qed
  have "used (punch s i) + (if kat s i \<noteq> 0 then 1 else 0) = used s"
    using used_update [OF I(1), of "(s ! i)\<lparr>e_key := 0\<rparr>"] by (simp add: punch_def)
  moreover have "used ?s + (if kat s i \<noteq> 0 then 1 else 0) = used s + 1"
    using used_update [OF I(1), of "s ! ?j"] k by (simp add: kat_def)
  moreover have "used (punch ?s ?j) + 1 = used ?s"
    using used_update [of ?j ?s "(?s ! ?j)\<lparr>e_key := 0\<rparr>"] j k T(1) by (simp add: punch_def kat_def)
  ultimately show "used (punch ?s ?j) = used ?C" by linarith
qed

text \<open>A key that was probed past the hole was probed past the key that fills it.\<close>

lemma move_aged:
  assumes inv: "shift_inv s i j z" and k: "kat s (succ_pos (length s) j) \<noteq> 0" and cap: "hash_cap (length s)"
    and on: "cyc (length s) i (succ_pos (length s) j) \<le>
      cyc (length s) (home (length s) (kat s (succ_pos (length s) j))) (succ_pos (length s) j)"
    and ag: "aged a (punch s i)"
  shows "aged a (punch (s[i := s ! succ_pos (length s) j]) (succ_pos (length s) j))"
proof -
  note I = shift_invD [OF inv]
  let ?n = "length s" and ?C = "punch s i" and ?j = "succ_pos (length s) j"
  let ?D = "punch (s[i := s ! ?j]) ?j"
  note T = succ_toward [OF I(1-3,6)]
  have j: "?j < ?n" using I(2) by (rule succ_pos_bound)
  note K = kat_moved [OF I(1) j T(1) [symmetric]]
  have C: "kat ?C x = (if x = i then 0 else kat s x)" for x using I(1) by simp
  note A = agedD [OF ag, unfolded punch_simps(1)]
  have hi: "cyc ?n (home ?n (kat s ?j)) i < cyc ?n (home ?n (kat s ?j)) ?j"
    using cyc_on_path [OF home_bound [OF cap] I(1) j T(1) [symmetric]] on by blast
  have "a (kat ?D x) < a (kat ?D p)" if p: "p < ?n" "kat ?D p \<noteq> 0" and x: "x < ?n" "kat ?D x \<noteq> 0"
    "cyc ?n (home ?n (kat ?D p)) x < cyc ?n (home ?n (kat ?D p)) p" for p x
  proof -
    have pj: "p \<noteq> ?j" and xj: "x \<noteq> ?j" using p(2) x(2) K by auto
    show ?thesis
    proof (cases "p = i")
      case True
      then have kp: "kat ?D p = kat s ?j" using pj by (simp add: K)
      have xi: "x \<noteq> i" using x(3) True by auto
      then have kx: "kat ?D x = kat ?C x" using xj by (simp add: K C)
      have "cyc ?n (home ?n (kat s ?j)) x < cyc ?n (home ?n (kat s ?j)) ?j" using x(3) hi kp True by simp
      with A [OF j x(1)] T(1) k x(2) kp kx show ?thesis by (simp add: C)
    next
      case pi: False
      then have kp: "kat ?D p = kat ?C p" using pj by (simp add: K C)
      show ?thesis
      proof (cases "x = i")
        case False
        with A [OF p(1) x(1)] p(2) x(2,3) xj kp show ?thesis by (simp add: K C)
      next
        case True
        then have kx: "kat ?D x = kat s ?j" using xj by (simp add: K)
        have "cyc ?n i j < cyc ?n i p" using I(9) [OF p(1) _ x(1)] p(2) x(3) kp True I(1) by auto
        then have "cyc ?n i ?j < cyc ?n i p" using T(2) cyc_inj [OF I(1) j p(1)] pj by auto
        from cyc_beyond [OF home_bound [OF cap] I(1) p(1) j _ this] x(3) True
        have "cyc ?n (home ?n (kat ?C p)) ?j < cyc ?n (home ?n (kat ?C p)) p" by (simp add: kp)
        with A [OF p(1) j] p(2) k kp kx T(1) show ?thesis by (simp add: C)
      qed
    qed
  qed
  then show ?thesis unfolding aged_def by simp
qed

lemma shift_loop_correct:
  assumes "shift_inv s (unat i) (unat j) z" and cap: "hash_cap (length s)"
  shows "\<exists>s' i'. shift_loop s i j = Some (s', i') \<and> unat i' < length s' \<and> length s' = length s \<and>
    keys_distinct (punch s' (unat i')) \<and> reachable (punch s' (unat i')) \<and>
    slot_map (punch s' (unat i')) = slot_map (punch s (unat i)) \<and>
    used (punch s' (unat i')) = used (punch s (unat i)) \<and>
    (\<forall>a. aged a (punch s (unat i)) \<longrightarrow> aged a (punch s' (unat i')))"
  using assms
proof (induction "cyc (length s) (unat j) z" arbitrary: s i j rule: less_induct)
  case less
  note I = shift_invD [OF less.prems(1)] and cap = less.prems(2)
  let ?n = "length s" and ?j = "next_slot (length s) j"
  have uj: "unat ?j = succ_pos ?n (unat j)" by (rule next_slot_pos [OF cap I(2)])
  note T = succ_toward [OF I(1-3,6)]
  have j: "unat ?j < ?n" using succ_pos_bound [OF I(2)] uj by simp
  let ?h = "slot_of ?n (kat s (unat ?j))"
  have h: "unat ?h < ?n" by (rule slot_of_bound [OF cap])
  have ge: "s ! unat ?j = s ! unat ?j" "e_key (s ! unat ?j) = kat s (unat ?j)" by (simp_all add: kat_def)
  have test: "(?j - i) AND (word_of_nat ?n - 1) \<le> (?j - ?h) AND (word_of_nat ?n - 1) \<longleftrightarrow>
      cyc ?n (unat i) (unat ?j) \<le> cyc ?n (home ?n (kat s (unat ?j))) (unat ?j)"
    using mask_cyc [OF cap I(1) j] mask_cyc [OF cap h j] by (simp add: word_le_nat_alt home_def)
  show ?case
  proof (cases "kat s (unat ?j) = 0")
    case True
    have "shift_loop s i j = Some (s, i)"
      using True j ge by (subst shift_loop.simps) (simp add: Let_def)
    with shift_done [OF less.prems(1) _ cap] True uj I(1,7) show ?thesis by simp
  next
    case nz: False
    have meas: "cyc ?n (unat ?j) z < cyc ?n (unat j) z" using T(3) uj by simp
    show ?thesis
    proof (cases "cyc ?n (unat i) (unat ?j) \<le> cyc ?n (home ?n (kat s (unat ?j))) (unat ?j)")
      case True
      let ?s = "s[unat i := s ! unat ?j]"
      have run: "shift_loop s i j = shift_loop ?s ?j ?j"
        using nz True test j I(1) ge by (subst shift_loop.simps) (simp add: Let_def)
      have inv': "shift_inv ?s (unat ?j) (unat ?j) z"
        using shift_move [OF less.prems(1) _ cap] nz True unfolding uj by simp
      have meas': "cyc (length ?s) (unat ?j) z < cyc ?n (unat j) z" and cap': "hash_cap (length ?s)"
        using meas cap by simp_all
      have "aged a (punch s (unat i)) \<Longrightarrow> aged a (punch ?s (unat ?j))" for a
        using move_aged [OF less.prems(1) _ cap] nz True unfolding uj by simp
      with less.hyps [OF meas' inv' cap'] run move_same [OF less.prems(1), folded uj, OF nz inv'] show ?thesis by auto
    next
      case False
      have run: "shift_loop s i j = shift_loop s i ?j"
        using nz False test j ge by (subst shift_loop.simps) (simp add: Let_def)
      have inv': "shift_inv s (unat i) (unat ?j) z"
        using shift_skip [OF less.prems(1) _ cap] nz False unfolding uj by simp
      from less.hyps [OF meas inv' cap] run show ?thesis by simp
    qed
  qed
qed

text \<open>Punching the hole where the key is: the map without the key, not yet reachable.\<close>

lemma punch_start:
  assumes "keys_distinct s" and "reachable s" and i: "i < length s" "kat s i = key" "key \<noteq> 0"
    and z: "z < length s" "kat s z = 0"
  shows "shift_inv s i i z" and "slot_map (punch s i) = (slot_map s)(key := None)" and "used (punch s i) + 1 = used s"
proof -
  let ?n = "length s" and ?C = "punch s i"
  have C: "kat ?C x = (if x = i then 0 else kat s x)" for x using i(1) by simp
  have zi: "z \<noteq> i" using z(2) i by auto
  have kd: "keys_distinct ?C"
    using assms(1) unfolding keys_distinct_def punch_simps(1) C by (auto split: if_splits)
  have reach: "kat ?C x \<noteq> 0 \<or> x = i \<and> cyc ?n i i < cyc ?n i p"
    if p: "p < ?n" "kat ?C p \<noteq> 0" and x: "x < ?n" "cyc ?n (home ?n (kat ?C p)) x < cyc ?n (home ?n (kat ?C p)) p" for p x
  proof (cases "x = i")
    case True
    have "p \<noteq> i" using p(2) C by auto
    with True cyc_zero [OF i(1) p(1)] show ?thesis by auto
  next
    case False
    have "p \<noteq> i" using p(2) C by auto
    then have "kat ?C p = kat s p" "kat ?C x = kat s x" using False by (simp_all add: C)
    with assms(2) p x show ?thesis unfolding reachable_def Let_def by metis
  qed
  have m: "cyc ?n i i < cyc ?n i z" using cyc_zero [OF i(1) z(1)] zi by auto
  show "shift_inv s i i z"
    by (rule shift_invI) (fact i(1) z m kd zi | (rule reach, assumption+) | simp)+
  show "slot_map ?C = (slot_map s)(key := None)"
  proof
    fix k
    show "slot_map ?C k = ((slot_map s)(key := None)) k"
    proof (cases "k = key")
      case True
      with assms(1) i have "slot_map ?C k = None"
        unfolding slot_map_None keys_distinct_def punch_simps(1) C by (auto split: if_splits)
      with True show ?thesis by simp
    next
      case False
      show ?thesis
      proof (cases "slot_map s k")
        case None
        then have "slot_map ?C k = None" unfolding slot_map_None punch_simps(1) C by auto
        with None False show ?thesis by simp
      next
        case (Some w)
        obtain q where q: "q < length s" "kat s q = k" "k \<noteq> 0" "e_val (s ! q) = w"
          by (rule slot_map_Some [OF assms(1) Some])
        with False i have "q \<noteq> i" by auto
        with slot_map_at [OF kd, of q k] q False Some show ?thesis by simp
      qed
    qed
  qed
  show "used ?C + 1 = used s" using used_update [OF i(1), of "(s ! i)\<lparr>e_key := 0\<rparr>"] i by (simp add: punch_def)
qed

text \<open>\<open>erase\<close>: answers whether the key was there and removes it.\<close>

lemma fm_erase_correct:
  assumes ok: "fm_ok m" and key: "key \<noteq> 0"
  shows "\<exists>m'. fm_erase m key = Some (fm_map m key \<noteq> None, m') \<and> fm_ok m' \<and> fm_cap m' = fm_cap m \<and>
    load_cap m' = load_cap m \<and> fm_map m' = (fm_map m)(key := None) \<and> unat (fm_size m') \<le> unat (fm_size m) \<and>
    (\<forall>a. aged a (fm_slots m) \<longrightarrow> aged a (fm_slots m'))"
proof -
  note M = fm_okD [OF ok]
  let ?s = "fm_slots m"
  obtain p where p: "stop_at ?s key (home (length ?s) key) p"
    "kat ?s p = key \<or> slot_map ?s key = None \<and> kat ?s p = 0" "p < length ?s"
    by (rule slots_ok_stop [OF M(1-4), of key])
  obtain i where i: "unat i = p" "erase_probe ?s key (slot_of (length ?s) key) =
      Some (if kat ?s p = key then Some i else None)"
    using erase_probe_stop [OF M(1) p(1)] by blast
  show ?thesis
  proof (cases "kat ?s p = key")
    case False
    with p have "fm_map m key = None" by (simp add: fm_map_def)
    moreover have "fm_erase m key = Some (False, m)" using i False by (simp add: fm_erase_def fm_cap_def)
    moreover have "(fm_map m)(key := None) = fm_map m" using calculation(1) by (simp add: fun_upd_idem)
    ultimately show ?thesis using ok by simp
  next
    case True
    obtain z where z: "z < length ?s" "kat ?s z = 0" by (rule used_empty_slot [OF M(4)])
    note P = punch_start [OF M(2,3) p(3) True key z]
    obtain s' i' where L: "shift_loop ?s i i = Some (s', i')" "unat i' < length s'" "length s' = length ?s"
      "keys_distinct (punch s' (unat i'))" "reachable (punch s' (unat i'))"
      "slot_map (punch s' (unat i')) = (slot_map ?s)(key := None)" "used (punch s' (unat i')) + 1 = used ?s"
      "\<And>a. aged a (punch ?s (unat i)) \<Longrightarrow> aged a (punch s' (unat i'))"
      using shift_loop_correct [of ?s i i z] P M(1) i(1) by auto
    let ?m = "m\<lparr>fm_slots := punch s' (unat i'), fm_size := fm_size m - 1\<rparr>"
    have run: "fm_erase m key = Some (True, ?m)"
      using i True L(1-3) by (simp add: fm_erase_def fm_cap_def punch_def)
    have "unat (fm_size m - 1) = unat (fm_size m) - 1"
    proof -
      have "fm_size m \<noteq> 0" using M(5) L(7) by auto
      then show ?thesis by (simp add: unat_minus_one)
    qed
    then have "fm_ok ?m" using ok L M by (simp add: fm_ok_def fm_cap_def)
    moreover have "fm_map m key \<noteq> None" using slot_map_at [OF M(2) p(3) True key] by (simp add: fm_map_def)
    ultimately show ?thesis
      using run L \<open>unat (fm_size m - 1) = _\<close> aged_punch [of _ ?s p] p(3) i(1) by (simp add: fm_cap_def fm_map_def load_cap_def)
  qed
qed

section \<open>The contract: a map with a load cap\<close>

lemma used_card:
  assumes "keys_distinct s"
  shows "used s = card (dom (slot_map s))"
proof -
  let ?A = "{p. p < length s \<and> kat s p \<noteq> 0}"
  have "inj_on (kat s) ?A" using assms by (auto simp: inj_on_def keys_distinct_def)
  then have "card (kat s ` ?A) = card ?A" by (rule card_image)
  moreover have "kat s ` ?A = dom (slot_map s)" by (force simp: slot_map_def dom_def split: if_splits)
  ultimately show ?thesis by (simp add: used_def)
qed

lemma fm_size_card: "fm_ok m \<Longrightarrow> unat (fm_size m) = card (dom (fm_map m))"
  using used_card fm_okD(2,5) by (simp add: fm_map_def)

text \<open>A caller's operations, with the answer of each as a word (booleans as 0 and 1), on the
  table and on the map it stands for.\<close>

datatype map_op = Insert u64 u64 | Find u64 | Erase u64

fun op_key :: "map_op \<Rightarrow> u64" where
  "op_key (Insert k v) = k"
| "op_key (Find k) = k"
| "op_key (Erase k) = k"

fun run_op :: "('m \<Rightarrow> u64 \<Rightarrow> u64 \<Rightarrow> (bool \<times> 'm) option) \<Rightarrow> ('m \<Rightarrow> u64 \<Rightarrow> u64 option) \<Rightarrow>
    ('m \<Rightarrow> u64 \<Rightarrow> (bool \<times> 'm) option) \<Rightarrow> map_op \<Rightarrow> 'm \<Rightarrow> (u64 \<times> 'm) option" where
  "run_op ins fnd era (Insert k v) m = map_option (\<lambda>(r, m). (of_bool r, m)) (ins m k v)"
| "run_op ins fnd era (Find k) m = map_option (\<lambda>v. (v, m)) (fnd m k)"
| "run_op ins fnd era (Erase k) m = map_option (\<lambda>(r, m). (of_bool r, m)) (era m k)"

fun run_ops where
  "run_ops ins fnd era [] m = Some ([], m)"
| "run_ops ins fnd era (op # ops) m = do {
     (r, m) \<leftarrow> run_op ins fnd era op m;
     (rs, m) \<leftarrow> run_ops ins fnd era ops m;
     Some (r # rs, m)
   }"

fun map_run_op :: "nat \<Rightarrow> map_op \<Rightarrow> (u64 \<rightharpoonup> u64) \<Rightarrow> u64 \<times> (u64 \<rightharpoonup> u64)" where
  "map_run_op lim (Insert k v) M = (if card (dom M) < lim then (1, M(k \<mapsto> v)) else (0, M))"
| "map_run_op lim (Find k) M = (or_zero (M k), M)"
| "map_run_op lim (Erase k) M = (of_bool (M k \<noteq> None), M(k := None))"

fun map_run_ops :: "nat \<Rightarrow> map_op list \<Rightarrow> (u64 \<rightharpoonup> u64) \<Rightarrow> u64 list \<times> (u64 \<rightharpoonup> u64)" where
  "map_run_ops lim [] M = ([], M)"
| "map_run_ops lim (op # ops) M =
     (let (r, M) = map_run_op lim op M; (rs, M) = map_run_ops lim ops M in (r # rs, M))"

locale capped_map =
  fixes ok :: "'m \<Rightarrow> bool" and limit :: "'m \<Rightarrow> nat" and view :: "'m \<Rightarrow> u64 \<rightharpoonup> u64"
    and ins :: "'m \<Rightarrow> u64 \<Rightarrow> u64 \<Rightarrow> (bool \<times> 'm) option" and fnd :: "'m \<Rightarrow> u64 \<Rightarrow> u64 option"
    and era :: "'m \<Rightarrow> u64 \<Rightarrow> (bool \<times> 'm) option"
  assumes find_law: "ok m \<Longrightarrow> k \<noteq> 0 \<Longrightarrow> fnd m k = Some (or_zero (view m k))"
    and insert_law: "ok m \<Longrightarrow> k \<noteq> 0 \<Longrightarrow> \<exists>m'. ins m k v = Some (card (dom (view m)) < limit m, m') \<and> ok m' \<and>
      limit m' = limit m \<and> view m' = (if card (dom (view m)) < limit m then (view m)(k \<mapsto> v) else view m)"
    and erase_law: "ok m \<Longrightarrow> k \<noteq> 0 \<Longrightarrow> \<exists>m'. era m k = Some (view m k \<noteq> None, m') \<and> ok m' \<and>
      limit m' = limit m \<and> view m' = (view m)(k := None)"
begin

lemma run_op_refines:
  assumes "ok m" and "op_key op \<noteq> 0"
  shows "\<exists>r m'. run_op ins fnd era op m = Some (r, m') \<and> ok m' \<and> limit m' = limit m \<and>
    map_run_op (limit m) op (view m) = (r, view m')"
proof (cases op)
  case (Insert k v)
  with insert_law [OF assms(1), of k v] assms(2) show ?thesis by auto
next
  case (Find k)
  with find_law [OF assms(1), of k] assms show ?thesis by auto
next
  case (Erase k)
  with erase_law [OF assms(1), of k] assms(2) obtain m' where "era m k = Some (view m k \<noteq> None, m')" "ok m'"
    "limit m' = limit m" "view m' = (view m)(k := None)" by auto
  with Erase show ?thesis by (intro exI [of _ "of_bool (view m k \<noteq> None)"] exI [of _ m']) simp
qed

lemma run_ops_refine:
  assumes "ok m" and "\<forall>op\<in>set ops. op_key op \<noteq> 0"
  shows "\<exists>rs m'. run_ops ins fnd era ops m = Some (rs, m') \<and> ok m' \<and> limit m' = limit m \<and>
    map_run_ops (limit m) ops (view m) = (rs, view m')"
  using assms
proof (induction ops arbitrary: m)
  case (Cons op ops)
  from Cons.prems run_op_refines [of m op] obtain r m1 where 1: "run_op ins fnd era op m = Some (r, m1)"
    "ok m1" "limit m1 = limit m" "map_run_op (limit m) op (view m) = (r, view m1)" by auto
  from Cons.IH [OF 1(2)] Cons.prems(2) 1 show ?case by auto
qed simp

end

definition fm_limit :: "flat_map \<Rightarrow> nat" where
  "fm_limit m = unat (load_cap m)"

lemma below_cap: "fm_ok m \<Longrightarrow> fm_size m < load_cap m \<longleftrightarrow> card (dom (fm_map m)) < fm_limit m"
  by (simp add: word_less_nat_alt fm_size_card fm_limit_def)

interpretation flat: capped_map fm_ok fm_limit fm_map fm_insert fm_find fm_erase
proof unfold_locales
  fix m k v
  assume ok: "fm_ok m"
  show "fm_find m k = Some (or_zero (fm_map m k))" by (rule fm_find_correct [OF ok])
  assume k: "k \<noteq> 0"
  show "\<exists>m'. fm_insert m k v = Some (card (dom (fm_map m)) < fm_limit m, m') \<and> fm_ok m' \<and> fm_limit m' = fm_limit m \<and>
      fm_map m' = (if card (dom (fm_map m)) < fm_limit m then (fm_map m)(k \<mapsto> v) else fm_map m)"
    using fm_insert_correct [OF ok k, of v "\<lambda>_. 0" 0] unfolding below_cap [OF ok] by (auto simp: fm_limit_def)
  show "\<exists>m'. fm_erase m k = Some (fm_map m k \<noteq> None, m') \<and> fm_ok m' \<and> fm_limit m' = fm_limit m \<and>
      fm_map m' = (fm_map m)(k := None)"
    using fm_erase_correct [OF ok k] by (auto simp: fm_limit_def)
qed

lemma flat_map_new_ok:
  assumes "hash_cap cap" and "10 \<le> pct" and "pct \<le> 90"
  shows "fm_ok (flat_map_new cap pct)" and "fm_map (flat_map_new cap pct) = Map.empty"
    and "fm_limit (flat_map_new cap pct) = cap * pct div 100"
proof -
  let ?s = "replicate cap \<lparr>e_key = 0, e_val = 0\<rparr>"
  have k: "kat ?s p = 0" if "p < cap" for p using that by (simp add: kat_def)
  have "used ?s = 0" using k by (auto simp: used_def)
  with k assms hash_cap_bounds [OF assms(1)] show ok: "fm_ok (flat_map_new cap pct)"
    by (simp add: fm_ok_def flat_map_new_def fm_cap_def keys_distinct_def reachable_def)
  show "fm_map (flat_map_new cap pct) = Map.empty"
    using k by (auto simp: fm_map_def flat_map_new_def slot_map_def fun_eq_iff)
  show "fm_limit (flat_map_new cap pct) = cap * pct div 100"
    using load_cap_nat(1) [OF ok] by (simp add: fm_limit_def flat_map_new_def fm_cap_def)
qed

text \<open>C13. The flat hash map is a map with a load cap: for every sequence of inserts, lookups and
  erasures of non-zero keys, every call returns (the probe loops end, no access is out of
  bounds) with the answer of the finite map, where an insert is refused exactly when
  \<open>capacity * MaxLoadPct / 100\<close> keys are present; the final contents and the size agree.\<close>

theorem flat_hash_history:
  assumes "hash_cap cap" and "10 \<le> pct" and "pct \<le> 90" and "\<forall>op\<in>set ops. op_key op \<noteq> 0"
  shows "\<exists>rs m. run_ops fm_insert fm_find fm_erase ops (flat_map_new cap pct) = Some (rs, m) \<and>
    map_run_ops (cap * pct div 100) ops Map.empty = (rs, fm_map m) \<and> unat (fm_size m) = card (dom (fm_map m))"
proof -
  note N = flat_map_new_ok [OF assms(1-3)]
  from flat.run_ops_refine [OF N(1) assms(4)] N(2,3) fm_size_card show ?thesis by metis
qed

theorem flat_hash_history_witness:
  "\<exists>m. run_ops fm_insert fm_find fm_erase [Insert 5 7, Find 5, Erase 5, Find 5] (flat_map_new 4 50) = Some ([1, 7, 1, 0], m)"
proof -
  have "hash_cap 4" by (auto simp: hash_cap_def intro: exI [of _ 2])
  from flat_hash_history [OF this, of 50 "[Insert 5 7, Find 5, Erase 5, Find 5]"] show ?thesis by auto
qed

text \<open>Key 0, the mark of an empty slot, is not refused by \<open>erase\<close>: on an empty table it
  reports that it erased something and wraps the size to \<open>2^64 - 1\<close>, after which every
  \<open>insert\<close> is refused as if the table were full.\<close>

theorem erase_zero_wraps_size:
  assumes "hash_cap cap" and "10 \<le> pct" and "pct \<le> 90"
  shows "\<exists>m. fm_erase (flat_map_new cap pct) 0 = Some (True, m) \<and> fm_size m = - 1 \<and>
    fm_insert m key v = Some (False, m)"
proof -
  let ?s = "replicate cap \<lparr>e_key = 0, e_val = 0\<rparr>"
  have b: "unat (slot_of cap 0) < cap" by (rule slot_of_bound [OF assms(1)])
  have nx: "unat (next_slot cap (slot_of cap 0)) < cap"
    using next_slot_pos [OF assms(1) b] succ_pos_bound [OF b] by simp
  have p: "erase_probe ?s 0 (slot_of cap 0) = Some (Some (slot_of cap 0))"
    using b by (subst erase_probe.simps) simp
  have l: "shift_loop ?s (slot_of cap 0) (slot_of cap 0) = Some (?s, slot_of cap 0)"
    using nx by (subst shift_loop.simps) (simp add: Let_def)
  have u: "?s[unat (slot_of cap 0) := \<lparr>e_key = 0, e_val = 0\<rparr>] = ?s"
    using b by (intro nth_equalityI) (auto simp: nth_list_update)
  let ?m = "(flat_map_new cap pct)\<lparr>fm_size := - 1\<rparr>"
  have "fm_erase (flat_map_new cap pct) 0 = Some (True, ?m)"
    using p l b u by (simp add: fm_erase_def flat_map_new_def fm_cap_def)
  moreover have "fm_insert ?m key v = Some (False, ?m)" by (simp add: fm_insert_def)
  ultimately show ?thesis by auto
qed

theorem erase_zero_wraps_size_witness:
  "\<exists>m. fm_erase (flat_map_new 4 50) 0 = Some (True, m) \<and> fm_insert m 1 2 = Some (False, m)"
proof -
  have "hash_cap 4" by (auto simp: hash_cap_def intro: exI [of _ 2])
  from erase_zero_wraps_size [OF this, of 50 1 2] show ?thesis by auto
qed

end
