(* ===== verification/Gateway.thy ===== *)
theory Gateway
  imports Book_Props Itch Flat_Hash
begin

text \<open>
  The engine-side gateways: \<open>Gateway\<close> and \<open>GatewaySink\<close> of \<open>bench/pipeline_common.hpp\<close>, which
  translate exchange order references to engine ids through a dense array, and \<open>HashGateway\<close>
  and \<open>Sink\<close> of \<open>bench/bench_flat_hash.cpp\<close>, which do it through the flat hash map. Both
  classes have the same members up to the type of \<open>refs\<close>, hence the polymorphic record.

  The locale \<open>ref_table\<close> is what a gateway needs of its table: references it admits, and an
  entry for each. The lemmas proved in it say that a gateway whose table holds only ids the
  book has handed out never makes the book misbehave, and what each message does to the
  abstract book; the interpretations on the array and on the hash map carry them over to the
  two classes.
\<close>

record 't gateway =
  gw_book :: book
  gw_refs :: 't
  gw_trades :: u64
  gw_traded_lots :: u64

definition BASE :: price where
  "BASE = 1000000"

type_synonym dense_gateway = "order_id list gateway"

definition gateway_new :: "u64 \<Rightarrow> dense_gateway" where
  "gateway_new max_ref = \<lparr>gw_book = book_new (2 ^ 16) (2 ^ 20) BASE, gw_refs = replicate (unat (max_ref + 1)) 0,
     gw_trades = 0, gw_traded_lots = 0\<rparr>"

definition gateway_apply :: "dense_gateway \<Rightarrow> message \<Rightarrow> dense_gateway option" where
  "gateway_apply gw m = (case m_type m of
     NewOrder \<Rightarrow> do {
       (eng, b, ts) \<leftarrow> new_order (gw_book gw) (m_side m) (m_price m) (m_qty m) False;
       refs \<leftarrow> aput (gw_refs gw) (unat (m_id m)) eng;
       Some (gw\<lparr>gw_book := b, gw_refs := refs\<rparr>)
     }
   | Execute \<Rightarrow> do {
       r \<leftarrow> aget (gw_refs gw) (unat (m_id m));
       (filled, b) \<leftarrow> reduce (gw_book gw) r (m_qty m);
       Some (gw\<lparr>gw_book := b, gw_trades := gw_trades gw + of_bool (0 < sint filled),
               gw_traded_lots := gw_traded_lots gw + filled\<rparr>)
     }
   | Reduce \<Rightarrow> do {
       r \<leftarrow> aget (gw_refs gw) (unat (m_id m));
       (q, b) \<leftarrow> reduce (gw_book gw) r (m_qty m);
       Some (gw\<lparr>gw_book := b\<rparr>)
     }
   | Cancel \<Rightarrow> do {
       r \<leftarrow> aget (gw_refs gw) (unat (m_id m));
       (c, b) \<leftarrow> cancel (gw_book gw) r;
       Some (gw\<lparr>gw_book := b\<rparr>)
     })"

type_synonym hash_gateway = "flat_map gateway"

definition hash_gateway_new :: hash_gateway where
  "hash_gateway_new = \<lparr>gw_book = book_new (2 ^ 16) (2 ^ 20) BASE, gw_refs = flat_map_new (2 ^ 21) 50,
     gw_trades = 0, gw_traded_lots = 0\<rparr>"

definition sparse :: "u64 \<Rightarrow> u64" where
  "sparse r = r * 0xC2B2AE3D27D4EB4F"

definition hash_gateway_apply :: "hash_gateway \<Rightarrow> message \<Rightarrow> hash_gateway option" where
  "hash_gateway_apply gw m = (case m_type m of
     NewOrder \<Rightarrow> do {
       (eng, b, ts) \<leftarrow> new_order (gw_book gw) (m_side m) (m_price m) (m_qty m) False;
       (r, refs) \<leftarrow> fm_insert (gw_refs gw) (sparse (m_id m)) eng;
       Some (gw\<lparr>gw_book := b, gw_refs := refs\<rparr>)
     }
   | Execute \<Rightarrow> do {
       r \<leftarrow> fm_find (gw_refs gw) (sparse (m_id m));
       (filled, b) \<leftarrow> reduce (gw_book gw) r (m_qty m);
       Some (gw\<lparr>gw_book := b, gw_trades := gw_trades gw + of_bool (0 < sint filled),
               gw_traded_lots := gw_traded_lots gw + filled\<rparr>)
     }
   | Reduce \<Rightarrow> do {
       r \<leftarrow> fm_find (gw_refs gw) (sparse (m_id m));
       (q, b) \<leftarrow> reduce (gw_book gw) r (m_qty m);
       Some (gw\<lparr>gw_book := b\<rparr>)
     }
   | Cancel \<Rightarrow> do {
       let k = sparse (m_id m);
       r \<leftarrow> fm_find (gw_refs gw) k;
       (c, b) \<leftarrow> cancel (gw_book gw) r;
       (e, refs) \<leftarrow> fm_erase (gw_refs gw) k;
       Some (gw\<lparr>gw_book := b, gw_refs := refs\<rparr>)
     })"

section \<open>From wire structs to messages\<close>

text \<open>The four overloads of \<open>RingSink\<close>, \<open>GatewaySink\<close> and \<open>Sink\<close> build the same message;
  \<open>Message m{}\<close> zeroes the fields they do not set.\<close>

definition message_zero :: message where
  "message_zero = \<lparr>m_price = 0, m_qty = 0, m_id = 0, m_type = NewOrder, m_side = Buy\<rparr>"

fun decode_msg :: "wire_msg \<Rightarrow> message" where
  "decode_msg (WAdd a) = message_zero\<lparr>m_price := ucast (bswap32 (ao_price a)), m_qty := ucast (bswap32 (ao_shares a)),
     m_id := bswap64 (ao_order_ref a), m_type := NewOrder, m_side := (if ao_side a = chr_B then Buy else Sell)\<rparr>"
| "decode_msg (WExecuted e) = message_zero\<lparr>m_qty := ucast (bswap32 (oe_executed_shares e)),
     m_id := bswap64 (oe_order_ref e), m_type := Execute\<rparr>"
| "decode_msg (WCancel x) = message_zero\<lparr>m_qty := ucast (bswap32 (oc_canceled_shares x)),
     m_id := bswap64 (oc_order_ref x), m_type := Reduce\<rparr>"
| "decode_msg (WDelete d) = message_zero\<lparr>m_id := bswap64 (od_order_ref d), m_type := Cancel\<rparr>"

definition gateway_sink :: "wire_msg \<Rightarrow> dense_gateway \<Rightarrow> dense_gateway option" where
  "gateway_sink w gw = gateway_apply gw (decode_msg w)"

definition hash_sink :: "wire_msg \<Rightarrow> hash_gateway \<Rightarrow> hash_gateway option" where
  "hash_sink w gw = hash_gateway_apply gw (decode_msg w)"

lemma sint_ucast_u32: "sint (ucast (x :: u32) :: i64) = uint x"
proof -
  have r: "0 \<le> uint x" "uint x < 4294967296" using uint_lt2p [of x] by simp_all
  then have "take_bit 64 (uint x) = uint x" by (intro take_bit_int_eq_self) simp_all
  then have "uint (ucast x :: i64) = uint x" by (simp add: unsigned_ucast_eq)
  moreover have "signed_take_bit 63 (uint x) = uint x"
    using r by (intro signed_take_bit_int_eq_self) (auto intro: order_trans [of _ 0])
  ultimately show ?thesis by (simp add: sint_uint del: signed_take_bit_int_eq_self_iff)
qed

lemma decode_qty: "0 \<le> sint (m_qty (decode_msg w))"
  by (cases w) (simp_all add: message_zero_def sint_ucast_u32)

section \<open>What a gateway needs of its table\<close>

text \<open>The two \<open>apply\<close> functions in one: the operations of the table are arguments.\<close>

definition table_apply :: "('t \<Rightarrow> u64 \<Rightarrow> order_id option) \<Rightarrow> ('t \<Rightarrow> u64 \<Rightarrow> order_id \<Rightarrow> 't option) \<Rightarrow>
    ('t \<Rightarrow> u64 \<Rightarrow> 't option) \<Rightarrow> 't gateway \<Rightarrow> message \<Rightarrow> 't gateway option" where
  "table_apply get put del gw m = (case m_type m of
     NewOrder \<Rightarrow> do {
       (eng, b, ts) \<leftarrow> new_order (gw_book gw) (m_side m) (m_price m) (m_qty m) False;
       refs \<leftarrow> put (gw_refs gw) (m_id m) eng;
       Some (gw\<lparr>gw_book := b, gw_refs := refs\<rparr>)
     }
   | Execute \<Rightarrow> do {
       r \<leftarrow> get (gw_refs gw) (m_id m);
       (filled, b) \<leftarrow> reduce (gw_book gw) r (m_qty m);
       Some (gw\<lparr>gw_book := b, gw_trades := gw_trades gw + of_bool (0 < sint filled),
               gw_traded_lots := gw_traded_lots gw + filled\<rparr>)
     }
   | Reduce \<Rightarrow> do {
       r \<leftarrow> get (gw_refs gw) (m_id m);
       (q, b) \<leftarrow> reduce (gw_book gw) r (m_qty m);
       Some (gw\<lparr>gw_book := b\<rparr>)
     }
   | Cancel \<Rightarrow> do {
       r \<leftarrow> get (gw_refs gw) (m_id m);
       (c, b) \<leftarrow> cancel (gw_book gw) r;
       refs \<leftarrow> del (gw_refs gw) (m_id m);
       Some (gw\<lparr>gw_book := b, gw_refs := refs\<rparr>)
     })"

fun apply_all :: "('g \<Rightarrow> message \<Rightarrow> 'g option) \<Rightarrow> message list \<Rightarrow> 'g \<Rightarrow> 'g option" where
  "apply_all f [] gw = Some gw"
| "apply_all f (m # ms) gw = f gw m \<bind> apply_all f ms"

lemma new_order_issues:
  assumes "book_ok b"
  obtains oid b' ts where "new_order b s px q po = Some (oid, b', ts)" and "book_ok b'" and "issued oid"
proof (cases "accepts b px q")
  case True
  show ?thesis by (rule new_order_run [OF assms True, of s po]) (rule that)
next
  case False
  then have "new_order b s px q po = Some (0, b, [])" by (auto simp: accepts_def new_order_def)
  with assms show ?thesis by (intro that) (auto simp: issued_def)
qed

locale ref_table =
  fixes ok :: "'t \<Rightarrow> bool" and admits :: "'t \<Rightarrow> u64 \<Rightarrow> bool" and entry_of :: "'t \<Rightarrow> u64 \<Rightarrow> order_id"
    and get :: "'t \<Rightarrow> u64 \<Rightarrow> order_id option" and put :: "'t \<Rightarrow> u64 \<Rightarrow> order_id \<Rightarrow> 't option"
    and del :: "'t \<Rightarrow> u64 \<Rightarrow> 't option"
  assumes get_law: "ok t \<Longrightarrow> admits t r \<Longrightarrow> get t r = Some (entry_of t r)"
    and put_law: "ok t \<Longrightarrow> admits t r \<Longrightarrow> \<exists>t'. put t r v = Some t' \<and> ok t' \<and> admits t' = admits t \<and>
      (entry_of t' = (entry_of t)(r := v) \<or> entry_of t' = entry_of t)"
    and del_law: "ok t \<Longrightarrow> admits t r \<Longrightarrow> \<exists>t'. del t r = Some t' \<and> ok t' \<and> admits t' = admits t \<and>
      (entry_of t' = (entry_of t)(r := 0) \<or> entry_of t' = entry_of t)"
begin

text \<open>The invariant of a gateway: the book is well-formed and every admitted reference stands
  for an id the book has handed out (or 0).\<close>

definition sound :: "'t gateway \<Rightarrow> bool" where
  "sound gw \<longleftrightarrow> book_ok (gw_book gw) \<and> ok (gw_refs gw) \<and> (\<forall>r. admits (gw_refs gw) r \<longrightarrow> issued (entry_of (gw_refs gw) r))"

lemma apply_sound:
  assumes s: "sound gw" and a: "admits (gw_refs gw) (m_id m)" and q: "0 \<le> sint (m_qty m)"
  shows "\<exists>gw'. table_apply get put del gw m = Some gw' \<and> sound gw' \<and> admits (gw_refs gw') = admits (gw_refs gw) \<and>
    (m_type m = Cancel \<longrightarrow> abs_book (gw_book gw') = acancel (abs_book (gw_book gw)) (entry_of (gw_refs gw) (m_id m))) \<and>
    (m_type m = Execute \<or> m_type m = Reduce \<longrightarrow> abs_book (gw_book gw') =
       areduce (abs_book (gw_book gw)) (entry_of (gw_refs gw) (m_id m)) (sint (m_qty m)))"
proof -
  let ?b = "gw_book gw" and ?t = "gw_refs gw" and ?e = "entry_of (gw_refs gw) (m_id m)"
  from s have ok: "book_ok ?b" "ok ?t" and iss: "\<And>r. admits ?t r \<Longrightarrow> issued (entry_of ?t r)"
    by (simp_all add: sound_def)
  note g = get_law [OF ok(2) a] and i = iss [OF a]
  from ok(1) obtain qs where rep: "book_rep ?b qs" by (rule book_okE)
  obtain b1 c where c: "cancel ?b ?e = Some (c, b1)" "book_ok b1" "abs_book b1 = acancel (abs_book ?b) ?e"
    by (rule cancel_rep [OF rep i]) blast
  obtain x b2 where r: "reduce ?b ?e (m_qty m) = Some (x, b2)" "book_ok b2"
    "abs_book b2 = areduce (abs_book ?b) ?e (sint (m_qty m))"
    by (rule reduce_rep [OF rep i q]) blast
  show ?thesis
  proof (cases "m_type m")
    case NewOrder
    obtain oid b' ts where n: "new_order ?b (m_side m) (m_price m) (m_qty m) False = Some (oid, b', ts)"
      "book_ok b'" "issued oid"
      using new_order_issues [OF ok(1), of "m_side m" "m_price m" "m_qty m" False] by metis
    obtain t' where t: "put ?t (m_id m) oid = Some t'" "ok t'" "admits t' = admits ?t"
      "entry_of t' = (entry_of ?t)(m_id m := oid) \<or> entry_of t' = entry_of ?t"
      using put_law [OF ok(2) a, of oid] by blast
    then have "\<forall>r. admits t' r \<longrightarrow> issued (entry_of t' r)" using iss n(3) by auto
    with NewOrder n t show ?thesis by (simp add: table_apply_def sound_def)
  next
    case Cancel
    obtain t' where t: "del ?t (m_id m) = Some t'" "ok t'" "admits t' = admits ?t"
      "entry_of t' = (entry_of ?t)(m_id m := 0) \<or> entry_of t' = entry_of ?t"
      using del_law [OF ok(2) a] by blast
    moreover have "issued 0" by (simp add: issued_def)
    ultimately have "\<forall>r. admits t' r \<longrightarrow> issued (entry_of t' r)" using iss by auto
    with Cancel g c t show ?thesis by (simp add: table_apply_def sound_def)
  next
    case Execute
    with g r ok(2) iss show ?thesis by (simp add: table_apply_def sound_def)
  next
    case Reduce
    with g r ok(2) iss show ?thesis by (simp add: table_apply_def sound_def)
  qed
qed

lemma session_sound:
  assumes "sound gw" and "\<forall>m\<in>set ms. admits (gw_refs gw) (m_id m) \<and> 0 \<le> sint (m_qty m)"
  shows "\<exists>gw'. apply_all (table_apply get put del) ms gw = Some gw' \<and> sound gw' \<and> admits (gw_refs gw') = admits (gw_refs gw)"
  using assms
proof (induction ms arbitrary: gw)
  case (Cons m ms)
  then obtain gw1 where 1: "table_apply get put del gw m = Some gw1" "sound gw1"
    "admits (gw_refs gw1) = admits (gw_refs gw)"
    using apply_sound [of gw m] by auto
  from Cons.IH [OF 1(2)] Cons.prems(2) 1 show ?case by simp
qed simp

end

section \<open>The dense array\<close>

definition dense_admits :: "order_id list \<Rightarrow> u64 \<Rightarrow> bool" where
  "dense_admits refs r \<longleftrightarrow> unat r < length refs"

definition dense_entry :: "order_id list \<Rightarrow> u64 \<Rightarrow> order_id" where
  "dense_entry refs r = (if unat r < length refs then refs ! unat r else 0)"

lemma gateway_apply_table:
  "gateway_apply = table_apply (\<lambda>refs r. aget refs (unat r)) (\<lambda>refs r v. aput refs (unat r) v) (\<lambda>refs r. Some refs)"
  by (intro ext) (simp add: gateway_apply_def table_apply_def split: msg_type.split)

interpretation dense: ref_table "\<lambda>_. True" dense_admits dense_entry
  "\<lambda>refs r. aget refs (unat r)" "\<lambda>refs r v. aput refs (unat r) v" "\<lambda>refs r. Some refs"
proof unfold_locales
  fix t :: "order_id list" and r v
  assume a: "dense_admits t r"
  then show "aget t (unat r) = Some (dense_entry t r)" by (simp add: dense_admits_def dense_entry_def)
  have "dense_entry (t[unat r := v]) = (dense_entry t)(r := v)" "dense_admits (t[unat r := v]) = dense_admits t"
    using a by (auto simp: fun_eq_iff dense_entry_def dense_admits_def nth_list_update word_unat_eq_iff)
  then show "\<exists>t'. aput t (unat r) v = Some t' \<and> True \<and> dense_admits t' = dense_admits t \<and>
      (dense_entry t' = (dense_entry t)(r := v) \<or> dense_entry t' = dense_entry t)"
    using a by (simp add: dense_admits_def)
qed auto

lemma gateway_new_sound:
  assumes "max_ref \<noteq> - 1"
  shows "dense.sound (gateway_new max_ref)" and "dense_admits (gw_refs (gateway_new max_ref)) r \<longleftrightarrow> r \<le> max_ref"
proof -
  have "sizes_ok (2 ^ 16) (2 ^ 20)" by (simp add: sizes_ok_def)
  from book_new_ok [OF this] show "dense.sound (gateway_new max_ref)"
    by (auto simp: dense.sound_def gateway_new_def dense_admits_def dense_entry_def issued_def)
  have "unat (max_ref + 1) = Suc (unat max_ref)"
    using assms by (metis unatSuc add.commute add_eq_0_iff)
  then show "dense_admits (gw_refs (gateway_new max_ref)) r \<longleftrightarrow> r \<le> max_ref"
    by (simp add: dense_admits_def gateway_new_def word_le_nat_alt less_Suc_eq_le)
qed

text \<open>A message to the dense gateway whose reference is inside its array (and whose quantity is
  not negative) is applied without undefined behaviour and does to the abstract book what its
  type says: a cancel removes, an execution or partial cancel reduces the order that the
  reference stands for; an invariant that includes the well-formedness of the book is kept.\<close>

theorem gateway_apply_sound:
  assumes "dense.sound gw" and "unat (m_id m) < length (gw_refs gw)" and "0 \<le> sint (m_qty m)"
  shows "\<exists>gw'. gateway_apply gw m = Some gw' \<and> dense.sound gw' \<and>
    (m_type m = Cancel \<longrightarrow> abs_book (gw_book gw') = acancel (abs_book (gw_book gw)) (gw_refs gw ! unat (m_id m))) \<and>
    (m_type m = Execute \<or> m_type m = Reduce \<longrightarrow> abs_book (gw_book gw') =
       areduce (abs_book (gw_book gw)) (gw_refs gw ! unat (m_id m)) (sint (m_qty m)))"
proof -
  have "dense_admits (gw_refs gw) (m_id m)" "dense_entry (gw_refs gw) (m_id m) = gw_refs gw ! unat (m_id m)"
    using assms(2) by (simp_all add: dense_admits_def dense_entry_def)
  with dense.apply_sound [OF assms(1) _ assms(3)] show ?thesis unfolding gateway_apply_table by metis
qed

theorem gateway_apply_sound_witness:
  "\<exists>gw. gateway_apply (gateway_new 5) (message_zero\<lparr>m_id := 3, m_type := Cancel\<rparr>) = Some gw \<and> dense.sound gw"
proof -
  have "unat (3 :: u64) < length (gw_refs (gateway_new 5))" by (simp add: gateway_new_def)
  with gateway_apply_sound [OF gateway_new_sound(1), of 5 "message_zero\<lparr>m_id := 3, m_type := Cancel\<rparr>"] show ?thesis
    by (auto simp: message_zero_def)
qed

section \<open>The hash map\<close>

text \<open>Multiplication by the odd constant is undone by its inverse modulo \<open>2^64\<close>.\<close>

lemma sparse_inverse: "sparse r * 0xBA79078168D4BAF = r"
proof -
  have "(0xC2B2AE3D27D4EB4F * 0xBA79078168D4BAF :: u64) = 1" by simp
  then show ?thesis by (simp only: sparse_def mult.assoc mult_1_right)
qed

lemma sparse_inj: "sparse r = sparse r' \<longleftrightarrow> r = r'"
  by (metis sparse_inverse)

lemma sparse_zero [simp]: "sparse r = 0 \<longleftrightarrow> r = 0"
  using sparse_inj [of r 0] by (simp add: sparse_def)

definition hash_entry :: "flat_map \<Rightarrow> u64 \<Rightarrow> order_id" where
  "hash_entry t r = or_zero (fm_map t (sparse r))"

lemma hash_gateway_apply_table:
  "hash_gateway_apply = table_apply (\<lambda>t r. fm_find t (sparse r)) (\<lambda>t r v. map_option snd (fm_insert t (sparse r) v))
     (\<lambda>t r. map_option snd (fm_erase t (sparse r)))"
proof (intro ext)
  fix gw :: hash_gateway and m
  have snd_bind: "(x \<bind> (\<lambda>(a, b). f b)) = (map_option snd x \<bind> f)" for x :: "(bool \<times> flat_map) option" and f :: "_ \<Rightarrow> hash_gateway option"
    by (cases x) auto
  show "hash_gateway_apply gw m = table_apply (\<lambda>t r. fm_find t (sparse r))
      (\<lambda>t r v. map_option snd (fm_insert t (sparse r) v)) (\<lambda>t r. map_option snd (fm_erase t (sparse r))) gw m"
    by (simp add: hash_gateway_apply_def table_apply_def Let_def snd_bind split: msg_type.split)
qed

lemma hash_put_entry: "fm_map t' = (fm_map t)(sparse r \<mapsto> v) \<Longrightarrow> hash_entry t' = (hash_entry t)(r := v)"
  by (auto simp: hash_entry_def fun_eq_iff sparse_inj)

lemma hash_del_entry: "fm_map t' = (fm_map t)(sparse r := None) \<Longrightarrow> hash_entry t' = (hash_entry t)(r := 0)"
  by (auto simp: hash_entry_def fun_eq_iff sparse_inj)

lemma hash_same_entry: "fm_map t' = fm_map t \<Longrightarrow> hash_entry t' = hash_entry t"
  by (simp add: hash_entry_def fun_eq_iff)

interpretation hash: ref_table fm_ok "\<lambda>_ r. r \<noteq> 0" hash_entry "\<lambda>t r. fm_find t (sparse r)"
  "\<lambda>t r v. map_option snd (fm_insert t (sparse r) v)" "\<lambda>t r. map_option snd (fm_erase t (sparse r))"
proof unfold_locales
  fix t r v
  assume ok: "fm_ok t" and r: "r \<noteq> (0 :: u64)"
  then have k: "sparse r \<noteq> 0" by simp
  show "fm_find t (sparse r) = Some (hash_entry t r)"
    using flat.find_law [OF ok k] by (simp add: hash_entry_def)
  show "\<exists>t'. map_option snd (fm_insert t (sparse r) v) = Some t' \<and> fm_ok t' \<and> (\<lambda>r. r \<noteq> 0) = (\<lambda>r. r \<noteq> 0) \<and>
      (hash_entry t' = (hash_entry t)(r := v) \<or> hash_entry t' = hash_entry t)"
  proof -
    obtain b t' where t': "fm_insert t (sparse r) v = Some (b, t')" "fm_ok t'"
      "fm_map t' = (fm_map t)(sparse r \<mapsto> v) \<or> fm_map t' = fm_map t"
      using flat.insert_law [OF ok k, of v] by (auto split: if_splits)
    then have "hash_entry t' = (hash_entry t)(r := v) \<or> hash_entry t' = hash_entry t"
      using hash_put_entry hash_same_entry by blast
    with t' show ?thesis by simp
  qed
  show "\<exists>t'. map_option snd (fm_erase t (sparse r)) = Some t' \<and> fm_ok t' \<and> (\<lambda>r. r \<noteq> 0) = (\<lambda>r. r \<noteq> 0) \<and>
      (hash_entry t' = (hash_entry t)(r := 0) \<or> hash_entry t' = hash_entry t)"
    using flat.erase_law [OF ok k] hash_del_entry [of _ t r] by auto
qed

lemma hash_gateway_new_sound: "hash.sound hash_gateway_new"
proof -
  have "hash_cap (2 ^ 21)" unfolding hash_cap_def by (intro exI [of _ 21]) simp
  from flat_map_new_ok [OF this, of 50] have "fm_ok (flat_map_new (2 ^ 21) 50)" "fm_map (flat_map_new (2 ^ 21) 50) = Map.empty"
    by simp_all
  moreover have "book_ok (book_new (2 ^ 16) (2 ^ 20) BASE)" by (rule book_new_ok) (simp add: sizes_ok_def)
  ultimately show ?thesis by (simp add: hash.sound_def hash_gateway_new_def hash_entry_def issued_def)
qed

text \<open>The hash gateway is sound for every non-zero reference: no message makes the book or the
  hash map misbehave, and the book changes as the message says.\<close>

theorem hash_gateway_apply_sound:
  assumes "hash.sound gw" and "m_id m \<noteq> 0" and "0 \<le> sint (m_qty m)"
  shows "\<exists>gw'. hash_gateway_apply gw m = Some gw' \<and> hash.sound gw' \<and>
    (m_type m = Cancel \<longrightarrow> abs_book (gw_book gw') = acancel (abs_book (gw_book gw)) (hash_entry (gw_refs gw) (m_id m))) \<and>
    (m_type m = Execute \<or> m_type m = Reduce \<longrightarrow> abs_book (gw_book gw') =
       areduce (abs_book (gw_book gw)) (hash_entry (gw_refs gw) (m_id m)) (sint (m_qty m)))"
  using hash.apply_sound [OF assms] unfolding hash_gateway_apply_table by metis

theorem hash_gateway_apply_sound_witness:
  "\<exists>gw. hash_gateway_apply hash_gateway_new (message_zero\<lparr>m_id := 3, m_type := Cancel\<rparr>) = Some gw \<and> hash.sound gw"
  using hash_gateway_apply_sound [OF hash_gateway_new_sound, of "message_zero\<lparr>m_id := 3, m_type := Cancel\<rparr>"]
  by (auto simp: message_zero_def)

section \<open>The two gateways agree\<close>

text \<open>The dense gateway forgets no reference, the hash gateway erases the cancelled ones; so they
  agree as long as a cancelled reference is not used again.\<close>

fun no_reuse :: "message list \<Rightarrow> bool" where
  "no_reuse [] \<longleftrightarrow> True"
| "no_reuse (m # ms) \<longleftrightarrow> (m_type m = Cancel \<longrightarrow> m_id m \<notin> m_id ` set ms) \<and> no_reuse ms"

definition adds :: "message list \<Rightarrow> nat" where
  "adds ms = length (filter (\<lambda>m. m_type m = NewOrder) ms)"

definition twins :: "u64 set \<Rightarrow> dense_gateway \<Rightarrow> hash_gateway \<Rightarrow> bool" where
  "twins R gw hg \<longleftrightarrow> gw_book gw = gw_book hg \<and> gw_trades gw = gw_trades hg \<and> gw_traded_lots gw = gw_traded_lots hg \<and>
     (\<forall>r\<in>R. dense_entry (gw_refs gw) r = hash_entry (gw_refs hg) r)"

lemma dom_upd_card: "finite (dom M) \<Longrightarrow> card (dom (M(k \<mapsto> v))) \<le> card (dom M) + 1"
  by (simp add: card_insert_le_m1)

lemma fm_dom_finite: "fm_ok t \<Longrightarrow> finite (dom (fm_map t))"
proof -
  have "dom (fm_map t) \<subseteq> kat (fm_slots t) ` {..<length (fm_slots t)}"
    by (auto simp: fm_map_def slot_map_def dom_def split: if_splits)
  then show ?thesis by (rule finite_subset) simp
qed

lemma twins_step:
  assumes tw: "twins R gw hg" and s: "dense.sound gw" "hash.sound hg"
    and a: "unat (m_id m) < length (gw_refs gw)" "m_id m \<noteq> 0" "m_id m \<in> R" "0 \<le> sint (m_qty m)"
    and room: "m_type m = NewOrder \<Longrightarrow> card (dom (fm_map (gw_refs hg))) < fm_limit (gw_refs hg)"
  obtains gw' hg' where "gateway_apply gw m = Some gw'" "hash_gateway_apply hg m = Some hg'"
    "twins (if m_type m = Cancel then R - {m_id m} else R) gw' hg'" "dense.sound gw'" "hash.sound hg'"
    "length (gw_refs gw') = length (gw_refs gw)" "fm_limit (gw_refs hg') = fm_limit (gw_refs hg)"
    "card (dom (fm_map (gw_refs hg'))) \<le> card (dom (fm_map (gw_refs hg))) + (if m_type m = NewOrder then 1 else 0)"
proof -
  let ?b = "gw_book gw" and ?t = "gw_refs hg" and ?r = "m_id m"
  have da: "dense_admits (gw_refs gw) ?r" using a(1) by (simp add: dense_admits_def)
  obtain gw' where gw': "gateway_apply gw m = Some gw'" "dense.sound gw'"
    using dense.apply_sound [OF s(1) da a(4)] unfolding gateway_apply_table by blast
  obtain hg' where hg': "hash_gateway_apply hg m = Some hg'" "hash.sound hg'"
    using hash.apply_sound [OF s(2) a(2,4)] unfolding hash_gateway_apply_table by blast
  have ok: "fm_ok ?t" using s(2) by (simp add: hash.sound_def)
  have k: "sparse ?r \<noteq> 0" using a(2) by simp
  have B: "gw_book hg = ?b" "gw_trades hg = gw_trades gw" "gw_traded_lots hg = gw_traded_lots gw"
    "\<And>r. r \<in> R \<Longrightarrow> dense_entry (gw_refs gw) r = hash_entry ?t r" using tw by (simp_all add: twins_def)
  have get: "fm_find ?t (sparse ?r) = Some (gw_refs gw ! unat ?r)"
    using hash.get_law [OF ok a(2)] B(4) [OF a(3)] a(1) by (simp add: dense_entry_def)
  note D = gw'(1) [unfolded gateway_apply_def] and H = hg'(1) [unfolded hash_gateway_apply_def]
  show ?thesis
  proof (cases "m_type m")
    case NewOrder
    obtain t' where t': "fm_insert ?t (sparse ?r) v = Some (True, t' v)" "fm_limit (t' v) = fm_limit ?t"
      "fm_map (t' v) = (fm_map ?t)(sparse ?r \<mapsto> v)" for v
      using flat.insert_law [OF ok k] room [OF NewOrder] by simp metis
    obtain eng b ts where n: "new_order ?b (m_side m) (m_price m) (m_qty m) False = Some (eng, b, ts)"
      using D NewOrder by (auto simp: bind_eq_Some_conv)
    have g: "gw' = gw\<lparr>gw_book := b, gw_refs := (gw_refs gw)[unat ?r := eng]\<rparr>"
      using D NewOrder n a(1) by simp
    have h: "hg' = hg\<lparr>gw_book := b, gw_refs := t' eng\<rparr>"
      using H NewOrder n B(1) t'(1) by simp
    have "dense_entry ((gw_refs gw)[unat ?r := eng]) = (dense_entry (gw_refs gw))(?r := eng)"
      using a(1) by (auto simp: fun_eq_iff dense_entry_def nth_list_update word_unat_eq_iff)
    with hash_put_entry [OF t'(3)] B have "twins R gw' hg'" by (simp add: twins_def g h)
    with NewOrder t' g h dom_upd_card [OF fm_dom_finite [OF ok]] show ?thesis
      by (intro that [OF gw'(1) hg'(1) _ gw'(2) hg'(2)]) simp_all
  next
    case Cancel
    obtain t' where t': "fm_erase ?t (sparse ?r) = Some (fm_map ?t (sparse ?r) \<noteq> None, t')" "fm_limit t' = fm_limit ?t"
      "fm_map t' = (fm_map ?t)(sparse ?r := None)"
      using flat.erase_law [OF ok k] by blast
    obtain c b where n: "cancel ?b (gw_refs gw ! unat ?r) = Some (c, b)"
      using D Cancel a(1) by (auto simp: bind_eq_Some_conv)
    have g: "gw' = gw\<lparr>gw_book := b\<rparr>" using D Cancel n a(1) by simp
    have h: "hg' = hg\<lparr>gw_book := b, gw_refs := t'\<rparr>" using H Cancel n B(1) get t'(1) by simp
    have "card (dom (fm_map t')) \<le> card (dom (fm_map ?t))"
      unfolding t'(3) using fm_dom_finite [OF ok] by (auto intro: card_mono)
    moreover have "twins (R - {?r}) gw' hg'" using hash_del_entry [OF t'(3)] B by (simp add: twins_def g h)
    ultimately show ?thesis using Cancel t'(2) g h by (intro that [OF gw'(1) hg'(1) _ gw'(2) hg'(2)]) simp_all
  next
    case Execute
    obtain x b where n: "reduce ?b (gw_refs gw ! unat ?r) (m_qty m) = Some (x, b)"
      using D Execute a(1) by (auto simp: bind_eq_Some_conv)
    have "twins R gw' hg'" "gw_refs gw' = gw_refs gw" "gw_refs hg' = ?t"
      using D H Execute n B get a(1) by (auto simp: twins_def)
    with Execute show ?thesis by (intro that [OF gw'(1) hg'(1) _ gw'(2) hg'(2)]) simp_all
  next
    case Reduce
    obtain x b where n: "reduce ?b (gw_refs gw ! unat ?r) (m_qty m) = Some (x, b)"
      using D Reduce a(1) by (auto simp: bind_eq_Some_conv)
    have "twins R gw' hg'" "gw_refs gw' = gw_refs gw" "gw_refs hg' = ?t"
      using D H Reduce n B get a(1) by (auto simp: twins_def)
    with Reduce show ?thesis by (intro that [OF gw'(1) hg'(1) _ gw'(2) hg'(2)]) simp_all
  qed
qed

lemma twins_session:
  assumes "twins R gw hg" and "dense.sound gw" and "hash.sound hg"
    and "\<forall>m\<in>set ms. unat (m_id m) < length (gw_refs gw) \<and> m_id m \<noteq> 0 \<and> m_id m \<in> R \<and> 0 \<le> sint (m_qty m)"
    and "no_reuse ms" and "card (dom (fm_map (gw_refs hg))) + adds ms \<le> fm_limit (gw_refs hg)"
  shows "\<exists>gw' hg'. apply_all gateway_apply ms gw = Some gw' \<and> apply_all hash_gateway_apply ms hg = Some hg' \<and>
    gw_book gw' = gw_book hg' \<and> gw_trades gw' = gw_trades hg' \<and> gw_traded_lots gw' = gw_traded_lots hg'"
  using assms
proof (induction ms arbitrary: R gw hg)
  case Nil
  then show ?case by (simp add: twins_def)
next
  case (Cons m ms)
  have room: "card (dom (fm_map (gw_refs hg))) < fm_limit (gw_refs hg)" if "m_type m = NewOrder"
    using Cons.prems(6) that by (simp add: adds_def)
  show ?case
  proof (rule twins_step [OF Cons.prems(1-3), of m])
    fix gw1 hg1
    let ?R = "if m_type m = Cancel then R - {m_id m} else R"
    assume 1: "gateway_apply gw m = Some gw1" "hash_gateway_apply hg m = Some hg1" "twins ?R gw1 hg1"
      "dense.sound gw1" "hash.sound hg1" "length (gw_refs gw1) = length (gw_refs gw)"
      "fm_limit (gw_refs hg1) = fm_limit (gw_refs hg)"
      "card (dom (fm_map (gw_refs hg1))) \<le> card (dom (fm_map (gw_refs hg))) + (if m_type m = NewOrder then 1 else 0)"
    have "\<exists>gw' hg'. apply_all gateway_apply ms gw1 = Some gw' \<and> apply_all hash_gateway_apply ms hg1 = Some hg' \<and>
      gw_book gw' = gw_book hg' \<and> gw_trades gw' = gw_trades hg' \<and> gw_traded_lots gw' = gw_traded_lots hg'"
    proof (rule Cons.IH [OF 1(3-5)])
      show "\<forall>m'\<in>set ms. unat (m_id m') < length (gw_refs gw1) \<and> m_id m' \<noteq> 0 \<and> m_id m' \<in> ?R \<and> 0 \<le> sint (m_qty m')"
        using Cons.prems(4,5) 1(6) by (auto simp: image_iff)
      show "card (dom (fm_map (gw_refs hg1))) + adds ms \<le> fm_limit (gw_refs hg1)"
        using 1(7,8) Cons.prems(6) by (simp add: adds_def split: if_splits)
    qed (use Cons.prems(5) in simp)
    with 1(1,2) show ?thesis by simp
  qed (use Cons.prems(4) room in auto)
qed

lemma gateways_session:
  assumes "max_ref \<noteq> - 1" and "no_reuse ms" and "adds ms \<le> 1048576"
    and "\<forall>m\<in>set ms. m_id m \<noteq> 0 \<and> m_id m \<le> max_ref \<and> 0 \<le> sint (m_qty m)"
  shows "\<exists>gw hg. apply_all gateway_apply ms (gateway_new max_ref) = Some gw \<and>
    apply_all hash_gateway_apply ms hash_gateway_new = Some hg \<and>
    gw_book gw = gw_book hg \<and> gw_trades gw = gw_trades hg \<and> gw_traded_lots gw = gw_traded_lots hg"
proof -
  have cap: "hash_cap (2 ^ 21)" unfolding hash_cap_def by (intro exI [of _ 21]) simp
  note N = flat_map_new_ok(2,3) [OF cap, of 50]
  have "twins UNIV (gateway_new max_ref) hash_gateway_new"
    using N by (simp add: twins_def gateway_new_def hash_gateway_new_def dense_entry_def hash_entry_def)
  then show ?thesis
  proof (rule twins_session)
    show "\<forall>m\<in>set ms. unat (m_id m) < length (gw_refs (gateway_new max_ref)) \<and> m_id m \<noteq> 0 \<and> m_id m \<in> UNIV \<and>
        0 \<le> sint (m_qty m)"
      using assms(4) gateway_new_sound(2) [OF assms(1)] by (simp add: dense_admits_def)
    show "card (dom (fm_map (gw_refs hash_gateway_new))) + adds ms \<le> fm_limit (gw_refs hash_gateway_new)"
      using N assms(3) by (simp add: hash_gateway_new_def)
  qed (use gateway_new_sound(1) [OF assms(1)] hash_gateway_new_sound assms(2) in auto)
qed

text \<open>The sparse gateway is equivalent to the dense one: on every session whose references are
  non-zero, inside the dense array and not reused after a cancel, and with at most 1,048,576
  new orders (half the slots of the hash map), both gateways process every message and end with
  the same book, the same number of trades and the same traded lots.\<close>

theorem gateways_agree:
  assumes "max_ref \<noteq> - 1" and "no_reuse ms" and "adds ms \<le> 1048576"
    and "\<forall>m\<in>set ms. m_id m \<noteq> 0 \<and> m_id m \<le> max_ref \<and> 0 \<le> sint (m_qty m)"
  shows "\<exists>gw hg. apply_all gateway_apply ms (gateway_new max_ref) = Some gw \<and>
    apply_all hash_gateway_apply ms hash_gateway_new = Some hg \<and>
    gw_book gw = gw_book hg \<and> gw_trades gw = gw_trades hg \<and> gw_traded_lots gw = gw_traded_lots hg"
  by (rule gateways_session [OF assms])

theorem gateways_agree_witness:
  "\<exists>gw hg. apply_all gateway_apply [message_zero\<lparr>m_id := 3, m_price := 1000005, m_qty := 7\<rparr>] (gateway_new 5) = Some gw \<and>
    apply_all hash_gateway_apply [message_zero\<lparr>m_id := 3, m_price := 1000005, m_qty := 7\<rparr>] hash_gateway_new = Some hg \<and>
    gw_book gw = gw_book hg"
  using gateways_agree [of 5 "[message_zero\<lparr>m_id := 3, m_price := 1000005, m_qty := 7\<rparr>]"]
  by (fastforce simp: message_zero_def adds_def word_le_nat_alt)

end
