(* ===== verification/Session_Spec.thy ===== *)
theory Session_Spec
  imports Gateway
begin

text \<open>
  What it means for a sequence of engine messages to be an internally consistent session, in
  the words of the header of the feed generator: adds use fresh references (increasing ones),
  do not cross (bids below \<open>MID\<close>, asks above it, all of them on the ladder), every execution
  and partial cancel hits a live order with enough shares left, every delete hits a live order.
  The state is the map from live references to the shares they have left and the last
  reference used.
\<close>

definition MID :: price where
  "MID = BASE + 32768"

type_synonym live_book = "(u64 \<Rightarrow> int option) \<times> u64"

definition add_fits :: "message \<Rightarrow> bool" where
  "add_fits m \<longleftrightarrow> 0 < sint (m_qty m) \<and> (case m_side m of
     Buy \<Rightarrow> sint BASE \<le> sint (m_price m) \<and> sint (m_price m) < sint MID
   | Sell \<Rightarrow> sint MID < sint (m_price m) \<and> sint (m_price m) < sint BASE + 65536)"

definition live_step :: "live_book \<Rightarrow> message \<Rightarrow> live_book option" where
  "live_step lb m = (case m_type m of
     NewOrder \<Rightarrow> if snd lb < m_id m \<and> add_fits m then Some ((fst lb)(m_id m \<mapsto> sint (m_qty m)), m_id m) else None
   | Execute \<Rightarrow> (case fst lb (m_id m) of
       Some s \<Rightarrow> if 0 < sint (m_qty m) \<and> sint (m_qty m) \<le> s
         then Some ((fst lb)(m_id m := if sint (m_qty m) = s then None else Some (s - sint (m_qty m))), snd lb) else None
     | None \<Rightarrow> None)
   | Reduce \<Rightarrow> (case fst lb (m_id m) of
       Some s \<Rightarrow> if 0 < sint (m_qty m) \<and> sint (m_qty m) < s
         then Some ((fst lb)(m_id m \<mapsto> s - sint (m_qty m)), snd lb) else None
     | None \<Rightarrow> None)
   | Cancel \<Rightarrow> if fst lb (m_id m) \<noteq> None then Some ((fst lb)(m_id m := None), snd lb) else None)"

fun live_run :: "message list \<Rightarrow> live_book \<Rightarrow> live_book option" where
  "live_run [] lb = Some lb"
| "live_run (m # ms) lb = live_step lb m \<bind> live_run ms"

definition live_start :: live_book where
  "live_start = (Map.empty, 0)"

definition execs :: "message list \<Rightarrow> nat" where
  "execs ms = length (filter (\<lambda>m. m_type m = Execute) ms)"

definition exec_lots :: "message list \<Rightarrow> int" where
  "exec_lots ms = sum_list (map (sint \<circ> m_qty) (filter (\<lambda>m. m_type m = Execute) ms))"

lemma live_run_append: "live_run (ms @ ns) lb = live_run ms lb \<bind> live_run ns"
  by (induction ms arbitrary: lb) (simp_all split: bind_splits)

lemma live_run_snoc: "live_run ms lb = Some lb' \<Longrightarrow> live_run (ms @ [m]) lb = live_step lb' m"
  by (cases "live_step lb' m") (simp_all add: live_run_append)

lemma adds_simps [simp]: "adds [] = 0" "adds (m # ms) = (if m_type m = NewOrder then 1 else 0) + adds ms"
  "adds (ms @ ns) = adds ms + adds ns"
  by (simp_all add: adds_def)

lemma execs_simps [simp]: "execs [] = 0" "execs (m # ms) = (if m_type m = Execute then 1 else 0) + execs ms"
  "execs (ms @ ns) = execs ms + execs ns"
  by (simp_all add: execs_def)

lemma exec_lots_simps [simp]: "exec_lots [] = 0"
  "exec_lots (m # ms) = (if m_type m = Execute then sint (m_qty m) else 0) + exec_lots ms"
  "exec_lots (ms @ ns) = exec_lots ms + exec_lots ns"
  by (simp_all add: exec_lots_def)

text \<open>No add of the generator asks for more than 35 shares, so no live order has more left.\<close>

definition small_adds :: "message list \<Rightarrow> bool" where
  "small_adds ms \<longleftrightarrow> (\<forall>m\<in>set ms. m_type m = NewOrder \<longrightarrow> sint (m_qty m) \<le> 35)"

lemma live_run_small:
  assumes "live_run ms lb = Some lb'" and "small_adds ms" and "\<forall>r s. fst lb r = Some s \<longrightarrow> s \<le> 35"
  shows "\<forall>r s. fst lb' r = Some s \<longrightarrow> s \<le> 35"
  using assms
proof (induction ms arbitrary: lb)
  case (Cons m ms)
  then obtain lb1 where 1: "live_step lb m = Some lb1" "live_run ms lb1 = Some lb'" by (auto simp: bind_eq_Some_conv)
  have "small_adds ms" and m: "m_type m = NewOrder \<longrightarrow> sint (m_qty m) \<le> 35" using Cons.prems(2) by (simp_all add: small_adds_def)
  moreover have "\<forall>r s. fst lb1 r = Some s \<longrightarrow> s \<le> 35"
  proof (intro allI impI)
    fix r s
    assume s: "fst lb1 r = Some s"
    show "s \<le> 35"
    proof (cases "fst lb r = Some s")
      case False
      with 1(1) s m Cons.prems(3) show ?thesis
        by (auto simp: live_step_def split: msg_type.splits option.splits if_splits) fastforce+
    qed (use Cons.prems(3) in blast)
  qed
  ultimately show ?case using Cons.IH [OF 1(2)] by blast
qed simp

text \<open>Well-formed live books: live references have been used and have shares left.\<close>

definition live_ok :: "live_book \<Rightarrow> bool" where
  "live_ok lb \<longleftrightarrow> (\<forall>r s. fst lb r = Some s \<longrightarrow> 0 < r \<and> r \<le> snd lb \<and> 0 < s)"

lemma live_start_ok [simp]: "live_ok live_start"
  by (simp add: live_ok_def live_start_def)

lemma live_step_ok:
  assumes "live_step lb m = Some lb'" and "live_ok lb"
  shows "live_ok lb'" and "snd lb \<le> snd lb'" and "m_id m \<le> snd lb'" and "0 < m_id m" and "0 \<le> sint (m_qty m) \<or> m_type m = Cancel"
  using assms
  by (auto simp: live_step_def live_ok_def add_fits_def split: msg_type.splits option.splits if_splits
        intro: order_trans [OF _ order.strict_implies_order] order.strict_trans1 [OF word_zero_le])
     (metis order.trans order.strict_implies_order)

lemma live_run_ok:
  assumes "live_run ms lb = Some lb'" and "live_ok lb"
  shows "live_ok lb' \<and> snd lb \<le> snd lb' \<and> (\<forall>m\<in>set ms. 0 < m_id m \<and> m_id m \<le> snd lb')"
  using assms
proof (induction ms arbitrary: lb)
  case (Cons m ms)
  then obtain lb1 where 1: "live_step lb m = Some lb1" "live_run ms lb1 = Some lb'" by (auto simp: bind_eq_Some_conv)
  note S = live_step_ok [OF 1(1) Cons.prems(2)]
  from Cons.IH [OF 1(2) S(1)] S(2-4) show ?case by (auto intro: order_trans)
qed simp

text \<open>A dead reference is not used again: it has been used, and it is not live.\<close>

lemma dead_not_used:
  assumes "live_run ms lb = Some lb'" and "live_ok lb" and "fst lb r = None" and "r \<le> snd lb"
  shows "r \<notin> m_id ` set ms"
  using assms
proof (induction ms arbitrary: lb)
  case (Cons m ms)
  then obtain lb1 where 1: "live_step lb m = Some lb1" "live_run ms lb1 = Some lb'" by (auto simp: bind_eq_Some_conv)
  note S = live_step_ok [OF 1(1) Cons.prems(2)]
  have ne: "r \<noteq> m_id m" and "fst lb1 r = None"
    using 1(1) Cons.prems(3,4) by (auto simp: live_step_def split: msg_type.splits option.splits if_splits)
  with Cons.IH [OF 1(2) S(1)] S(2) Cons.prems(4) show ?case by (auto dest: order_trans)
qed simp

lemma live_run_no_reuse: "live_run ms lb = Some lb' \<Longrightarrow> live_ok lb \<Longrightarrow> no_reuse ms"
proof (induction ms arbitrary: lb)
  case (Cons m ms)
  then obtain lb1 where 1: "live_step lb m = Some lb1" "live_run ms lb1 = Some lb'" by (auto simp: bind_eq_Some_conv)
  note S = live_step_ok [OF 1(1) Cons.prems(2)]
  have "m_id m \<notin> m_id ` set ms" if "m_type m = Cancel"
    by (rule dead_not_used [OF 1(2) S(1) _ S(3)]) (use 1(1) that in \<open>auto simp: live_step_def split: if_splits\<close>)
  with Cons.IH [OF 1(2) S(1)] show ?case by simp
qed simp

end
