(* ===== verification/Feed.thy ===== *)
theory Feed
  imports Session_Spec
begin

text \<open>
  The deterministic feed generator of \<open>bench/pipeline_common.hpp\<close>: the xorshift generator \<open>Rng\<close>,
  the encoders of the four ITCH messages and the loop of \<open>generate_feed\<close>. The state of the loop
  is the record \<open>feed_state\<close> of its locals; one iteration is \<open>feed_step\<close>, which says whether it
  emitted a message (an \<open>X\<close> that hits an order of one share emits nothing and is retried). The
  file the bytes are written to and the summary that is printed are not modelled.

  The header comment of the generator promises an internally consistent session: every
  execution and partial cancel hits a live order with enough shares left, every delete hits a
  live order, and adds never cross. \<open>live_run\<close> states that promise on the decoded messages, and
  the theorem says that the bytes generated keep it.
\<close>

definition rng_next :: "u64 \<Rightarrow> u64 \<times> u64" where
  "rng_next s = (let s = s XOR drop_bit 12 s; s = s XOR push_bit 25 s; s = s XOR drop_bit 27 s
     in (s * 0x2545F4914F6CDD1D, s))"

record feed_stats =
  fs_adds :: u64
  fs_execs :: u64
  fs_cancels :: u64
  fs_deletes :: u64
  fs_exec_lots :: u64
  fs_max_ref :: u64

record live_order =
  lo_ref :: u64
  lo_shares :: u32

record feed_state =
  fd_buf :: "u8 list"
  fd_rng :: u64
  fd_st :: feed_stats
  fd_live :: "live_order list"
  fd_next_ref :: u64
  fd_ts :: u64

definition feed_start :: "u64 \<Rightarrow> feed_state" where
  "feed_start seed = \<lparr>fd_buf = [], fd_rng = seed,
     fd_st = \<lparr>fs_adds = 0, fs_execs = 0, fs_cancels = 0, fs_deletes = 0, fs_exec_lots = 0, fs_max_ref = 0\<rparr>,
     fd_live = [], fd_next_ref = 1, fd_ts = 34200000000000\<rparr>"

section \<open>The encoders\<close>

definition put_header :: "u8 \<Rightarrow> u64 \<Rightarrow> u8 list" where
  "put_header type ts = [type] @ put_be16 1 @ put_be16 0 @ put_be48 ts"

definition symbol :: "u8 list" where
  "symbol = [76, 79, 66, 88, 32, 32, 32, 32]"

definition add_payload :: "u64 \<Rightarrow> u64 \<Rightarrow> bool \<Rightarrow> u32 \<Rightarrow> u32 \<Rightarrow> u8 list" where
  "add_payload ts ref buy shares px = put_header chr_A ts @ put_be64 ref @ [if buy then chr_B else chr_S] @
     put_be32 shares @ symbol @ put_be32 px"

definition exec_payload :: "u64 \<Rightarrow> u64 \<Rightarrow> u32 \<Rightarrow> u64 \<Rightarrow> u8 list" where
  "exec_payload ts ref ex n = put_header chr_E ts @ put_be64 ref @ put_be32 ex @ put_be64 n"

definition cancel_payload :: "u64 \<Rightarrow> u64 \<Rightarrow> u32 \<Rightarrow> u8 list" where
  "cancel_payload ts ref cx = put_header chr_X ts @ put_be64 ref @ put_be32 cx"

definition delete_payload :: "u64 \<Rightarrow> u64 \<Rightarrow> u8 list" where
  "delete_payload ts ref = put_header chr_D ts @ put_be64 ref"

section \<open>One iteration of the loop\<close>

text \<open>\<open>live[k] = live.back(); live.pop_back();\<close>\<close>

definition swap_remove :: "'a list \<Rightarrow> nat \<Rightarrow> 'a list" where
  "swap_remove xs k = butlast (xs[k := last xs])"

definition emit_add :: "u64 \<Rightarrow> feed_state \<Rightarrow> feed_state" where
  "emit_add r st =
     (let buy = (drop_bit 8 r AND 1 \<noteq> 0);
          off = 1 + (drop_bit 16 r AND 31) :: i64;
          shares = 4 + ucast (drop_bit 24 r AND 31) :: u32;
          ref = fd_next_ref st
      in st\<lparr>fd_buf := fd_buf st @ put_be16 (word_of_nat sizeof_AddOrder) @
              add_payload (fd_ts st) ref buy shares (ucast (if buy then MID - off else MID + off)),
            fd_st := (fd_st st)\<lparr>fs_adds := fs_adds (fd_st st) + 1, fs_max_ref := ref\<rparr>,
            fd_live := fd_live st @ [\<lparr>lo_ref = ref, lo_shares = shares\<rparr>],
            fd_next_ref := fd_next_ref st + 1\<rparr>)"

definition emit_exec :: "u64 \<Rightarrow> nat \<Rightarrow> live_order \<Rightarrow> feed_state \<Rightarrow> feed_state" where
  "emit_exec r k lo st =
     (let w = 1 + ucast (drop_bit 16 r AND 7) :: u32;
          ex = (if lo_shares lo < w then lo_shares lo else w);
          n = fs_execs (fd_st st) + 1;
          lo' = lo\<lparr>lo_shares := lo_shares lo - ex\<rparr>;
          live = (fd_live st)[k := lo']
      in st\<lparr>fd_buf := fd_buf st @ put_be16 (word_of_nat sizeof_OrderExecuted) @
              exec_payload (fd_ts st) (lo_ref lo) ex n,
            fd_st := (fd_st st)\<lparr>fs_execs := n, fs_exec_lots := fs_exec_lots (fd_st st) + ucast ex\<rparr>,
            fd_live := (if lo_shares lo' = 0 then swap_remove live k else live)\<rparr>)"

definition emit_cancel :: "u64 \<Rightarrow> nat \<Rightarrow> live_order \<Rightarrow> feed_state \<Rightarrow> feed_state" where
  "emit_cancel r k lo st =
     (let cx = 1 + ucast (drop_bit 16 r mod ucast (lo_shares lo - 1)) :: u32
      in st\<lparr>fd_buf := fd_buf st @ put_be16 (word_of_nat sizeof_OrderCancel) @ cancel_payload (fd_ts st) (lo_ref lo) cx,
            fd_live := (fd_live st)[k := lo\<lparr>lo_shares := lo_shares lo - cx\<rparr>],
            fd_st := (fd_st st)\<lparr>fs_cancels := fs_cancels (fd_st st) + 1\<rparr>\<rparr>)"

definition emit_delete :: "nat \<Rightarrow> live_order \<Rightarrow> feed_state \<Rightarrow> feed_state" where
  "emit_delete k lo st = st\<lparr>fd_buf := fd_buf st @ put_be16 (word_of_nat sizeof_OrderDelete) @ delete_payload (fd_ts st) (lo_ref lo),
     fd_live := swap_remove (fd_live st) k,
     fd_st := (fd_st st)\<lparr>fs_deletes := fs_deletes (fd_st st) + 1\<rparr>\<rparr>"

text \<open>One iteration; the answer says whether a message was emitted (otherwise \<open>--i; continue\<close>).
  The bucket is forced to 0 when no order is live, so an index is drawn only below
  \<open>live.size()\<close>; the checked access says so.\<close>

definition feed_step :: "feed_state \<Rightarrow> (bool \<times> feed_state) option" where
  "feed_step st =
     (let (r, s) = rng_next (fd_rng st);
          bucket = (if fd_live st = [] then 0 else unat (r mod 100));
          st = st\<lparr>fd_rng := s, fd_ts := fd_ts st + 1 + (r AND 1023)\<rparr>;
          k = unat (drop_bit 32 r mod word_of_nat (length (fd_live st)))
      in if bucket < 55 then Some (True, emit_add r st)
         else do {
           lo \<leftarrow> aget (fd_live st) k;
           if bucket < 80 then Some (True, emit_exec r k lo st)
           else if bucket < 92 then
             if lo_shares lo < 2 then Some (False, st) else Some (True, emit_cancel r k lo st)
           else Some (True, emit_delete k lo st)
         })"

text \<open>The loop: \<open>n\<close> messages are still to be emitted. It ends only if the generator leaves the
  retry branch again.\<close>

partial_function (option) feed_loop :: "nat \<Rightarrow> feed_state \<Rightarrow> feed_state option" where
  "feed_loop n st = (if n = 0 then Some st else do {
     (emitted, st) \<leftarrow> feed_step st;
     feed_loop (if emitted then n - 1 else n) st
   })"

definition generate_feed :: "nat \<Rightarrow> u64 \<Rightarrow> feed_state option" where
  "generate_feed n_msgs seed = feed_loop n_msgs (feed_start seed)"

section \<open>The frames decode to the messages they stand for\<close>

lemma put_header_length [simp]: "length (put_header c ts) = 11"
  by (simp add: put_header_def)

lemma put_header_nonempty [simp]: "put_header c ts \<noteq> []"
  by (simp add: put_header_def)

lemma symbol_length [simp]: "length symbol = 8"
  by (simp add: symbol_def)

lemma field_at: "length xs = n \<Longrightarrow> length ys = k \<Longrightarrow> sub_bytes (xs @ ys @ zs) n k = ys"
  by (rule sub_bytes_mid)

lemma field_end: "length xs = n \<Longrightarrow> length ys = k \<Longrightarrow> sub_bytes (xs @ ys) n k = ys"
  using sub_bytes_mid [of xs n ys k "[]"] by simp

lemma header_head: "(put_header c ts @ bs) ! 0 = c"
  by (simp add: put_header_def)

lemma decode_add:
  "\<exists>w. payload_msg (add_payload ts ref buy shares px) = Some w \<and> decode_msg w = message_zero\<lparr>m_price := ucast px,
     m_qty := ucast shares, m_id := ref, m_type := NewOrder, m_side := (if buy then Buy else Sell)\<rparr>"
proof -
  let ?side = "if buy then chr_B else chr_S" and ?h = "put_header chr_A ts"
  let ?bs = "add_payload ts ref buy shares px"
  have 1: "sub_bytes ?bs 11 8 = put_be64 ref" unfolding add_payload_def by (rule field_at) simp_all
  have 2: "sub_bytes ?bs 20 4 = put_be32 shares"
    using field_at [of "?h @ put_be64 ref @ [?side]" 20 "put_be32 shares" 4 "symbol @ put_be32 px"] by (simp add: add_payload_def)
  have 3: "sub_bytes ?bs 32 4 = put_be32 px"
    using field_end [of "?h @ put_be64 ref @ [?side] @ put_be32 shares @ symbol" 32 "put_be32 px" 4] by (simp add: add_payload_def)
  have 4: "?bs ! 19 = ?side" by (simp add: add_payload_def nth_append)
  have "payload_msg ?bs = Some (WAdd (as_add ?bs))"
    by (simp add: payload_msg_def wire_consts) (simp add: add_payload_def header_head wire_consts)
  then show ?thesis by (simp add: as_add_def 1 2 3 4) (simp add: wire_consts)
qed

lemma decode_exec:
  "\<exists>w. payload_msg (exec_payload ts ref ex n) = Some w \<and> decode_msg w = message_zero\<lparr>m_qty := ucast ex, m_id := ref, m_type := Execute\<rparr>"
proof -
  let ?bs = "exec_payload ts ref ex n"
  have 1: "sub_bytes ?bs 11 8 = put_be64 ref" unfolding exec_payload_def by (rule field_at) simp_all
  have 2: "sub_bytes ?bs 19 4 = put_be32 ex"
    using field_at [of "put_header chr_E ts @ put_be64 ref" 19 "put_be32 ex" 4 "put_be64 n"] by (simp add: exec_payload_def)
  have "payload_msg ?bs = Some (WExecuted (as_executed ?bs))"
    by (simp add: payload_msg_def wire_consts) (simp add: exec_payload_def header_head wire_consts)
  then show ?thesis by (simp add: as_executed_def 1 2)
qed

lemma decode_cancel:
  "\<exists>w. payload_msg (cancel_payload ts ref cx) = Some w \<and> decode_msg w = message_zero\<lparr>m_qty := ucast cx, m_id := ref, m_type := Reduce\<rparr>"
proof -
  let ?bs = "cancel_payload ts ref cx"
  have 1: "sub_bytes ?bs 11 8 = put_be64 ref" unfolding cancel_payload_def by (rule field_at) simp_all
  have 2: "sub_bytes ?bs 19 4 = put_be32 cx"
    using field_end [of "put_header chr_X ts @ put_be64 ref" 19 "put_be32 cx" 4] by (simp add: cancel_payload_def)
  have "payload_msg ?bs = Some (WCancel (as_cancel ?bs))"
    by (simp add: payload_msg_def wire_consts) (simp add: cancel_payload_def header_head wire_consts)
  then show ?thesis by (simp add: as_cancel_def 1 2)
qed

lemma decode_delete:
  "\<exists>w. payload_msg (delete_payload ts ref) = Some w \<and> decode_msg w = message_zero\<lparr>m_id := ref, m_type := Cancel\<rparr>"
proof -
  let ?bs = "delete_payload ts ref"
  have 1: "sub_bytes ?bs 11 8 = put_be64 ref" unfolding delete_payload_def by (rule field_end) simp_all
  have "payload_msg ?bs = Some (WDelete (as_delete ?bs))"
    by (simp add: payload_msg_def wire_consts) (simp add: delete_payload_def header_head wire_consts)
  then show ?thesis by (simp add: as_delete_def 1)
qed

section \<open>The vector of live orders as a map\<close>

definition live_map :: "live_order list \<Rightarrow> u64 \<Rightarrow> int option" where
  "live_map xs = map_of (map (\<lambda>lo. (lo_ref lo, uint (lo_shares lo))) xs)"

lemma live_map_Some:
  "distinct (map lo_ref xs) \<Longrightarrow> live_map xs r = Some s \<longleftrightarrow> (\<exists>lo\<in>set xs. lo_ref lo = r \<and> uint (lo_shares lo) = s)"
  unfolding live_map_def by (subst map_of_eq_Some_iff) (auto simp: comp_def)

lemma live_map_None: "live_map xs r = None \<longleftrightarrow> r \<notin> lo_ref ` set xs"
  by (auto simp: live_map_def map_of_eq_None_iff image_image)

lemma map_eqI: "(\<And>r s. m r = Some s \<longleftrightarrow> m' r = Some s) \<Longrightarrow> m = m'"
  by (rule ext) (metis not_Some_eq)

lemma set_swap_remove: "k < length xs \<Longrightarrow> distinct xs \<Longrightarrow> set (swap_remove xs k) = set xs - {xs ! k}"
proof (cases xs rule: rev_cases)
  case (snoc ys z)
  assume "k < length xs" "distinct xs"
  with snoc show ?thesis
    by (cases "k = length ys") (auto simp: swap_remove_def nth_append list_update_append set_update_distinct)
qed simp

lemma length_swap_remove [simp]: "length (swap_remove xs k) = length xs - 1"
  by (simp add: swap_remove_def)

lemma distinct_swap_remove: "distinct (map f xs) \<Longrightarrow> k < length xs \<Longrightarrow> distinct (map f (swap_remove xs k))"
proof (cases xs rule: rev_cases)
  case (snoc ys z)
  assume "distinct (map f xs)" "k < length xs"
  with snoc show ?thesis
    by (cases "k = length ys") (auto simp: swap_remove_def list_update_append map_update distinct_list_update)
qed simp

lemma distinct_refs_update:
  "distinct (map lo_ref xs) \<Longrightarrow> k < length xs \<Longrightarrow> lo_ref x = lo_ref (xs ! k) \<Longrightarrow> map lo_ref (xs[k := x]) = map lo_ref xs"
  by (simp add: map_update list_update_same_conv)

lemma live_map_push: "r \<notin> lo_ref ` set xs \<Longrightarrow> distinct (map lo_ref xs) \<Longrightarrow>
    live_map (xs @ [\<lparr>lo_ref = r, lo_shares = n\<rparr>]) = (live_map xs)(r \<mapsto> uint n)"
  by (rule map_eqI) (auto simp: live_map_Some)

lemma live_map_set:
  assumes d: "distinct (map lo_ref xs)" and k: "k < length xs" and r: "lo_ref x = lo_ref (xs ! k)"
  shows "live_map (xs[k := x]) = (live_map xs)(lo_ref x \<mapsto> uint (lo_shares x))"
proof (rule map_eqI)
  fix r s
  have "distinct xs" using d by (simp add: distinct_map)
  then have "set (xs[k := x]) = insert x (set xs - {xs ! k})" using k by (simp add: set_update_distinct)
  moreover have "lo \<in> set xs \<Longrightarrow> lo_ref lo = lo_ref (xs ! k) \<longleftrightarrow> lo = xs ! k" for lo
    using d k by (auto simp: distinct_map dest: inj_onD)
  ultimately show "live_map (xs[k := x]) r = Some s \<longleftrightarrow> ((live_map xs)(lo_ref x \<mapsto> uint (lo_shares x))) r = Some s"
    using assms by (auto simp: live_map_Some distinct_refs_update [OF d k r])
qed

lemma live_map_remove:
  assumes d: "distinct (map lo_ref xs)" and k: "k < length xs"
  shows "live_map (swap_remove xs k) = (live_map xs)(lo_ref (xs ! k) := None)"
proof (rule map_eqI)
  fix r s
  have "distinct xs" using d by (simp add: distinct_map)
  moreover have "lo \<in> set xs \<Longrightarrow> lo_ref lo = lo_ref (xs ! k) \<longleftrightarrow> lo = xs ! k" for lo
    using d k by (auto simp: distinct_map dest: inj_onD)
  ultimately show "live_map (swap_remove xs k) r = Some s \<longleftrightarrow> ((live_map xs)(lo_ref (xs ! k) := None)) r = Some s"
    using assms by (auto simp: live_map_Some distinct_swap_remove set_swap_remove)
qed

section \<open>The invariant of the loop\<close>

definition count_type :: "msg_type \<Rightarrow> message list \<Rightarrow> nat" where
  "count_type t ms = length (filter (\<lambda>m. m_type m = t) ms)"

definition stats_match :: "feed_stats \<Rightarrow> message list \<Rightarrow> bool" where
  "stats_match s ms \<longleftrightarrow> fs_adds s = word_of_nat (adds ms) \<and> fs_execs s = word_of_nat (execs ms) \<and>
     fs_cancels s = word_of_nat (count_type Reduce ms) \<and> fs_deletes s = word_of_nat (count_type Cancel ms) \<and>
     fs_exec_lots s = word_of_int (exec_lots ms) \<and> fs_max_ref s = word_of_nat (adds ms)"

definition feed_inv :: "feed_state \<Rightarrow> u8 list list \<Rightarrow> wire_msg list \<Rightarrow> bool" where
  "feed_inv st bss ws \<longleftrightarrow> fd_buf st = concat (map frame bss) \<and> list_all2 (\<lambda>bs w. payload_msg bs = Some w) bss ws \<and>
     distinct (map lo_ref (fd_live st)) \<and> length (fd_live st) \<le> adds (map decode_msg ws) \<and>
     live_run (map decode_msg ws) live_start = Some (live_map (fd_live st), fs_max_ref (fd_st st)) \<and>
     fd_next_ref st = fs_max_ref (fd_st st) + 1 \<and> stats_match (fd_st st) (map decode_msg ws) \<and>
     small_adds (map decode_msg ws)"

lemma feed_start_inv: "feed_inv (feed_start seed) [] []"
  by (simp add: feed_inv_def small_adds_def feed_start_def live_start_def live_map_def stats_match_def count_type_def)

lemma feed_inv_emit:
  assumes "feed_inv st bss ws" and "payload_msg bs = Some w"
    and "fd_buf st' = fd_buf st @ put_be16 (word_of_nat (length bs)) @ bs"
    and "distinct (map lo_ref (fd_live st'))"
    and "length (fd_live st') \<le> length (fd_live st) + (if m_type (decode_msg w) = NewOrder then 1 else 0)"
    and "live_step (live_map (fd_live st), fs_max_ref (fd_st st)) (decode_msg w) = Some (live_map (fd_live st'), fs_max_ref (fd_st st'))"
    and "fd_next_ref st' = fs_max_ref (fd_st st') + 1"
    and "\<And>ms. stats_match (fd_st st) ms \<Longrightarrow> stats_match (fd_st st') (ms @ [decode_msg w])"
    and "m_type (decode_msg w) = NewOrder \<longrightarrow> sint (m_qty (decode_msg w)) \<le> 35"
  shows "feed_inv st' (bss @ [bs]) (ws @ [w])"
  using assms by (auto simp: feed_inv_def small_adds_def frame_def live_run_snoc list_all2_appendI split: if_splits)

lemma word_up_to_31: obtains n where "n < 32" and "(x AND 31 :: u64) = word_of_nat n"
proof -
  have "x AND 31 \<le> 31" by (rule word_and_le1)
  then have "unat (x AND 31) < 32" by (simp add: word_le_nat_alt)
  then show ?thesis by (rule that) simp
qed

lemma add_price:
  assumes "n < 32"
  shows "sint (ucast (ucast (if buy then MID - (1 + word_of_nat n) else MID + (1 + word_of_nat n)) :: u32) :: i64) =
    (if buy then 1032767 - int n else 1032769 + int n)"
proof -
  have u: "(MID - (1 + word_of_nat n) :: i64) = word_of_nat (1032767 - n)" "(MID + (1 + word_of_nat n) :: i64) = word_of_nat (1032769 + n)"
    using assms by (simp_all add: MID_def BASE_def of_nat_diff)
  have c: "uint (ucast (word_of_nat k :: i64) :: u32) = int k" if "k < 2000000" for k
    using that by (simp add: unsigned_ucast_eq unsigned_of_nat take_bit_int_eq_self take_bit_nat_eq_self)
  have "int (1032767 - n) = 1032767 - int n" using assms by simp
  with c [of "1032767 - n"] c [of "1032769 + n"] assms show ?thesis unfolding sint_ucast_u32 u
    by (cases buy) (simp_all del: of_nat_add of_nat_diff)
qed

lemma emit_add_inv:
  assumes inv: "feed_inv st bss ws" and room: "adds (map decode_msg ws) < 2 ^ 64 - 1"
  shows "\<exists>bs w. feed_inv (emit_add r st) (bss @ [bs]) (ws @ [w])"
proof -
  obtain n where n: "n < 32" "(drop_bit 16 r AND 31 :: u64) = word_of_nat n" by (rule word_up_to_31)
  obtain k where k: "k < 32" "(drop_bit 24 r AND 31 :: u64) = word_of_nat k" by (rule word_up_to_31)
  let ?buy = "drop_bit 8 r AND 1 \<noteq> 0"
  let ?px = "ucast (if ?buy then MID - (1 + word_of_nat n) else MID + (1 + word_of_nat n)) :: u32"
  let ?sh = "4 + ucast (word_of_nat k :: u64) :: u32"
  let ?bs = "add_payload (fd_ts st) (fd_next_ref st) ?buy ?sh ?px"
  obtain w where w: "payload_msg ?bs = Some w" "decode_msg w = message_zero\<lparr>m_price := ucast ?px,
     m_qty := ucast ?sh, m_id := fd_next_ref st, m_type := NewOrder, m_side := (if ?buy then Buy else Sell)\<rparr>"
    using decode_add by blast
  have sh: "uint ?sh = 4 + int k" using k(1)
    by (simp add: uint_word_ariths unsigned_ucast_eq unsigned_of_nat take_bit_int_eq_self take_bit_nat_eq_self)
  have small: "uint (ucast (word_of_nat k :: u64) + 4 :: u32) \<le> 35" using sh k(1) by (simp add: add.commute)
  note I = inv [unfolded feed_inv_def]
  have mx: "fd_next_ref st = word_of_nat (adds (map decode_msg ws)) + 1" "fs_max_ref (fd_st st) = word_of_nat (adds (map decode_msg ws))"
    using I by (simp_all add: stats_match_def)
  then have lt: "fs_max_ref (fd_st st) < fd_next_ref st"
    using room by (simp add: word_less_nat_alt unat_word_ariths unat_of_nat)
  have ok: "live_ok (live_map (fd_live st), fs_max_ref (fd_st st))"
    using live_run_ok [of "map decode_msg ws" live_start] I by simp
  have fresh: "fd_next_ref st \<notin> lo_ref ` set (fd_live st)"
  proof
    assume "fd_next_ref st \<in> lo_ref ` set (fd_live st)"
    then obtain s where "live_map (fd_live st) (fd_next_ref st) = Some s"
      using live_map_None [of "fd_live st" "fd_next_ref st"] by auto
    with ok have "fd_next_ref st \<le> fs_max_ref (fd_st st)" by (auto simp: live_ok_def)
    with lt show False by simp
  qed
  have e: "emit_add r st = st\<lparr>fd_buf := fd_buf st @ put_be16 (word_of_nat sizeof_AddOrder) @ ?bs,
      fd_st := (fd_st st)\<lparr>fs_adds := fs_adds (fd_st st) + 1, fs_max_ref := fd_next_ref st\<rparr>,
      fd_live := fd_live st @ [\<lparr>lo_ref = fd_next_ref st, lo_shares = ?sh\<rparr>], fd_next_ref := fd_next_ref st + 1\<rparr>"
    by (simp add: emit_add_def Let_def n k)
  have fits: "add_fits (decode_msg w)"
    using n(1) k(1) add_price [OF n(1), of ?buy] by (simp add: add_fits_def w sint_ucast_u32 sh MID_def BASE_def split: if_splits)
  have "feed_inv (emit_add r st) (bss @ [?bs]) (ws @ [w])"
    by (rule feed_inv_emit [OF inv w(1)])
      (use I small fresh fits lt mx in \<open>simp_all add: e w add_payload_def sizeof_AddOrder_def live_step_def live_map_push
         sint_ucast_u32 stats_match_def count_type_def add.commute\<close>)
  then show ?thesis by blast
qed

lemma swap_remove_update: "k < length xs \<Longrightarrow> swap_remove (xs[k := x]) k = swap_remove xs k"
proof (cases xs rule: rev_cases)
  case (snoc ys z)
  assume "k < length xs"
  with snoc show ?thesis by (cases "k = length ys") (auto simp: swap_remove_def list_update_append)
qed simp

text \<open>The order at an index of the vector: its reference is live, with its shares left.\<close>

lemma live_at:
  assumes "feed_inv st bss ws" and "k < length (fd_live st)"
  shows "live_map (fd_live st) (lo_ref (fd_live st ! k)) = Some (uint (lo_shares (fd_live st ! k)))"
    and "0 < uint (lo_shares (fd_live st ! k))"
proof -
  note I = assms(1) [unfolded feed_inv_def]
  show m: "live_map (fd_live st) (lo_ref (fd_live st ! k)) = Some (uint (lo_shares (fd_live st ! k)))"
    using I assms(2) by (auto simp: live_map_Some)
  have "live_ok (live_map (fd_live st), fs_max_ref (fd_st st))"
    using live_run_ok [of "map decode_msg ws" live_start] I by simp
  with m show "0 < uint (lo_shares (fd_live st ! k))" by (auto simp: live_ok_def)
qed

lemma emit_delete_inv:
  assumes inv: "feed_inv st bss ws" and k: "k < length (fd_live st)"
  shows "\<exists>bs w. feed_inv (emit_delete k (fd_live st ! k) st) (bss @ [bs]) (ws @ [w])"
proof -
  let ?lo = "fd_live st ! k"
  let ?bs = "delete_payload (fd_ts st) (lo_ref ?lo)"
  obtain w where w: "payload_msg ?bs = Some w" "decode_msg w = message_zero\<lparr>m_id := lo_ref ?lo, m_type := Cancel\<rparr>"
    using decode_delete by blast
  note I = inv [unfolded feed_inv_def]
  have "feed_inv (emit_delete k ?lo st) (bss @ [?bs]) (ws @ [w])"
    by (rule feed_inv_emit [OF inv w(1)])
      (use I k live_at [OF inv k] in \<open>simp_all add: w emit_delete_def delete_payload_def sizeof_OrderDelete_def live_step_def
         distinct_swap_remove live_map_remove stats_match_def count_type_def add.commute\<close>)
  then show ?thesis by blast
qed

lemma uint_sub_u32: "y \<le> x \<Longrightarrow> uint (x - y :: u32) = uint x - uint y"
  by (simp add: uint_sub_if' word_le_def)

lemma emit_cancel_inv:
  assumes inv: "feed_inv st bss ws" and k: "k < length (fd_live st)" and two: "\<not> lo_shares (fd_live st ! k) < 2"
  shows "\<exists>bs w. feed_inv (emit_cancel r k (fd_live st ! k) st) (bss @ [bs]) (ws @ [w])"
proof -
  let ?lo = "fd_live st ! k"
  let ?s = "lo_shares ?lo"
  let ?cx = "1 + ucast (drop_bit 16 r mod ucast (?s - 1)) :: u32"
  let ?bs = "cancel_payload (fd_ts st) (lo_ref ?lo) ?cx"
  obtain w where w: "payload_msg ?bs = Some w" "decode_msg w = message_zero\<lparr>m_qty := ucast ?cx, m_id := lo_ref ?lo, m_type := Reduce\<rparr>"
    using decode_cancel by blast
  have s: "2 \<le> uint ?s" using two by (simp add: word_less_def)
  have cx: "1 \<le> uint ?cx" "uint ?cx < uint ?s"
  proof -
    have s1: "uint (?s - 1) = uint ?s - 1" using s by (simp add: uint_sub_if')
    have u: "uint (ucast (?s - 1) :: u64) = uint ?s - 1"
    proof -
      have "take_bit 64 (uint ?s - 1) = uint ?s - 1"
        using s uint_lt2p [of ?s] by (intro take_bit_int_eq_self) simp_all
      then show ?thesis by (simp add: unsigned_ucast_eq s1)
    qed
    define y :: u64 where "y = drop_bit 16 r mod (ucast (?s - 1) :: u64)"
    have y: "0 \<le> uint y" "uint y < uint ?s - 1" unfolding y_def uint_mod u using s by simp_all
    have "take_bit 32 (uint y) = uint y" using y uint_lt2p [of ?s] by (intro take_bit_int_eq_self) simp_all
    then have "uint (ucast y :: u32) = uint y" by (simp add: unsigned_ucast_eq)
    then have "uint (1 + ucast y :: u32) = 1 + uint y" using y uint_lt2p [of ?s] by (simp add: uint_word_ariths)
    with y show "1 \<le> uint ?cx" "uint ?cx < uint ?s" by (simp_all add: y_def)
  qed
  then have le: "uint (?s - ?cx) = uint ?s - uint ?cx" by (intro uint_sub_u32) (simp add: word_le_def)
  note I = inv [unfolded feed_inv_def]
  have e: "emit_cancel r k ?lo st = st\<lparr>fd_buf := fd_buf st @ put_be16 (word_of_nat sizeof_OrderCancel) @ ?bs,
            fd_live := (fd_live st)[k := ?lo\<lparr>lo_shares := ?s - ?cx\<rparr>],
            fd_st := (fd_st st)\<lparr>fs_cancels := fs_cancels (fd_st st) + 1\<rparr>\<rparr>"
    by (simp add: emit_cancel_def Let_def)
  have "feed_inv (emit_cancel r k ?lo st) (bss @ [?bs]) (ws @ [w])"
    by (rule feed_inv_emit [OF inv w(1)])
      (use I k live_at [OF inv k] cx le in \<open>simp_all add: e w cancel_payload_def sizeof_OrderCancel_def live_step_def sint_ucast_u32
         distinct_refs_update live_map_set stats_match_def count_type_def add.commute\<close>)
  then show ?thesis by blast
qed

lemma emit_exec_inv:
  assumes inv: "feed_inv st bss ws" and k: "k < length (fd_live st)"
  shows "\<exists>bs w. feed_inv (emit_exec r k (fd_live st ! k) st) (bss @ [bs]) (ws @ [w])"
proof -
  let ?lo = "fd_live st ! k"
  let ?s = "lo_shares ?lo"
  let ?w = "1 + ucast (drop_bit 16 r AND 7) :: u32"
  let ?ex = "if ?s < ?w then ?s else ?w"
  let ?n = "fs_execs (fd_st st) + 1"
  let ?bs = "exec_payload (fd_ts st) (lo_ref ?lo) ?ex ?n"
  obtain w where w: "payload_msg ?bs = Some w" "decode_msg w = message_zero\<lparr>m_qty := ucast ?ex, m_id := lo_ref ?lo, m_type := Execute\<rparr>"
    using decode_exec by blast
  note live = live_at [OF inv k]
  have w1: "1 \<le> uint ?w"
  proof -
    have "drop_bit 16 r AND 7 \<le> (7 :: u64)" by (rule word_and_le1)
    then have "uint (drop_bit 16 r AND 7) \<le> 7" by (simp add: word_le_def)
    then have "take_bit 32 (uint (drop_bit 16 r AND 7)) = uint (drop_bit 16 r AND 7)"
      by (intro take_bit_int_eq_self) simp_all
    then have "uint (ucast (drop_bit 16 r AND 7) :: u32) = uint (drop_bit 16 r AND 7)" by (simp add: unsigned_ucast_eq)
    with \<open>uint (drop_bit 16 r AND 7) \<le> 7\<close> show ?thesis by (simp add: uint_word_ariths)
  qed
  define ex where "ex = ?ex"
  have ex: "0 < uint ex" "uint ex \<le> uint ?s"
    using w1 live(2) by (simp_all add: ex_def word_less_def not_less)
  then have le: "uint (?s - ex) = uint ?s - uint ex" by (intro uint_sub_u32) (simp add: word_le_def)
  note I = inv [unfolded feed_inv_def]
  let ?live = "(fd_live st)[k := ?lo\<lparr>lo_shares := ?s - ex\<rparr>]"
  have e: "emit_exec r k ?lo st = st\<lparr>fd_buf := fd_buf st @ put_be16 (word_of_nat sizeof_OrderExecuted) @ ?bs,
      fd_st := (fd_st st)\<lparr>fs_execs := ?n, fs_exec_lots := fs_exec_lots (fd_st st) + ucast ex\<rparr>,
      fd_live := (if ?s - ex = 0 then swap_remove (fd_live st) k else ?live)\<rparr>"
    by (simp add: emit_exec_def Let_def ex_def swap_remove_update [OF k])
  note W = w(2) [folded ex_def]
  have "feed_inv (emit_exec r k ?lo st) (bss @ [?bs]) (ws @ [w])"
  proof (cases "ex = ?s")
    case True
    show ?thesis
      by (rule feed_inv_emit [OF inv w(1)])
        (use I k live True in \<open>simp_all add: e W exec_payload_def sizeof_OrderExecuted_def live_step_def sint_ucast_u32
           distinct_swap_remove live_map_remove stats_match_def count_type_def add.commute\<close>)
  next
    case False
    then have "uint ex \<noteq> uint ?s" "?s \<noteq> ex" by (auto simp: word_uint_eq_iff)
    then show ?thesis
      by (intro feed_inv_emit [OF inv w(1)])
        (use I k live ex le in \<open>simp_all add: e W exec_payload_def sizeof_OrderExecuted_def live_step_def sint_ucast_u32
           distinct_refs_update live_map_set stats_match_def count_type_def add.commute\<close>)
  qed
  then show ?thesis by blast
qed

lemma adds_le: "adds (map decode_msg ws) \<le> length ws"
  using length_filter_le [of _ "map decode_msg ws"] by (simp add: adds_def)

lemma live_length: "feed_inv st bss ws \<Longrightarrow> length (fd_live st) \<le> length ws"
  using adds_le [of ws] by (simp add: feed_inv_def)

text \<open>One iteration is always defined and keeps the invariant; it emits nothing only when it drew an
  order with a single share.\<close>

lemma feed_step_inv:
  assumes inv: "feed_inv st bss ws" and room: "length ws < 2 ^ 64 - 1"
  obtains e st' bss' ws' where "feed_step st = Some (e, st')" and "feed_inv st' bss' ws'"
    and "length ws' = length ws + of_bool e" and "e \<or> (\<exists>lo\<in>set (fd_live st). lo_shares lo < 2)"
proof -
  obtain r s where rs: "rng_next (fd_rng st) = (r, s)" by force
  let ?b = "if fd_live st = [] then 0 else unat (r mod 100)"
  define st1 where "st1 = st\<lparr>fd_rng := s, fd_ts := fd_ts st + 1 + (r AND 1023)\<rparr>"
  let ?k = "unat (drop_bit 32 r mod word_of_nat (length (fd_live st)) :: u64)"
  have inv1: "feed_inv st1 bss ws" using inv by (simp add: st1_def feed_inv_def)
  have live1: "fd_live st1 = fd_live st" by (simp add: st1_def)
  have step: "feed_step st = (if ?b < 55 then Some (True, emit_add r st1)
     else do {
       lo \<leftarrow> aget (fd_live st) ?k;
       if ?b < 80 then Some (True, emit_exec r ?k lo st1)
       else if ?b < 92 then
         if lo_shares lo < 2 then Some (False, st1) else Some (True, emit_cancel r ?k lo st1)
       else Some (True, emit_delete ?k lo st1)
     })" (is "_ = (if _ then _ else ?rest)")
    by (simp add: feed_step_def rs Let_def st1_def cong: if_cong)
  show ?thesis
  proof (cases "?b < 55")
    case True
    from emit_add_inv [OF inv1, of r] adds_le [of ws] room obtain bs w
      where "feed_inv (emit_add r st1) (bss @ [bs]) (ws @ [w])" by auto
    with step True show ?thesis by (intro that [of True "emit_add r st1" "bss @ [bs]" "ws @ [w]"]) simp_all
  next
    case False
    then have "fd_live st \<noteq> []" by auto
    moreover have "length (fd_live st) < 2 ^ 64" using live_length [OF inv] room by simp
    ultimately have k: "?k < length (fd_live st)" by (simp add: unat_mod unat_of_nat)
    then have k1: "?k < length (fd_live st1)" by (simp add: live1)
    let ?lo = "fd_live st ! ?k"
    have rest: "feed_step st = (if ?b < 80 then Some (True, emit_exec r ?k ?lo st1)
       else if ?b < 92 then if lo_shares ?lo < 2 then Some (False, st1) else Some (True, emit_cancel r ?k ?lo st1)
       else Some (True, emit_delete ?k ?lo st1))"
      unfolding step if_not_P [OF False] using k by simp
    obtain bx wx bd wd where x: "feed_inv (emit_exec r ?k ?lo st1) (bss @ [bx]) (ws @ [wx])"
      "feed_inv (emit_delete ?k ?lo st1) (bss @ [bd]) (ws @ [wd])"
      using emit_exec_inv [OF inv1 k1, of r] emit_delete_inv [OF inv1 k1] unfolding live1 by blast
    show ?thesis
    proof (cases "80 \<le> ?b \<and> ?b < 92")
      case True
      show ?thesis
      proof (cases "lo_shares ?lo < 2")
        case one: True
        have "\<exists>lo\<in>set (fd_live st). lo_shares lo < 2" using one k by (intro bexI [of _ ?lo]) simp_all
        with rest True one inv1 show ?thesis by (intro that [of False st1 bss ws]) simp_all
      next
        case False
        with emit_cancel_inv [OF inv1 k1, of r] obtain bs w
          where "feed_inv (emit_cancel r ?k ?lo st1) (bss @ [bs]) (ws @ [w])" unfolding live1 by blast
        with rest True False show ?thesis by (intro that [of True "emit_cancel r ?k ?lo st1" "bss @ [bs]" "ws @ [w]"]) simp_all
      qed
    next
      case False
      show ?thesis
      proof (cases "?b < 80")
        case True
        with rest x(1) show ?thesis by (intro that [of True "emit_exec r ?k ?lo st1" "bss @ [bx]" "ws @ [wx]"]) simp_all
      next
        case ge: False
        with rest x(2) False show ?thesis
          by (intro that [of True "emit_delete ?k ?lo st1" "bss @ [bd]" "ws @ [wd]"]) simp_all
      qed
    qed
  qed
qed

section \<open>The generated session is consistent\<close>

fun feed_iter :: "nat \<Rightarrow> feed_state \<Rightarrow> (nat \<times> feed_state) option" where
  "feed_iter 0 st = Some (0, st)"
| "feed_iter (Suc k) st = do {
     (e, st) \<leftarrow> feed_step st;
     (n, st) \<leftarrow> feed_iter k st;
     Some (of_bool e + n, st)
   }"

definition well_framed :: "u8 list \<Rightarrow> wire_msg list \<Rightarrow> bool" where
  "well_framed buf ws \<longleftrightarrow> (\<exists>bss. buf = concat (map frame bss) \<and> list_all2 (\<lambda>bs w. payload_msg bs = Some w) bss ws)"

lemma feed_inv_session:
  assumes "feed_inv st bss ws"
  shows "well_framed (fd_buf st) ws" and "live_run (map decode_msg ws) live_start = Some (live_map (fd_live st), fs_max_ref (fd_st st))"
    and "stats_match (fd_st st) (map decode_msg ws)" and "small_adds (map decode_msg ws)"
  using assms by (auto simp: feed_inv_def well_framed_def)

lemma feed_iter_inv:
  assumes "feed_inv st bss ws" and "length ws + k < 2 ^ 64 - 1"
  shows "\<exists>n st' bss' ws'. feed_iter k st = Some (n, st') \<and> feed_inv st' bss' ws' \<and> length ws' = length ws + n"
  using assms
proof (induction k arbitrary: st bss ws)
  case (Suc k)
  have "length ws < 2 ^ 64 - 1" using Suc.prems(2) by simp
  with Suc.prems(1) show ?case
  proof (rule feed_step_inv)
    fix e st1 bss1 ws1
    assume 1: "feed_step st = Some (e, st1)" "feed_inv st1 bss1 ws1" "length ws1 = length ws + of_bool e"
    have "length ws1 + k < 2 ^ 64 - 1" using 1(3) Suc.prems(2) by (cases e) simp_all
    with Suc.IH [OF 1(2)] obtain n st' bss' ws'
      where "feed_iter k st1 = Some (n, st')" "feed_inv st' bss' ws'" "length ws' = length ws1 + n" by blast
    with 1 show ?thesis by (cases e) auto
  qed
qed auto

lemma feed_loop_inv:
  assumes "feed_loop n st = Some st'" and "feed_inv st bss ws" and "length ws + n < 2 ^ 64"
  shows "\<exists>bss' ws'. feed_inv st' bss' ws' \<and> length ws' = length ws + n"
  using assms(2,3)
proof (induction arbitrary: bss ws rule: feed_loop.raw_induct [OF _ assms(1)])
  case (1 loop n st st')
  show ?case
  proof (cases "n = 0")
    case True
    with "1.hyps" "1.prems" show ?thesis by auto
  next
    case False
    then have "length ws < 2 ^ 64 - 1" using "1.prems"(2) by simp
    with "1.prems"(1) show ?thesis
    proof (rule feed_step_inv)
      fix e st1 bss1 ws1
      assume s: "feed_step st = Some (e, st1)" "feed_inv st1 bss1 ws1" "length ws1 = length ws + of_bool e"
      have "loop (if e then n - 1 else n) st1 = Some st'" using "1.hyps" False s(1) by simp
      from "1.IH" [OF this s(2)] s(3) "1.prems"(2) False show ?thesis by (cases e) simp_all
    qed
  qed
qed

text \<open>C18. Every iteration of the generator is free of undefined behaviour, whatever the seed, and what
  it has emitted so far is an internally consistent session: the bytes are well-formed frames,
  executions and partial cancels hit live orders with enough shares, deletes hit live orders,
  adds are fresh and do not cross, and the counters of \<open>FeedStats\<close> count the messages.\<close>

theorem feed_consistent:
  assumes "k < 2 ^ 63"
  shows "\<exists>n st ws. feed_iter k (feed_start seed) = Some (n, st) \<and> length ws = n \<and> well_framed (fd_buf st) ws \<and>
    live_run (map decode_msg ws) live_start = Some (live_map (fd_live st), fs_max_ref (fd_st st)) \<and>
    stats_match (fd_st st) (map decode_msg ws)"
proof -
  have "length [] + k < 2 ^ 64 - 1" using assms by simp
  from feed_iter_inv [OF feed_start_inv [of seed] this] show ?thesis
    using feed_inv_session by fastforce
qed

theorem feed_consistent_witness:
  "\<exists>n st ws. feed_iter 3 (feed_start 2024) = Some (n, st) \<and> length ws = n \<and> well_framed (fd_buf st) ws"
  using feed_consistent [of 3 2024] by auto

text \<open>When the generator returns it has emitted exactly the requested number of messages, and
  they are an internally consistent session whose largest reference is \<open>max_ref\<close>.\<close>

theorem generate_feed_session:
  assumes "generate_feed n seed = Some st" and "n < 2 ^ 64"
  shows "\<exists>ws lb. length ws = n \<and> well_framed (fd_buf st) ws \<and> live_run (map decode_msg ws) live_start = Some lb \<and>
    snd lb = fs_max_ref (fd_st st) \<and> stats_match (fd_st st) (map decode_msg ws)"
proof -
  from feed_loop_inv [OF assms(1) [unfolded generate_feed_def] feed_start_inv] assms(2) obtain bss ws
    where "feed_inv st bss ws" "length ws = n" by auto
  with feed_inv_session show ?thesis by fastforce
qed

lemma generate_one: "\<exists>st. generate_feed 1 seed = Some st"
  unfolding generate_feed_def
  by (subst feed_loop.simps) (simp add: feed_step_def feed_start_def Let_def feed_loop.simps split: prod.split)

theorem generate_feed_session_witness:
  "\<exists>st w. generate_feed 1 7 = Some st \<and> well_framed (fd_buf st) [w]"
proof -
  obtain st where st: "generate_feed 1 7 = Some st" using generate_one by blast
  from generate_feed_session [OF st] obtain ws where "length ws = 1" "well_framed (fd_buf st) ws" by auto
  with st show ?thesis by (auto simp: length_Suc_conv)
qed

end
