(* ===== verification/Session.thy ===== *)
theory Session
  imports Feed
begin

text \<open>
  What an engine makes of a consistent session. The benchmarks end with the check that the
  engine counted as many matches and as many lots as the generator emitted executions; here
  that check is a theorem: on a consistent session, replayed by the dense or the hash gateway,
  straight from the bytes, the book holds exactly the live orders with the shares they have
  left, and the counters are exact.
\<close>

section \<open>Ids and quantities\<close>

text \<open>The orders of a book, and the live orders of a session, as sets of ids with the lots left.\<close>

definition book_pairs :: "abook \<Rightarrow> (order_id \<times> int) set" where
  "book_pairs B = (\<lambda>x. (a_id x, a_qty x)) ` (set (B Buy) \<union> set (B Sell))"

definition live_pairs :: "(u64 \<Rightarrow> order_id) \<Rightarrow> (u64 \<Rightarrow> int option) \<Rightarrow> (order_id \<times> int) set" where
  "live_pairs e L = {(i, n). \<exists>r. i = e r \<and> L r = Some n}"

lemma image_pairs_other: "(\<lambda>x. (a_id x, a_qty x)) ` {x \<in> S. a_id x \<noteq> oid} = {p \<in> (\<lambda>x. (a_id x, a_qty x)) ` S. fst p \<noteq> oid}"
  by force

lemma book_pairs_cancel: "book_pairs (acancel B oid) = {p \<in> book_pairs B. fst p \<noteq> oid}"
proof -
  have "set (acancel B oid Buy) \<union> set (acancel B oid Sell) = {x \<in> set (B Buy) \<union> set (B Sell). a_id x \<noteq> oid}"
    unfolding acancel_def set_filter by blast
  then show ?thesis unfolding book_pairs_def by (simp only: image_pairs_other)
qed

lemma set_map_filter_if: "set (map (\<lambda>x. if P x then f x else x) (filter (\<lambda>x. P x \<longrightarrow> Q x) L)) =
    {x \<in> set L. \<not> P x} \<union> f ` {x \<in> set L. P x \<and> Q x}"
proof -
  have e: "{x \<in> set L. P x \<longrightarrow> Q x} = {x \<in> set L. \<not> P x} \<union> {x \<in> set L. P x \<and> Q x}" by blast
  show ?thesis unfolding set_map set_filter e image_Un
    by (intro arg_cong2 [of _ _ _ _ "(\<union>)"] image_cong) (simp_all cong: image_cong_simp)
qed

lemma book_pairs_reduce:
  "book_pairs (areduce B oid q) = {p \<in> book_pairs B. fst p \<noteq> oid} \<union> {(oid, n - q) |n. (oid, n) \<in> book_pairs B \<and> q < n}"
proof -
  let ?f = "\<lambda>x. (a_id x, a_qty x)"
  define S where "S = set (B Buy) \<union> set (B Sell)"
  have side: "set (areduce B oid q s) = {x \<in> set (B s). a_id x \<noteq> oid} \<union>
      (\<lambda>x. x\<lparr>a_qty := a_qty x - q\<rparr>) ` {x \<in> set (B s). a_id x = oid \<and> q < a_qty x}" for s
    unfolding areduce_def by (rule set_map_filter_if)
  have "set (areduce B oid q Buy) \<union> set (areduce B oid q Sell) = {x \<in> S. a_id x \<noteq> oid} \<union>
      (\<lambda>x. x\<lparr>a_qty := a_qty x - q\<rparr>) ` {x \<in> S. a_id x = oid \<and> q < a_qty x}"
    unfolding side S_def by blast
  then have "book_pairs (areduce B oid q) = ?f ` {x \<in> S. a_id x \<noteq> oid} \<union>
      (\<lambda>x. (a_id x, a_qty x - q)) ` {x \<in> S. a_id x = oid \<and> q < a_qty x}"
    unfolding book_pairs_def by (simp add: image_Un image_image)
  moreover have "(\<lambda>x. (a_id x, a_qty x - q)) ` {x \<in> S. a_id x = oid \<and> q < a_qty x} =
      {(oid, n - q) |n. (oid, n) \<in> ?f ` S \<and> q < n}" by force
  ultimately show ?thesis unfolding book_pairs_def S_def by (simp only: image_pairs_other)
qed

lemma book_pairs_insert: "B' s = ainsert s x (B s) \<Longrightarrow> B' (opposite s) = B (opposite s) \<Longrightarrow>
    book_pairs B' = insert (a_id x, a_qty x) (book_pairs B)"
  by (cases s) (simp_all add: book_pairs_def insert_commute)

lemma live_pairs_remove:
  assumes "inj_on e (dom L)" and "L r = Some s"
  shows "live_pairs e (L(r := None)) = {p \<in> live_pairs e L. fst p \<noteq> e r}"
proof -
  have "e a = e r \<Longrightarrow> L a = Some n \<Longrightarrow> a = r" for a n using assms by (auto dest: inj_onD)
  then show ?thesis by (auto simp: live_pairs_def) metis
qed

lemma live_pairs_set:
  assumes "inj_on e (dom L)" and "L r = Some s"
  shows "live_pairs e (L(r \<mapsto> n)) = {p \<in> live_pairs e L. fst p \<noteq> e r} \<union> {(e r, n)}"
proof -
  have "e a = e r \<Longrightarrow> L a = Some n \<Longrightarrow> a = r" for a n using assms by (auto dest: inj_onD)
  then show ?thesis by (auto simp: live_pairs_def) metis
qed

lemma live_pairs_add:
  assumes "L r = None"
  shows "live_pairs (e(r := oid)) (L(r \<mapsto> n)) = insert (oid, n) (live_pairs e L)"
proof -
  have "L a = Some k \<Longrightarrow> a \<noteq> r" for a k using assms by auto
  then show ?thesis by (auto simp: live_pairs_def)
qed

lemma live_pairs_at:
  assumes "inj_on e (dom L)" and "L r = Some s"
  shows "(e r, n) \<in> live_pairs e L \<longleftrightarrow> n = s"
proof -
  have "e a = e r \<Longrightarrow> L a = Some n \<Longrightarrow> a = r" for a using assms by (auto dest: inj_onD)
  with assms(2) show ?thesis by (auto simp: live_pairs_def)
qed

section \<open>The invariant of a replay\<close>

definition resting :: "abook \<Rightarrow> nat" where
  "resting B = length (B Buy) + length (B Sell)"

definition book_params :: "book \<Rightarrow> bool" where
  "book_params b \<longleftrightarrow> NumTicks b = 65536 \<and> PoolCap b = 1048576 \<and> bk_base b = BASE"

text \<open>Bids rest below the middle of the ladder and asks above it, so nothing crosses.\<close>

definition apart :: "abook \<Rightarrow> bool" where
  "apart B \<longleftrightarrow> (\<forall>x\<in>set (B Buy). a_tick x < 32768) \<and> (\<forall>x\<in>set (B Sell). 32768 < a_tick x)"

text \<open>The book holds the live orders of the session and the orders \<open>X\<close> that somebody else has put
  there: \<open>{}\<close> in a replay, the quotes of the strategy in the trading loop.\<close>

definition mirrors :: "dense_gateway \<Rightarrow> live_book \<Rightarrow> (order_id \<times> int) set \<Rightarrow> bool" where
  "mirrors gw lb X \<longleftrightarrow> inj_on (dense_entry (gw_refs gw)) (dom (fst lb)) \<and>
     book_pairs (abs_book (gw_book gw)) = live_pairs (dense_entry (gw_refs gw)) (fst lb) \<union> X \<and>
     dense_entry (gw_refs gw) ` dom (fst lb) \<inter> fst ` X = {}"

definition replay_inv :: "dense_gateway \<Rightarrow> live_book \<Rightarrow> (order_id \<times> int) set \<Rightarrow> nat \<Rightarrow> bool" where
  "replay_inv gw lb X n \<longleftrightarrow> dense.sound gw \<and> book_params (gw_book gw) \<and> apart (abs_book (gw_book gw)) \<and>
     mirrors gw lb X \<and> resting (abs_book (gw_book gw)) \<le> n"

lemma replay_start: "max_ref \<noteq> - 1 \<Longrightarrow> replay_inv (gateway_new max_ref) live_start {} 0"
proof -
  assume m: "max_ref \<noteq> - 1"
  have "sizes_ok (2 ^ 16) (2 ^ 20)" by (simp add: sizes_ok_def)
  from book_new_abs [OF this] gateway_new_sound(1) [OF m] show ?thesis
    by (simp add: replay_inv_def gateway_new_def book_params_def apart_def mirrors_def resting_def live_start_def
      book_pairs_def live_pairs_def)
qed

lemma apart_cancel: "apart B \<Longrightarrow> apart (acancel B oid)"
  by (simp add: apart_def acancel_def)

lemma apart_reduce: "apart B \<Longrightarrow> apart (areduce B oid q)"
  unfolding apart_def areduce_def set_map_filter_if by (simp add: ball_Un)

lemma resting_shrinks: "resting (acancel B oid) \<le> resting B" "resting (areduce B oid q) \<le> resting B"
  by (simp_all add: resting_def acancel_def areduce_def add_mono length_filter_le)

text \<open>An execution or partial cancel of an order that has the lots.\<close>

lemma mirror_reduce:
  assumes "inj_on e (dom L)" and "book_pairs B = live_pairs e L \<union> X" and "L r = Some s" and "0 < q" and "q \<le> s"
    and "e r \<notin> fst ` X"
  shows "book_pairs (areduce B (e r) q) = live_pairs e (L(r := if q = s then None else Some (s - q))) \<union> X"
proof -
  have X: "{p \<in> live_pairs e L \<union> X. fst p \<noteq> e r} = {p \<in> live_pairs e L. fst p \<noteq> e r} \<union> X" "\<And>n. (e r, n) \<notin> X"
    using assms(6) by force+
  have red: "book_pairs (areduce B (e r) q) =
      {p \<in> live_pairs e L. fst p \<noteq> e r} \<union> {(e r, n - q) |n. (e r, n) \<in> live_pairs e L \<and> q < n} \<union> X"
    using X by (auto simp: book_pairs_reduce assms(2))
  show ?thesis
  proof (cases "q = s")
    case True
    with assms red show ?thesis by (auto simp: live_pairs_remove live_pairs_at)
  next
    case False
    then have "{(e r, n - q) |n. (e r, n) \<in> live_pairs e L \<and> q < n} = {(e r, s - q)}"
      using assms by (auto simp: live_pairs_at)
    with False assms red show ?thesis by (simp add: live_pairs_set)
  qed
qed

lemma inj_on_sub: "inj_on e (dom L) \<Longrightarrow> dom L' \<subseteq> dom L \<Longrightarrow> inj_on e (dom L')"
  by (rule inj_on_subset)

lemma pair_order:
  assumes "(oid, s) \<in> book_pairs B"
  obtains sd x where "x \<in> set (B sd)" and "a_id x = oid" and "a_qty x = s"
  using assms unfolding book_pairs_def by blast

lemma mirror_order:
  assumes "mirrors gw lb X" and "fst lb r = Some s"
  obtains sd x where "x \<in> set (abs_book (gw_book gw) sd)" and "a_id x = dense_entry (gw_refs gw) r" and "a_qty x = s"
proof -
  have "(dense_entry (gw_refs gw) r, s) \<in> book_pairs (abs_book (gw_book gw))"
    using assms by (auto simp: mirrors_def live_pairs_def)
  then show ?thesis by (rule pair_order) (rule that)
qed

text \<open>What \<open>reduce\<close> does with a live order: it takes exactly the lots asked for.\<close>

lemma reduce_live:
  assumes inv: "replay_inv gw lb X n" and live: "fst lb (m_id m) = Some s" and q: "0 < sint (m_qty m)" "sint (m_qty m) \<le> s"
    and a: "unat (m_id m) < length (gw_refs gw)"
    and lb': "fst lb' = (fst lb)(m_id m := if sint (m_qty m) = s then None else Some (s - sint (m_qty m)))"
  obtains b where "reduce (gw_book gw) (gw_refs gw ! unat (m_id m)) (m_qty m) = Some (m_qty m, b)"
    and "\<And>gw'. gw_refs gw' = gw_refs gw \<Longrightarrow> gw_book gw' = b \<Longrightarrow> replay_inv gw' lb' X n"
proof -
  let ?b = "gw_book gw" and ?r = "gw_refs gw ! unat (m_id m)" and ?e = "dense_entry (gw_refs gw)"
  note I = inv [unfolded replay_inv_def]
  have s: "dense.sound gw" and mir: "mirrors gw lb X" using I by blast+
  then have "book_ok ?b" by (simp add: dense.sound_def)
  then obtain qs where rep: "book_rep ?b qs" by (rule book_okE)
  have e: "?r = ?e (m_id m)" using a by (simp add: dense_entry_def)
  have iss: "issued ?r" using s a by (simp add: dense.sound_def e dense_admits_def)
  obtain x b where r: "reduce ?b ?r (m_qty m) = Some (x, b)" "book_ok b"
    "abs_book b = areduce (abs_book ?b) ?r (sint (m_qty m))"
    "\<And>sd y. y \<in> set (abs_book ?b sd) \<Longrightarrow> a_id y = ?r \<Longrightarrow> sint x = min (sint (m_qty m)) (a_qty y)"
    "NumTicks b = NumTicks ?b" "bk_base b = bk_base ?b" "PoolCap b = PoolCap ?b"
    by (rule reduce_rep [OF rep iss less_imp_le [OF q(1)]]) (rule that)
  obtain sd y where y: "y \<in> set (abs_book ?b sd)" "a_id y = ?r" "a_qty y = s"
    by (rule mirror_order [OF mir live, folded e])
  from r(4) [OF y(1,2)] q(2) y(3) have "sint x = sint (m_qty m)" by simp
  then have x: "x = m_qty m" by (rule signed_word_eqI)
  have M: "inj_on ?e (dom (fst lb))" "book_pairs (abs_book ?b) = live_pairs ?e (fst lb) \<union> X"
    "?e ` dom (fst lb) \<inter> fst ` X = {}" using mir by (simp_all add: mirrors_def)
  have nX: "?e (m_id m) \<notin> fst ` X" using M(3) live by blast
  have "book_pairs (abs_book b) = live_pairs ?e (fst lb') \<union> X"
    unfolding r(3) e lb' by (rule mirror_reduce [OF M(1,2) live q nX])
  moreover have "?e ` dom (fst lb') \<inter> fst ` X = {}" using M(3) live by (auto simp: lb' split: if_splits)
  moreover have "inj_on ?e (dom (fst lb'))" by (rule inj_on_sub [OF M(1)]) (use live in \<open>auto simp: lb'\<close>)
  ultimately have "replay_inv gw' lb' X n" if "gw_refs gw' = gw_refs gw" "gw_book gw' = b" for gw' :: dense_gateway
    using I that r(2,3,5-7) resting_shrinks(2) [of "abs_book ?b" ?r "sint (m_qty m)"] s
    by (simp add: replay_inv_def mirrors_def book_params_def apart_reduce dense.sound_def)
  with r(1) x show ?thesis by (intro that) auto
qed

text \<open>An add does not cross; it rests under a fresh id.\<close>

lemma add_tick:
  assumes "add_fits m" and "bk_base b = BASE"
  shows "idx_of b (m_price m) < 65536" and "m_side m = Buy \<Longrightarrow> idx_of b (m_price m) < 32768"
    and "m_side m = Sell \<Longrightarrow> 32768 < idx_of b (m_price m)"
proof -
  have B: "sint BASE = 1000000" "sint MID = 1032768" by (simp_all add: BASE_def MID_def)
  then have r: "1000000 \<le> sint (m_price m)" "sint (m_price m) < 1065536"
    using assms(1) by (auto simp: add_fits_def split: side.splits)
  have "sint (m_price m - BASE) = sint (m_price m) - sint BASE"
    using r B by (intro sint_diff64) simp_all
  then have s: "sint (m_price m - BASE) = sint (m_price m) - 1000000" using B by simp
  have "uint (m_price m - BASE) = sint (m_price m - BASE)"
    using s r by (intro uint_of_sint) simp
  then have "idx_of b (m_price m) = nat (sint (m_price m) - 1000000)"
    using s assms(2) by (simp add: idx_of_def flip: nat_uint_eq)
  with r B assms(1) show "idx_of b (m_price m) < 65536" "m_side m = Buy \<Longrightarrow> idx_of b (m_price m) < 32768"
    "m_side m = Sell \<Longrightarrow> 32768 < idx_of b (m_price m)" by (auto simp: add_fits_def)
qed

lemma no_match: "apart B \<Longrightarrow> (s = Buy \<Longrightarrow> lim < 32768) \<Longrightarrow> (s = Sell \<Longrightarrow> 32768 < lim) \<Longrightarrow>
    \<forall>x\<in>set (B (opposite s)). \<not> meets s lim (a_tick x)"
  by (cases s) (auto simp: apart_def)

lemma ainsert_fresh:
  assumes "distinct (map a_id (ainsert s x L))"
  shows "a_id x \<notin> a_id ` set L"
proof -
  let ?P = "\<lambda>y. ahead s (a_tick y) (a_tick x)"
  have "set L = set (takeWhile ?P L) \<union> set (dropWhile ?P L)" by (metis set_append takeWhile_dropWhile_id)
  then have "a_id ` set L = a_id ` set (takeWhile ?P L) \<union> a_id ` set (dropWhile ?P L)" by (metis image_Un)
  with assms show ?thesis by (simp add: ainsert_def)
qed

lemma book_ids: "fst ` book_pairs B = a_id ` set (B s) \<union> a_id ` set (B (opposite s))"
  by (cases s) (simp_all add: book_pairs_def image_Un image_image Un_commute)

lemma quiet_order:
  assumes ok: "book_ok b0" and params: "book_params b0" and ap: "apart (abs_book b0)" and fits: "add_fits m"
  obtains oid b where "new_order b0 (m_side m) (m_price m) (m_qty m) False = Some (oid, b, [])"
    and "book_ok b" and "issued oid" and "book_params b" and "apart (abs_book b)"
    and "oid = 0 \<Longrightarrow> b = b0 \<and> 1048576 \<le> resting (abs_book b0)"
    and "oid \<noteq> 0 \<Longrightarrow> book_pairs (abs_book b) = insert (oid, sint (m_qty m)) (book_pairs (abs_book b0)) \<and>
      oid \<notin> fst ` book_pairs (abs_book b0) \<and> resting (abs_book b) = Suc (resting (abs_book b0))"
proof -
  let ?s = "m_side m" and ?q = "m_qty m" and ?i = "idx_of b0 (m_price m)" and ?B = "abs_book b0"
  note P = params [unfolded book_params_def]
  have tick: "?i < 65536" "?s = Buy \<Longrightarrow> ?i < 32768" "?s = Sell \<Longrightarrow> 32768 < ?i"
    by (rule add_tick [OF fits]; use P in simp)+
  have q: "0 < sint ?q" using fits by (simp add: add_fits_def)
  have acc: "accepts b0 (m_price m) ?q" using tick(1) q P by (simp add: accepts_def)
  have quiet: "\<forall>x\<in>set (?B (opposite ?s)). \<not> meets ?s ?i (a_tick x)"
    by (rule no_match) (use ap tick in simp_all)
  obtain oid b ts g where
    r: "new_order b0 ?s (m_price m) ?q False = Some (oid, b, ts)" "book_ok b" "issued oid" "NumTicks b = NumTicks b0"
      "PoolCap b = PoolCap b0" "bk_base b = bk_base b0"
      "(oid, abs_book b, map (atrade_of (bk_base b0)) ts) = anew_order ?B ?s ?i (sint ?q) False g"
      "oid = 0 \<Longrightarrow> b = b0 \<and> ts = [] \<and> length (?B Buy) + length (?B Sell) = PoolCap b0"
    using new_order_run [OF ok acc, of ?s False] by (metis (no_types))
  have bp: "book_params b" using r(4-6) params by (simp add: book_params_def)
  show ?thesis
  proof (cases "oid = 0")
    case True
    with r(8) P have "b = b0" "ts = []" "1048576 \<le> resting ?B" by (simp_all add: resting_def)
    with True r(1-3) ap bp show ?thesis by (intro that [of oid b]) blast+
  next
    case nz: False
    let ?x = "\<lparr>a_id = oid, a_tick = ?i, a_qty = sint ?q, a_hidden = 0, a_display = 0\<rparr>"
    have ne: "opposite ?s \<noteq> ?s" "?s \<noteq> opposite ?s" by (cases ?s; simp)+
    have e: "ts = []" "abs_book b ?s = ainsert ?s ?x (?B ?s)" "abs_book b (opposite ?s) = ?B (opposite ?s)"
      using r(7) q nz ne amatch_none [OF quiet] by (auto simp: anew_order_def arest_def Let_def split: if_splits)
    have d: "distinct (map a_id (abs_book b Buy @ abs_book b Sell))" by (rule ids_distinct [OF r(2)])
    then have ds: "distinct (map a_id (abs_book b ?s))"
      "a_id ` set (abs_book b ?s) \<inter> a_id ` set (abs_book b (opposite ?s)) = {}"
      by (cases ?s; simp add: Int_commute)+
    have new: "oid \<notin> fst ` book_pairs ?B"
      using ds ainsert_fresh [OF ds(1) [unfolded e(2)]] unfolding book_ids [of _ ?s] e(2,3) set_ainsert by simp
    have ins: "book_pairs (abs_book b) = insert (oid, sint ?q) (book_pairs ?B)"
      using book_pairs_insert [OF e(2,3)] by simp
    have "apart (abs_book b)" using ap e(2,3) tick(2,3) by (cases ?s) (auto simp: apart_def)
    moreover have "resting (abs_book b) = Suc (resting ?B)"
      using e(2,3) by (cases ?s) (simp_all add: resting_def length_ainsert)
    ultimately show ?thesis using nz r(1-3) e(1) ins new bp by (intro that) simp_all
  qed
qed

lemma upd_disjoint: "e ` dom L \<inter> F = {} \<Longrightarrow> oid \<notin> F \<Longrightarrow> (e(r := oid)) ` dom (L(r \<mapsto> n)) \<inter> F = {}"
  by auto

lemma add_rests:
  assumes inv: "replay_inv gw lb X n" and ok: "live_ok lb" and fits: "add_fits m" and fresh: "snd lb < m_id m"
    and a: "unat (m_id m) < length (gw_refs gw)" and room: "n < 1048576"
  obtains oid b where "new_order (gw_book gw) (m_side m) (m_price m) (m_qty m) False = Some (oid, b, [])"
    and "\<And>gw1. gw_book gw1 = b \<Longrightarrow> gw_refs gw1 = (gw_refs gw)[unat (m_id m) := oid] \<Longrightarrow> dense.sound gw1 \<Longrightarrow>
      replay_inv gw1 ((fst lb)(m_id m \<mapsto> sint (m_qty m)), m_id m) X (Suc n)"
proof -
  let ?q = "m_qty m" and ?e = "dense_entry (gw_refs gw)" and ?B = "abs_book (gw_book gw)"
  note I = inv [unfolded replay_inv_def mirrors_def]
  have "book_ok (gw_book gw)" using I by (simp add: dense.sound_def)
  then obtain oid b where r: "new_order (gw_book gw) (m_side m) (m_price m) ?q False = Some (oid, b, [])"
    "book_params b" "apart (abs_book b)" "oid = 0 \<Longrightarrow> b = gw_book gw \<and> 1048576 \<le> resting ?B"
    "oid \<noteq> 0 \<Longrightarrow> book_pairs (abs_book b) = insert (oid, sint ?q) (book_pairs ?B) \<and>
      oid \<notin> fst ` book_pairs ?B \<and> resting (abs_book b) = Suc (resting ?B)"
    by (rule quiet_order [OF _ _ _ fits, of "gw_book gw"]) (use I in blast, use I in blast, rule that)
  have nz: "oid \<noteq> 0" using r(4) I room by auto
  note new = r(5) [OF nz]
  have pairs: "book_pairs ?B = live_pairs ?e (fst lb) \<union> X" using I by blast
  have dead: "fst lb (m_id m) = None" using ok fresh by (auto simp: live_ok_def simp flip: not_le intro: ccontr)
  show ?thesis
  proof (rule that)
    show "new_order (gw_book gw) (m_side m) (m_price m) ?q False = Some (oid, b, [])" by (rule r(1))
    fix gw1 :: dense_gateway
    assume g: "gw_book gw1 = b" "gw_refs gw1 = (gw_refs gw)[unat (m_id m) := oid]" "dense.sound gw1"
    have e1: "dense_entry ((gw_refs gw)[unat (m_id m) := oid]) = ?e(m_id m := oid)"
      using a by (auto simp: fun_eq_iff dense_entry_def nth_list_update word_unat_eq_iff)
    have nr: "?e r \<noteq> oid" if "r \<in> dom (fst lb)" for r
      using that new pairs by (force simp: live_pairs_def)
    then have "inj_on (?e(m_id m := oid)) (dom ((fst lb)(m_id m \<mapsto> sint ?q)))"
      using I by (auto simp: inj_on_def)
    moreover have "(?e(m_id m := oid)) ` dom ((fst lb)(m_id m \<mapsto> sint ?q)) \<inter> fst ` X = {}"
      by (rule upd_disjoint) (use I in blast, use conjunct1 [OF conjunct2 [OF new]] in \<open>simp add: pairs image_Un\<close>)
    moreover have "book_pairs (abs_book b) = live_pairs (?e(m_id m := oid)) ((fst lb)(m_id m \<mapsto> sint ?q)) \<union> X"
      using new pairs by (simp add: live_pairs_add [where L = "fst lb", OF dead])
    ultimately show "replay_inv gw1 ((fst lb)(m_id m \<mapsto> sint ?q), m_id m) X (Suc n)"
      using I r(2,3) new g by (simp add: replay_inv_def mirrors_def e1)
  qed
qed

section \<open>One message, and the whole session\<close>

lemma replay_step:
  assumes inv: "replay_inv gw lb X n" and ok: "live_ok lb" and step: "live_step lb m = Some lb'"
    and a: "unat (m_id m) < length (gw_refs gw)" and room: "m_type m = NewOrder \<Longrightarrow> n < 1048576"
  shows "\<exists>gw'. gateway_apply gw m = Some gw' \<and> replay_inv gw' lb' X (n + (if m_type m = NewOrder then 1 else 0)) \<and>
    length (gw_refs gw') = length (gw_refs gw) \<and>
    gw_trades gw' = gw_trades gw + (if m_type m = Execute then 1 else 0) \<and>
    gw_traded_lots gw' = gw_traded_lots gw + (if m_type m = Execute then m_qty m else 0)"
proof -
  let ?b = "gw_book gw" and ?r = "gw_refs gw ! unat (m_id m)" and ?q = "m_qty m"
  note I = inv [unfolded replay_inv_def]
  have s: "dense.sound gw" using I by blast
  then have "book_ok ?b" by (simp add: dense.sound_def)
  then obtain qs where rep: "book_rep ?b qs" by (rule book_okE)
  have e: "?r = dense_entry (gw_refs gw) (m_id m)" using a by (simp add: dense_entry_def)
  have iss: "issued ?r" using s a by (simp add: dense.sound_def e dense_admits_def)
  have sound: "dense.sound gw'" if "gateway_apply gw m = Some gw'" "0 \<le> sint ?q" for gw'
    using dense.apply_sound [OF s, of m] a that by (auto simp: dense_admits_def gateway_apply_table)
  show ?thesis
  proof (cases "m_type m")
    case NewOrder
    then have st: "snd lb < m_id m" "add_fits m" "lb' = ((fst lb)(m_id m \<mapsto> sint ?q), m_id m)"
      using step by (auto simp: live_step_def split: if_splits)
    from add_rests [OF inv ok st(2,1) a room [OF NewOrder]] obtain oid b where
      n: "new_order ?b (m_side m) (m_price m) ?q False = Some (oid, b, [])"
      "\<And>gw1. gw_book gw1 = b \<Longrightarrow> gw_refs gw1 = (gw_refs gw)[unat (m_id m) := oid] \<Longrightarrow> dense.sound gw1 \<Longrightarrow>
        replay_inv gw1 ((fst lb)(m_id m \<mapsto> sint (m_qty m)), m_id m) X (Suc n)" by blast
    let ?gw = "gw\<lparr>gw_book := b, gw_refs := (gw_refs gw)[unat (m_id m) := oid]\<rparr>"
    have g: "gateway_apply gw m = Some ?gw" using NewOrder n(1) a by (simp add: gateway_apply_def)
    have "dense.sound ?gw" using sound [OF g] st(2) by (simp add: add_fits_def)
    from n(2) [OF _ _ this] g NewOrder st(3) show ?thesis by simp
  next
    case Cancel
    then have st: "fst lb (m_id m) \<noteq> None" "lb' = ((fst lb)(m_id m := None), snd lb)"
      using step by (auto simp: live_step_def split: if_splits)
    obtain b where c: "cancel ?b ?r = Some (alive (abs_book ?b) ?r, b)" "book_ok b" "abs_book b = acancel (abs_book ?b) ?r"
      "NumTicks b = NumTicks ?b" "bk_base b = bk_base ?b" "PoolCap b = PoolCap ?b"
      by (rule cancel_rep [OF rep iss]) blast
    have M: "inj_on (dense_entry (gw_refs gw)) (dom (fst lb))" "dense_entry (gw_refs gw) ` dom (fst lb) \<inter> fst ` X = {}"
      "book_pairs (abs_book ?b) = live_pairs (dense_entry (gw_refs gw)) (fst lb) \<union> X" using I by (auto simp: mirrors_def)
    have "{p \<in> live_pairs (dense_entry (gw_refs gw)) (fst lb) \<union> X. fst p \<noteq> ?r} =
        live_pairs (dense_entry (gw_refs gw)) ((fst lb)(m_id m := None)) \<union> X"
    proof -
      have "{p \<in> X. fst p \<noteq> ?r} = X" using M(2) st(1) unfolding e by force
      then show ?thesis using live_pairs_remove [OF M(1)] st(1) e by auto
    qed
    then have "book_pairs (abs_book b) = live_pairs (dense_entry (gw_refs gw)) (fst lb') \<union> X"
      by (simp only: c(3) book_pairs_cancel M(3) st(2) fst_conv)
    moreover have "dense_entry (gw_refs gw) ` dom (fst lb') \<inter> fst ` X = {}" using M(2) st(2) by auto
    ultimately have "replay_inv (gw\<lparr>gw_book := b\<rparr>) lb' X n"
      using I c s st
        resting_shrinks(1) [of "abs_book ?b" ?r] inj_on_sub [of "dense_entry (gw_refs gw)" "fst lb" "(fst lb)(m_id m := None)"]
      by (auto simp: replay_inv_def mirrors_def book_params_def apart_cancel book_pairs_cancel e dense.sound_def)
    with Cancel c(1) a show ?thesis by (simp add: gateway_apply_def)
  next
    case Execute
    then obtain sh where st: "fst lb (m_id m) = Some sh" "0 < sint ?q" "sint ?q \<le> sh"
      "lb' = ((fst lb)(m_id m := if sint ?q = sh then None else Some (sh - sint ?q)), snd lb)"
      using step by (auto simp: live_step_def split: option.splits if_splits)
    obtain b where r: "reduce ?b ?r ?q = Some (?q, b)"
      "\<And>gw'. gw_refs gw' = gw_refs gw \<Longrightarrow> gw_book gw' = b \<Longrightarrow> replay_inv gw' lb' X n"
      by (rule reduce_live [OF inv st(1-3) a, of lb']) (simp add: st(4), rule that)
    with Execute a st(2) show ?thesis by (simp add: gateway_apply_def)
  next
    case Reduce
    then obtain sh where st: "fst lb (m_id m) = Some sh" "0 < sint ?q" "sint ?q < sh"
      "lb' = ((fst lb)(m_id m \<mapsto> sh - sint ?q), snd lb)"
      using step by (auto simp: live_step_def split: option.splits if_splits)
    obtain b where r: "reduce ?b ?r ?q = Some (?q, b)"
      "\<And>gw'. gw_refs gw' = gw_refs gw \<Longrightarrow> gw_book gw' = b \<Longrightarrow> replay_inv gw' lb' X n"
      by (rule reduce_live [OF inv st(1,2) less_imp_le [OF st(3)] a, of lb']) (use st(3,4) in simp, rule that)
    with Reduce a show ?thesis by (simp add: gateway_apply_def)
  qed
qed

lemma replay_run:
  assumes "replay_inv gw lb X n" and "live_ok lb" and "live_run ms lb = Some lb'"
    and "\<forall>m\<in>set ms. unat (m_id m) < length (gw_refs gw)" and "n + adds ms \<le> 1048576"
  shows "\<exists>gw'. apply_all gateway_apply ms gw = Some gw' \<and> replay_inv gw' lb' X (n + adds ms) \<and>
    gw_trades gw' = gw_trades gw + word_of_nat (execs ms) \<and>
    gw_traded_lots gw' = gw_traded_lots gw + word_of_int (exec_lots ms)"
  using assms
proof (induction ms arbitrary: gw lb n)
  case (Cons m ms)
  obtain lb1 where 1: "live_step lb m = Some lb1" "live_run ms lb1 = Some lb'"
    using Cons.prems(3) by (auto simp: bind_eq_Some_conv)
  have "\<exists>gw1. gateway_apply gw m = Some gw1 \<and> replay_inv gw1 lb1 X (n + (if m_type m = NewOrder then 1 else 0)) \<and>
    length (gw_refs gw1) = length (gw_refs gw) \<and>
    gw_trades gw1 = gw_trades gw + (if m_type m = Execute then 1 else 0) \<and>
    gw_traded_lots gw1 = gw_traded_lots gw + (if m_type m = Execute then m_qty m else 0)"
    by (rule replay_step [OF Cons.prems(1,2) 1(1)]) (use Cons.prems(4,5) in auto)
  then obtain gw1 where g: "gateway_apply gw m = Some gw1"
    "replay_inv gw1 lb1 X (n + (if m_type m = NewOrder then 1 else 0))" "length (gw_refs gw1) = length (gw_refs gw)"
    "gw_trades gw1 = gw_trades gw + (if m_type m = Execute then 1 else 0)"
    "gw_traded_lots gw1 = gw_traded_lots gw + (if m_type m = Execute then m_qty m else 0)" by blast
  have "n + (if m_type m = NewOrder then 1 else 0) + adds ms \<le> 1048576" using Cons.prems(5) by simp
  from Cons.IH [OF g(2) live_step_ok(1) [OF 1(1) Cons.prems(2)] 1(2) _ this] Cons.prems(4) g
  show ?case by (auto simp: add.assoc)
qed simp

lemma live_run_dense:
  assumes "live_run ms live_start = Some lb" and "snd lb \<le> max_ref" and "max_ref \<noteq> - 1"
  shows "\<forall>m\<in>set ms. unat (m_id m) < length (gw_refs (gateway_new max_ref)) \<and> m_id m \<noteq> 0 \<and> m_id m \<le> max_ref"
  using live_run_ok [OF assms(1)] gateway_new_sound(2) [OF assms(3)] assms(2)
  by (fastforce simp: dense_admits_def word_neq_0_conv dest: order_trans)

lemma replay_session:
  assumes "live_run ms live_start = Some lb" and "snd lb \<le> max_ref" and "max_ref \<noteq> - 1" and "adds ms \<le> 1048576"
  shows "\<exists>gw. apply_all gateway_apply ms (gateway_new max_ref) = Some gw \<and> replay_inv gw lb {} (adds ms) \<and>
    gw_trades gw = word_of_nat (execs ms) \<and> gw_traded_lots gw = word_of_int (exec_lots ms)"
  using replay_run [OF replay_start [OF assms(3)] live_start_ok assms(1)] live_run_dense [OF assms(1-3)] assms(4)
  by (auto simp: gateway_new_def)

text \<open>On a consistent session with at most 1,048,576 adds (the capacity of the arena) the dense
  gateway applies every message, counts one match per execution and exactly the lots executed,
  and leaves a well-formed book that holds exactly the live orders of the session, each under
  the id its reference maps to and with the shares it has left.\<close>

theorem session_verified:
  assumes "live_run ms live_start = Some lb" and "snd lb \<le> max_ref" and "max_ref \<noteq> - 1" and "adds ms \<le> 1048576"
  shows "\<exists>gw. apply_all gateway_apply ms (gateway_new max_ref) = Some gw \<and> book_ok (gw_book gw) \<and>
    book_pairs (abs_book (gw_book gw)) = live_pairs (dense_entry (gw_refs gw)) (fst lb) \<and>
    gw_trades gw = word_of_nat (execs ms) \<and> gw_traded_lots gw = word_of_int (exec_lots ms)"
  using replay_session [OF assms] by (auto simp: replay_inv_def mirrors_def dense.sound_def)

definition two_messages :: "message list" where
  "two_messages = [message_zero\<lparr>m_id := 1, m_price := 1000005, m_qty := 7\<rparr>,
     message_zero\<lparr>m_id := 1, m_type := Execute, m_qty := 3\<rparr>]"

lemma two_messages_live: "live_run two_messages live_start = Some ([1 \<mapsto> 4], 1)"
  by (simp add: two_messages_def live_start_def live_step_def add_fits_def message_zero_def BASE_def MID_def)

theorem session_verified_witness:
  "\<exists>gw. apply_all gateway_apply two_messages (gateway_new 5) = Some gw \<and>
    gw_trades gw = 1 \<and> gw_traded_lots gw = 3"
  using session_verified [OF two_messages_live, of 5] by (auto simp: two_messages_def message_zero_def)

lemma hash_replay_session:
  assumes "live_run ms live_start = Some lb" and "adds ms \<le> 1048576" and "snd lb \<noteq> - 1"
    and "\<forall>m\<in>set ms. 0 \<le> sint (m_qty m)"
  shows "\<exists>gw hg. apply_all gateway_apply ms (gateway_new (snd lb)) = Some gw \<and>
    apply_all hash_gateway_apply ms hash_gateway_new = Some hg \<and> gw_book hg = gw_book gw \<and>
    gw_trades hg = word_of_nat (execs ms) \<and> gw_traded_lots hg = word_of_int (exec_lots ms)"
proof -
  obtain gw where gw: "apply_all gateway_apply ms (gateway_new (snd lb)) = Some gw"
    "gw_trades gw = word_of_nat (execs ms)" "gw_traded_lots gw = word_of_int (exec_lots ms)"
    using replay_session [OF assms(1) order_refl assms(3,2)] by blast
  have "\<exists>gw' hg'. apply_all gateway_apply ms (gateway_new (snd lb)) = Some gw' \<and>
    apply_all hash_gateway_apply ms hash_gateway_new = Some hg' \<and>
    gw_book gw' = gw_book hg' \<and> gw_trades gw' = gw_trades hg' \<and> gw_traded_lots gw' = gw_traded_lots hg'"
    by (rule gateways_session) (use assms live_run_no_reuse [OF assms(1) live_start_ok] live_run_dense [OF assms(1) order_refl assms(3)] in auto)
  with gw show ?thesis by auto
qed

text \<open>The hash gateway passes the same check: replaying a consistent session through the sparse
  references of the flat hash map gives the exact numbers of matches and lots.\<close>

theorem hash_session_verified:
  assumes "live_run ms live_start = Some lb" and "adds ms \<le> 1048576" and "snd lb \<noteq> - 1"
    and "\<forall>m\<in>set ms. 0 \<le> sint (m_qty m)"
  shows "\<exists>gw. apply_all hash_gateway_apply ms hash_gateway_new = Some gw \<and>
    gw_trades gw = word_of_nat (execs ms) \<and> gw_traded_lots gw = word_of_int (exec_lots ms)"
  using hash_replay_session [OF assms] by blast

theorem hash_session_verified_witness:
  "\<exists>gw. apply_all hash_gateway_apply two_messages hash_gateway_new = Some gw \<and>
    gw_trades gw = 1 \<and> gw_traded_lots gw = 3"
  using hash_session_verified [OF two_messages_live] by (auto simp: two_messages_def message_zero_def)

section \<open>From the generated bytes to the counters\<close>

lemma sink_all_gateway: "sink_all gateway_sink ws gw = apply_all gateway_apply (map decode_msg ws) gw"
  by (induction ws arbitrary: gw) (auto simp: gateway_sink_def split: bind_splits)

text \<open>A generated feed is a session, and its statistics are those of the session.\<close>

lemma feed_session:
  assumes "generate_feed n seed = Some st" and "n \<le> 1048576"
  obtains bss ws lb where "length ws = n" and "fd_buf st = concat (map frame bss)"
    and "list_all2 (\<lambda>bs w. payload_msg bs = Some w) bss ws" and "live_run (map decode_msg ws) live_start = Some lb"
    and "snd lb = fs_max_ref (fd_st st)" and "snd lb \<noteq> - 1" and "adds (map decode_msg ws) \<le> n"
    and "fs_execs (fd_st st) = word_of_nat (execs (map decode_msg ws))"
    and "fs_exec_lots (fd_st st) = word_of_int (exec_lots (map decode_msg ws))" and "small_adds (map decode_msg ws)"
proof -
  from feed_loop_inv [OF assms(1) [unfolded generate_feed_def] feed_start_inv] assms(2) obtain bss0 ws
    where inv: "feed_inv st bss0 ws" and n: "length ws = n" by auto
  note I = feed_inv_session [OF inv]
  let ?mx = "fs_max_ref (fd_st st)"
  have le: "adds (map decode_msg ws) \<le> n" using adds_le [of ws] n by simp
  then have mx: "?mx \<noteq> - 1"
    using I(3) assms(2) by (simp add: stats_match_def word_unat_eq_iff unat_of_nat unsigned_minus_1_eq_mask mask_eq_exp_minus_1)
  from I(1) obtain bss where "fd_buf st = concat (map frame bss)" "list_all2 (\<lambda>bs w. payload_msg bs = Some w) bss ws"
    by (auto simp: well_framed_def)
  with I(2-4) n le mx show ?thesis by (intro that [of ws bss "(live_map (fd_live st), ?mx)"]) (simp_all add: stats_match_def)
qed

text \<open>What the two engines make of a generated feed.\<close>

lemma feed_engines:
  assumes "generate_feed n seed = Some st" and "n \<le> 1048576"
  obtains ws gw hg where "length ws = n" and "well_framed (fd_buf st) ws"
    and "apply_all gateway_apply (map decode_msg ws) (gateway_new (fs_max_ref (fd_st st))) = Some gw"
    and "gw_trades gw = fs_execs (fd_st st)" and "gw_traded_lots gw = fs_exec_lots (fd_st st)"
    and "apply_all hash_gateway_apply (map decode_msg ws) hash_gateway_new = Some hg"
    and "gw_trades hg = fs_execs (fd_st st)" and "gw_traded_lots hg = fs_exec_lots (fd_st st)"
    and "gw_book hg = gw_book gw"
proof -
  obtain bss ws lb where F: "length ws = n" "fd_buf st = concat (map frame bss)"
    "list_all2 (\<lambda>bs w. payload_msg bs = Some w) bss ws" "live_run (map decode_msg ws) live_start = Some lb"
    "snd lb = fs_max_ref (fd_st st)" "snd lb \<noteq> - 1" "adds (map decode_msg ws) \<le> n"
    "fs_execs (fd_st st) = word_of_nat (execs (map decode_msg ws))"
    "fs_exec_lots (fd_st st) = word_of_int (exec_lots (map decode_msg ws))"
    by (rule feed_session [OF assms]) (rule that)
  let ?ms = "map decode_msg ws"
  have le: "adds ?ms \<le> 1048576" using F(7) assms(2) by simp
  obtain gw where "apply_all gateway_apply ?ms (gateway_new (fs_max_ref (fd_st st))) = Some gw"
    "gw_trades gw = word_of_nat (execs ?ms)" "gw_traded_lots gw = word_of_int (exec_lots ?ms)"
    using replay_session [OF F(4) _ _ le, of "fs_max_ref (fd_st st)"] F(5,6) by auto
  moreover have q: "\<forall>m\<in>set ?ms. 0 \<le> sint (m_qty m)" by (simp add: decode_qty)
  obtain gw' hg where "apply_all gateway_apply ?ms (gateway_new (fs_max_ref (fd_st st))) = Some gw'"
    "apply_all hash_gateway_apply ?ms hash_gateway_new = Some hg" "gw_book hg = gw_book gw'"
    "gw_trades hg = word_of_nat (execs ?ms)" "gw_traded_lots hg = word_of_int (exec_lots ?ms)"
    using hash_replay_session [OF F(4) le F(6) q] F(5) by auto
  moreover have "well_framed (fd_buf st) ws" using F(2,3) by (auto simp: well_framed_def)
  ultimately show ?thesis using F(1,8,9) by (intro that) simp_all
qed

text \<open>End to end: whatever the seed, the bytes of a generated feed of at most 1,048,576 messages,
  parsed straight into the gateway, are consumed to the last one, and the engine counts exactly
  the executions and the executed lots that the generator counted.\<close>

theorem feed_verified:
  assumes "generate_feed n seed = Some st" and "n \<le> 1048576"
  shows "\<exists>ps gw. parse_all gateway_sink (parser_new (fd_buf st) (length (fd_buf st))) (gateway_new (fs_max_ref (fd_st st))) =
      Some (ps, gw) \<and> exhausted ps \<and>
    gw_trades gw = fs_execs (fd_st st) \<and> gw_traded_lots gw = fs_exec_lots (fd_st st)"
proof (rule feed_engines [OF assms])
  fix ws gw
  assume gw: "well_framed (fd_buf st) ws"
    "apply_all gateway_apply (map decode_msg ws) (gateway_new (fs_max_ref (fd_st st))) = Some gw"
    "gw_trades gw = fs_execs (fd_st st)" "gw_traded_lots gw = fs_exec_lots (fd_st st)"
  from gw(1) obtain bss where bss: "fd_buf st = concat (map frame bss)" "list_all2 (\<lambda>bs w. payload_msg bs = Some w) bss ws"
    by (auto simp: well_framed_def)
  let ?p = "parser_new (fd_buf st) (length (fd_buf st))"
  have "parse_all gateway_sink ?p (gateway_new (fs_max_ref (fd_st st))) = Some (?p\<lparr>ps_cur := ps_end ?p\<rparr>, gw)"
    by (rule parse_frames [OF bss(2), of _ "[]" "[]"]) (use bss(1) gw(2) in \<open>simp_all add: parser_new_def sink_all_gateway\<close>)
  then show ?thesis using gw(3,4) by (simp add: exhausted_def)
qed

theorem feed_verified_witness:
  "\<exists>st ps gw. generate_feed 1 7 = Some st \<and>
    parse_all gateway_sink (parser_new (fd_buf st) (length (fd_buf st))) (gateway_new (fs_max_ref (fd_st st))) = Some (ps, gw) \<and>
    exhausted ps \<and> gw_trades gw = fs_execs (fd_st st)"
proof -
  obtain st where st: "generate_feed 1 7 = Some st" using generate_one by blast
  with feed_verified [OF st] show ?thesis by auto
qed

end
