(* ===== verification/Spsc_Ring.thy ===== *)
theory Spsc_Ring
  imports Bounded_Fifo
begin

text \<open>
  \<open>include/lob/spsc_ring.hpp\<close>: the lock-free single-producer single-consumer ring. The record
  \<open>ring\<close> has the four indices (each side's own one and its cached copy of the other's) and the
  slots; a slot that was never written is \<^const>\<open>None\<close>, and reading it is undefined. The
  template parameter \<open>CapacityPow2\<close> is the number of slots.

  \<open>try_push\<close> and \<open>try_pop\<close> are the calls run alone. \<open>ring_step\<close> is the concurrent
  execution: every access to shared memory is a step of its own and the steps of the two threads
  interleave; an acquire load of the other side's index may return any value between the one
  last seen and the current one (what coherence of a monotone counter guarantees), not only the
  current one. That a slot is never written while it is read, so that the plain accesses to
  \<open>buf_\<close> do not race, is part of what is proved.
\<close>

record 'a ring =
  r_head :: u64
  r_tail_cache :: u64
  r_tail :: u64
  r_head_cache :: u64
  r_buf :: "'a option list"

definition ring_cap :: "'a ring \<Rightarrow> nat" where
  "ring_cap r = length (r_buf r)"

definition ring_new :: "nat \<Rightarrow> 'a ring" where
  "ring_new cap = \<lparr>r_head = 0, r_tail_cache = 0, r_tail = 0, r_head_cache = 0, r_buf = replicate cap None\<rparr>"

definition looks_full :: "'a ring \<Rightarrow> u64 \<Rightarrow> bool" where
  "looks_full r head \<longleftrightarrow> word_of_nat (ring_cap r) \<le> head - r_tail_cache r"

definition looks_empty :: "'a ring \<Rightarrow> u64 \<Rightarrow> bool" where
  "looks_empty r tail \<longleftrightarrow> r_head_cache r \<le> tail"

definition write_slot :: "'a ring \<Rightarrow> u64 \<Rightarrow> 'a \<Rightarrow> 'a ring option" where
  "write_slot r head item = do {
     buf \<leftarrow> aput (r_buf r) (slot_index (ring_cap r) head) (Some item);
     Some (r\<lparr>r_buf := buf\<rparr>)
   }"

definition read_slot :: "'a ring \<Rightarrow> u64 \<Rightarrow> 'a option" where
  "read_slot r tail = do {
     s \<leftarrow> aget (r_buf r) (slot_index (ring_cap r) tail);
     s
   }"

definition try_push :: "'a ring \<Rightarrow> 'a \<Rightarrow> (bool \<times> 'a ring) option" where
  "try_push r item = do {
     let head = r_head r;
     let r = (if looks_full r head then r\<lparr>r_tail_cache := r_tail r\<rparr> else r);
     if looks_full r head then Some (False, r)
     else do {
       r \<leftarrow> write_slot r head item;
       Some (True, r\<lparr>r_head := head + 1\<rparr>)
     }
   }"

definition try_pop :: "'a ring \<Rightarrow> ('a option \<times> 'a ring) option" where
  "try_pop r = do {
     let tail = r_tail r;
     let r = (if looks_empty r tail then r\<lparr>r_head_cache := r_head r\<rparr> else r);
     if looks_empty r tail then Some (None, r)
     else do {
       out \<leftarrow> read_slot r tail;
       Some (Some out, r\<lparr>r_tail := tail + 1\<rparr>)
     }
   }"

definition size_approx :: "'a ring \<Rightarrow> nat" where
  "size_approx r = unat (r_head r - r_tail r)"

section \<open>The calls run alone: a bounded FIFO\<close>

definition ring_items :: "'a ring \<Rightarrow> 'a list" where
  "ring_items r = map (\<lambda>i. the (r_buf r ! ((unat (r_tail r) + i) mod ring_cap r)))
     [0..<unat (r_head r) - unat (r_tail r)]"

definition ring_ok :: "'a ring \<Rightarrow> bool" where
  "ring_ok r \<longleftrightarrow> pow2_cap (ring_cap r) \<and> unat (r_tail_cache r) \<le> unat (r_tail r) \<and>
     unat (r_tail r) \<le> unat (r_head_cache r) \<and> unat (r_head_cache r) \<le> unat (r_head r) \<and>
     unat (r_head r) \<le> unat (r_tail_cache r) + ring_cap r \<and>
     queued (r_buf r) (unat (r_tail r)) (ring_items r)"

lemma ring_items_len [simp]: "length (ring_items r) = unat (r_head r) - unat (r_tail r)"
  by (simp add: ring_items_def)

lemma ring_items_eq:
  assumes "queued (r_buf r) (unat (r_tail r)) xs" and "length xs = unat (r_head r) - unat (r_tail r)"
  shows "ring_items r = xs"
  using assms by (auto simp: ring_items_def queued_def ring_cap_def intro!: nth_equalityI)

lemma looks_full_iff:
  assumes "pow2_cap (ring_cap r)" and "unat (r_tail_cache r) \<le> unat h"
  shows "looks_full r h \<longleftrightarrow> unat (r_tail_cache r) + ring_cap r \<le> unat h"
proof -
  have "unat (h - r_tail_cache r) = unat h - unat (r_tail_cache r)"
    using assms(2) by (simp add: unat_sub word_le_nat_alt)
  moreover have "unat (word_of_nat (ring_cap r) :: u64) = ring_cap r"
    using pow2_cap_bounds [OF assms(1)] by (simp add: unat_of_nat_small)
  ultimately show ?thesis using assms(2) by (auto simp: looks_full_def word_le_nat_alt)
qed

lemma looks_empty_iff: "looks_empty r t \<longleftrightarrow> unat (r_head_cache r) \<le> unat t"
  by (simp add: looks_empty_def word_le_nat_alt)

lemma ring_slot: "pow2_cap (ring_cap r) \<Longrightarrow> slot_index (ring_cap r) i < length (r_buf r)"
  using slot_in_range [of "ring_cap r" i] by (simp add: ring_cap_def)

lemma try_push_room:
  assumes ok: "ring_ok r" and room: "unat (r_head r) - unat (r_tail r) < ring_cap r"
    and lim: "unat (r_head r) + 1 < 2 ^ 64"
  shows "\<exists>r'. try_push r x = Some (True, r') \<and> ring_ok r' \<and> ring_cap r' = ring_cap r \<and>
    ring_items r' = ring_items r @ [x] \<and> unat (r_head r') = unat (r_head r) + 1"
proof -
  define r1 where "r1 = (if looks_full r (r_head r) then r\<lparr>r_tail_cache := r_tail r\<rparr> else r)"
  from ok have R: "pow2_cap (ring_cap r)" "unat (r_tail_cache r) \<le> unat (r_tail r)"
    "unat (r_tail r) \<le> unat (r_head_cache r)" "unat (r_head_cache r) \<le> unat (r_head r)"
    "queued (r_buf r) (unat (r_tail r)) (ring_items r)" by (simp_all add: ring_ok_def)
  have f: "r_head r1 = r_head r" "r_tail r1 = r_tail r" "r_buf r1 = r_buf r" "r_head_cache r1 = r_head_cache r"
    "ring_cap r1 = ring_cap r" by (simp_all add: r1_def ring_cap_def)
  have tc: "unat (r_tail_cache r1) \<le> unat (r_tail r)" using R(2) by (simp add: r1_def)
  have cap1: "pow2_cap (ring_cap r1)" using R(1) f(5) by simp
  have nf: "\<not> looks_full r1 (r_head r)"
  proof (cases "looks_full r (r_head r)")
    case True
    then show ?thesis using looks_full_iff [OF cap1, of "r_head r"] R room f(5) by (simp add: r1_def)
  qed (simp add: r1_def)
  then have lt: "unat (r_head r) < unat (r_tail_cache r1) + ring_cap r"
    using looks_full_iff [OF cap1, of "r_head r"] R tc f(5) by simp
  define r' where "r' = r1\<lparr>r_buf := (r_buf r)[unat (r_head r) mod ring_cap r := Some x], r_head := r_head r + 1\<rparr>"
  have run: "try_push r x = Some (True, r')"
    using nf ring_slot [OF cap1, of "r_head r"] slot_index_mod [OF cap1, of "r_head r"]
    by (simp add: try_push_def r1_def [symmetric] write_slot_def f r'_def) (simp add: Let_def)
  have len: "unat (r_tail r) + length (ring_items r) = unat (r_head r)" using R by simp
  have "length (ring_items r) < length (r_buf r)" using room by (simp add: ring_cap_def)
  from queued_snoc [OF R(5) this, of x] have "queued (r_buf r') (unat (r_tail r')) (ring_items r @ [x])"
    by (simp only: len) (simp add: r'_def f ring_cap_def)
  moreover have h: "unat (r_head r') = unat (r_head r) + 1" using unat_Suc [OF lim] by (simp add: r'_def)
  moreover from calculation have "ring_items r' = ring_items r @ [x]"
    using R by (intro ring_items_eq) (simp_all add: r'_def f Suc_diff_le)
  moreover have "ring_cap r' = ring_cap r" by (simp add: r'_def ring_cap_def f)
  ultimately show ?thesis
    using run R tc lt by (simp add: ring_ok_def r'_def f)
qed

lemma try_push_full:
  assumes ok: "ring_ok r" and full: "unat (r_head r) - unat (r_tail r) = ring_cap r"
  shows "\<exists>r'. try_push r x = Some (False, r') \<and> ring_ok r' \<and> ring_cap r' = ring_cap r \<and>
    ring_items r' = ring_items r \<and> r_head r' = r_head r"
proof -
  let ?r = "r\<lparr>r_tail_cache := r_tail r\<rparr>"
  from ok have R: "pow2_cap (ring_cap r)" "unat (r_tail_cache r) \<le> unat (r_tail r)"
    "unat (r_tail r) \<le> unat (r_head_cache r)" "unat (r_head_cache r) \<le> unat (r_head r)"
    "queued (r_buf r) (unat (r_tail r)) (ring_items r)" by (simp_all add: ring_ok_def)
  have c: "ring_cap ?r = ring_cap r" "ring_items ?r = ring_items r" by (simp_all add: ring_cap_def ring_items_def)
  have "looks_full r (r_head r)" using R full by (simp add: looks_full_iff)
  moreover have "looks_full ?r (r_head r)" using R full looks_full_iff [of ?r] c by simp
  ultimately have "try_push r x = Some (False, ?r)" by (simp add: try_push_def)
  moreover have "ring_ok ?r" using R full c by (simp add: ring_ok_def)
  ultimately show ?thesis using c by simp
qed

lemma try_pop_some:
  assumes ok: "ring_ok r" and items: "ring_items r = x # xs"
  shows "\<exists>r'. try_pop r = Some (Some x, r') \<and> ring_ok r' \<and> ring_cap r' = ring_cap r \<and>
    ring_items r' = xs \<and> r_head r' = r_head r"
proof -
  define r1 where "r1 = (if looks_empty r (r_tail r) then r\<lparr>r_head_cache := r_head r\<rparr> else r)"
  from ok have R: "pow2_cap (ring_cap r)" "unat (r_tail_cache r) \<le> unat (r_tail r)"
    "unat (r_tail r) \<le> unat (r_head_cache r)" "unat (r_head_cache r) \<le> unat (r_head r)"
    "unat (r_head r) \<le> unat (r_tail_cache r) + ring_cap r"
    "queued (r_buf r) (unat (r_tail r)) (x # xs)" using items by (simp_all add: ring_ok_def)
  have f: "r_head r1 = r_head r" "r_tail r1 = r_tail r" "r_buf r1 = r_buf r" "r_tail_cache r1 = r_tail_cache r"
    "ring_cap r1 = ring_cap r" by (simp_all add: r1_def ring_cap_def)
  have len: "unat (r_head r) - unat (r_tail r) = Suc (length xs)"
    using arg_cong [OF items, of length] by simp
  have slot: "slot_index (ring_cap r1) (r_tail r) = unat (r_tail r) mod length (r_buf r)" "r_buf r \<noteq> []"
    using slot_index_mod [of "ring_cap r1"] R(1) f(5) pow2_cap_bounds [OF R(1)] by (auto simp: ring_cap_def)
  have ne: "\<not> looks_empty r1 (r_tail r)" using len by (auto simp: r1_def looks_empty_iff)
  then have hc: "unat (r_tail r) < unat (r_head_cache r1)" "unat (r_head_cache r1) \<le> unat (r_head r)"
    using R by (auto simp: looks_empty_iff r1_def)
  define r' where "r' = r1\<lparr>r_tail := r_tail r + 1\<rparr>"
  have run: "try_pop r = Some (Some x, r')"
    using ne queued_hd [OF R(6)] slot
    by (simp add: try_pop_def r1_def [symmetric] read_slot_def f r'_def)
  have "unat (r_tail r) + 1 < 2 ^ 64" using hc unat_lt64 [of "r_head r"] by simp
  from unat_Suc [OF this] have t: "unat (r_tail r') = unat (r_tail r) + 1" by (simp add: r'_def)
  have "queued (r_buf r') (unat (r_tail r')) xs" using queued_tl [OF R(6)] t by (simp add: r'_def f)
  moreover from this have "ring_items r' = xs" using len t by (intro ring_items_eq) (simp_all add: r'_def f)
  moreover have "ring_cap r' = ring_cap r" by (simp add: r'_def ring_cap_def f)
  ultimately show ?thesis
    using run R hc t by (simp add: ring_ok_def r'_def f)
qed

lemma try_pop_none:
  assumes ok: "ring_ok r" and items: "ring_items r = []"
  shows "\<exists>r'. try_pop r = Some (None, r') \<and> ring_ok r' \<and> ring_cap r' = ring_cap r \<and>
    ring_items r' = [] \<and> r_head r' = r_head r"
proof -
  let ?r = "r\<lparr>r_head_cache := r_head r\<rparr>"
  have c: "ring_cap ?r = ring_cap r" "ring_items ?r = ring_items r" by (simp_all add: ring_cap_def ring_items_def)
  have "unat (r_head r) \<le> unat (r_tail r)" using arg_cong [OF items, of length] by simp
  with ok have "try_pop r = Some (None, ?r)" "ring_ok ?r"
    using c items by (auto simp: try_pop_def looks_empty_iff ring_ok_def Let_def)
  with c items show ?thesis by simp
qed

lemma ring_bound: "ring_ok r \<Longrightarrow> length (ring_items r) \<le> ring_cap r"
  by (auto simp: ring_ok_def)

interpretation ring: bounded_fifo ring_ok ring_cap ring_items "\<lambda>r. unat (r_head r)" try_push try_pop
proof unfold_locales
  fix r :: "'a ring" and x xs
  show "ring_ok r \<Longrightarrow> length (ring_items r) \<le> ring_cap r" by (rule ring_bound)
  show "ring_ok r \<Longrightarrow> length (ring_items r) < ring_cap r \<Longrightarrow> unat (r_head r) + 1 < 2 ^ 64 \<Longrightarrow>
    \<exists>r'. try_push r x = Some (True, r') \<and> ring_ok r' \<and> ring_cap r' = ring_cap r \<and>
      ring_items r' = ring_items r @ [x] \<and> unat (r_head r') = unat (r_head r) + 1"
    using try_push_room [of r x] by simp
  show "ring_ok r \<Longrightarrow> length (ring_items r) = ring_cap r \<Longrightarrow> \<exists>r'. try_push r x = Some (False, r') \<and>
      ring_ok r' \<and> ring_cap r' = ring_cap r \<and> ring_items r' = ring_items r \<and> unat (r_head r') = unat (r_head r)"
    using try_push_full [of r x] by fastforce
  show "ring_ok r \<Longrightarrow> ring_items r = x # xs \<Longrightarrow> \<exists>r'. try_pop r = Some (Some x, r') \<and> ring_ok r' \<and>
      ring_cap r' = ring_cap r \<and> ring_items r' = xs \<and> unat (r_head r') = unat (r_head r)"
    using try_pop_some [of r x xs] by fastforce
  show "ring_ok r \<Longrightarrow> ring_items r = [] \<Longrightarrow> \<exists>r'. try_pop r = Some (None, r') \<and> ring_ok r' \<and>
      ring_cap r' = ring_cap r \<and> ring_items r' = [] \<and> unat (r_head r') = unat (r_head r)"
    using try_pop_none [of r] by fastforce
qed

lemma ring_new_ok: "pow2_cap cap \<Longrightarrow> ring_ok (ring_new cap)" "ring_items (ring_new cap) = []"
  "ring_cap (ring_new cap) = cap" "r_head (ring_new cap) = 0"
  by (simp_all add: ring_ok_def ring_new_def ring_cap_def ring_items_def queued_def)

text \<open>The ring is a bounded FIFO: however pushes and pops are ordered, every call is memory
  safe, the items popped followed by the items still queued are the items accepted, in order,
  and no more than the capacity is ever queued (for fewer than \<open>2^64\<close> calls).\<close>

theorem ring_run_fifo:
  assumes "pow2_cap cap" and "length ops < 2 ^ 64"
  shows "\<exists>ins outs r. fifo_run try_push try_pop ops (ring_new cap) = Some (ins, outs, r) \<and>
    ins = outs @ ring_items r \<and> length (ring_items r) \<le> cap \<and> size_approx r = length (ring_items r)"
proof -
  from ring.run_fifo [OF ring_new_ok(1) [OF assms(1)], of ops] assms(2) obtain ins outs r where
    r: "fifo_run try_push try_pop ops (ring_new cap) = Some (ins, outs, r)" "ring_ok r" "ring_cap r = cap"
    "ins = outs @ ring_items r" by (auto simp: ring_new_ok(2-4))
  moreover have "size_approx r = length (ring_items r)"
    using r(2) by (simp add: size_approx_def ring_ok_def unat_sub word_le_nat_alt)
  ultimately show ?thesis using ring_bound [OF r(2)] by auto
qed

theorem ring_run_fifo_witness:
  "\<exists>r. fifo_run try_push try_pop [Some 5, None, Some 6] (ring_new 2 :: nat ring) = Some ([5, 6], [5], r)"
proof -
  have "pow2_cap 2" by (auto simp: pow2_cap_def intro: exI [of _ 1])
  from ring_run_fifo [OF this, of "[Some 5, None, Some 6 :: nat option]"] show ?thesis
    by (simp add: try_push_def try_pop_def ring_new_def looks_full_def looks_empty_def ring_cap_def
      write_slot_def read_slot_def slot_index_def)
qed

section \<open>The two threads interleaved\<close>

text \<open>Where each thread is inside its call; \<open>h\<close> and \<open>t\<close> are the index it loaded at entry.\<close>

datatype 'a producer = PIdle | PRefresh u64 'a | PWrite u64 'a | PPublish u64 'a
datatype 'a consumer = CIdle | CRefresh u64 | CRead u64 | CRelease u64 'a

text \<open>The shared ring, the two program points, and two logs: the items published by the
  producer and the items returned to the consumer.\<close>

record 'a ring_state =
  rs_ring :: "'a ring"
  rs_prod :: "'a producer"
  rs_cons :: "'a consumer"
  rs_pushed :: "'a list"
  rs_popped :: "'a list"

inductive ring_step :: "'a ring_state \<Rightarrow> 'a ring_state \<Rightarrow> bool" where
  push_call: "rs_prod s = PIdle \<Longrightarrow> h = r_head (rs_ring s) \<Longrightarrow>
    ring_step s (s\<lparr>rs_prod := (if looks_full (rs_ring s) h then PRefresh h x else PWrite h x)\<rparr>)"
| push_refresh: "rs_prod s = PRefresh h x \<Longrightarrow> r_tail_cache (rs_ring s) \<le> v \<Longrightarrow> v \<le> r_tail (rs_ring s) \<Longrightarrow>
    r = (rs_ring s)\<lparr>r_tail_cache := v\<rparr> \<Longrightarrow>
    ring_step s (s\<lparr>rs_ring := r, rs_prod := (if looks_full r h then PIdle else PWrite h x)\<rparr>)"
| push_write: "rs_prod s = PWrite h x \<Longrightarrow> write_slot (rs_ring s) h x = Some r \<Longrightarrow>
    ring_step s (s\<lparr>rs_ring := r, rs_prod := PPublish h x\<rparr>)"
| push_publish: "rs_prod s = PPublish h x \<Longrightarrow>
    ring_step s (s\<lparr>rs_ring := (rs_ring s)\<lparr>r_head := h + 1\<rparr>, rs_prod := PIdle, rs_pushed := rs_pushed s @ [x]\<rparr>)"
| pop_call: "rs_cons s = CIdle \<Longrightarrow> t = r_tail (rs_ring s) \<Longrightarrow>
    ring_step s (s\<lparr>rs_cons := (if looks_empty (rs_ring s) t then CRefresh t else CRead t)\<rparr>)"
| pop_refresh: "rs_cons s = CRefresh t \<Longrightarrow> r_head_cache (rs_ring s) \<le> v \<Longrightarrow> v \<le> r_head (rs_ring s) \<Longrightarrow>
    r = (rs_ring s)\<lparr>r_head_cache := v\<rparr> \<Longrightarrow>
    ring_step s (s\<lparr>rs_ring := r, rs_cons := (if looks_empty r t then CIdle else CRead t)\<rparr>)"
| pop_read: "rs_cons s = CRead t \<Longrightarrow> read_slot (rs_ring s) t = Some x \<Longrightarrow>
    ring_step s (s\<lparr>rs_cons := CRelease t x\<rparr>)"
| pop_release: "rs_cons s = CRelease t x \<Longrightarrow>
    ring_step s (s\<lparr>rs_ring := (rs_ring s)\<lparr>r_tail := t + 1\<rparr>, rs_cons := CIdle, rs_popped := rs_popped s @ [x]\<rparr>)"

definition ring_start :: "nat \<Rightarrow> 'a ring_state" where
  "ring_start cap = \<lparr>rs_ring = ring_new cap, rs_prod = PIdle, rs_cons = CIdle, rs_pushed = [], rs_popped = []\<rparr>"

text \<open>The invariant: the indices are the lengths of the logs, the cached copies lag behind, and
  the slots between the tail and the head hold the items published but not yet returned.\<close>

fun prod_ok :: "'a ring \<Rightarrow> nat \<Rightarrow> 'a producer \<Rightarrow> bool" where
  "prod_ok r H PIdle \<longleftrightarrow> True"
| "prod_ok r H (PRefresh h x) \<longleftrightarrow> unat h = H"
| "prod_ok r H (PWrite h x) \<longleftrightarrow> unat h = H \<and> H < unat (r_tail_cache r) + ring_cap r"
| "prod_ok r H (PPublish h x) \<longleftrightarrow> unat h = H \<and> H < unat (r_tail_cache r) + ring_cap r \<and>
     r_buf r ! (H mod ring_cap r) = Some x"

fun cons_ok :: "'a ring \<Rightarrow> 'a list \<Rightarrow> nat \<Rightarrow> 'a consumer \<Rightarrow> bool" where
  "cons_ok r xs T CIdle \<longleftrightarrow> True"
| "cons_ok r xs T (CRefresh t) \<longleftrightarrow> unat t = T"
| "cons_ok r xs T (CRead t) \<longleftrightarrow> unat t = T \<and> T < unat (r_head_cache r)"
| "cons_ok r xs T (CRelease t x) \<longleftrightarrow> unat t = T \<and> T < unat (r_head_cache r) \<and> xs ! T = x"

definition ring_state_ok :: "nat \<Rightarrow> 'a ring_state \<Rightarrow> bool" where
  "ring_state_ok cap s \<longleftrightarrow> (let r = rs_ring s; H = length (rs_pushed s); T = length (rs_popped s) in
     ring_cap r = cap \<and> unat (r_head r) = H \<and> unat (r_tail r) = T \<and>
     unat (r_tail_cache r) \<le> T \<and> T \<le> unat (r_head_cache r) \<and> unat (r_head_cache r) \<le> H \<and>
     H \<le> unat (r_tail_cache r) + cap \<and>
     rs_popped s = take T (rs_pushed s) \<and> queued (r_buf r) T (drop T (rs_pushed s)) \<and>
     prod_ok r H (rs_prod s) \<and> cons_ok r (rs_pushed s) T (rs_cons s))"

inductive ring_reach :: "nat \<Rightarrow> 'a ring_state \<Rightarrow> bool" for cap where
  start: "ring_reach cap (ring_start cap)"
| step: "ring_reach cap s \<Longrightarrow> ring_step s s' \<Longrightarrow> ring_reach cap s'"

lemma ring_cap_simps [simp]:
  "ring_cap (r\<lparr>r_tail_cache := v\<rparr>) = ring_cap r" "ring_cap (r\<lparr>r_head_cache := v\<rparr>) = ring_cap r"
  "ring_cap (r\<lparr>r_head := v\<rparr>) = ring_cap r" "ring_cap (r\<lparr>r_tail := v\<rparr>) = ring_cap r"
  by (simp_all add: ring_cap_def)

lemma write_slot_Some:
  assumes "write_slot r h x = Some r'" and "pow2_cap (ring_cap r)"
  shows "r' = r\<lparr>r_buf := (r_buf r)[unat h mod ring_cap r := Some x]\<rparr>"
  using assms(1) ring_slot [OF assms(2), of h] slot_index_mod [OF assms(2), of h]
  by (auto simp: write_slot_def)

lemma cons_ok_mono:
  assumes "cons_ok r xs T c" and "unat (r_head_cache r) \<le> unat (r_head_cache r')" and "unat (r_head_cache r) \<le> length xs"
  shows "cons_ok r' (xs @ ys) T c"
  using assms by (cases c) (auto simp: nth_append)

lemma prod_ok_mono:
  assumes "prod_ok r H p" and "unat (r_tail_cache r) \<le> unat (r_tail_cache r')" and "ring_cap r' = ring_cap r"
    and "r_buf r' = r_buf r"
  shows "prod_ok r' H p"
  using assms by (cases p) auto

lemma ring_state_okD:
  assumes "ring_state_ok cap s"
  shows "ring_cap (rs_ring s) = cap" "unat (r_head (rs_ring s)) = length (rs_pushed s)"
    "unat (r_tail (rs_ring s)) = length (rs_popped s)"
    "unat (r_tail_cache (rs_ring s)) \<le> length (rs_popped s)"
    "length (rs_popped s) \<le> unat (r_head_cache (rs_ring s))"
    "unat (r_head_cache (rs_ring s)) \<le> length (rs_pushed s)"
    "length (rs_pushed s) \<le> unat (r_tail_cache (rs_ring s)) + cap"
    "rs_popped s = take (length (rs_popped s)) (rs_pushed s)"
    "queued (r_buf (rs_ring s)) (length (rs_popped s)) (drop (length (rs_popped s)) (rs_pushed s))"
    "prod_ok (rs_ring s) (length (rs_pushed s)) (rs_prod s)"
    "cons_ok (rs_ring s) (rs_pushed s) (length (rs_popped s)) (rs_cons s)"
  using assms by (simp_all add: ring_state_ok_def Let_def)

lemma ring_write_ok:
  assumes ok: "ring_state_ok cap s" and cap: "pow2_cap cap" and p: "rs_prod s = PWrite h x"
    and w: "write_slot (rs_ring s) h x = Some r"
  shows "ring_state_ok cap (s\<lparr>rs_ring := r, rs_prod := PPublish h x\<rparr>)"
proof -
  note I = ring_state_okD [OF ok]
  let ?r = "rs_ring s" and ?H = "length (rs_pushed s)" and ?T = "length (rs_popped s)"
  from I(10) p have h: "unat h = ?H" "?H < unat (r_tail_cache ?r) + cap" by (simp_all add: I(1))
  have r: "r = ?r\<lparr>r_buf := (r_buf ?r)[?H mod cap := Some x]\<rparr>"
    using write_slot_Some [OF w] cap h I(1) by simp
  have bl: "length (r_buf ?r) = cap" using I(1) by (simp add: ring_cap_def)
  have "queued ((r_buf ?r)[?H mod cap := Some x]) ?T (drop ?T (rs_pushed s))"
    unfolding queued_def
  proof (intro allI impI)
    fix i assume i: "i < length (drop ?T (rs_pushed s))"
    then have a: "?T + i < ?H" by simp
    have b: "?H < ?T + i + cap" using h(2) I(4) by simp
    have "(?T + i) mod cap \<noteq> ?H mod cap" using slot_clash [OF _ _ b] a by auto
    with i I(9) show "(r_buf ?r)[?H mod cap := Some x] !
        ((?T + i) mod length ((r_buf ?r)[?H mod cap := Some x])) = Some (drop ?T (rs_pushed s) ! i)"
      by (simp add: queued_def bl)
  qed
  moreover have "cons_ok r (rs_pushed s) ?T (rs_cons s)"
    using cons_ok_mono [OF I(11), of r "[]"] I(6) r by simp
  moreover have "?H mod cap < cap" using pow2_cap_bounds [OF cap] by simp
  ultimately show ?thesis
    using I h by (simp add: ring_state_ok_def r ring_cap_def bl)
qed

lemma ring_publish_ok:
  assumes ok: "ring_state_ok cap s" and cap: "pow2_cap cap" and p: "rs_prod s = PPublish h x"
    and lim: "length (rs_pushed s) + 1 < 2 ^ 64"
  shows "ring_state_ok cap
    (s\<lparr>rs_ring := (rs_ring s)\<lparr>r_head := h + 1\<rparr>, rs_prod := PIdle, rs_pushed := rs_pushed s @ [x]\<rparr>)"
proof -
  note I = ring_state_okD [OF ok]
  let ?r = "rs_ring s" and ?H = "length (rs_pushed s)" and ?T = "length (rs_popped s)"
  from I(10) p have h: "unat h = ?H" "?H < unat (r_tail_cache ?r) + cap" "r_buf ?r ! (?H mod cap) = Some x"
    by (simp_all add: I(1))
  have bl: "length (r_buf ?r) = cap" using I(1) by (simp add: ring_cap_def)
  have le: "?T \<le> ?H" using I(5,6) by simp
  have "queued (r_buf ?r) ?T (drop ?T (rs_pushed s) @ [x])"
    using I(9) h(3) le by (auto simp: queued_def nth_append less_Suc_eq bl Suc_diff_le)
  moreover have "unat (h + 1) = ?H + 1" using unat_Suc [of h] lim h(1) by simp
  moreover have "cons_ok ?r (rs_pushed s @ [x]) ?T (rs_cons s)"
    using cons_ok_mono [OF I(11), of ?r "[x]"] I(6) by simp
  then have "cons_ok (?r\<lparr>r_head := h + 1\<rparr>) (rs_pushed s @ [x]) ?T (rs_cons s)"
    by (cases "rs_cons s") auto
  ultimately show ?thesis
    using I h le by (simp add: ring_state_ok_def)
qed

lemma ring_release_ok:
  assumes ok: "ring_state_ok cap s" and p: "rs_cons s = CRelease t x"
  shows "ring_state_ok cap
    (s\<lparr>rs_ring := (rs_ring s)\<lparr>r_tail := t + 1\<rparr>, rs_cons := CIdle, rs_popped := rs_popped s @ [x]\<rparr>)"
proof -
  note I = ring_state_okD [OF ok]
  let ?r = "rs_ring s" and ?T = "length (rs_popped s)"
  from I(11) p have t: "unat t = ?T" "?T < unat (r_head_cache ?r)" "rs_pushed s ! ?T = x" by simp_all
  then have lt: "?T < length (rs_pushed s)" using I(6) by simp
  have "unat t + 1 < 2 ^ 64" using t unat_lt64 [of "r_head_cache ?r"] by simp
  then have "unat (t + 1) = ?T + 1" using unat_Suc [of t] t(1) by simp
  moreover have "take (Suc ?T) (rs_pushed s) = rs_popped s @ [x]"
    using I(8) lt t(3) by (simp add: take_Suc_conv_app_nth)
  moreover have "drop ?T (rs_pushed s) = x # drop (Suc ?T) (rs_pushed s)"
    using Cons_nth_drop_Suc [OF lt] t(3) by simp
  then have "queued (r_buf ?r) (Suc ?T) (drop (Suc ?T) (rs_pushed s))" using I(9) queued_tl by metis
  moreover have "prod_ok (?r\<lparr>r_tail := t + 1\<rparr>) (length (rs_pushed s)) (rs_prod s)"
    by (rule prod_ok_mono [OF I(10)]) simp_all
  ultimately show ?thesis
    using I t by (simp add: ring_state_ok_def)
qed

lemma ring_step_ok:
  assumes "ring_step s s'" and ok: "ring_state_ok cap s" and cap: "pow2_cap cap"
    and lim: "length (rs_pushed s') < 2 ^ 64"
  shows "ring_state_ok cap s'"
  using assms(1)
proof cases
  case (push_call h x)
  note I = ring_state_okD [OF ok]
  have "r_tail_cache (rs_ring s) \<le> h" using I(2,4-6) push_call by (simp add: word_le_nat_alt)
  then have "\<not> looks_full (rs_ring s) h \<Longrightarrow> length (rs_pushed s) < unat (r_tail_cache (rs_ring s)) + cap"
    using looks_full_iff [of "rs_ring s" h] I(1,2) cap push_call by (simp add: word_le_nat_alt)
  then show ?thesis using I push_call by (simp add: ring_state_ok_def)
next
  case (push_refresh h x v r)
  note I = ring_state_okD [OF ok]
  have v: "unat (r_tail_cache (rs_ring s)) \<le> unat v" "unat v \<le> length (rs_popped s)" "unat h = length (rs_pushed s)"
    using push_refresh I(3,10) by (simp_all add: word_le_nat_alt)
  then have "\<not> looks_full r h \<Longrightarrow> length (rs_pushed s) < unat v + cap"
    using looks_full_iff [of r h] I(1,5,6) cap push_refresh by simp
  moreover have "cons_ok r (rs_pushed s) (length (rs_popped s)) (rs_cons s)"
    using cons_ok_mono [OF I(11), of r "[]"] I(6) push_refresh by simp
  ultimately show ?thesis using I v push_refresh by (simp add: ring_state_ok_def)
next
  case (push_write h x r)
  with ring_write_ok [OF ok cap] show ?thesis by simp
next
  case (push_publish h x)
  with ring_publish_ok [OF ok cap] lim show ?thesis by simp
next
  case (pop_call t)
  note I = ring_state_okD [OF ok]
  from pop_call I show ?thesis by (simp add: ring_state_ok_def looks_empty_iff)
next
  case (pop_refresh t v r)
  note I = ring_state_okD [OF ok]
  have v: "unat (r_head_cache (rs_ring s)) \<le> unat v" "unat v \<le> length (rs_pushed s)" "unat t = length (rs_popped s)"
    using pop_refresh I(2,11) by (simp_all add: word_le_nat_alt)
  moreover have "prod_ok r (length (rs_pushed s)) (rs_prod s)"
    by (rule prod_ok_mono [OF I(10)]) (simp_all add: pop_refresh)
  ultimately show ?thesis using I pop_refresh by (simp add: ring_state_ok_def looks_empty_iff)
next
  case (pop_read t x)
  note I = ring_state_okD [OF ok]
  let ?T = "length (rs_popped s)"
  from I(11) pop_read have t: "unat t = ?T" "?T < unat (r_head_cache (rs_ring s))" by simp_all
  then have lt: "?T < length (rs_pushed s)" using I(6) by simp
  have "r_buf (rs_ring s) ! (?T mod cap) = Some (rs_pushed s ! ?T)"
    using queued_next [OF I(9) lt] I(1) by (simp add: ring_cap_def)
  moreover have "slot_index (ring_cap (rs_ring s)) t = ?T mod cap" using slot_index_mod [of "ring_cap (rs_ring s)"] cap I(1) t by simp
  moreover have "?T mod cap < length (r_buf (rs_ring s))" using pow2_cap_bounds [OF cap] I(1) by (simp add: ring_cap_def)
  ultimately have "x = rs_pushed s ! ?T" using pop_read by (simp add: read_slot_def)
  then show ?thesis using I t pop_read by (simp add: ring_state_ok_def)
next
  case (pop_release t x)
  with ring_release_ok [OF ok] show ?thesis by simp
qed

lemma ring_step_grows: "ring_step s s' \<Longrightarrow> length (rs_pushed s) \<le> length (rs_pushed s')"
  by (induction rule: ring_step.induct) auto

lemma ring_reach_ok:
  assumes "ring_reach cap s" and cap: "pow2_cap cap" and "length (rs_pushed s) < 2 ^ 64"
  shows "ring_state_ok cap s"
  using assms(1,3)
proof (induction)
  case start
  show ?case by (simp add: ring_state_ok_def ring_start_def ring_new_def ring_cap_def queued_def)
next
  case (step s s')
  from step.prems ring_step_grows [OF step.hyps(2)] have "ring_state_ok cap s" by (intro step.IH) simp
  then show ?case by (rule ring_step_ok [OF step.hyps(2) _ cap step.prems])
qed

text \<open>C11. Two threads on one ring: in every interleaving of the producer's and the consumer's
  memory accesses, with either side seeing an arbitrarily stale index of the other, the items
  returned are a prefix of the items published, at most the capacity is in flight, the slot the
  consumer is about to read holds the next item due, and the producer never writes the slot
  that the consumer is reading.\<close>

theorem ring_interleaved:
  assumes "ring_reach cap s" and "pow2_cap cap" and "length (rs_pushed s) < 2 ^ 64"
  shows "rs_popped s = take (length (rs_popped s)) (rs_pushed s) \<and>
    length (rs_pushed s) \<le> length (rs_popped s) + cap \<and>
    (\<forall>t. rs_cons s = CRead t \<longrightarrow> length (rs_popped s) < length (rs_pushed s) \<and>
      read_slot (rs_ring s) t = Some (rs_pushed s ! length (rs_popped s))) \<and>
    (\<forall>h x t. rs_prod s = PWrite h x \<longrightarrow> write_slot (rs_ring s) h x \<noteq> None \<and>
      (rs_cons s = CRead t \<longrightarrow> slot_index (ring_cap (rs_ring s)) h \<noteq> slot_index (ring_cap (rs_ring s)) t))"
proof -
  have ok: "ring_state_ok cap s" by (rule ring_reach_ok) fact+
  note I = ring_state_okD [OF ok]
  have cap: "pow2_cap (ring_cap (rs_ring s))" using assms(2) I(1) by simp
  let ?T = "length (rs_popped s)" and ?H = "length (rs_pushed s)"
  have rd: "?T < ?H \<and> read_slot (rs_ring s) t = Some (rs_pushed s ! ?T)" if c: "rs_cons s = CRead t" for t
  proof -
    from I(11) c have t: "unat t = ?T" "?T < unat (r_head_cache (rs_ring s))" by simp_all
    then have lt: "?T < ?H" using I(6) by simp
    have "r_buf (rs_ring s) ! (?T mod cap) = Some (rs_pushed s ! ?T)"
      using queued_next [OF I(9) lt] I(1) by (simp add: ring_cap_def)
    with lt ring_slot [OF cap, of t] slot_index_mod [OF cap, of t] t(1) I(1) show ?thesis
      by (simp add: read_slot_def)
  qed
  have wr: "write_slot (rs_ring s) h x \<noteq> None" for h x
    using ring_slot [OF cap, of h] by (simp add: write_slot_def)
  have ne: "slot_index (ring_cap (rs_ring s)) h \<noteq> slot_index (ring_cap (rs_ring s)) t"
    if "rs_prod s = PWrite h x" "rs_cons s = CRead t" for h x t
  proof -
    have "unat h = ?H" "?H < unat (r_tail_cache (rs_ring s)) + cap" "unat t = ?T" "?T < ?H"
      using I(10,11) that rd [OF that(2)] by (simp_all add: I(1))
    with slot_clash [of ?T cap ?H] I(4) show ?thesis by (auto simp: slot_index_mod [OF assms(2)] I(1))
  qed
  have "?H \<le> ?T + cap" using I(4,7) by simp
  with I(8) rd wr ne show ?thesis by blast
qed

text \<open>A run of the two threads on a ring of two slots: one push, and the consumer at its read.\<close>

theorem ring_interleaved_witness:
  "\<exists>s. ring_reach 2 s \<and> rs_cons s = CRead 0 \<and> read_slot (rs_ring s) 0 = Some (7 :: nat)"
proof -
  have cap: "pow2_cap 2" by (auto simp: pow2_cap_def intro: exI [of _ 1])
  let ?full = "\<lparr>r_head = 1, r_tail_cache = 0, r_tail = 0, r_head_cache = 1, r_buf = [Some 7, None]\<rparr> :: nat ring"
  let ?S = "\<lambda>r p c xs. \<lparr>rs_ring = r, rs_prod = p, rs_cons = c, rs_pushed = xs, rs_popped = [] :: nat list\<rparr>"
  let ?fresh = "ring_new 2 :: nat ring"
  let ?filled = "?fresh\<lparr>r_buf := [Some 7, None]\<rparr>"
  note D = ring_new_def looks_full_def looks_empty_def ring_cap_def write_slot_def slot_index_def
  have "ring_reach 2 (?S ?fresh PIdle CIdle [])" using ring_reach.start [of 2] by (simp add: ring_start_def)
  from ring_reach.step [OF this ring_step.push_call [of _ 0 7]]
  have "ring_reach 2 (?S ?fresh (PWrite 0 7) CIdle [])" by (simp add: D)
  from ring_reach.step [OF this ring_step.push_write [of _ 0 7 ?filled]]
  have "ring_reach 2 (?S ?filled (PPublish 0 7) CIdle [])" by (simp add: D numeral_2_eq_2)
  from ring_reach.step [OF this ring_step.push_publish [of _ 0 7]]
  have "ring_reach 2 (?S (?filled\<lparr>r_head := 1\<rparr>) PIdle CIdle [7])" by simp
  from ring_reach.step [OF this ring_step.pop_call [of _ 0]]
  have "ring_reach 2 (?S (?filled\<lparr>r_head := 1\<rparr>) PIdle (CRefresh 0) [7])" by (simp add: D)
  from ring_reach.step [OF this ring_step.pop_refresh [of _ 0 1 ?full]]
  have r: "ring_reach 2 (?S ?full PIdle (CRead 0) [7])" by (simp add: D)
  from ring_interleaved [OF r cap] r show ?thesis by fastforce
qed

end
