(* ===== verification/Arena_Ring.thy ===== *)
theory Arena_Ring
  imports Spsc_Ring
begin

text \<open>
  \<open>include/lob/arena_ring.hpp\<close>: the zero-copy variant of the ring. Nothing is copied through
  the queue: \<open>try_acquire\<close> hands the producer the address of the next slot, \<open>publish\<close> makes it
  visible, \<open>try_front\<close> hands the consumer the address of the oldest published slot and
  \<open>release\<close> gives it back. An address is the index of the slot; what the bytes of a slot hold is
  a value of type \<^typ>\<open>'a\<close>, \<^const>\<open>None\<close> before the first write. Each call reads the other
  thread's index at most once, so a call is one step of the interleaving; the value it reads is
  an argument of the function, any value between the one last seen and the current one.
  The section on the copying client shows that acquiring, writing and publishing is exactly
  \<open>try_push\<close> of \<open>spsc_ring.hpp\<close>, and reading and releasing exactly \<open>try_pop\<close>.
\<close>

record 'a arena_ring =
  ar_head :: u64
  ar_head_shadow :: u64
  ar_tail_cache :: u64
  ar_tail :: u64
  ar_tail_shadow :: u64
  ar_head_cache :: u64
  ar_slots :: "'a option list"

definition arena_cap :: "'a arena_ring \<Rightarrow> nat" where
  "arena_cap r = length (ar_slots r)"

definition arena_new :: "nat \<Rightarrow> 'a arena_ring" where
  "arena_new cap = \<lparr>ar_head = 0, ar_head_shadow = 0, ar_tail_cache = 0, ar_tail = 0, ar_tail_shadow = 0,
     ar_head_cache = 0, ar_slots = replicate cap None\<rparr>"

text \<open>\<open>seen\<close> is the value that the acquire load of \<open>tail_\<close> (of \<open>head_\<close>) returns, if it is
  executed at all.\<close>

definition try_acquire :: "u64 \<Rightarrow> 'a arena_ring \<Rightarrow> nat option \<times> 'a arena_ring" where
  "try_acquire seen r =
     (if word_of_nat (arena_cap r) \<le> ar_head_shadow r - ar_tail_cache r then
        let r = r\<lparr>ar_tail_cache := seen\<rparr> in
        if word_of_nat (arena_cap r) \<le> ar_head_shadow r - ar_tail_cache r then (None, r)
        else (Some (slot_index (arena_cap r) (ar_head_shadow r)), r)
      else (Some (slot_index (arena_cap r) (ar_head_shadow r)), r))"

definition publish :: "'a arena_ring \<Rightarrow> 'a arena_ring" where
  "publish r = (let r = r\<lparr>ar_head_shadow := ar_head_shadow r + 1\<rparr> in r\<lparr>ar_head := ar_head_shadow r\<rparr>)"

definition try_front :: "u64 \<Rightarrow> 'a arena_ring \<Rightarrow> nat option \<times> 'a arena_ring" where
  "try_front seen r =
     (if ar_head_cache r \<le> ar_tail_shadow r then
        let r = r\<lparr>ar_head_cache := seen\<rparr> in
        if ar_head_cache r \<le> ar_tail_shadow r then (None, r)
        else (Some (slot_index (arena_cap r) (ar_tail_shadow r)), r)
      else (Some (slot_index (arena_cap r) (ar_tail_shadow r)), r))"

definition release :: "'a arena_ring \<Rightarrow> 'a arena_ring" where
  "release r = (let r = r\<lparr>ar_tail_shadow := ar_tail_shadow r + 1\<rparr> in r\<lparr>ar_tail := ar_tail_shadow r\<rparr>)"

definition arena_size :: "'a arena_ring \<Rightarrow> nat" where
  "arena_size r = unat (ar_head r - ar_tail r)"

text \<open>The accesses of the two owners through the pointer they were given.\<close>

definition fill_slot :: "'a arena_ring \<Rightarrow> nat \<Rightarrow> 'a \<Rightarrow> 'a arena_ring option" where
  "fill_slot r p x = do {
     slots \<leftarrow> aput (ar_slots r) p (Some x);
     Some (r\<lparr>ar_slots := slots\<rparr>)
   }"

definition view_slot :: "'a arena_ring \<Rightarrow> nat \<Rightarrow> 'a option" where
  "view_slot r p = do {
     s \<leftarrow> aget (ar_slots r) p;
     s
   }"

section \<open>A client that copies\<close>

definition arena_push :: "'a arena_ring \<Rightarrow> 'a \<Rightarrow> (bool \<times> 'a arena_ring) option" where
  "arena_push r x = (case try_acquire (ar_tail r) r of
     (None, r) \<Rightarrow> Some (False, r)
   | (Some p, r) \<Rightarrow> do {
       r \<leftarrow> fill_slot r p x;
       Some (True, publish r)
     })"

definition arena_pop :: "'a arena_ring \<Rightarrow> ('a option \<times> 'a arena_ring) option" where
  "arena_pop r = (case try_front (ar_head r) r of
     (None, r) \<Rightarrow> Some (None, r)
   | (Some p, r) \<Rightarrow> do {
       x \<leftarrow> view_slot r p;
       Some (Some x, release r)
     })"

definition as_ring :: "'a arena_ring \<Rightarrow> 'a ring" where
  "as_ring r = \<lparr>r_head = ar_head r, r_tail_cache = ar_tail_cache r, r_tail = ar_tail r,
     r_head_cache = ar_head_cache r, r_buf = ar_slots r\<rparr>"

definition shadows_ok :: "'a arena_ring \<Rightarrow> bool" where
  "shadows_ok r \<longleftrightarrow> ar_head_shadow r = ar_head r \<and> ar_tail_shadow r = ar_tail r"

lemma arena_push_ring:
  assumes "shadows_ok r"
  shows "map_option (map_prod id as_ring) (arena_push r x) = try_push (as_ring r) x"
    and "arena_push r x = Some (b, r') \<Longrightarrow> shadows_ok r'"
  using assms
  by (auto simp: arena_push_def try_acquire_def try_push_def as_ring_def looks_full_def ring_cap_def arena_cap_def
    fill_slot_def write_slot_def publish_def shadows_ok_def aput_def Let_def split: if_splits)

lemma arena_pop_ring:
  assumes "shadows_ok r"
  shows "map_option (map_prod id as_ring) (arena_pop r) = try_pop (as_ring r)"
    and "arena_pop r = Some (b, r') \<Longrightarrow> shadows_ok r'"
  using assms
  by (auto simp: arena_pop_def try_front_def try_pop_def as_ring_def looks_empty_def ring_cap_def arena_cap_def
    view_slot_def read_slot_def release_def shadows_ok_def aget_def Let_def split: if_splits bind_splits)

text \<open>The zero-copy queue used with a copy on either side is the copying queue: the same
  results and the same ring, call by call.\<close>

theorem arena_is_ring:
  assumes "shadows_ok r"
  shows "map_option (map_prod id as_ring) (arena_push r x) = try_push (as_ring r) x \<and>
    map_option (map_prod id as_ring) (arena_pop r) = try_pop (as_ring r) \<and>
    (\<forall>b r'. arena_push r x = Some (b, r') \<longrightarrow> shadows_ok r') \<and>
    (\<forall>b r'. arena_pop r = Some (b, r') \<longrightarrow> shadows_ok r')"
  using arena_push_ring [OF assms] arena_pop_ring [OF assms] by auto

theorem arena_is_ring_witness:
  "try_pop (as_ring (arena_new 4 :: nat arena_ring)) = map_option (map_prod id as_ring) (arena_pop (arena_new 4))"
proof -
  have "shadows_ok (arena_new 4 :: nat arena_ring)" by (simp add: shadows_ok_def arena_new_def)
  from arena_is_ring [OF this] show ?thesis by simp
qed

definition arena_items :: "'a arena_ring \<Rightarrow> 'a list" where
  "arena_items r = ring_items (as_ring r)"

definition arena_ok :: "'a arena_ring \<Rightarrow> bool" where
  "arena_ok r \<longleftrightarrow> shadows_ok r \<and> ring_ok (as_ring r)"

lemma arena_cap_ring: "arena_cap r = ring_cap (as_ring r)"
  by (simp add: arena_cap_def ring_cap_def as_ring_def)

lemma ar_head_ring: "ar_head r = r_head (as_ring r)"
  by (simp add: as_ring_def)

lemma map_option_prod_Some: "map_option (map_prod id f) y = Some (b, z) \<longleftrightarrow> (\<exists>w. y = Some (b, w) \<and> z = f w)"
  by (cases y) auto

interpretation aring: bounded_fifo arena_ok arena_cap arena_items "\<lambda>r. unat (ar_head r)" arena_push arena_pop
proof unfold_locales
  fix r :: "'a arena_ring" and x xs
  note P = arena_push_ring [of r x] and Q = arena_pop_ring [of r] and
    D = arena_ok_def arena_items_def arena_cap_ring ar_head_ring
  show "arena_ok r \<Longrightarrow> length (arena_items r) \<le> arena_cap r"
    using ring.bound [of "as_ring r"] by (simp add: D)
  show "arena_ok r \<Longrightarrow> length (arena_items r) < arena_cap r \<Longrightarrow> unat (ar_head r) + 1 < 2 ^ 64 \<Longrightarrow>
    \<exists>r'. arena_push r x = Some (True, r') \<and> arena_ok r' \<and> arena_cap r' = arena_cap r \<and>
      arena_items r' = arena_items r @ [x] \<and> unat (ar_head r') = unat (ar_head r) + 1"
    using ring.push_room [of "as_ring r" x] P(1) P(2) unfolding D by (metis map_option_prod_Some)
  show "arena_ok r \<Longrightarrow> length (arena_items r) = arena_cap r \<Longrightarrow> \<exists>r'. arena_push r x = Some (False, r') \<and>
      arena_ok r' \<and> arena_cap r' = arena_cap r \<and> arena_items r' = arena_items r \<and> unat (ar_head r') = unat (ar_head r)"
    using ring.push_full [of "as_ring r" x] P(1) P(2) unfolding D by (metis map_option_prod_Some)
  show "arena_ok r \<Longrightarrow> arena_items r = x # xs \<Longrightarrow> \<exists>r'. arena_pop r = Some (Some x, r') \<and> arena_ok r' \<and>
      arena_cap r' = arena_cap r \<and> arena_items r' = xs \<and> unat (ar_head r') = unat (ar_head r)"
    using ring.pop_some [of "as_ring r" x xs] Q(1) Q(2) unfolding D by (metis map_option_prod_Some)
  show "arena_ok r \<Longrightarrow> arena_items r = [] \<Longrightarrow> \<exists>r'. arena_pop r = Some (None, r') \<and> arena_ok r' \<and>
      arena_cap r' = arena_cap r \<and> arena_items r' = [] \<and> unat (ar_head r') = unat (ar_head r)"
    using ring.pop_none [of "as_ring r"] Q(1) Q(2) unfolding D by (metis map_option_prod_Some)
qed

text \<open>The zero-copy queue is a bounded FIFO for a client that copies in and out.\<close>

theorem arena_run_fifo:
  assumes "pow2_cap cap" and "length ops < 2 ^ 64"
  shows "\<exists>ins outs r. fifo_run arena_push arena_pop ops (arena_new cap) = Some (ins, outs, r) \<and>
    ins = outs @ arena_items r \<and> length (arena_items r) \<le> cap \<and> arena_size r = length (arena_items r)"
proof -
  have n: "as_ring (arena_new cap :: 'a arena_ring) = ring_new cap"
    by (simp add: as_ring_def arena_new_def ring_new_def)
  have N: "arena_ok (arena_new cap :: 'a arena_ring)" "arena_items (arena_new cap :: 'a arena_ring) = []"
    "arena_cap (arena_new cap :: 'a arena_ring) = cap" "ar_head (arena_new cap :: 'a arena_ring) = 0"
    by (simp_all add: arena_ok_def n arena_items_def arena_cap_ring ring_new_ok assms(1))
      (simp_all add: shadows_ok_def arena_new_def)
  from aring.run_fifo [OF N(1), of ops] assms(2) N obtain ins outs r where
    r: "fifo_run arena_push arena_pop ops (arena_new cap) = Some (ins, outs, r)" "arena_ok r" "arena_cap r = cap"
    "ins = outs @ arena_items r" by auto
  moreover have "arena_size r = length (arena_items r)"
    using r(2) by (simp add: arena_size_def arena_ok_def arena_items_def ring_ok_def unat_sub word_le_nat_alt as_ring_def)
  ultimately show ?thesis using aring.bound [OF r(2)] by auto
qed

theorem arena_run_fifo_witness:
  "\<exists>ins outs r. fifo_run arena_push arena_pop [Some 5, None] (arena_new 2 :: nat arena_ring) = Some (ins, outs, r)
    \<and> ins = outs @ arena_items r"
proof -
  have "pow2_cap 2" by (auto simp: pow2_cap_def intro: exI [of _ 1])
  from arena_run_fifo [OF this, of "[Some 5, None :: nat option]"] show ?thesis by auto
qed

section \<open>The two threads interleaved\<close>

text \<open>The slot the producer holds, with what it has written into it; the slot the consumer
  holds; the items published and the items whose slot was released.\<close>

record 'a arena_state =
  st_arena :: "'a arena_ring"
  st_prod :: "(nat \<times> 'a option) option"
  st_cons :: "nat option"
  st_pushed :: "'a list"
  st_popped :: "'a list"

inductive arena_step :: "'a arena_state \<Rightarrow> 'a arena_state \<Rightarrow> bool" where
  acquires: "st_prod s = None \<Longrightarrow> ar_tail_cache (st_arena s) \<le> v \<Longrightarrow> v \<le> ar_tail (st_arena s) \<Longrightarrow>
    try_acquire v (st_arena s) = (p, r) \<Longrightarrow>
    arena_step s (s\<lparr>st_arena := r, st_prod := map_option (\<lambda>p. (p, None)) p\<rparr>)"
| fills: "st_prod s = Some (p, y) \<Longrightarrow> fill_slot (st_arena s) p x = Some r \<Longrightarrow>
    arena_step s (s\<lparr>st_arena := r, st_prod := Some (p, Some x)\<rparr>)"
| publishes: "st_prod s = Some (p, Some x) \<Longrightarrow>
    arena_step s (s\<lparr>st_arena := publish (st_arena s), st_prod := None, st_pushed := st_pushed s @ [x]\<rparr>)"
| fronts: "st_cons s = None \<Longrightarrow> ar_head_cache (st_arena s) \<le> v \<Longrightarrow> v \<le> ar_head (st_arena s) \<Longrightarrow>
    try_front v (st_arena s) = (q, r) \<Longrightarrow> arena_step s (s\<lparr>st_arena := r, st_cons := q\<rparr>)"
| releases: "st_cons s = Some q \<Longrightarrow> view_slot (st_arena s) q = Some x \<Longrightarrow>
    arena_step s (s\<lparr>st_arena := release (st_arena s), st_cons := None, st_popped := st_popped s @ [x]\<rparr>)"

inductive arena_reach :: "nat \<Rightarrow> 'a arena_state \<Rightarrow> bool" for cap where
  start: "arena_reach cap \<lparr>st_arena = arena_new cap, st_prod = None, st_cons = None, st_pushed = [], st_popped = []\<rparr>"
| step: "arena_reach cap s \<Longrightarrow> arena_step s s' \<Longrightarrow> arena_reach cap s'"

definition arena_state_ok :: "nat \<Rightarrow> 'a arena_state \<Rightarrow> bool" where
  "arena_state_ok cap s \<longleftrightarrow> (let r = st_arena s; H = length (st_pushed s); T = length (st_popped s) in
     length (ar_slots r) = cap \<and> shadows_ok r \<and> unat (ar_head r) = H \<and> unat (ar_tail r) = T \<and>
     unat (ar_tail_cache r) \<le> T \<and> T \<le> unat (ar_head_cache r) \<and> unat (ar_head_cache r) \<le> H \<and>
     H \<le> unat (ar_tail_cache r) + cap \<and>
     st_popped s = take T (st_pushed s) \<and> queued (ar_slots r) T (drop T (st_pushed s)) \<and>
     (\<forall>p y. st_prod s = Some (p, y) \<longrightarrow> p = H mod cap \<and> H < unat (ar_tail_cache r) + cap \<and>
        (\<forall>x. y = Some x \<longrightarrow> ar_slots r ! p = Some x)) \<and>
     (\<forall>q. st_cons s = Some q \<longrightarrow> q = T mod cap \<and> T < unat (ar_head_cache r)))"

lemma arena_state_okD:
  assumes "arena_state_ok cap s"
  shows "length (ar_slots (st_arena s)) = cap" "shadows_ok (st_arena s)"
    "unat (ar_head (st_arena s)) = length (st_pushed s)" "unat (ar_tail (st_arena s)) = length (st_popped s)"
    "unat (ar_tail_cache (st_arena s)) \<le> length (st_popped s)"
    "length (st_popped s) \<le> unat (ar_head_cache (st_arena s))"
    "unat (ar_head_cache (st_arena s)) \<le> length (st_pushed s)"
    "length (st_pushed s) \<le> unat (ar_tail_cache (st_arena s)) + cap"
    "st_popped s = take (length (st_popped s)) (st_pushed s)"
    "queued (ar_slots (st_arena s)) (length (st_popped s)) (drop (length (st_popped s)) (st_pushed s))"
    "st_prod s = Some (p, y) \<Longrightarrow> p = length (st_pushed s) mod cap \<and>
       length (st_pushed s) < unat (ar_tail_cache (st_arena s)) + cap \<and> (\<forall>x. y = Some x \<longrightarrow> ar_slots (st_arena s) ! p = Some x)"
    "st_cons s = Some q \<Longrightarrow> q = length (st_popped s) mod cap \<and> length (st_popped s) < unat (ar_head_cache (st_arena s))"
  using assms unfolding arena_state_ok_def Let_def by blast+

lemma try_acquire_cases:
  assumes "try_acquire v r = (p, r')" and cap: "pow2_cap (arena_cap r)" and sh: "shadows_ok r"
    and le: "ar_tail_cache r \<le> v" "unat v \<le> unat (ar_head r)"
  obtains tc where "r' = r\<lparr>ar_tail_cache := tc\<rparr>" "ar_tail_cache r \<le> tc" "tc \<le> v"
    "p = (if unat (ar_head r) < unat tc + arena_cap r then Some (unat (ar_head r) mod arena_cap r) else None)"
proof -
  have full: "word_of_nat (arena_cap r) \<le> ar_head r - tc \<longleftrightarrow> unat tc + arena_cap r \<le> unat (ar_head r)"
    if "unat tc \<le> unat (ar_head r)" for tc
    using looks_full_iff [of "as_ring (r\<lparr>ar_tail_cache := tc\<rparr>)" "ar_head r"] cap that
    by (simp add: as_ring_def looks_full_def ring_cap_def arena_cap_def)
  have tc: "unat (ar_tail_cache r) \<le> unat (ar_head r)" using le by (simp add: word_le_nat_alt)
  show ?thesis
  proof (cases "unat (ar_tail_cache r) + arena_cap r \<le> unat (ar_head r)")
    case True
    with assms full [OF tc] full [OF le(2)] show ?thesis
      by (intro that [of v]) (auto simp: try_acquire_def shadows_ok_def slot_index_mod [OF cap [unfolded arena_cap_def]] arena_cap_def Let_def not_le
        split: if_splits)
  next
    case False
    with assms full [OF tc] show ?thesis
      by (intro that [of "ar_tail_cache r"]) (auto simp: try_acquire_def shadows_ok_def slot_index_mod [OF cap])
  qed
qed

lemma try_front_cases:
  assumes "try_front v r = (q, r')" and cap: "pow2_cap (arena_cap r)" and sh: "shadows_ok r"
    and le: "ar_head_cache r \<le> v"
  obtains hc where "r' = r\<lparr>ar_head_cache := hc\<rparr>" "ar_head_cache r \<le> hc" "hc \<le> v"
    "q = (if unat (ar_tail r) < unat hc then Some (unat (ar_tail r) mod arena_cap r) else None)"
proof (cases "ar_head_cache r \<le> ar_tail r")
  case True
  with assms show ?thesis
    by (intro that [of v]) (auto simp: try_front_def shadows_ok_def slot_index_mod [OF cap [unfolded arena_cap_def]] arena_cap_def Let_def
      word_le_nat_alt split: if_splits)
next
  case False
  with assms show ?thesis
    by (intro that [of "ar_head_cache r"]) (auto simp: try_front_def shadows_ok_def slot_index_mod [OF cap] word_le_nat_alt)
qed

lemma arena_view:
  assumes "arena_state_ok cap s" and "pow2_cap cap" and "st_cons s = Some q"
  shows "length (st_popped s) < length (st_pushed s)"
    and "view_slot (st_arena s) q = Some (st_pushed s ! length (st_popped s))"
proof -
  note I = arena_state_okD [OF assms(1)]
  note q = I(12) [OF assms(3)]
  from q I(7) show lt: "length (st_popped s) < length (st_pushed s)" by simp
  have "length (st_popped s) mod cap < cap" using pow2_cap_bounds [OF assms(2)] by simp
  with q queued_next [OF I(10) lt] I(1) show "view_slot (st_arena s) q = Some (st_pushed s ! length (st_popped s))"
    by (simp add: view_slot_def)
qed

lemma arena_fill_ok:
  assumes ok: "arena_state_ok cap s" and cap: "pow2_cap cap" and p: "st_prod s = Some (p, y)"
    and w: "fill_slot (st_arena s) p x = Some r"
  shows "arena_state_ok cap (s\<lparr>st_arena := r, st_prod := Some (p, Some x)\<rparr>)"
proof -
  note I = arena_state_okD [OF ok]
  let ?r = "st_arena s" and ?H = "length (st_pushed s)" and ?T = "length (st_popped s)"
  note h = I(11) [OF p]
  have pc: "p < cap" using pow2_cap_bounds [OF cap] h by simp
  have r: "r = ?r\<lparr>ar_slots := (ar_slots ?r)[p := Some x]\<rparr>" using w pc I(1) by (simp add: fill_slot_def)
  have "(ar_slots ?r)[p := Some x] ! ((?T + i) mod cap) = Some (st_pushed s ! (?T + i))" if i: "?T + i < ?H" for i
  proof -
    have b: "?H < ?T + i + cap" using h I(5) by simp
    have "(?T + i) mod cap \<noteq> p" using slot_clash [OF _ _ b] i h by auto
    with i I(10) show ?thesis by (simp add: queued_def I(1))
  qed
  then have "queued ((ar_slots ?r)[p := Some x]) ?T (drop ?T (st_pushed s))" by (auto simp: queued_def I(1))
  with I h pc show ?thesis by (auto simp: arena_state_ok_def r shadows_ok_def)
qed

lemma arena_publish_ok:
  assumes ok: "arena_state_ok cap s" and p: "st_prod s = Some (p, Some x)" and lim: "length (st_pushed s) + 1 < 2 ^ 64"
  shows "arena_state_ok cap (s\<lparr>st_arena := publish (st_arena s), st_prod := None, st_pushed := st_pushed s @ [x]\<rparr>)"
proof -
  note I = arena_state_okD [OF ok]
  let ?r = "st_arena s" and ?H = "length (st_pushed s)" and ?T = "length (st_popped s)"
  note h = I(11) [OF p]
  have le: "?T \<le> ?H" using I(6,7) by simp
  have "queued (ar_slots ?r) ?T (drop ?T (st_pushed s) @ [x])"
    using I(10) h le by (auto simp: queued_def nth_append less_Suc_eq I(1) Suc_diff_le)
  moreover have "unat (ar_head ?r + 1) = ?H + 1" using unat_Suc [of "ar_head ?r"] lim I(3) by simp
  ultimately show ?thesis
    using I h le by (auto simp: arena_state_ok_def publish_def shadows_ok_def)
qed

lemma arena_release_ok:
  assumes ok: "arena_state_ok cap s" and cap: "pow2_cap cap" and q: "st_cons s = Some q"
    and x: "view_slot (st_arena s) q = Some x"
  shows "arena_state_ok cap (s\<lparr>st_arena := release (st_arena s), st_cons := None, st_popped := st_popped s @ [x]\<rparr>)"
proof -
  note I = arena_state_okD [OF ok]
  let ?r = "st_arena s" and ?T = "length (st_popped s)"
  note t = I(12) [OF q]
  note lt = arena_view(1) [OF ok cap q]
  have xe: "x = st_pushed s ! ?T" using arena_view(2) [OF ok cap q] x by simp
  have "unat (ar_tail ?r) + 1 < 2 ^ 64" using t I(4) unat_lt64 [of "ar_head_cache ?r"] by simp
  then have "unat (ar_tail ?r + 1) = ?T + 1" using unat_Suc [of "ar_tail ?r"] I(4) by simp
  moreover have "take (Suc ?T) (st_pushed s) = st_popped s @ [x]"
    using I(9) lt xe by (simp add: take_Suc_conv_app_nth)
  moreover have "queued (ar_slots ?r) (Suc ?T) (drop (Suc ?T) (st_pushed s))"
    using I(10) queued_tl Cons_nth_drop_Suc [OF lt] by metis
  ultimately show ?thesis
    using I t by (auto simp: arena_state_ok_def release_def shadows_ok_def)
qed

lemma arena_step_ok:
  assumes "arena_step s s'" and ok: "arena_state_ok cap s" and cap: "pow2_cap cap"
    and lim: "length (st_pushed s') < 2 ^ 64"
  shows "arena_state_ok cap s'"
  using assms(1)
proof cases
  case (acquires v p r)
  note I = arena_state_okD [OF ok]
  have le: "unat v \<le> unat (ar_head (st_arena s))" "unat v \<le> length (st_popped s)"
    using acquires I(3-7) by (simp_all add: word_le_nat_alt)
  show ?thesis
  proof (rule try_acquire_cases [OF acquires(5) _ I(2) acquires(3) le(1)])
    fix tc assume "r = (st_arena s)\<lparr>ar_tail_cache := tc\<rparr>" "ar_tail_cache (st_arena s) \<le> tc" "tc \<le> v"
      "p = (if unat (ar_head (st_arena s)) < unat tc + arena_cap (st_arena s)
            then Some (unat (ar_head (st_arena s)) mod arena_cap (st_arena s)) else None)"
    with I le acquires(1) show ?thesis
      by (auto simp: arena_state_ok_def shadows_ok_def arena_cap_def word_le_nat_alt)
  qed (use cap I(1) in \<open>simp add: arena_cap_def\<close>)
next
  case (fills p y x r)
  with arena_fill_ok [OF ok cap] show ?thesis by simp
next
  case (publishes p x)
  with arena_publish_ok [OF ok] lim show ?thesis by simp
next
  case (fronts v q r)
  note I = arena_state_okD [OF ok]
  have le: "unat v \<le> length (st_pushed s)" using fronts I(3) by (simp add: word_le_nat_alt)
  show ?thesis
  proof (rule try_front_cases [OF fronts(5) _ I(2) fronts(3)])
    fix hc assume "r = (st_arena s)\<lparr>ar_head_cache := hc\<rparr>" "ar_head_cache (st_arena s) \<le> hc" "hc \<le> v"
      "q = (if unat (ar_tail (st_arena s)) < unat hc
            then Some (unat (ar_tail (st_arena s)) mod arena_cap (st_arena s)) else None)"
    with I le fronts(1) show ?thesis
      by (auto simp: arena_state_ok_def shadows_ok_def arena_cap_def word_le_nat_alt)
  qed (use cap I(1) in \<open>simp add: arena_cap_def\<close>)
next
  case (releases q x)
  with arena_release_ok [OF ok cap] show ?thesis by simp
qed

lemma arena_step_grows: "arena_step s s' \<Longrightarrow> length (st_pushed s) \<le> length (st_pushed s')"
  by (induction rule: arena_step.induct) auto

lemma arena_reach_ok:
  assumes "arena_reach cap s" and cap: "pow2_cap cap" and "length (st_pushed s) < 2 ^ 64"
  shows "arena_state_ok cap s"
  using assms(1,3)
proof (induction)
  case start
  show ?case by (simp add: arena_state_ok_def arena_new_def shadows_ok_def queued_def)
next
  case (step s s')
  from step.prems arena_step_grows [OF step.hyps(2)] have "arena_state_ok cap s" by (intro step.IH) simp
  then show ?case by (rule arena_step_ok [OF step.hyps(2) _ cap step.prems])
qed

text \<open>C12. Zero-copy safety: in every interleaving, as long as the consumer holds the slot it was
  given, that slot holds the bytes published for the item that is next in order and is not the
  slot the producer holds, so nothing overwrites it until \<open>release\<close>; the items consumed are a
  prefix of the items published, and at most the capacity is in flight.\<close>

theorem arena_zero_copy:
  assumes "arena_reach cap s" and "pow2_cap cap" and "length (st_pushed s) < 2 ^ 64"
  shows "st_popped s = take (length (st_popped s)) (st_pushed s) \<and>
    length (st_pushed s) \<le> length (st_popped s) + cap \<and>
    (\<forall>q. st_cons s = Some q \<longrightarrow> length (st_popped s) < length (st_pushed s) \<and>
      view_slot (st_arena s) q = Some (st_pushed s ! length (st_popped s))) \<and>
    (\<forall>p y q. st_prod s = Some (p, y) \<longrightarrow> p < cap \<and> st_cons s \<noteq> Some p)"
proof -
  have ok: "arena_state_ok cap s" by (rule arena_reach_ok) fact+
  note I = arena_state_okD [OF ok]
  have "st_cons s \<noteq> Some p" if p: "st_prod s = Some (p, y)" for p y
  proof
    assume c: "st_cons s = Some p"
    note h = I(11) [OF p] and t = I(12) [OF c] and lt = arena_view(1) [OF ok assms(2) c]
    have b: "length (st_pushed s) < length (st_popped s) + cap" using h I(5) by simp
    from slot_clash [OF _ _ b] h t lt show False by simp
  qed
  moreover have "p < cap" if "st_prod s = Some (p, y)" for p y
    using I(11) [OF that] pow2_cap_bounds [OF assms(2)] by simp
  moreover have "length (st_pushed s) \<le> length (st_popped s) + cap" using I(5,8) by simp
  ultimately show ?thesis using I(9) arena_view [OF ok assms(2)] by blast
qed

theorem arena_zero_copy_witness:
  "\<exists>s. arena_reach 2 s \<and> st_prod s = Some (0, None :: nat option) \<and> st_cons s \<noteq> Some 0"
proof -
  have cap: "pow2_cap 2" by (auto simp: pow2_cap_def intro: exI [of _ 1])
  let ?s = "\<lparr>st_arena = arena_new 2, st_prod = None, st_cons = None, st_pushed = [], st_popped = [] :: nat list\<rparr>"
  have a: "try_acquire 0 (arena_new 2 :: nat arena_ring) = (Some 0, arena_new 2)"
    by (simp add: try_acquire_def arena_new_def arena_cap_def slot_index_def)
  from arena_reach.step [OF arena_reach.start [of 2] arena_step.acquires [of ?s 0 "Some 0" "arena_new 2"]] a
  have r: "arena_reach 2 (?s\<lparr>st_prod := Some (0, None)\<rparr>)" by (simp add: arena_new_def)
  from arena_zero_copy [OF r cap] r show ?thesis by fastforce
qed

end
