(* ===== verification/Pipeline.thy ===== *)
theory Pipeline
  imports Session Arena_Ring
begin

text \<open>
  The threaded pipelines of the benchmarks: a producer thread walks the feed and hands items
  to a queue, the main thread takes them out and applies them to the gateway.
  \<open>bench_itch_pipeline.cpp\<close> and \<open>run_copy\<close> of \<open>bench_zero_copy.cpp\<close> parse on the producer and
  send messages through the copying ring; \<open>run_arena\<close> of \<open>bench_zero_copy.cpp\<close> and
  \<open>run_session\<close> of \<open>bench_flat_hash.cpp\<close> land raw frames in the arena ring and parse them in
  place on the engine side.

  A turn of a thread is one pass of its innermost loop: one attempt of the spinning push, or
  the parsing of the next item; one attempt of the pop with the application of what it
  returned. A schedule is any sequence of turns. The locale \<open>pipeline\<close> extends the contract of
  the queue by a source of items and an engine; the lemmas in it say that no schedule loses,
  duplicates or reorders an item and that alternating turns finish. Pacing and time stamps are
  not modelled.
\<close>

record ('p, 'a, 'q, 'g) pipe =
  pi_src :: 'p
  pi_pending :: "'a option"
  pi_queue :: 'q
  pi_done :: nat
  pi_eng :: 'g

definition producer_turn :: "('p \<Rightarrow> ('a option \<times> 'p) option) \<Rightarrow> ('q \<Rightarrow> 'a \<Rightarrow> (bool \<times> 'q) option) \<Rightarrow>
    ('p, 'a, 'q, 'g) pipe \<Rightarrow> ('p, 'a, 'q, 'g) pipe option" where
  "producer_turn src push st = (case pi_pending st of
     Some x \<Rightarrow> do {
       (r, q) \<leftarrow> push (pi_queue st) x;
       Some (st\<lparr>pi_queue := q, pi_pending := (if r then None else Some x)\<rparr>)
     }
   | None \<Rightarrow> do {
       (x, p) \<leftarrow> src (pi_src st);
       Some (st\<lparr>pi_src := p, pi_pending := x\<rparr>)
     })"

definition consumer_turn :: "nat \<Rightarrow> ('q \<Rightarrow> ('a option \<times> 'q) option) \<Rightarrow> ('a \<Rightarrow> 'g \<Rightarrow> 'g option) \<Rightarrow>
    ('p, 'a, 'q, 'g) pipe \<Rightarrow> ('p, 'a, 'q, 'g) pipe option" where
  "consumer_turn n pop app st =
     (if pi_done st < n then do {
        (r, q) \<leftarrow> pop (pi_queue st);
        case r of
          None \<Rightarrow> Some (st\<lparr>pi_queue := q\<rparr>)
        | Some x \<Rightarrow> do {
            g \<leftarrow> app x (pi_eng st);
            Some (st\<lparr>pi_queue := q, pi_done := pi_done st + 1, pi_eng := g\<rparr>)
          }
      }
      else Some st)"

fun pipe_run :: "nat \<Rightarrow> ('p \<Rightarrow> ('a option \<times> 'p) option) \<Rightarrow> ('q \<Rightarrow> 'a \<Rightarrow> (bool \<times> 'q) option) \<Rightarrow>
    ('q \<Rightarrow> ('a option \<times> 'q) option) \<Rightarrow> ('a \<Rightarrow> 'g \<Rightarrow> 'g option) \<Rightarrow> bool list \<Rightarrow>
    ('p, 'a, 'q, 'g) pipe \<Rightarrow> ('p, 'a, 'q, 'g) pipe option" where
  "pipe_run n src push pop app [] st = Some st"
| "pipe_run n src push pop app (t # ts) st =
     (if t then producer_turn src push st else consumer_turn n pop app st) \<bind> pipe_run n src push pop app ts"

fun apply_items :: "('a \<Rightarrow> 'g \<Rightarrow> 'g option) \<Rightarrow> 'a list \<Rightarrow> 'g \<Rightarrow> 'g option" where
  "apply_items app [] g = Some g"
| "apply_items app (x # xs) g = app x g \<bind> apply_items app xs"

lemma apply_items_append: "apply_items app (xs @ ys) g = apply_items app xs g \<bind> apply_items app ys"
  by (induction xs arbitrary: g) (auto split: bind_splits)

lemma pipe_run_append: "pipe_run n src push pop app (ts @ us) st = pipe_run n src push pop app ts st \<bind> pipe_run n src push pop app us"
  by (induction ts arbitrary: st) (auto split: bind_splits)

locale pipeline = bounded_fifo ok cap contents sent push pop
  for ok :: "'q \<Rightarrow> bool" and cap :: "'q \<Rightarrow> nat" and contents :: "'q \<Rightarrow> 'a list" and sent :: "'q \<Rightarrow> nat"
    and push :: "'q \<Rightarrow> 'a \<Rightarrow> (bool \<times> 'q) option" and pop :: "'q \<Rightarrow> ('a option \<times> 'q) option" +
  fixes src :: "'p \<Rightarrow> ('a option \<times> 'p) option" and emits :: "'p \<Rightarrow> 'a list \<Rightarrow> bool" and app :: "'a \<Rightarrow> 'g \<Rightarrow> 'g option"
  assumes src_some: "emits p (x # xs) \<Longrightarrow> \<exists>p'. src p = Some (Some x, p') \<and> emits p' xs"
    and src_none: "emits p [] \<Longrightarrow> \<exists>p'. src p = Some (None, p') \<and> emits p' []"
    and cap_pos: "ok q \<Longrightarrow> 0 < cap q"
begin

text \<open>Every item is applied, queued, pending or still in the source, in this order.\<close>

definition pipe_inv :: "'a list \<Rightarrow> 'g \<Rightarrow> ('p, 'a, 'q, 'g) pipe \<Rightarrow> 'a list \<Rightarrow> bool" where
  "pipe_inv xs g0 st left \<longleftrightarrow> ok (pi_queue st) \<and> emits (pi_src st) left \<and>
     xs = take (pi_done st) xs @ contents (pi_queue st) @ (case pi_pending st of None \<Rightarrow> [] | Some x \<Rightarrow> [x]) @ left \<and>
     pi_done st \<le> length xs \<and> apply_items app (take (pi_done st) xs) g0 = Some (pi_eng st) \<and>
     sent (pi_queue st) + (case pi_pending st of None \<Rightarrow> 0 | Some x \<Rightarrow> 1) + length left < 2 ^ 64"

text \<open>The work left: an item takes a turn to parse, one to push and one to apply.\<close>

definition work :: "'a list \<Rightarrow> ('p, 'a, 'q, 'g) pipe \<Rightarrow> 'a list \<Rightarrow> nat" where
  "work xs st left = 3 * length left + (case pi_pending st of None \<Rightarrow> 0 | Some x \<Rightarrow> 2) + length (contents (pi_queue st))"

text \<open>What the counter of the queue has reached or will reach.\<close>

definition load :: "('p, 'a, 'q, 'g) pipe \<Rightarrow> 'a list \<Rightarrow> nat" where
  "load st left = sent (pi_queue st) + (case pi_pending st of None \<Rightarrow> 0 | Some x \<Rightarrow> 1) + length left"

lemma producer_inv:
  assumes inv: "pipe_inv xs g0 st left"
  obtains st' left' where "producer_turn src push st = Some st'" and "pipe_inv xs g0 st' left'"
    and "work xs st' left' \<le> work xs st left"
    and "work xs st' left' < work xs st left \<or> contents (pi_queue st) \<noteq> [] \<or> work xs st left = 0"
    and "contents (pi_queue st) \<noteq> [] \<Longrightarrow> contents (pi_queue st') \<noteq> []" and "load st' left' = load st left"
    and "left' = (if pi_pending st = None then tl left else left)"
proof (cases "pi_pending st")
  case None
  show ?thesis
  proof (cases left)
    case Nil
    with inv src_none [of "pi_src st"] obtain p where p: "src (pi_src st) = Some (None, p)" "emits p []"
      by (auto simp: pipe_inv_def)
    show ?thesis
      by (rule that [of "st\<lparr>pi_src := p, pi_pending := None\<rparr>" "[]"])
        (use p None Nil inv in \<open>auto simp: producer_turn_def pipe_inv_def work_def load_def\<close>)
  next
    case (Cons x ys)
    with inv src_some [of "pi_src st" x ys] obtain p where p: "src (pi_src st) = Some (Some x, p)" "emits p ys"
      by (auto simp: pipe_inv_def)
    show ?thesis
      by (rule that [of "st\<lparr>pi_src := p, pi_pending := Some x\<rparr>" ys])
        (use p None Cons inv in \<open>auto simp: producer_turn_def pipe_inv_def work_def load_def\<close>)
  qed
next
  case (Some x)
  from inv have ok: "ok (pi_queue st)" and s: "sent (pi_queue st) + 1 < 2 ^ 64"
    using Some by (simp_all add: pipe_inv_def)
  show ?thesis
  proof (rule push_cases [OF ok s, of x])
    fix r q
    assume q: "push (pi_queue st) x = Some (r, q)" "ok q" "r \<longleftrightarrow> length (contents (pi_queue st)) < cap (pi_queue st)"
      "contents q = (if r then contents (pi_queue st) @ [x] else contents (pi_queue st))"
      "sent q = (if r then sent (pi_queue st) + 1 else sent (pi_queue st))"
    have "\<not> r \<Longrightarrow> contents (pi_queue st) \<noteq> []" using q(3) cap_pos [OF ok] by auto
    then show ?thesis
      using q Some inv
      by (intro that [of "st\<lparr>pi_queue := q, pi_pending := (if r then None else Some x)\<rparr>" left])
        (auto simp: producer_turn_def pipe_inv_def work_def load_def)
  qed
qed

lemma consumer_inv:
  assumes inv: "pipe_inv xs g0 st left" and n: "length xs \<le> n" and fin: "apply_items app xs g0 \<noteq> None"
  obtains st' where "consumer_turn n pop app st = Some st'" and "pipe_inv xs g0 st' left"
    and "work xs st' left \<le> work xs st left"
    and "contents (pi_queue st) \<noteq> [] \<Longrightarrow> work xs st' left < work xs st left" and "load st' left = load st left"
proof (cases "pi_done st < n")
  case False
  with inv n have "pi_done st = length xs" by (simp add: pipe_inv_def)
  with inv have "contents (pi_queue st) = []" by (simp add: pipe_inv_def)
  with False inv that [of st] show ?thesis by (simp add: consumer_turn_def)
next
  case True
  from inv have ok: "ok (pi_queue st)" by (simp add: pipe_inv_def)
  show ?thesis
  proof (cases rule: pop_cases [OF ok])
    case (1 q)
    with True inv show ?thesis
      by (intro that [of "st\<lparr>pi_queue := q\<rparr>"]) (auto simp: consumer_turn_def pipe_inv_def work_def load_def)
  next
    case (2 x q)
    let ?d = "pi_done st"
    let ?tl = "contents q @ (case pi_pending st of None \<Rightarrow> [] | Some x \<Rightarrow> [x]) @ left"
    from inv 2(1) have xs: "xs = take ?d xs @ x # ?tl" and d: "?d \<le> length xs" by (simp_all add: pipe_inv_def)
    from d have l: "length (take ?d xs) = ?d" by simp
    have lt: "?d < length xs" using arg_cong [OF xs, of length] d by simp
    have drop: "drop ?d xs = x # ?tl" using arg_cong [OF xs, of "drop ?d"] l by simp
    then have t1: "take (Suc ?d) xs = take ?d xs @ [x]" by (metis lt drop take_Suc_conv_app_nth nth_via_drop)
    have run: "apply_items app (take ?d xs) g0 = Some (pi_eng st)" using inv by (simp add: pipe_inv_def)
    have "apply_items app xs g0 = (do { g \<leftarrow> app x (pi_eng st); apply_items app ?tl g })"
      by (subst xs) (simp only: apply_items_append run apply_items.simps bind.bind_lunit)
    with fin obtain g where g: "app x (pi_eng st) = Some g" by (cases "app x (pi_eng st)") auto
    have "apply_items app (take (Suc ?d) xs) g0 = Some g" by (simp add: t1 apply_items_append run g)
    moreover have "xs = take (Suc ?d) xs @ ?tl" using xs t1 by simp
    ultimately show ?thesis
      using True 2 g lt inv
      by (intro that [of "st\<lparr>pi_queue := q, pi_done := Suc ?d, pi_eng := g\<rparr>"])
        (auto simp: consumer_turn_def pipe_inv_def work_def load_def)
  qed
qed

lemma run_inv:
  assumes "pipe_inv xs g0 st left" and "length xs \<le> n" and "apply_items app xs g0 \<noteq> None"
  shows "\<exists>st' left'. pipe_run n src push pop app ts st = Some st' \<and> pipe_inv xs g0 st' left' \<and> load st' left' = load st left"
  using assms
proof (induction ts arbitrary: st left)
  case (Cons t ts)
  show ?case
  proof (cases t)
    case True
    show ?thesis
      by (rule producer_inv [OF Cons.prems(1)]) (use Cons.IH Cons.prems(2,3) True in fastforce)
  next
    case False
    show ?thesis
      by (rule consumer_inv [OF Cons.prems]) (use Cons.IH Cons.prems(2,3) False in fastforce)
  qed
qed auto

text \<open>One round gives each thread a turn; while there is work left, it does some.\<close>

lemma round_progress:
  assumes inv: "pipe_inv xs g0 st left" and n: "length xs \<le> n" and fin: "apply_items app xs g0 \<noteq> None"
  obtains st' left' where "pipe_run n src push pop app [True, False] st = Some st'" and "pipe_inv xs g0 st' left'"
    and "work xs st' left' \<le> work xs st left - 1"
proof (rule producer_inv [OF inv])
  fix st1 left1
  assume p: "producer_turn src push st = Some st1" "pipe_inv xs g0 st1 left1"
    "work xs st1 left1 \<le> work xs st left"
    "work xs st1 left1 < work xs st left \<or> contents (pi_queue st) \<noteq> [] \<or> work xs st left = 0"
    "contents (pi_queue st) \<noteq> [] \<Longrightarrow> contents (pi_queue st1) \<noteq> []"
  show thesis
  proof (rule consumer_inv [OF p(2) n fin])
    fix st2
    assume c: "consumer_turn n pop app st1 = Some st2" "pipe_inv xs g0 st2 left1"
      "work xs st2 left1 \<le> work xs st1 left1"
      "contents (pi_queue st1) \<noteq> [] \<Longrightarrow> work xs st2 left1 < work xs st1 left1"
    have "work xs st2 left1 \<le> work xs st left - 1" using p(3-5) c(3,4) by fastforce
    with p(1) c(1,2) show thesis by (intro that) simp_all
  qed
qed

lemma rounds_finish:
  assumes "pipe_inv xs g0 st left" and "length xs \<le> n" and "apply_items app xs g0 \<noteq> None" and "work xs st left \<le> k"
  shows "\<exists>st'. pipe_run n src push pop app (concat (replicate k [True, False])) st = Some st' \<and>
    pi_done st' = length xs \<and> apply_items app xs g0 = Some (pi_eng st')"
  using assms
proof (induction k arbitrary: st left)
  case 0
  then have w: "work xs st left = 0" by simp
  then have "left = []" "pi_pending st = None" "contents (pi_queue st) = []"
    by (auto simp: work_def split: option.splits)
  with 0 have "xs = take (pi_done st) xs" "pi_done st \<le> length xs" by (simp_all add: pipe_inv_def)
  then have "pi_done st = length xs" by (metis length_take min.absorb2)
  with 0 show ?case by (simp add: pipe_inv_def)
next
  case (Suc k)
  show ?case
  proof (rule round_progress [OF Suc.prems(1-3)])
    fix st1 left1
    assume 1: "pipe_run n src push pop app [True, False] st = Some st1" "pipe_inv xs g0 st1 left1"
      "work xs st1 left1 \<le> work xs st left - 1"
    have "work xs st1 left1 \<le> k" using 1(3) Suc.prems(4) by simp
    from Suc.IH [OF 1(2) Suc.prems(2,3) this] 1(1) show ?thesis
      using pipe_run_append [of n src push pop app "[True, False]" "concat (replicate k [True, False])" st] by simp
  qed
qed

lemma inv_applied: "pipe_inv xs g0 st left \<Longrightarrow> pi_done st \<le> length xs \<and> apply_items app (take (pi_done st) xs) g0 = Some (pi_eng st)"
  by (simp add: pipe_inv_def)

lemma inv_counts:
  assumes "pipe_inv xs g0 st left"
  shows "pi_done st + length (contents (pi_queue st)) + (case pi_pending st of None \<Rightarrow> 0 | Some x \<Rightarrow> 1) + length left = length xs"
proof -
  let ?pend = "case pi_pending st of None \<Rightarrow> [] | Some x \<Rightarrow> [x]"
  from assms have xs: "xs = take (pi_done st) xs @ contents (pi_queue st) @ ?pend @ left" "pi_done st \<le> length xs"
    by (simp_all add: pipe_inv_def)
  have "length xs = min (length xs) (pi_done st) + (length (contents (pi_queue st)) + (length ?pend + length left))"
    using arg_cong [OF xs(1), of length] by (simp only: length_append length_take)
  with xs(2) show ?thesis by (simp split: option.splits)
qed

lemma inv_finished:
  assumes "pipe_inv xs g0 st left" and "pi_done st = length xs"
  shows "left = []" and "pi_pending st = None" and "contents (pi_queue st) = []" and "ok (pi_queue st)"
    and "apply_items app xs g0 = Some (pi_eng st)" and "sent (pi_queue st) = load st left"
proof -
  show e: "left = []" "pi_pending st = None" "contents (pi_queue st) = []"
    using inv_counts [OF assms(1)] assms(2) by (simp_all split: option.splits)
  show "ok (pi_queue st)" "apply_items app xs g0 = Some (pi_eng st)" "sent (pi_queue st) = load st left"
    using assms e by (simp_all add: pipe_inv_def load_def)
qed

lemma inv_start: "ok q \<Longrightarrow> contents q = [] \<Longrightarrow> emits p xs \<Longrightarrow> sent q + length xs < 2 ^ 64 \<Longrightarrow>
    pipe_inv xs g0 \<lparr>pi_src = p, pi_pending = None, pi_queue = q, pi_done = 0, pi_eng = g0\<rparr> xs"
  by (simp add: pipe_inv_def)

end

section \<open>Messages through the copying ring\<close>

text \<open>\<open>parser.next(sink)\<close> with \<open>RingSink\<close>: the message that the sink is about to push.\<close>

definition message_source :: "parser \<Rightarrow> (message option \<times> parser) option" where
  "message_source ps = do {
     (r, ps, m) \<leftarrow> parser_next (\<lambda>w m. Some (Some (decode_msg w))) ps None;
     Some (m, ps)
   }"

definition emits_frames :: "parser \<Rightarrow> u8 list list \<Rightarrow> wire_msg list \<Rightarrow> bool" where
  "emits_frames ps bss ws \<longleftrightarrow> (\<exists>pre. ps_cur ps = length pre \<and> ps_buf ps = pre @ concat (map frame bss)) \<and>
     ps_end ps = length (ps_buf ps) \<and> list_all2 (\<lambda>bs w. payload_msg bs = Some w) bss ws"

definition emits_msgs :: "parser \<Rightarrow> message list \<Rightarrow> bool" where
  "emits_msgs ps ms \<longleftrightarrow> (\<exists>bss ws. emits_frames ps bss ws \<and> ms = map decode_msg ws)"

lemma emits_frames_step:
  assumes "emits_frames ps (bs # bss) (w # ws)"
  shows "emits_frames (ps\<lparr>ps_cur := ps_cur ps + length (frame bs)\<rparr>) bss ws"
    and "parser_next sink ps s = do { s \<leftarrow> sink w s; Some (True, ps\<lparr>ps_cur := ps_cur ps + length (frame bs)\<rparr>, s) }"
    and "bytes_at (ps_buf ps) (ps_cur ps) (length (frame bs)) = Some (frame bs)"
proof -
  from assms obtain pre where pre: "ps_cur ps = length pre" "ps_buf ps = pre @ frame bs @ concat (map frame bss)"
    "ps_end ps = length (ps_buf ps)" "payload_msg bs = Some w" "list_all2 (\<lambda>bs w. payload_msg bs = Some w) bss ws"
    by (auto simp: emits_frames_def)
  then show "emits_frames (ps\<lparr>ps_cur := ps_cur ps + length (frame bs)\<rparr>) bss ws"
    unfolding emits_frames_def by (intro conjI exI [of _ "pre @ frame bs"]) simp_all
  show "parser_next sink ps s = do { s \<leftarrow> sink w s; Some (True, ps\<lparr>ps_cur := ps_cur ps + length (frame bs)\<rparr>, s) }"
    using parser_next_at_frame [OF pre(4,1,2), of sink s] pre by simp
  show "bytes_at (ps_buf ps) (ps_cur ps) (length (frame bs)) = Some (frame bs)"
    using pre sub_bytes_mid [of pre _ "frame bs"] by (simp add: bytes_at_def)
qed

lemma emits_frames_start: "well_framed buf ws \<Longrightarrow> \<exists>bss. emits_frames (parser_new buf (length buf)) bss ws"
  by (auto simp: well_framed_def emits_frames_def parser_new_def)

interpretation copy: pipeline ring_ok ring_cap ring_items "\<lambda>r. unat (r_head r)" try_push try_pop
  message_source emits_msgs "\<lambda>m gw. gateway_apply gw m"
proof unfold_locales
  fix ps x xs
  assume "emits_msgs ps (x # xs)"
  then obtain bss0 w ws where e0: "emits_frames ps bss0 (w # ws)" "x = decode_msg w" "xs = map decode_msg ws"
    by (auto simp: emits_msgs_def Cons_eq_map_conv)
  then obtain bs bss where "bss0 = bs # bss" by (auto simp: emits_frames_def list_all2_Cons2)
  with e0 have e: "emits_frames ps (bs # bss) (w # ws)" "x = decode_msg w" "xs = map decode_msg ws" by simp_all
  with emits_frames_step(1) [OF e(1)] show "\<exists>p'. message_source ps = Some (Some x, p') \<and> emits_msgs p' xs"
    by (auto simp: message_source_def emits_msgs_def emits_frames_step(2) [OF e(1)])
next
  fix ps
  assume e: "emits_msgs ps []"
  then have "ps_end ps = ps_cur ps" by (auto simp: emits_msgs_def emits_frames_def)
  then have "message_source ps = Some (None, ps)" by (simp add: message_source_def parser_next_def)
  with e show "\<exists>p'. message_source ps = Some (None, p') \<and> emits_msgs p' []" by blast
next
  fix q :: "message ring"
  show "ring_ok q \<Longrightarrow> 0 < ring_cap q" using pow2_cap_bounds [of "ring_cap q"] by (simp add: ring_ok_def)
qed

section \<open>Frames through the arena\<close>

text \<open>One pass of the producer loop up to \<open>try_acquire\<close>: \<open>k\<close> messages are still to be sent. The copy
  goes into a slot of 64 bytes and is not bounded by the code.\<close>

definition land_frame :: "nat \<times> parser \<Rightarrow> (u8 list option \<times> nat \<times> parser) option" where
  "land_frame = (\<lambda>(k, ps).
     if k = 0 \<or> ps_end ps < ps_cur ps + 2 then Some (None, k, ps)
     else do {
       w \<leftarrow> load_be16 (ps_buf ps) (ps_cur ps);
       let n = 2 + unat w;
       if 64 < n then None
       else do {
         bs \<leftarrow> bytes_at (ps_buf ps) (ps_cur ps) n;
         Some (Some bs, k - 1, ps\<lparr>ps_cur := ps_cur ps + n\<rparr>)
       }
     })"

text \<open>The engine side between \<open>try_front\<close> and \<open>release\<close>; the result of \<open>next\<close> is ignored.\<close>

definition engine_slot :: "(wire_msg \<Rightarrow> 'g \<Rightarrow> 'g option) \<Rightarrow> u8 list \<Rightarrow> 'g \<Rightarrow> 'g option" where
  "engine_slot sink bs g = do {
     w \<leftarrow> load_be16 bs 0;
     (r, ps, g) \<leftarrow> parser_next sink (parser_new bs (2 + unat w)) g;
     Some g
   }"

definition emits_slots :: "nat \<times> parser \<Rightarrow> u8 list list \<Rightarrow> bool" where
  "emits_slots = (\<lambda>(k, ps) slots. \<exists>bss ws. emits_frames ps bss ws \<and> slots = map frame bss \<and> length bss \<le> k)"

lemma frame_prefix:
  assumes "payload_msg bs = Some w"
  shows "unat (word_of_nat (length bs) :: u16) = length bs" and "length (frame bs) = 2 + length bs" and "length (frame bs) \<le> 64"
    and "load_be16 (pre @ frame bs @ post) (length pre) = Some (word_of_nat (length bs))"
proof -
  have L: "19 \<le> length bs" "length bs \<le> 36" using payload_msg_length [OF assms] by simp_all
  then show "unat (word_of_nat (length bs) :: u16) = length bs" "length (frame bs) = 2 + length bs" "length (frame bs) \<le> 64"
    by (simp_all add: unat_of_nat frame_def)
  have "sub_bytes (pre @ frame bs @ post) (length pre) 2 = put_be16 (word_of_nat (length bs))"
    unfolding frame_def append_assoc by (rule sub_bytes_mid) simp_all
  then show "load_be16 (pre @ frame bs @ post) (length pre) = Some (word_of_nat (length bs))"
    by (simp add: load_be16_def bytes_at_def frame_def)
qed

lemma engine_slot_frame:
  assumes "payload_msg bs = Some w"
  shows "engine_slot sink (frame bs) g = sink w g"
proof -
  note F = frame_prefix [OF assms]
  have "load_be16 (frame bs) 0 = Some (word_of_nat (length bs))" using F(4) [of "[]" "[]"] by simp
  moreover have "emits_frames (parser_new (frame bs) (2 + length bs)) [bs] [w]"
    using assms F(2) by (simp add: emits_frames_def parser_new_def)
  from emits_frames_step(2) [OF this, of sink g]
  have "parser_next sink (parser_new (frame bs) (2 + length bs)) g =
      do { s \<leftarrow> sink w g; Some (True, parser_new (frame bs) (2 + length bs)\<lparr>ps_cur := length (frame bs)\<rparr>, s) }"
    by (simp add: parser_new_def)
  ultimately show ?thesis by (cases "sink w g") (simp_all add: engine_slot_def F(1))
qed

interpretation zero_copy: pipeline arena_ok arena_cap arena_items "\<lambda>r. unat (ar_head r)" arena_push arena_pop
  land_frame emits_slots "engine_slot sink" for sink :: "wire_msg \<Rightarrow> 'g \<Rightarrow> 'g option"
proof unfold_locales
  fix p :: "nat \<times> parser" and x xs
  assume a: "emits_slots p (x # xs)"
  obtain k ps where p: "p = (k, ps)" by force
  with a obtain bs bss ws0 where e0: "emits_frames ps (bs # bss) ws0" "x = frame bs" "xs = map frame bss" "length (bs # bss) \<le> k"
    by (auto simp: emits_slots_def)
  then obtain w ws where e: "emits_frames ps (bs # bss) (w # ws)" by (auto simp: emits_frames_def list_all2_Cons1)
  then obtain pre where pre: "ps_cur ps = length pre" "ps_buf ps = pre @ frame bs @ concat (map frame bss)"
    "payload_msg bs = Some w" "ps_end ps = length (ps_buf ps)" by (auto simp: emits_frames_def)
  note F = frame_prefix [OF pre(3)] and S = emits_frames_step [OF e]
  have "load_be16 (ps_buf ps) (ps_cur ps) = Some (word_of_nat (length bs))" using F(4) by (simp add: pre)
  moreover have "\<not> ps_end ps < ps_cur ps + 2" using pre F(2) by simp
  ultimately have "land_frame p = Some (Some x, k - 1, ps\<lparr>ps_cur := ps_cur ps + length (frame bs)\<rparr>)"
    using e0 F S(3) by (simp add: land_frame_def p Let_def)
  moreover have "emits_slots (k - 1, ps\<lparr>ps_cur := ps_cur ps + length (frame bs)\<rparr>) xs"
    using S(1) e0 by (auto simp: emits_slots_def)
  ultimately show "\<exists>p'. land_frame p = Some (Some x, p') \<and> emits_slots p' xs" by blast
next
  fix p :: "nat \<times> parser"
  assume a: "emits_slots p []"
  obtain k ps where p: "p = (k, ps)" by force
  with a have "ps_end ps = ps_cur ps" by (auto simp: emits_slots_def emits_frames_def)
  then have "land_frame p = Some (None, p)" by (simp add: land_frame_def p)
  with a show "\<exists>p'. land_frame p = Some (None, p') \<and> emits_slots p' []" by blast
next
  fix q :: "u8 list arena_ring"
  show "arena_ok q \<Longrightarrow> 0 < arena_cap q"
    using pow2_cap_bounds [of "arena_cap q"] by (simp add: arena_ok_def ring_ok_def arena_cap_ring)
qed

section \<open>The pipelines on a generated feed\<close>

definition copy_start :: "u8 list \<Rightarrow> dense_gateway \<Rightarrow> (parser, message, message ring, dense_gateway) pipe" where
  "copy_start feed gw = \<lparr>pi_src = parser_new feed (length feed), pi_pending = None, pi_queue = ring_new (2 ^ 14),
     pi_done = 0, pi_eng = gw\<rparr>"

definition copy_run :: "nat \<Rightarrow> bool list \<Rightarrow> (parser, message, message ring, dense_gateway) pipe \<Rightarrow>
    (parser, message, message ring, dense_gateway) pipe option" where
  "copy_run n = pipe_run n message_source try_push try_pop (\<lambda>m gw. gateway_apply gw m)"

text \<open>The arena is static: a run finds it empty, wherever its counters are.\<close>

definition arena_start :: "nat \<Rightarrow> u8 list \<Rightarrow> u8 list arena_ring \<Rightarrow> 'g \<Rightarrow> (nat \<times> parser, u8 list, u8 list arena_ring, 'g) pipe" where
  "arena_start n feed q gw = \<lparr>pi_src = (n, parser_new feed (length feed)), pi_pending = None, pi_queue = q,
     pi_done = 0, pi_eng = gw\<rparr>"

definition arena_run :: "(wire_msg \<Rightarrow> 'g \<Rightarrow> 'g option) \<Rightarrow> nat \<Rightarrow> bool list \<Rightarrow>
    (nat \<times> parser, u8 list, u8 list arena_ring, 'g) pipe \<Rightarrow> (nat \<times> parser, u8 list, u8 list arena_ring, 'g) pipe option" where
  "arena_run sink n = pipe_run n land_frame arena_push arena_pop (engine_slot sink)"

definition idle_arena :: "u8 list arena_ring \<Rightarrow> nat \<Rightarrow> bool" where
  "idle_arena q n \<longleftrightarrow> arena_ok q \<and> arena_items q = [] \<and> unat (ar_head q) + n < 2 ^ 64"

lemma sink_all_hash: "sink_all hash_sink ws gw = apply_all hash_gateway_apply (map decode_msg ws) gw"
  by (induction ws arbitrary: gw) (auto simp: hash_sink_def split: bind_splits)

lemma apply_items_gateway: "apply_items (\<lambda>m gw. gateway_apply gw m) ms gw = apply_all gateway_apply ms gw"
  by (induction ms arbitrary: gw) (auto split: bind_splits)

lemma apply_items_frames:
  "list_all2 (\<lambda>bs w. payload_msg bs = Some w) bss ws \<Longrightarrow> apply_items (engine_slot sink) (map frame bss) g = sink_all sink ws g"
  by (induction bss ws arbitrary: g rule: list_all2_induct) (auto simp: engine_slot_frame split: bind_splits)

lemma copy_start_inv:
  assumes "well_framed feed ws" and "length ws < 2 ^ 64"
  shows "copy.pipe_inv (map decode_msg ws) gw (copy_start feed gw) (map decode_msg ws)"
proof -
  have c: "pow2_cap (2 ^ 14)" unfolding pow2_cap_def by (intro exI [of _ 14]) simp
  obtain bss where "emits_frames (parser_new feed (length feed)) bss ws" using emits_frames_start [OF assms(1)] by blast
  then have "emits_msgs (parser_new feed (length feed)) (map decode_msg ws)" by (auto simp: emits_msgs_def)
  then show ?thesis unfolding copy_start_def
    using assms(2) by (intro copy.inv_start ring_new_ok(1) [OF c]) (simp_all add: ring_new_ok)
qed

lemma arena_start_inv:
  assumes "list_all2 (\<lambda>bs w. payload_msg bs = Some w) bss ws" and "idle_arena q (length ws)"
  shows "zero_copy.pipe_inv sink (map frame bss) gw (arena_start (length ws) (concat (map frame bss)) q gw) (map frame bss)"
proof -
  have l: "length bss = length ws" using assms(1) by (rule list_all2_lengthD)
  let ?feed = "concat (map frame bss)"
  have "emits_frames (parser_new ?feed (length ?feed)) bss ws" using assms(1) by (simp add: emits_frames_def parser_new_def)
  then have "emits_slots (length ws, parser_new ?feed (length ?feed)) (map frame bss)" using l by (auto simp: emits_slots_def)
  then show ?thesis unfolding arena_start_def
    using assms(2) l by (intro zero_copy.inv_start) (simp_all add: idle_arena_def)
qed

text \<open>The pipeline of \<open>bench_itch_pipeline.cpp\<close> under every interleaving of its two threads: no
  turn is undefined, at most \<open>n\<close> messages are applied, and when the engine has taken out \<open>n\<close>
  the check that the benchmark prints (matches and lots) holds.\<close>

theorem copy_pipeline_verified:
  assumes "generate_feed n seed = Some st" and "n \<le> 1048576"
  shows "\<exists>p. copy_run n ts (copy_start (fd_buf st) (gateway_new (fs_max_ref (fd_st st)))) = Some p \<and> pi_done p \<le> n \<and>
    (pi_done p = n \<longrightarrow> gw_trades (pi_eng p) = fs_execs (fd_st st) \<and> gw_traded_lots (pi_eng p) = fs_exec_lots (fd_st st))"
proof (rule feed_engines [OF assms])
  fix ws gw
  let ?gw0 = "gateway_new (fs_max_ref (fd_st st))" and ?ms = "map decode_msg ws"
  assume w: "length ws = n" "well_framed (fd_buf st) ws" "apply_all gateway_apply ?ms ?gw0 = Some gw"
    "gw_trades gw = fs_execs (fd_st st)" "gw_traded_lots gw = fs_exec_lots (fd_st st)"
  have inv: "copy.pipe_inv ?ms ?gw0 (copy_start (fd_buf st) ?gw0) ?ms"
    by (rule copy_start_inv [OF w(2)]) (use w(1) assms(2) in simp)
  have fin: "apply_items (\<lambda>m gw. gateway_apply gw m) ?ms ?gw0 = Some gw" using w(3) by (simp add: apply_items_gateway)
  obtain p l where p: "copy_run n ts (copy_start (fd_buf st) ?gw0) = Some p" "copy.pipe_inv ?ms ?gw0 p l"
    using copy.run_inv [OF inv, of n ts] fin w(1) by (auto simp: copy_run_def)
  from copy.inv_applied [OF p(2)] p(1) w fin show ?thesis by auto
qed

theorem copy_pipeline_verified_witness:
  "\<exists>st p. generate_feed 1 7 = Some st \<and>
    copy_run 1 [True, True, False] (copy_start (fd_buf st) (gateway_new (fs_max_ref (fd_st st)))) = Some p \<and> pi_done p \<le> 1"
proof -
  obtain st where st: "generate_feed 1 7 = Some st" using generate_one by blast
  with copy_pipeline_verified [OF st, of "[True, True, False]"] show ?thesis by auto
qed

lemma arena_run_sink:
  assumes "list_all2 (\<lambda>bs w. payload_msg bs = Some w) bss ws" and "idle_arena q (length ws)" and "sink_all sink ws g0 = Some g"
  shows "\<exists>p. arena_run sink (length ws) ts (arena_start (length ws) (concat (map frame bss)) q g0) = Some p \<and>
    (pi_done p = length ws \<longrightarrow> pi_eng p = g)"
proof -
  have l: "length (map frame bss) = length ws" using list_all2_lengthD [OF assms(1)] by simp
  note inv = arena_start_inv [OF assms(1,2), of sink g0]
  have fin: "apply_items (engine_slot sink) (map frame bss) g0 = Some g" using assms(3) by (simp add: apply_items_frames [OF assms(1)])
  obtain p left where "arena_run sink (length ws) ts (arena_start (length ws) (concat (map frame bss)) q g0) = Some p"
    "zero_copy.pipe_inv sink (map frame bss) g0 p left"
    using zero_copy.run_inv [OF inv, of "length ws" ts] fin l by (auto simp: arena_run_def)
  with zero_copy.inv_applied [OF this(2)] l fin show ?thesis by auto
qed

lemma arena_run_end:
  assumes "list_all2 (\<lambda>bs w. payload_msg bs = Some w) bss ws" and "idle_arena q (length ws)" and "sink_all sink ws g0 = Some g"
    and "arena_run sink (length ws) ts (arena_start (length ws) (concat (map frame bss)) q g0) = Some p" and "pi_done p = length ws"
  shows "pi_eng p = g"
  using arena_run_sink [OF assms(1-3), of ts] assms(4,5) by auto

text \<open>The pipelines over the arena (\<open>run_arena\<close> with the dense gateway, \<open>run_session\<close> with either
  gateway) under every interleaving: frames never overflow their slot, the engine parses each
  of them in place, and when \<open>n\<close> are done the printed check holds.\<close>

theorem arena_pipelines_verified:
  assumes "generate_feed n seed = Some st" and "n \<le> 1048576" and "idle_arena q n"
  shows "(\<exists>p. arena_run gateway_sink n ts (arena_start n (fd_buf st) q (gateway_new (fs_max_ref (fd_st st)))) = Some p \<and>
      (pi_done p = n \<longrightarrow> gw_trades (pi_eng p) = fs_execs (fd_st st) \<and> gw_traded_lots (pi_eng p) = fs_exec_lots (fd_st st))) \<and>
    (\<exists>p. arena_run hash_sink n ts (arena_start n (fd_buf st) q hash_gateway_new) = Some p \<and>
      (pi_done p = n \<longrightarrow> gw_trades (pi_eng p) = fs_execs (fd_st st) \<and> gw_traded_lots (pi_eng p) = fs_exec_lots (fd_st st)))"
proof (rule feed_engines [OF assms(1,2)])
  fix ws gw hg
  let ?gw0 = "gateway_new (fs_max_ref (fd_st st))" and ?ms = "map decode_msg ws"
  assume w: "length ws = n" "well_framed (fd_buf st) ws" "apply_all gateway_apply ?ms ?gw0 = Some gw"
    "gw_trades gw = fs_execs (fd_st st)" "gw_traded_lots gw = fs_exec_lots (fd_st st)"
    "apply_all hash_gateway_apply ?ms hash_gateway_new = Some hg"
    "gw_trades hg = fs_execs (fd_st st)" "gw_traded_lots hg = fs_exec_lots (fd_st st)"
  from w(2) obtain bss where bss: "fd_buf st = concat (map frame bss)" "list_all2 (\<lambda>bs w. payload_msg bs = Some w) bss ws"
    by (auto simp: well_framed_def)
  note run = arena_run_sink [OF bss(2), of q, folded bss(1), unfolded w(1), OF assms(3)]
  have "sink_all gateway_sink ws ?gw0 = Some gw" "sink_all hash_sink ws hash_gateway_new = Some hg"
    using w(3,6) by (simp_all add: sink_all_gateway sink_all_hash)
  from run [where ts = ts, OF this(1)] run [where ts = ts, OF this(2)] w show ?thesis by auto
qed

lemma idle_new: "idle_arena (arena_new (2 ^ 14)) 1"
proof -
  have c: "pow2_cap (2 ^ 14)" unfolding pow2_cap_def by (intro exI [of _ 14]) simp
  let ?a = "arena_new (2 ^ 14) :: u8 list arena_ring"
  have n: "as_ring ?a = ring_new (2 ^ 14)" by (simp add: as_ring_def arena_new_def ring_new_def)
  have "shadows_ok ?a" "ar_head ?a = 0" by (simp_all add: shadows_ok_def arena_new_def)
  moreover have "ring_ok (as_ring ?a)" "ring_items (as_ring ?a) = []"
    unfolding n by (simp_all only: ring_new_ok(1) [OF c] ring_new_ok(2))
  ultimately show ?thesis by (simp add: idle_arena_def arena_ok_def arena_items_def)
qed

theorem arena_pipelines_verified_witness:
  "\<exists>st p. generate_feed 1 7 = Some st \<and>
    arena_run hash_sink 1 [True, True, False] (arena_start 1 (fd_buf st) (arena_new (2 ^ 14)) hash_gateway_new) = Some p"
proof -
  obtain st where st: "generate_feed 1 7 = Some st" using generate_one by blast
  with arena_pipelines_verified [OF st _ idle_new, of "[True, True, False]"] show ?thesis by auto
qed

lemma arena_rounds:
  assumes "generate_feed n seed = Some st" and "n \<le> 1048576" and "idle_arena q n"
  shows "\<exists>p. arena_run gateway_sink n (concat (replicate (3 * n) [True, False]))
      (arena_start n (fd_buf st) q (gateway_new (fs_max_ref (fd_st st)))) = Some p \<and>
    pi_done p = n \<and> gw_trades (pi_eng p) = fs_execs (fd_st st)"
proof (rule feed_engines [OF assms(1,2)])
  fix ws gw
  let ?gw0 = "gateway_new (fs_max_ref (fd_st st))"
  assume w: "length ws = n" "well_framed (fd_buf st) ws" "apply_all gateway_apply (map decode_msg ws) ?gw0 = Some gw"
    "gw_trades gw = fs_execs (fd_st st)"
  from w(2) obtain bss where bss: "fd_buf st = concat (map frame bss)" "list_all2 (\<lambda>bs w. payload_msg bs = Some w) bss ws"
    by (auto simp: well_framed_def)
  have l: "length bss = n" using list_all2_lengthD [OF bss(2)] w(1) by simp
  have inv: "zero_copy.pipe_inv gateway_sink (map frame bss) ?gw0 (arena_start n (fd_buf st) q ?gw0) (map frame bss)"
    using arena_start_inv [OF bss(2), of q gateway_sink ?gw0] assms(3) w(1) bss(1) by simp
  have fin: "apply_items (engine_slot gateway_sink) (map frame bss) ?gw0 = Some gw"
    using w(3) by (simp add: apply_items_frames [OF bss(2)] sink_all_gateway)
  have "zero_copy.work (map frame bss) (arena_start n (fd_buf st) q ?gw0) (map frame bss) \<le> 3 * n"
    using l assms(3) by (simp add: zero_copy.work_def arena_start_def idle_arena_def)
  from zero_copy.rounds_finish [OF inv _ _ this] fin w(4) l show "\<exists>p. arena_run gateway_sink n
      (concat (replicate (3 * n) [True, False])) (arena_start n (fd_buf st) q ?gw0) = Some p \<and> pi_done p = n \<and>
      gw_trades (pi_eng p) = fs_execs (fd_st st)"
    by (auto simp: arena_run_def)
qed

text \<open>Neither thread can wait for the other forever: when the threads take turns, \<open>3 n\<close> rounds
  drain a generated feed of \<open>n\<close> messages through the ring and through the arena, and the check
  that the benchmarks print then holds.\<close>

theorem pipelines_finish:
  assumes "generate_feed n seed = Some st" and "n \<le> 1048576" and "idle_arena q n"
  shows "(\<exists>p. copy_run n (concat (replicate (3 * n) [True, False])) (copy_start (fd_buf st) (gateway_new (fs_max_ref (fd_st st)))) =
      Some p \<and> pi_done p = n \<and> gw_trades (pi_eng p) = fs_execs (fd_st st)) \<and>
    (\<exists>p. arena_run gateway_sink n (concat (replicate (3 * n) [True, False]))
        (arena_start n (fd_buf st) q (gateway_new (fs_max_ref (fd_st st)))) = Some p \<and>
      pi_done p = n \<and> gw_trades (pi_eng p) = fs_execs (fd_st st))"
proof (rule feed_engines [OF assms(1,2)])
  fix ws gw
  let ?gw0 = "gateway_new (fs_max_ref (fd_st st))" and ?ms = "map decode_msg ws"
  assume w: "length ws = n" "well_framed (fd_buf st) ws" "apply_all gateway_apply ?ms ?gw0 = Some gw"
    "gw_trades gw = fs_execs (fd_st st)"
  have inv: "copy.pipe_inv ?ms ?gw0 (copy_start (fd_buf st) ?gw0) ?ms"
    by (rule copy_start_inv [OF w(2)]) (use w(1) assms(2) in simp)
  have fin: "apply_items (\<lambda>m gw. gateway_apply gw m) ?ms ?gw0 = Some gw" using w(3) by (simp add: apply_items_gateway)
  have "copy.work ?ms (copy_start (fd_buf st) ?gw0) ?ms \<le> 3 * n"
    using w(1) by (simp add: copy.work_def copy_start_def ring_new_ok)
  from copy.rounds_finish [OF inv _ _ this] fin w have 1: "\<exists>p. copy_run n (concat (replicate (3 * n) [True, False]))
      (copy_start (fd_buf st) ?gw0) = Some p \<and> pi_done p = n \<and> gw_trades (pi_eng p) = fs_execs (fd_st st)"
    by (auto simp: copy_run_def)
  from 1 arena_rounds [OF assms] show ?thesis by blast
qed

theorem pipelines_finish_witness:
  "\<exists>st p. generate_feed 1 7 = Some st \<and>
    copy_run 1 [True, False, True, False, True, False] (copy_start (fd_buf st) (gateway_new (fs_max_ref (fd_st st)))) = Some p \<and>
    pi_done p = 1"
proof -
  obtain st where st: "generate_feed 1 7 = Some st" using generate_one by blast
  with pipelines_finish [OF st _ idle_new] show ?thesis by (auto simp: numeral_3_eq_3)
qed

end
