(* ===== verification/Journal.thy ===== *)
theory Journal
  imports Pipeline
begin

text \<open>
  \<open>include/lob/journal.hpp\<close>: the append-only, memory-mapped replay journal and its reader, and
  the replay of \<open>bench/bench_journal.cpp\<close>. The mapping is the list of its bytes, header fields
  are the 8-byte little-endian words at the offsets of \<open>JournalHeader\<close>; a store or copy outside
  the mapping is undefined (\<^const>\<open>None\<close>). Creating, sizing and mapping the file is the operating
  system's: \<open>journal_open\<close> takes it as an argument, which answers a request for a mapping of so
  many bytes with the mapping or with failure. \<open>flush\<close> and \<open>close\<close> only call the operating system.

  The theorems: what is kept and what is dropped; the reader sees whole frames at every
  moment, also in the middle of an append; replaying the journal of a session that fits
  rebuilds exactly the live engine; and what goes wrong when it does not fit.
\<close>

section \<open>Memory\<close>

definition write_at :: "u8 list \<Rightarrow> nat \<Rightarrow> u8 list \<Rightarrow> u8 list option" where
  "write_at buf p bs = (if p + length bs \<le> length buf then Some (take p buf @ bs @ drop (p + length bs) buf) else None)"

definition load64 :: "u8 list \<Rightarrow> nat \<Rightarrow> u64 option" where
  "load64 buf p = do {
     bs \<leftarrow> bytes_at buf p 8;
     Some (le_word bs)
   }"

definition store64 :: "u8 list \<Rightarrow> nat \<Rightarrow> u64 \<Rightarrow> u8 list option" where
  "store64 buf p w = write_at buf p (le_bytes 8 w)"

lemma write_at_nth:
  assumes "write_at buf p bs = Some buf'" and "i < length buf"
  shows "buf' ! i = (if p \<le> i \<and> i < p + length bs then bs ! (i - p) else buf ! i)"
  using assms by (auto simp: write_at_def nth_append split: if_splits)

lemma write_at_length: "write_at buf p bs = Some buf' \<Longrightarrow> length buf' = length buf"
  by (auto simp: write_at_def split: if_splits)

lemma write_at_in: "p + length bs \<le> length buf \<Longrightarrow> \<exists>buf'. write_at buf p bs = Some buf'"
  by (simp add: write_at_def)

lemma write_at_len: "write_at buf p bs = Some buf' \<Longrightarrow> p + length bs \<le> length buf"
  by (auto simp: write_at_def split: if_splits)

text \<open>Two buffers that agree on a range hold the same bytes there.\<close>

lemma sub_bytes_cong:
  assumes "length xs = length ys" and "\<And>i. q \<le> i \<Longrightarrow> i < q + n \<Longrightarrow> i < length xs \<Longrightarrow> xs ! i = ys ! i"
  shows "sub_bytes xs q n = sub_bytes ys q n"
  using assms by (intro nth_equalityI) (auto simp: sub_bytes_def)

lemma bytes_at_cong:
  assumes "length xs = length ys" and "\<And>i. q \<le> i \<Longrightarrow> i < q + n \<Longrightarrow> i < length xs \<Longrightarrow> xs ! i = ys ! i"
  shows "bytes_at xs q n = bytes_at ys q n"
  using sub_bytes_cong [OF assms] assms(1) by (simp add: bytes_at_def)

lemma write_at_other:
  assumes "write_at buf p bs = Some buf'" and "q + n \<le> p \<or> p + length bs \<le> q"
  shows "bytes_at buf' q n = bytes_at buf q n" and "sub_bytes buf' q n = sub_bytes buf q n"
  using write_at_length [OF assms(1)] write_at_nth [OF assms(1)] assms(2)
  by (auto intro!: bytes_at_cong sub_bytes_cong)

lemma write_at_same:
  assumes "write_at buf p bs = Some buf'"
  shows "sub_bytes buf' p (length bs) = bs"
  using assms by (auto simp: write_at_def sub_bytes_def split: if_splits)

lemma load_store64:
  assumes "store64 buf p w = Some buf'"
  shows "load64 buf' p = Some w" and "q + 8 \<le> p \<or> p + 8 \<le> q \<Longrightarrow> load64 buf' q = load64 buf q"
    and "p + 8 \<le> q \<Longrightarrow> sub_bytes buf' q n = sub_bytes buf q n" and "length buf' = length buf"
proof -
  note W = assms [unfolded store64_def]
  show l: "length buf' = length buf" using write_at_length [OF W] .
  have "sub_bytes buf' p 8 = le_bytes 8 w" using write_at_same [OF W] by simp
  moreover have "p + 8 \<le> length buf" using write_at_len [OF W] by simp
  ultimately show "load64 buf' p = Some w" using l by (simp add: load64_def bytes_at_def le_word_bytes)
  show "q + 8 \<le> p \<or> p + 8 \<le> q \<Longrightarrow> load64 buf' q = load64 buf q"
    using write_at_other(1) [OF W, of q 8] by (simp add: load64_def)
  show "p + 8 \<le> q \<Longrightarrow> sub_bytes buf' q n = sub_bytes buf q n" using write_at_other(2) [OF W, of q n] by simp
qed

lemma store64_in: "p + 8 \<le> length buf \<Longrightarrow> \<exists>buf'. store64 buf p w = Some buf'"
  by (simp add: store64_def write_at_def)

section \<open>The journal\<close>

definition JOURNAL_MAGIC :: u64 where "JOURNAL_MAGIC = 0x314C4E524A424F4C"
definition JOURNAL_HDR :: nat where "JOURNAL_HDR = 4096"

text \<open>The offsets of the members of \<open>JournalHeader\<close>.\<close>

definition h_magic :: nat where "h_magic = 0"
definition h_capacity :: nat where "h_capacity = 8"
definition h_committed :: nat where "h_committed = 16"
definition h_dropped :: nat where "h_dropped = 24"

lemmas hdr_consts = JOURNAL_HDR_def h_magic_def h_capacity_def h_committed_def h_dropped_def

record journal =
  jn_base :: "u8 list"
  jn_total :: u64
  jn_cap :: u64
  jn_off :: u64

function touch_pages :: "nat \<Rightarrow> nat \<Rightarrow> u8 list \<Rightarrow> u8 list option" where
  "touch_pages len i base = (if i < len then aput base i 0 \<bind> touch_pages len (i + 4096) else Some base)"
  by pat_completeness auto
termination by (relation "measure (\<lambda>(len, i, base). len - i)") auto

declare touch_pages.simps [simp del]

definition journal_open :: "(u64 \<Rightarrow> u8 list option) \<Rightarrow> u64 \<Rightarrow> journal option option" where
  "journal_open mapped data_capacity =
     (let tot = word_of_nat JOURNAL_HDR + data_capacity
      in case mapped tot of
           None \<Rightarrow> Some None
         | Some base \<Rightarrow> do {
             base \<leftarrow> touch_pages (unat tot) 0 base;
             base \<leftarrow> store64 base h_magic JOURNAL_MAGIC;
             base \<leftarrow> store64 base h_capacity data_capacity;
             base \<leftarrow> store64 base h_committed 0;
             base \<leftarrow> store64 base h_dropped 0;
             Some (Some \<lparr>jn_base = base, jn_total = tot, jn_cap = data_capacity, jn_off = 0\<rparr>)
           })"

definition journal_append :: "journal \<Rightarrow> u8 list \<Rightarrow> journal option" where
  "journal_append j p =
     (let n = word_of_nat (length p)
      in if jn_cap j < jn_off j + n then do {
           d \<leftarrow> load64 (jn_base j) h_dropped;
           base \<leftarrow> store64 (jn_base j) h_dropped (d + n);
           Some (j\<lparr>jn_base := base\<rparr>)
         }
         else do {
           base \<leftarrow> write_at (jn_base j) (JOURNAL_HDR + unat (jn_off j)) p;
           let off = jn_off j + n;
           base \<leftarrow> store64 base h_committed off;
           Some (j\<lparr>jn_base := base, jn_off := off\<rparr>)
         })"

definition committed :: "journal \<Rightarrow> u64" where
  "committed j = jn_off j"

definition dropped :: "journal \<Rightarrow> u64 option" where
  "dropped j = load64 (jn_base j) h_dropped"

section \<open>The reader\<close>

text \<open>\<open>JournalReplay::open\<close> on the mapping of an existing file: \<open>Some None\<close> is the answer \<open>false\<close>,
  otherwise it is the length \<open>len_\<close>.\<close>

definition replay_open :: "u8 list \<Rightarrow> u64 option option" where
  "replay_open base = do {
     magic \<leftarrow> load64 base h_magic;
     if magic \<noteq> JOURNAL_MAGIC then Some None
     else do {
       len \<leftarrow> load64 base h_committed;
       Some (Some len)
     }
   }"

definition replay_data :: "u8 list \<Rightarrow> u8 list" where
  "replay_data base = drop JOURNAL_HDR base"

text \<open>The parser on \<open>{data(), size()}\<close>.\<close>

definition replay :: "(wire_msg \<Rightarrow> 'g \<Rightarrow> 'g option) \<Rightarrow> u8 list \<Rightarrow> 'g \<Rightarrow> (parser \<times> 'g) option option" where
  "replay sink base g = do {
     len \<leftarrow> replay_open base;
     case len of
       None \<Rightarrow> Some None
     | Some n \<Rightarrow> do {
         r \<leftarrow> parse_all sink (parser_new (replay_data base) (unat n)) g;
         Some (Some r)
       }
   }"

section \<open>The invariant\<close>

definition journal_data :: "journal \<Rightarrow> u8 list" where
  "journal_data j = sub_bytes (jn_base j) JOURNAL_HDR (unat (jn_off j))"

definition journal_ok :: "journal \<Rightarrow> bool" where
  "journal_ok j \<longleftrightarrow> length (jn_base j) = JOURNAL_HDR + unat (jn_cap j) \<and> unat (jn_off j) \<le> unat (jn_cap j) \<and>
     unat (jn_cap j) < 2 ^ 63 \<and>
     load64 (jn_base j) h_magic = Some JOURNAL_MAGIC \<and> load64 (jn_base j) h_committed = Some (jn_off j)"

lemma touch_pages_ok: "length base = len \<Longrightarrow> \<exists>base'. touch_pages len i base = Some base' \<and> length base' = len"
proof (induction len i base rule: touch_pages.induct)
  case (1 len i base)
  then show ?case by (subst touch_pages.simps) (cases "i < len"; simp)
qed

lemma header_word: "p + 8 \<le> 32 \<Longrightarrow> JOURNAL_HDR \<le> length b \<Longrightarrow> \<exists>w. load64 b p = Some w"
  by (simp add: load64_def bytes_at_def JOURNAL_HDR_def)

lemma journal_open_ok:
  assumes cap: "unat cap < 2 ^ 63" and m: "mapped (word_of_nat JOURNAL_HDR + cap) = Some base"
    and len: "length base = JOURNAL_HDR + unat cap"
  obtains j where "journal_open mapped cap = Some (Some j)" and "journal_ok j" and "jn_cap j = cap" and "jn_off j = 0"
    and "dropped j = Some 0"
proof -
  let ?tot = "word_of_nat JOURNAL_HDR + cap"
  have t: "unat ?tot = JOURNAL_HDR + unat cap"
    using cap by (simp add: JOURNAL_HDR_def unat_word_ariths)
  obtain b0 where b0: "touch_pages (unat ?tot) 0 base = Some b0" "length b0 = JOURNAL_HDR + unat cap"
    using touch_pages_ok [of base "unat ?tot" 0] len t by auto
  have fit: "p + 8 \<le> length b0" if "p + 8 \<le> 32" for p using b0(2) that by (simp add: JOURNAL_HDR_def)
  obtain b1 where b1: "store64 b0 h_magic JOURNAL_MAGIC = Some b1" using store64_in [OF fit [of h_magic], of JOURNAL_MAGIC] by (auto simp: h_magic_def)
  note S1 = load_store64 [OF b1]
  obtain b2 where b2: "store64 b1 h_capacity cap = Some b2" using store64_in [of h_capacity b1 cap] fit [of h_capacity] S1(4) by (auto simp: h_capacity_def)
  note S2 = load_store64 [OF b2]
  obtain b3 where b3: "store64 b2 h_committed 0 = Some b3" using store64_in [of h_committed b2 0] fit [of h_committed] S1(4) S2(4) by (auto simp: h_committed_def)
  note S3 = load_store64 [OF b3]
  obtain b4 where b4: "store64 b3 h_dropped 0 = Some b4" using store64_in [of h_dropped b3 0] fit [of h_dropped] S1(4) S2(4) S3(4) by (auto simp: h_dropped_def)
  note S4 = load_store64 [OF b4]
  let ?j = "\<lparr>jn_base = b4, jn_total = ?tot, jn_cap = cap, jn_off = 0\<rparr>"
  show ?thesis
  proof (rule that [of ?j])
    show "journal_open mapped cap = Some (Some ?j)" by (simp add: journal_open_def m b0(1) b1 b2 b3 b4)
    have "load64 b4 h_magic = Some JOURNAL_MAGIC"
      using S1(1) S2(2) [of h_magic] S3(2) [of h_magic] S4(2) [of h_magic] by (simp add: hdr_consts)
    moreover have "load64 b4 h_committed = Some 0" using S3(1) S4(2) [of h_committed] by (simp add: hdr_consts)
    ultimately show "journal_ok ?j" using cap b0(2) S1(4) S2(4) S3(4) S4(4) by (simp add: journal_ok_def)
    show "dropped ?j = Some 0" using S4(1) by (simp add: dropped_def)
  qed simp_all
qed

text \<open>One append: the frame is kept when it fits, and otherwise its bytes are counted as dropped.\<close>

lemma append_ok:
  assumes ok: "journal_ok j" and len: "length p < 2 ^ 63"
  obtains j' d where "journal_append j p = Some j'" and "journal_ok j'" and "jn_cap j' = jn_cap j" and "dropped j = Some d"
    and "unat (jn_off j) + length p \<le> unat (jn_cap j) \<Longrightarrow> journal_data j' = journal_data j @ p \<and>
      unat (jn_off j') = unat (jn_off j) + length p \<and> dropped j' = Some d"
    and "\<not> unat (jn_off j) + length p \<le> unat (jn_cap j) \<Longrightarrow> journal_data j' = journal_data j \<and>
      jn_off j' = jn_off j \<and> dropped j' = Some (d + word_of_nat (length p))"
proof -
  note J = ok [unfolded journal_ok_def]
  let ?n = "word_of_nat (length p) :: u64"
  have n: "unat ?n = length p" using len by (simp add: unat_of_nat)
  have sum: "unat (jn_off j + ?n) = unat (jn_off j) + length p"
    using J len by (simp add: unat_word_ariths n)
  have h: "JOURNAL_HDR \<le> length (jn_base j)" using J by simp
  obtain d where d: "load64 (jn_base j) h_dropped = Some d" using header_word [OF _ h, of h_dropped] by (auto simp: h_dropped_def)
  show ?thesis
  proof (cases "unat (jn_off j) + length p \<le> unat (jn_cap j)")
    case False
    then have full: "jn_cap j < jn_off j + ?n" by (simp add: word_less_nat_alt sum)
    obtain b where b: "store64 (jn_base j) h_dropped (d + ?n) = Some b"
      using store64_in [of h_dropped "jn_base j"] h by (auto simp: hdr_consts)
    note S = load_store64 [OF b]
    show ?thesis
    proof (rule that [of "j\<lparr>jn_base := b\<rparr>" d])
      show "journal_append j p = Some (j\<lparr>jn_base := b\<rparr>)" using full by (simp add: journal_append_def d b)
      show "journal_ok (j\<lparr>jn_base := b\<rparr>)"
        using J S(2) [of h_magic] S(2) [of h_committed] S(4) by (simp add: journal_ok_def hdr_consts)
    qed (use False S d in \<open>auto simp: dropped_def journal_data_def hdr_consts\<close>)
  next
    case True
    then have room: "\<not> jn_cap j < jn_off j + ?n" by (simp add: word_less_nat_alt sum)
    let ?p = "JOURNAL_HDR + unat (jn_off j)"
    obtain b1 where b1: "write_at (jn_base j) ?p p = Some b1" using write_at_in [of ?p p "jn_base j"] True J by auto
    have l1: "length b1 = length (jn_base j)" using write_at_length [OF b1] .
    obtain b2 where b2: "store64 b1 h_committed (jn_off j + ?n) = Some b2"
      using store64_in [of h_committed b1] h l1 by (auto simp: hdr_consts)
    note S = load_store64 [OF b2]
    have hdr: "load64 b1 q = load64 (jn_base j) q" if "q + 8 \<le> 32" for q
      using write_at_other(1) [OF b1, of q 8] that by (simp add: load64_def JOURNAL_HDR_def)
    let ?j = "j\<lparr>jn_base := b2, jn_off := jn_off j + ?n\<rparr>"
    have data: "journal_data ?j = journal_data j @ p"
    proof -
      have "sub_bytes b2 JOURNAL_HDR (unat (jn_off j) + length p) = sub_bytes b1 JOURNAL_HDR (unat (jn_off j) + length p)"
        by (rule S(3)) (simp add: hdr_consts)
      also have "\<dots> = sub_bytes b1 JOURNAL_HDR (unat (jn_off j)) @ sub_bytes b1 ?p (length p)"
        by (simp add: sub_bytes_def take_add add.commute [of "unat (jn_off j)" JOURNAL_HDR])
      also have "sub_bytes b1 ?p (length p) = p" by (rule write_at_same [OF b1])
      also have "sub_bytes b1 JOURNAL_HDR (unat (jn_off j)) = sub_bytes (jn_base j) JOURNAL_HDR (unat (jn_off j))"
        by (rule write_at_other(2) [OF b1]) simp
      finally show ?thesis by (simp add: journal_data_def sum)
    qed
    show ?thesis
    proof (rule that [of ?j d])
      show "journal_append j p = Some ?j" using room by (simp add: journal_append_def b1 b2 Let_def)
      show "journal_ok ?j"
        using J True S(1,4) S(2) [of h_magic] l1 hdr [of h_magic] by (simp add: journal_ok_def sum hdr_consts)
      show "unat (jn_off j) + length p \<le> unat (jn_cap j) \<Longrightarrow> journal_data ?j = journal_data j @ p \<and>
        unat (jn_off ?j) = unat (jn_off j) + length p \<and> dropped ?j = Some d"
        using data sum S(2) [of h_dropped] hdr [of h_dropped] d by (simp add: dropped_def hdr_consts)
    qed (use True d in \<open>simp_all add: dropped_def\<close>)
  qed
qed

section \<open>Histories of appends\<close>

fun append_all :: "u8 list list \<Rightarrow> journal \<Rightarrow> journal option" where
  "append_all [] j = Some j"
| "append_all (p # ps) j = journal_append j p \<bind> append_all ps"

text \<open>The frames that a journal with room for \<open>r\<close> more bytes keeps.\<close>

fun kept :: "nat \<Rightarrow> u8 list list \<Rightarrow> u8 list list" where
  "kept r [] = []"
| "kept r (p # ps) = (if length p \<le> r then p # kept (r - length p) ps else kept r ps)"

lemma kept_all: "length (concat ps) \<le> r \<Longrightarrow> kept r ps = ps"
  by (induction ps arbitrary: r) auto

definition byte_count :: "u8 list list \<Rightarrow> nat" where
  "byte_count ps = length (concat ps)"

lemma append_all_ok:
  assumes "journal_ok j" and "\<forall>p\<in>set ps. length p < 2 ^ 63" and "dropped j = Some d"
  shows "\<exists>j'. append_all ps j = Some j' \<and> journal_ok j' \<and>
    journal_data j' = journal_data j @ concat (kept (unat (jn_cap j) - unat (jn_off j)) ps) \<and>
    dropped j' = Some (d + word_of_nat (byte_count ps - byte_count (kept (unat (jn_cap j) - unat (jn_off j)) ps))) \<and>
    byte_count (kept (unat (jn_cap j) - unat (jn_off j)) ps) \<le> byte_count ps"
  using assms
proof (induction ps arbitrary: j d)
  case (Cons p ps)
  have lp: "length p < 2 ^ 63" and lps: "\<forall>p\<in>set ps. length p < 2 ^ 63" using Cons.prems(2) by simp_all
  have off: "unat (jn_off j) \<le> unat (jn_cap j)" using Cons.prems(1) by (simp add: journal_ok_def)
  let ?r = "unat (jn_cap j) - unat (jn_off j)"
  show ?case
  proof (rule append_ok [OF Cons.prems(1) lp])
    fix j1 d1
    assume a: "journal_append j p = Some j1" "journal_ok j1" "jn_cap j1 = jn_cap j" "dropped j = Some d1"
      "unat (jn_off j) + length p \<le> unat (jn_cap j) \<Longrightarrow> journal_data j1 = journal_data j @ p \<and>
        unat (jn_off j1) = unat (jn_off j) + length p \<and> dropped j1 = Some d1"
      "\<not> unat (jn_off j) + length p \<le> unat (jn_cap j) \<Longrightarrow> journal_data j1 = journal_data j \<and>
        jn_off j1 = jn_off j \<and> dropped j1 = Some (d1 + word_of_nat (length p))"
    have d: "d1 = d" using a(4) Cons.prems(3) by simp
    show ?thesis
    proof (cases "length p \<le> ?r")
      case True
      then have fit: "unat (jn_off j) + length p \<le> unat (jn_cap j)" using off by simp
      have r: "unat (jn_cap j1) - unat (jn_off j1) = ?r - length p" using a(3,5) fit by simp
      from Cons.IH [OF a(2) lps, of d] a(1,5) fit True d show ?thesis
        unfolding r by (auto simp: byte_count_def)
    next
      case False
      then have full: "\<not> unat (jn_off j) + length p \<le> unat (jn_cap j)" by simp
      have r: "unat (jn_cap j1) - unat (jn_off j1) = ?r" using a(3,6) full by simp
      from Cons.IH [OF a(2) lps, of "d + word_of_nat (length p)"] a(1,6) full False d show ?thesis
        unfolding r by (auto simp: byte_count_def add.assoc simp flip: of_nat_add)
    qed
  qed
qed (simp add: byte_count_def)

lemma replay_open_ok: "journal_ok j \<Longrightarrow> replay_open (jn_base j) = Some (Some (jn_off j))"
  by (simp add: replay_open_def journal_ok_def)

lemma replay_data_ok:
  assumes "journal_ok j"
  shows "replay_data (jn_base j) = journal_data j @ drop (unat (jn_off j)) (replay_data (jn_base j))"
    and "length (journal_data j) = unat (jn_off j)"
proof -
  show "replay_data (jn_base j) = journal_data j @ drop (unat (jn_off j)) (replay_data (jn_base j))"
    unfolding replay_data_def journal_data_def sub_bytes_def by (rule append_take_drop_id [symmetric])
  show "length (journal_data j) = unat (jn_off j)"
    using assms by (simp add: journal_data_def sub_bytes_def journal_ok_def)
qed

lemma journal_session:
  assumes "unat cap < 2 ^ 63" and "mapped (word_of_nat JOURNAL_HDR + cap) = Some base" and "length base = JOURNAL_HDR + unat cap"
    and "\<forall>p\<in>set ps. length p < 2 ^ 63"
  obtains j j' where "journal_open mapped cap = Some (Some j)" and "append_all ps j = Some j'" and "journal_ok j'"
    and "journal_data j' = concat (kept (unat cap) ps)"
    and "dropped j' = Some (word_of_nat (byte_count ps - byte_count (kept (unat cap) ps)))"
proof (rule journal_open_ok [where mapped = mapped, OF assms(1-3)])
  fix j assume j: "journal_open mapped cap = Some (Some j)" "journal_ok j" "jn_cap j = cap" "jn_off j = 0" "dropped j = Some 0"
  have "journal_data j = []" using replay_data_ok(2) [OF j(2)] j(4) by simp
  with append_all_ok [OF j(2) assms(4) j(5)] j show thesis by (auto intro!: that)
qed

text \<open>What the journal keeps: appends never block and never write outside the mapping; the reader
  that opens the file finds exactly the frames that fitted when they came, whole and in
  order, and the header counts the bytes of all the others. When the whole session fits,
  everything is kept and nothing dropped.\<close>

theorem journal_keeps:
  assumes "unat cap < 2 ^ 63" and "mapped (word_of_nat JOURNAL_HDR + cap) = Some base" and "length base = JOURNAL_HDR + unat cap"
    and "\<forall>p\<in>set ps. length p < 2 ^ 63"
  shows "\<exists>j j' n. journal_open mapped cap = Some (Some j) \<and> append_all ps j = Some j' \<and>
    replay_open (jn_base j') = Some (Some n) \<and> n = committed j' \<and>
    take (unat n) (replay_data (jn_base j')) = concat (kept (unat cap) ps) \<and>
    dropped j' = Some (word_of_nat (byte_count ps - byte_count (kept (unat cap) ps))) \<and>
    (byte_count ps \<le> unat cap \<longrightarrow> kept (unat cap) ps = ps \<and> dropped j' = Some 0)"
proof (rule journal_session [where mapped = mapped, OF assms])
  fix j j'
  assume j: "journal_open mapped cap = Some (Some j)" "append_all ps j = Some j'" "journal_ok j'"
    "journal_data j' = concat (kept (unat cap) ps)"
    "dropped j' = Some (word_of_nat (byte_count ps - byte_count (kept (unat cap) ps)))"
  have "take (unat (jn_off j')) (replay_data (jn_base j')) = journal_data j'"
    by (simp add: journal_data_def sub_bytes_def replay_data_def)
  with j replay_open_ok [OF j(3)] kept_all [of ps "unat cap"] show ?thesis by (auto simp: committed_def byte_count_def)
qed

definition zero_mapping :: "u64 \<Rightarrow> u8 list option" where
  "zero_mapping n = Some (replicate (unat n) 0)"

lemma zero_mapping_64: "zero_mapping (word_of_nat JOURNAL_HDR + 64) = Some (replicate 4160 0)"
  by (simp add: zero_mapping_def JOURNAL_HDR_def)

theorem journal_keeps_witness:
  "\<exists>j j' n. journal_open zero_mapping 64 = Some (Some j) \<and> append_all [replicate 40 1, replicate 38 2, [3]] j = Some j' \<and>
    replay_open (jn_base j') = Some (Some n) \<and>
    take (unat n) (replay_data (jn_base j')) = replicate 40 1 @ [3] \<and> dropped j' = Some 38"
  using journal_keeps [where mapped = zero_mapping, OF _ zero_mapping_64, of "[replicate 40 1, replicate 38 2, [3]]"]
  by (auto simp: JOURNAL_HDR_def byte_count_def)



lemma journal_replays:
  assumes "unat cap < 2 ^ 63" and "mapped (word_of_nat JOURNAL_HDR + cap) = Some base" and "length base = JOURNAL_HDR + unat cap"
    and "list_all2 (\<lambda>bs w. payload_msg bs = Some w) bss ws" and "length (concat (map frame bss)) \<le> unat cap"
    and "sink_all sink ws g0 = Some g"
  shows "\<exists>j j' ps. journal_open mapped cap = Some (Some j) \<and> append_all (map frame bss) j = Some j' \<and>
    replay sink (jn_base j') g0 = Some (Some (ps, g)) \<and> exhausted ps"
proof -
  have "length (frame bs) < 2 ^ 63" if "bs \<in> set bss" for bs
  proof -
    from that assms(4) obtain w where "payload_msg bs = Some w" by (auto simp: list_all2_conv_all_nth in_set_conv_nth)
    from frame_prefix(3) [OF this] show ?thesis by simp
  qed
  then have small: "\<forall>p\<in>set (map frame bss). length p < 2 ^ 63" by simp
  show ?thesis
  proof (rule journal_session [where mapped = mapped, OF assms(1-3) small])
    fix j j'
    assume j: "journal_open mapped cap = Some (Some j)" "append_all (map frame bss) j = Some j'" "journal_ok j'"
      "journal_data j' = concat (kept (unat cap) (map frame bss))"
    have data: "journal_data j' = concat (map frame bss)" using j(4) kept_all [OF assms(5)] by simp
    let ?p = "parser_new (replay_data (jn_base j')) (unat (jn_off j'))"
    note R = replay_data_ok [OF j(3), unfolded data]
    have "parse_all sink ?p g0 = Some (?p\<lparr>ps_cur := ps_end ?p\<rparr>, g)"
      by (rule parse_frames [OF assms(4), of _ "[]" "drop (unat (jn_off j')) (replay_data (jn_base j'))"])
        (use R assms(6) in \<open>simp_all add: parser_new_def\<close>)
    then have "replay sink (jn_base j') g0 = Some (Some (?p\<lparr>ps_cur := ps_end ?p\<rparr>, g))"
      by (simp add: replay_def replay_open_ok [OF j(3)])
    with j(1,2) show ?thesis by (auto simp: exhausted_def)
  qed
qed

text \<open>Deterministic replay: for every engine, if the frames of a session fit the journal then
  parsing the journal into a fresh engine ends in exactly the state that the live session
  reached, and consumes the journal to its last byte.\<close>

theorem replay_rebuilds:
  assumes "unat cap < 2 ^ 63" and "mapped (word_of_nat JOURNAL_HDR + cap) = Some base" and "length base = JOURNAL_HDR + unat cap"
    and "list_all2 (\<lambda>bs w. payload_msg bs = Some w) bss ws" and "length (concat (map frame bss)) \<le> unat cap"
    and "sink_all sink ws g0 = Some g"
  shows "\<exists>j j' ps. journal_open mapped cap = Some (Some j) \<and> append_all (map frame bss) j = Some j' \<and>
    replay sink (jn_base j') g0 = Some (Some (ps, g)) \<and> exhausted ps"
  by (rule journal_replays [where mapped = mapped, OF assms])

theorem replay_rebuilds_witness:
  "\<exists>j j' ps. journal_open zero_mapping 64 = Some (Some j) \<and> append_all [frame (68 # replicate 18 0)] j = Some j' \<and>
    replay (\<lambda>m ms. Some (ms @ [m])) (jn_base j') [] = Some (Some (ps, [WDelete (as_delete (68 # replicate 18 0))])) \<and> exhausted ps"
proof -
  have "payload_msg (68 # replicate 18 0) = Some (WDelete (as_delete (68 # replicate 18 0)))"
    by (simp add: payload_msg_def wire_consts)
  then show ?thesis
    using replay_rebuilds [where mapped = zero_mapping, OF _ zero_mapping_64, of "[68 # replicate 18 0]" "[WDelete (as_delete (68 # replicate 18 0))]"
      "\<lambda>m ms. Some (ms @ [m])" "[]"] by (simp add: frame_def JOURNAL_HDR_def)
qed

text \<open>C30. A journal that has dropped a frame does not stop: a later, shorter frame is kept, so what is
  replayed is not a prefix of the session but has a hole in it.\<close>

theorem journal_hole:
  assumes "journal_ok j" and "length p < 2 ^ 63" and "length r < 2 ^ 63"
    and "unat (jn_cap j) < unat (jn_off j) + length p" and "unat (jn_off j) + length r \<le> unat (jn_cap j)"
  shows "\<exists>j'. append_all [p, r] j = Some j' \<and> journal_data j' = journal_data j @ r"
proof -
  obtain d where d: "dropped j = Some d" by (rule append_ok [OF assms(1,2)])
  have "kept (unat (jn_cap j) - unat (jn_off j)) [p, r] = [r]"
    using assms(1,4,5) by (auto simp: journal_ok_def)
  with append_all_ok [OF assms(1) _ d, of "[p, r]"] assms(2,3) show ?thesis by auto
qed

theorem journal_hole_witness:
  "\<exists>j j'. journal_open zero_mapping 64 = Some (Some j) \<and> append_all [replicate 65 1, replicate 21 2] j = Some j' \<and>
    journal_data j' = replicate 21 2"
proof (rule journal_open_ok [where mapped = zero_mapping, OF _ zero_mapping_64])
  fix j assume j: "journal_open zero_mapping 64 = Some (Some j)" "journal_ok j" "jn_cap j = 64" "jn_off j = 0"
  have "journal_data j = []" using replay_data_ok(2) [OF j(2)] j(4) by simp
  with journal_hole [OF j(2), of "replicate 65 1" "replicate 21 2"] j show ?thesis by auto
qed (simp_all add: JOURNAL_HDR_def)

text \<open>The reader trusts the watermark it finds: on a damaged or truncated file it announces more
  bytes than the mapping holds.\<close>

lemma replay_trusts_watermark:
  assumes "load64 file h_magic = Some JOURNAL_MAGIC" and "load64 file h_committed = Some n" and "length (replay_data file) < unat n"
  shows "replay_open file = Some (Some n) \<and> \<not> unat n \<le> length (replay_data file)"
  using assms by (simp add: replay_open_def)

section \<open>The replay of the benchmark\<close>

text \<open>\<open>book_fingerprint\<close>: FNV-1a over the best prices and the quantity of every level.\<close>

definition fnv_mix :: "u64 \<Rightarrow> u64 \<Rightarrow> u64" where
  "fnv_mix h v = (h XOR v) * 1099511628211"

definition book_fingerprint :: "book \<Rightarrow> u64" where
  "book_fingerprint b =
     (let h = fnv_mix (fnv_mix 1469598103934665603 (best_bid b)) (best_ask b)
      in foldl (\<lambda>h i. fnv_mix h (level_qty b (BASE + word_of_nat i))) h [0..<2 ^ 16])"

record session_state =
  ss_trades :: u64
  ss_lots :: u64
  ss_fp :: u64
  ss_bb :: price
  ss_ba :: price

definition session_state_of :: "'t gateway \<Rightarrow> session_state" where
  "session_state_of gw = \<lparr>ss_trades = gw_trades gw, ss_lots = gw_traded_lots gw, ss_fp = book_fingerprint (gw_book gw),
     ss_bb = best_bid (gw_book gw), ss_ba = best_ask (gw_book gw)\<rparr>"

definition same_state :: "session_state \<Rightarrow> session_state \<Rightarrow> bool" where
  "same_state rep live \<longleftrightarrow> ss_trades rep = ss_trades live \<and> ss_lots rep = ss_lots live \<and> ss_bb rep = ss_bb live \<and>
     ss_ba rep = ss_ba live \<and> ss_fp rep = ss_fp live"

text \<open>The check of \<open>bench_journal.cpp\<close> never fails: take any interleaving of the live session over
  the arena, journal the frames of the feed as they land, and replay the journal into a fresh
  engine; trades, lots, best prices and the fingerprint of the book agree.\<close>

theorem replay_deterministic:
  assumes "generate_feed n seed = Some st" and "n \<le> 1048576" and "idle_arena q n"
    and "arena_run gateway_sink n ts (arena_start n (fd_buf st) q (gateway_new (fs_max_ref (fd_st st)))) = Some p" and "pi_done p = n"
    and "unat cap < 2 ^ 63" and "mapped (word_of_nat JOURNAL_HDR + cap) = Some base" and "length base = JOURNAL_HDR + unat cap"
    and "length (fd_buf st) \<le> unat cap"
  shows "\<exists>fs j j' ps gw. concat fs = fd_buf st \<and> journal_open mapped cap = Some (Some j) \<and> append_all fs j = Some j' \<and>
    replay gateway_sink (jn_base j') (gateway_new (fs_max_ref (fd_st st))) = Some (Some (ps, gw)) \<and>
    same_state (session_state_of gw) (session_state_of (pi_eng p))"
proof (rule feed_engines [OF assms(1,2)])
  fix ws gw
  let ?gw0 = "gateway_new (fs_max_ref (fd_st st))"
  assume w: "length ws = n" "well_framed (fd_buf st) ws" "apply_all gateway_apply (map decode_msg ws) ?gw0 = Some gw"
  from w(2) obtain bss where bss: "fd_buf st = concat (map frame bss)" "list_all2 (\<lambda>bs w. payload_msg bs = Some w) bss ws"
    by (auto simp: well_framed_def)
  have sink: "sink_all gateway_sink ws ?gw0 = Some gw" using w(3) by (simp add: sink_all_gateway)
  have "pi_eng p = gw"
    using arena_run_end [OF bss(2) _ sink, of q ts p] assms(3-5) bss(1) w(1) by simp
  moreover obtain j j' ps where "journal_open mapped cap = Some (Some j)" "append_all (map frame bss) j = Some j'"
    "replay gateway_sink (jn_base j') ?gw0 = Some (Some (ps, gw))"
    using journal_replays [where mapped = mapped, OF assms(6-8) bss(2) _ sink] assms(9) bss(1) by auto
  ultimately show ?thesis using bss(1) by (auto simp: same_state_def)
qed

theorem replay_deterministic_witness:
  "\<exists>st p fs j j' ps gw. generate_feed 1 7 = Some st \<and>
    arena_run gateway_sink 1 [True, False, True, False, True, False]
      (arena_start 1 (fd_buf st) (arena_new (2 ^ 14)) (gateway_new (fs_max_ref (fd_st st)))) = Some p \<and>
    concat fs = fd_buf st \<and> journal_open zero_mapping 64 = Some (Some j) \<and> append_all fs j = Some j' \<and>
    replay gateway_sink (jn_base j') (gateway_new (fs_max_ref (fd_st st))) = Some (Some (ps, gw)) \<and>
    same_state (session_state_of gw) (session_state_of (pi_eng p))"
proof -
  obtain st where st: "generate_feed 1 7 = Some st" using generate_one by blast
  have len: "length (fd_buf st) \<le> 64"
  proof (rule feed_engines [OF st])
    fix ws :: "wire_msg list" assume "length ws = 1" "well_framed (fd_buf st) ws"
    then obtain w bs where "fd_buf st = frame bs" "payload_msg bs = Some w"
      by (auto simp: well_framed_def length_Suc_conv list_all2_Cons2)
    with frame_prefix(3) show ?thesis by simp
  qed simp
  obtain p where p: "arena_run gateway_sink 1 [True, False, True, False, True, False]
      (arena_start 1 (fd_buf st) (arena_new (2 ^ 14)) (gateway_new (fs_max_ref (fd_st st)))) = Some p" "pi_done p = 1"
    using arena_rounds [OF st _ idle_new] by (auto simp: numeral_3_eq_3)
  from replay_deterministic [where mapped = zero_mapping, OF st _ idle_new p _ zero_mapping_64] len st p
  show ?thesis by (auto simp: JOURNAL_HDR_def)
qed

end
