(* ===== verification/Publisher.thy ===== *)
theory Publisher
  imports Book_Props Spsc_Ring "HOL-Library.Sublist"
begin

text \<open>
  What the two market-data publishers share (\<open>BboPublisher\<close> of \<open>bbo.hpp\<close> and \<open>SignalPublisher\<close> of
  \<open>signals.hpp\<close>): after every applied message they read the top of the book, return at once
  when it equals the last one they saw, and otherwise number an update and push it into a ring
  whose consumer may lag; a refused push is counted and forgotten.

  The locale \<open>conflating_publisher\<close> states that step as a contract; the lemmas in it say what the
  subscriber sees over a whole history of messages and pops: a subsequence of the numbered
  changes of the top, in order, with exact counters, and every change if nothing was dropped;
  and that a dropped change is not sent again while the top stays as it is.
\<close>

type_synonym top = "price \<times> price \<times> qty \<times> qty"

definition top_of_book :: "book \<Rightarrow> top" where
  "top_of_book b =
     (let bp = best_bid b;
          ap = best_ask b;
          bq = (if 0 \<le> sint bp then level_qty b bp else 0);
          aq = (if 0 \<le> sint ap then level_qty b ap else 0)
      in (bp, ap, bq, aq))"

definition no_top :: top where
  "no_top = (- 1, - 1, 0, 0)"

section \<open>The top is that of the abstract book\<close>

definition side_px :: "book \<Rightarrow> side \<Rightarrow> price" where
  "side_px b s = (case abs_book b s of [] \<Rightarrow> - 1 | x # L \<Rightarrow> bk_base b + word_of_nat (a_tick x))"

definition side_qty :: "book \<Rightarrow> side \<Rightarrow> qty" where
  "side_qty b s = (case abs_book b s of [] \<Rightarrow> 0 | x # L \<Rightarrow> of_int (\<Sum>y\<leftarrow>filter (\<lambda>y. a_tick y = a_tick x) (x # L). a_qty y))"

text \<open>Every price of the ladder is non-negative, so - 1 can stand for an empty side.\<close>

definition prices_fit :: "book \<Rightarrow> bool" where
  "prices_fit b \<longleftrightarrow> 0 \<le> sint (bk_base b) \<and> sint (bk_base b) + int (NumTicks b) \<le> 2 ^ 63"

lemma ladder_price:
  assumes "prices_fit b" and "i < NumTicks b"
  shows "sint (bk_base b + word_of_nat i) = sint (bk_base b) + int i" and "idx_of b (bk_base b + word_of_nat i) = i"
proof -
  have i: "int i < 2 ^ 63" using assms by (simp add: prices_fit_def)
  have "sint (word_of_nat i :: i64) = int i"
    using i by (simp add: signed_of_nat signed_take_bit_int_eq_self)
  with sint_add64 [of "bk_base b" "word_of_nat i"] assms
  show "sint (bk_base b + word_of_nat i) = sint (bk_base b) + int i" by (simp add: prices_fit_def)
  show "idx_of b (bk_base b + word_of_nat i) = i" using i by (simp add: idx_of_def unat_of_nat_small)
qed

lemma top_exact:
  assumes ok: "book_ok b" and fit: "prices_fit b"
  shows "top_of_book b = (side_px b Buy, side_px b Sell, side_qty b Buy, side_qty b Sell)"
proof -
  note best = best_prices_abs [OF ok]
  have px: "best_bid b = side_px b Buy" "best_ask b = side_px b Sell"
    using best by (simp_all add: side_px_def split: list.splits)
  have qty: "(if 0 \<le> sint (side_px b s) then level_qty b (side_px b s) else 0) = side_qty b s" for s
  proof (cases "abs_book b s")
    case Nil
    then show ?thesis by (simp add: side_px_def side_qty_def)
  next
    case (Cons x L)
    from ok obtain qs where rep: "book_rep b qs" by (rule book_okE)
    have t: "a_tick x < NumTicks b"
      using best_level_head(2) [OF rep, of s] Cons marked_bound [OF book_repD(1) [OF rep], of "a_tick x" s] by simp
    have "filter (\<lambda>y. a_tick y = a_tick x) (abs_book b (opposite s)) = []"
      using best Cons by (cases s) (auto simp: filter_empty_conv)
    then have "filter (\<lambda>y. a_tick y = a_tick x) (abs_book b Buy @ abs_book b Sell) = filter (\<lambda>y. a_tick y = a_tick x) (x # L)"
      using Cons by (cases s) simp_all
    with ladder_price [OF fit t] t fit Cons show ?thesis
      by (simp add: side_px_def side_qty_def level_qty_sum [OF ok] prices_fit_def del: filter.simps filter_append)
  qed
  show ?thesis by (simp add: top_of_book_def Let_def px qty)
qed

lemma one_top:
  obtains b where "top_of_book b = (1005, - 1, 10, 0)"
proof (rule one_order)
  fix oid b
  assume b: "book_ok b" "bk_base b = 1000" "NumTicks b = 64"
    "abs_book b = (\<lambda>s. [])(Buy := [\<lparr>a_id = oid, a_tick = 5, a_qty = 10, a_hidden = 0, a_display = 0\<rparr>])"
  have "prices_fit b" using b(2,3) by (simp add: prices_fit_def)
  from top_exact [OF b(1) this] b(2,4) show thesis by (intro that [of b]) (simp add: side_px_def side_qty_def)
qed

section \<open>Histories\<close>

text \<open>A message has been applied and left this book, or the subscriber pops once.\<close>

datatype market_event = Applied book u64 | Taken

fun market_run :: "(book \<Rightarrow> u64 \<Rightarrow> 'p \<Rightarrow> 'u ring \<Rightarrow> ('p \<times> 'u ring) option) \<Rightarrow> market_event list \<Rightarrow>
    'p \<Rightarrow> 'u ring \<Rightarrow> ('u list \<times> 'p \<times> 'u ring) option" where
  "market_run step [] p r = Some ([], p, r)"
| "market_run step (Applied b tsc # es) p r = do {
     (p, r) \<leftarrow> step b tsc p r;
     market_run step es p r
   }"
| "market_run step (Taken # es) p r = do {
     (x, r) \<leftarrow> try_pop r;
     (outs, p, r) \<leftarrow> market_run step es p r;
     Some (case x of Some u \<Rightarrow> u # outs | None \<Rightarrow> outs, p, r)
   }"

text \<open>How many messages a history applies; a subscriber that polls an empty ring costs nothing.\<close>

fun applies :: "market_event list \<Rightarrow> nat" where
  "applies [] = 0"
| "applies (Applied b tsc # es) = Suc (applies es)"
| "applies (Taken # es) = applies es"

lemma applies_append [simp]: "applies (es @ fs) = applies es + applies fs"
  by (induction es rule: applies.induct) simp_all

lemma market_run_append: "market_run step (es @ fs) p r = do {
    (outs, p, r) \<leftarrow> market_run step es p r;
    (outs', p, r) \<leftarrow> market_run step fs p r;
    Some (outs @ outs', p, r)
  }"
  by (induction es arbitrary: p r rule: applies.induct) (auto split: bind_splits option.splits prod.splits)

text \<open>The changes of the top, with the time stamps of the messages that caused them.\<close>

fun changes :: "top \<Rightarrow> market_event list \<Rightarrow> (u64 \<times> top) list" where
  "changes t [] = []"
| "changes t (Applied b tsc # es) =
     (if top_of_book b = t then changes t es else (tsc, top_of_book b) # changes (top_of_book b) es)"
| "changes t (Taken # es) = changes t es"

fun last_top :: "top \<Rightarrow> market_event list \<Rightarrow> top" where
  "last_top t [] = t"
| "last_top t (Applied b tsc # es) = last_top (top_of_book b) es"
| "last_top t (Taken # es) = last_top t es"

fun numbered :: "u64 \<Rightarrow> (u64 \<times> top) list \<Rightarrow> (u64 \<times> u64 \<times> top) list" where
  "numbered k [] = []"
| "numbered k ((tsc, t) # cs) = (k + 1, tsc, t) # numbered (k + 1) cs"

lemma length_numbered [simp]: "length (numbered k cs) = length cs"
  by (induction k cs rule: numbered.induct) simp_all

lemma length_changes: "length (changes t es) \<le> applies es"
  by (induction t es rule: changes.induct) auto

lemma last_top_changes: "last_top t es = (if changes t es = [] then t else snd (last (changes t es)))"
  by (induction t es rule: last_top.induct) auto

lemma numbered_last: "cs \<noteq> [] \<Longrightarrow> snd (snd (last (numbered k cs))) = snd (last cs)"
proof (induction k cs rule: numbered.induct)
  case (2 k tsc t cs)
  then show ?case by (cases cs) auto
qed simp

section \<open>The contract\<close>

locale conflating_publisher =
  fixes step :: "book \<Rightarrow> u64 \<Rightarrow> 'p \<Rightarrow> 'u ring \<Rightarrow> ('p \<times> 'u ring) option"
    and seen :: "'p \<Rightarrow> top" and seq :: "'p \<Rightarrow> u64" and sent :: "'p \<Rightarrow> u64" and lost :: "'p \<Rightarrow> u64"
    and stamp :: "'u \<Rightarrow> u64 \<times> u64 \<times> 'n" and narrow :: "top \<Rightarrow> 'n"
  assumes unchanged: "seen p = top_of_book b \<Longrightarrow> step b tsc p r = Some (p, r)"
    and changed: "seen p \<noteq> top_of_book b \<Longrightarrow> step b tsc p r = Some (p', r') \<Longrightarrow>
      \<exists>u ok. try_push r u = Some (ok, r') \<and> stamp u = (seq p + 1, tsc, narrow (top_of_book b)) \<and>
        seen p' = top_of_book b \<and> seq p' = seq p + 1 \<and>
        sent p' = sent p + of_bool ok \<and> lost p' = lost p + of_bool (\<not> ok)"
begin

definition label :: "u64 \<times> u64 \<times> top \<Rightarrow> u64 \<times> u64 \<times> 'n" where
  "label = (\<lambda>(k, tsc, t). (k, tsc, narrow t))"

lemma history:
  assumes "market_run step es p r = Some (outs, p', r')" and "ring_ok r" and "unat (r_head r) + applies es < 2 ^ 64"
  shows "\<exists>acc. ring_items r @ acc = outs @ ring_items r' \<and>
    subseq (map stamp acc) (map label (numbered (seq p) (changes (seen p) es))) \<and>
    seq p' = seq p + word_of_nat (length (changes (seen p) es)) \<and> sent p' = sent p + word_of_nat (length acc) \<and>
    (sent p + lost p = seq p \<longrightarrow> sent p' + lost p' = seq p') \<and> seen p' = last_top (seen p) es \<and>
    ring_ok r' \<and> ring_cap r' = ring_cap r"
  using assms
proof (induction es arbitrary: p r outs)
  case (Cons e es)
  show ?case
  proof (cases e)
    case (Applied b tsc)
    show ?thesis
    proof (cases "seen p = top_of_book b")
      case True
      with Cons.prems Cons.IH [of p r outs] Applied unchanged [OF True, of tsc r] show ?thesis by simp
    next
      case False
      from Cons.prems(1) Applied obtain p1 r1 where 1: "step b tsc p r = Some (p1, r1)"
        "market_run step es p1 r1 = Some (outs, p', r')" by (auto simp: bind_eq_Some_conv)
      from changed [OF False 1(1)] obtain u ok where u: "try_push r u = Some (ok, r1)"
        "stamp u = (seq p + 1, tsc, narrow (top_of_book b))" "seen p1 = top_of_book b" "seq p1 = seq p + 1"
        "sent p1 = sent p + of_bool ok" "lost p1 = lost p + of_bool (\<not> ok)" by blast
      have "unat (r_head r) + 1 < 2 ^ 64" using Cons.prems(3) Applied by simp
      then obtain ok' r2 where q: "try_push r u = Some (ok', r2)" "ring_ok r2" "ring_cap r2 = ring_cap r"
        "ring_items r2 = (if ok' then ring_items r @ [u] else ring_items r)"
        "unat (r_head r2) = (if ok' then unat (r_head r) + 1 else unat (r_head r))"
        by (rule ring.push_cases [OF Cons.prems(2), of u]) (rule that)
      with u(1) have r1: "ok' = ok" "r2 = r1" by simp_all
      have "unat (r_head r1) + applies es < 2 ^ 64" using q(5) r1 Cons.prems(3) Applied by (simp split: if_splits)
      from Cons.IH [OF 1(2) _ this] q(2,3) r1 obtain acc where acc:
        "ring_items r1 @ acc = outs @ ring_items r'"
        "subseq (map stamp acc) (map label (numbered (seq p1) (changes (seen p1) es)))"
        "seq p' = seq p1 + word_of_nat (length (changes (seen p1) es))" "sent p' = sent p1 + word_of_nat (length acc)"
        "sent p1 + lost p1 = seq p1 \<longrightarrow> sent p' + lost p' = seq p'" "seen p' = last_top (seen p1) es"
        "ring_ok r'" "ring_cap r' = ring_cap r" by auto
      have lab: "label (seq p + 1, tsc, top_of_book b) = stamp u" by (simp add: label_def u(2))
      have bal: "sent p + lost p = seq p \<Longrightarrow> sent p1 + lost p1 = seq p1" by (cases ok) (auto simp: u)
      show ?thesis
      proof (cases ok)
        case True
        have "subseq (map stamp (u # acc)) (map label (numbered (seq p) (changes (seen p) (e # es))))"
          using acc(2) False Applied u(3,4) lab by simp
        then show ?thesis
          using acc False Applied u q(4) r1 True bal
          by (intro exI [of _ "u # acc"]) (simp add: add.commute add.left_commute)
      next
        case nok: False
        have "subseq (map stamp acc) (map label (numbered (seq p) (changes (seen p) (e # es))))"
          using acc(2) False Applied u(3,4) by (simp add: list_emb_Cons)
        then show ?thesis
          using acc False Applied u q(4) r1 nok bal
          by (intro exI [of _ acc]) (simp add: add.commute add.left_commute)
      qed
    qed
  next
    case Taken
    show ?thesis
    proof (cases rule: ring.pop_cases [OF Cons.prems(2)])
      case (1 r1)
      with Cons.prems Taken obtain outs1 where o: "market_run step es p r1 = Some (outs1, p', r')" "outs = outs1"
        by (auto simp: bind_eq_Some_conv)
      have "unat (r_head r1) + applies es < 2 ^ 64" using 1 Cons.prems(3) Taken by simp
      from Cons.IH [OF o(1) 1(3) this] obtain acc where "ring_items r1 @ acc = outs1 @ ring_items r'"
        "subseq (map stamp acc) (map label (numbered (seq p) (changes (seen p) es)))"
        "seq p' = seq p + word_of_nat (length (changes (seen p) es))" "sent p' = sent p + word_of_nat (length acc)"
        "sent p + lost p = seq p \<longrightarrow> sent p' + lost p' = seq p'" "seen p' = last_top (seen p) es"
        "ring_ok r'" "ring_cap r' = ring_cap r1" by blast
      then show ?thesis by (intro exI [of _ acc] conjI) (use 1 o(2) Taken in simp_all)
    next
      case (2 u r1)
      with Cons.prems Taken obtain outs1 where o: "market_run step es p r1 = Some (outs1, p', r')" "outs = u # outs1"
        by (auto simp: bind_eq_Some_conv)
      have "unat (r_head r1) + applies es < 2 ^ 64" using 2 Cons.prems(3) Taken by simp
      from Cons.IH [OF o(1) 2(3) this] obtain acc where "ring_items r1 @ acc = outs1 @ ring_items r'"
        "subseq (map stamp acc) (map label (numbered (seq p) (changes (seen p) es)))"
        "seq p' = seq p + word_of_nat (length (changes (seen p) es))" "sent p' = sent p + word_of_nat (length acc)"
        "sent p + lost p = seq p \<longrightarrow> sent p' + lost p' = seq p'" "seen p' = last_top (seen p) es"
        "ring_ok r'" "ring_cap r' = ring_cap r1" by blast
      then show ?thesis by (intro exI [of _ acc] conjI) (use 2 o(2) Taken in simp_all)
    qed
  qed
qed simp

text \<open>Nothing dropped: the subscriber gets every change, so what it saw last is the current top.\<close>

lemma complete_when_none_lost:
  assumes "market_run step es p r = Some (outs, p', r')" and "ring_ok r" and "unat (r_head r) + applies es < 2 ^ 64"
    and "ring_items r = []" and "seq p = 0" and "sent p = 0" and "lost p = 0" and "lost p' = 0"
  shows "map stamp (outs @ ring_items r') = map label (numbered 0 (changes (seen p) es))"
proof -
  obtain acc where acc: "ring_items r @ acc = outs @ ring_items r'"
    "subseq (map stamp acc) (map label (numbered (seq p) (changes (seen p) es)))"
    "seq p' = seq p + word_of_nat (length (changes (seen p) es))" "sent p' = sent p + word_of_nat (length acc)"
    "sent p + lost p = seq p \<longrightarrow> sent p' + lost p' = seq p'"
    using history [OF assms(1-3)] by blast
  have c: "length (changes (seen p) es) \<le> applies es" by (rule length_changes)
  have "length acc \<le> length (changes (seen p) es)" using list_emb_length [OF acc(2)] by simp
  moreover have "word_of_nat (length acc) = (word_of_nat (length (changes (seen p) es)) :: u64)"
    using acc(3-5) assms(5-8) by simp
  ultimately have "length acc = length (changes (seen p) es)"
    using c assms(3) by (simp add: word_of_nat_eq_iff take_bit_nat_eq_self)
  then have "map stamp acc = map label (numbered (seq p) (changes (seen p) es))"
    by (intro subseq_same_length [OF acc(2)]) simp
  with acc(1) assms(4,5) show ?thesis by simp
qed

text \<open>A change that meets a full ring is dropped, and is not sent again while the top stays as it
  is, even when the subscriber has made room.\<close>

lemma drop_not_resent:
  assumes "seen p \<noteq> top_of_book b" and "step b tsc p r = Some (p', r')" and "ring_ok r"
    and "length (ring_items r) = ring_cap r"
  shows "ring_items r' = ring_items r \<and> lost p' = lost p + 1 \<and>
    (\<forall>b' tsc' r''. top_of_book b' = top_of_book b \<longrightarrow> step b' tsc' p' r'' = Some (p', r''))"
proof -
  from changed [OF assms(1,2)] obtain u ok where u: "try_push r u = Some (ok, r')" "seen p' = top_of_book b"
    "lost p' = lost p + of_bool (\<not> ok)" by blast
  obtain r2 where "try_push r u = Some (False, r2)" "ring_items r2 = ring_items r"
    using ring.push_full [OF assms(3,4), of u] by blast
  with u unchanged [of p'] show ?thesis by simp
qed

end

end
