(* ===== verification/Bbo.thy ===== *)
theory Bbo
  imports Publisher
begin

text \<open>
  \<open>include/lob/bbo.hpp\<close>: best-bid-and-offer publication. \<open>on_message_applied\<close> is the whole member
  function; the book and the ring, which the class holds by reference, are passed in, and the
  ring is passed on. The theorems: the published prices and quantities are those of the heads
  of the two sides of the abstract book; over any history the subscriber receives the numbered
  changes of the top, in order, except those dropped, with exact counters; a dropped change is
  lost for good if the top does not move again.
\<close>

record bbo_update =
  bu_bid_px :: price
  bu_ask_px :: price
  bu_bid_qty :: qty
  bu_ask_qty :: qty
  bu_seq :: u64
  bu_origin_tsc :: u64

record bbo_publisher =
  bp_last :: bbo_update
  bp_seq :: u64
  bp_published :: u64
  bp_dropped :: u64

definition bbo_new :: bbo_publisher where
  "bbo_new = \<lparr>bp_last = \<lparr>bu_bid_px = - 1, bu_ask_px = - 1, bu_bid_qty = 0, bu_ask_qty = 0, bu_seq = 0,
     bu_origin_tsc = 0\<rparr>, bp_seq = 0, bp_published = 0, bp_dropped = 0\<rparr>"

definition on_message_applied :: "book \<Rightarrow> u64 \<Rightarrow> bbo_publisher \<Rightarrow> bbo_update ring \<Rightarrow>
    (bbo_publisher \<times> bbo_update ring) option" where
  "on_message_applied b origin_tsc p r =
     (let (bp, ap, bq, aq) = top_of_book b
      in if bp = bu_bid_px (bp_last p) \<and> ap = bu_ask_px (bp_last p) \<and>
            bq = bu_bid_qty (bp_last p) \<and> aq = bu_ask_qty (bp_last p) then Some (p, r)
         else do {
           let lst = (bp_last p)\<lparr>bu_bid_px := bp, bu_ask_px := ap\<rparr>;
           let lst = lst\<lparr>bu_bid_qty := bq, bu_ask_qty := aq\<rparr>;
           let p = p\<lparr>bp_seq := bp_seq p + 1\<rparr>;
           let lst = lst\<lparr>bu_seq := bp_seq p, bu_origin_tsc := origin_tsc\<rparr>;
           let p = p\<lparr>bp_last := lst\<rparr>;
           (ok, r) \<leftarrow> try_push r lst;
           Some (if \<not> ok then p\<lparr>bp_dropped := bp_dropped p + 1\<rparr> else p\<lparr>bp_published := bp_published p + 1\<rparr>, r)
         })"

definition published :: "bbo_publisher \<Rightarrow> u64" where "published p = bp_published p"
definition bbo_dropped :: "bbo_publisher \<Rightarrow> u64" where "bbo_dropped p = bp_dropped p"

section \<open>The publisher keeps the contract\<close>

definition bbo_top :: "bbo_update \<Rightarrow> top" where
  "bbo_top u = (bu_bid_px u, bu_ask_px u, bu_bid_qty u, bu_ask_qty u)"

definition bbo_stamp :: "bbo_update \<Rightarrow> u64 \<times> u64 \<times> top" where
  "bbo_stamp u = (bu_seq u, bu_origin_tsc u, bbo_top u)"

lemma applied_same: "bbo_top (bp_last p) = top_of_book b \<Longrightarrow> on_message_applied b tsc p r = Some (p, r)"
  by (auto simp: on_message_applied_def bbo_top_def split: prod.splits)

lemma applied_change:
  assumes "bbo_top (bp_last p) \<noteq> top_of_book b"
  shows "\<exists>u. on_message_applied b tsc p r = (case try_push r u of None \<Rightarrow> None | Some (ok, r') \<Rightarrow>
      Some (p\<lparr>bp_last := u, bp_seq := bp_seq p + 1, bp_published := bp_published p + of_bool ok,
        bp_dropped := bp_dropped p + of_bool (\<not> ok)\<rparr>, r')) \<and>
    bbo_stamp u = (bp_seq p + 1, tsc, top_of_book b)"
proof -
  obtain bp ap bq aq where t: "top_of_book b = (bp, ap, bq, aq)" by (metis prod.exhaust)
  let ?u = "(bp_last p)\<lparr>bu_bid_px := bp, bu_ask_px := ap, bu_bid_qty := bq, bu_ask_qty := aq, bu_seq := bp_seq p + 1,
    bu_origin_tsc := tsc\<rparr>"
  have n: "\<not> (bp = bu_bid_px (bp_last p) \<and> ap = bu_ask_px (bp_last p) \<and> bq = bu_bid_qty (bp_last p) \<and> aq = bu_ask_qty (bp_last p))"
    using assms by (auto simp: bbo_top_def t)
  have "on_message_applied b tsc p r = do {
      (ok, r) \<leftarrow> try_push r ?u;
      let p = p\<lparr>bp_seq := bp_seq p + 1, bp_last := ?u\<rparr>;
      Some (if \<not> ok then p\<lparr>bp_dropped := bp_dropped p + 1\<rparr> else p\<lparr>bp_published := bp_published p + 1\<rparr>, r) }"
    unfolding on_message_applied_def t prod.case if_not_P [OF n] Let_def by (simp cong: if_cong)
  then show ?thesis
    by (intro exI [of _ ?u] conjI) (simp_all add: bbo_stamp_def bbo_top_def t split: option.splits bool.splits)
qed

interpretation bbo: conflating_publisher on_message_applied "\<lambda>p. bbo_top (bp_last p)" bp_seq bp_published bp_dropped
  bbo_stamp "\<lambda>t. t"
proof
  fix p b tsc and r r' :: "bbo_update ring" and p'
  show "bbo_top (bp_last p) = top_of_book b \<Longrightarrow> on_message_applied b tsc p r = Some (p, r)" by (rule applied_same)
  assume n: "bbo_top (bp_last p) \<noteq> top_of_book b" and run: "on_message_applied b tsc p r = Some (p', r')"
  obtain u where u: "on_message_applied b tsc p r = (case try_push r u of None \<Rightarrow> None | Some (ok, r') \<Rightarrow>
      Some (p\<lparr>bp_last := u, bp_seq := bp_seq p + 1, bp_published := bp_published p + of_bool ok,
        bp_dropped := bp_dropped p + of_bool (\<not> ok)\<rparr>, r'))" "bbo_stamp u = (bp_seq p + 1, tsc, top_of_book b)"
    using applied_change [OF n] by blast
  then obtain ok where ok: "try_push r u = Some (ok, r')" "p' = p\<lparr>bp_last := u, bp_seq := bp_seq p + 1,
      bp_published := bp_published p + of_bool ok, bp_dropped := bp_dropped p + of_bool (\<not> ok)\<rparr>"
    using run by (auto split: option.splits)
  have "bbo_top (bp_last p') = top_of_book b" using u(2) ok(2) by (simp add: bbo_stamp_def)
  with u(2) ok show "\<exists>u ok. try_push r u = Some (ok, r') \<and> bbo_stamp u = (bp_seq p + 1, tsc, top_of_book b) \<and>
      bbo_top (bp_last p') = top_of_book b \<and> bp_seq p' = bp_seq p + 1 \<and>
      bp_published p' = bp_published p + of_bool ok \<and> bp_dropped p' = bp_dropped p + of_bool (\<not> ok)"
    by (intro exI [of _ u] exI [of _ ok]) simp
qed

text \<open>Publishing never fails.\<close>

lemma applied_total:
  assumes "ring_ok r" and "unat (r_head r) + 1 < 2 ^ 64"
  obtains p' r' where "on_message_applied b tsc p r = Some (p', r')" and "ring_ok r'" and "ring_cap r' = ring_cap r"
    and "unat (r_head r') \<le> unat (r_head r) + 1" and "length (ring_items r') \<le> length (ring_items r) + 1" and "set (ring_items r') \<subseteq> set (ring_items r) \<union> {u. bbo_top u = top_of_book b}"
    and "bbo_top (bp_last p') = top_of_book b"
proof (cases "bbo_top (bp_last p) = top_of_book b")
  case True
  with assms applied_same [OF True, of tsc r] that [of p r] show ?thesis by simp
next
  case False
  obtain u where u: "on_message_applied b tsc p r = (case try_push r u of None \<Rightarrow> None | Some (ok, r') \<Rightarrow>
      Some (p\<lparr>bp_last := u, bp_seq := bp_seq p + 1, bp_published := bp_published p + of_bool ok,
        bp_dropped := bp_dropped p + of_bool (\<not> ok)\<rparr>, r'))" "bbo_stamp u = (bp_seq p + 1, tsc, top_of_book b)"
    using applied_change [OF False] by blast
  obtain ok q where q: "try_push r u = Some (ok, q)" "ring_ok q" "ring_cap q = ring_cap r"
    "ring_items q = (if ok then ring_items r @ [u] else ring_items r)" "unat (r_head q) = (if ok then unat (r_head r) + 1 else unat (r_head r))"
    by (rule ring.push_cases [OF assms, of u]) (rule that)
  show ?thesis
  proof (rule that [OF _ q(2,3)])
    show "on_message_applied b tsc p r = Some (p\<lparr>bp_last := u, bp_seq := bp_seq p + 1,
        bp_published := bp_published p + of_bool ok, bp_dropped := bp_dropped p + of_bool (\<not> ok)\<rparr>, q)"
      using u(1) q(1) by simp
    show "set (ring_items q) \<subseteq> set (ring_items r) \<union> {u. bbo_top u = top_of_book b}"
      using q(4) u(2) by (auto simp: bbo_stamp_def)
    show "length (ring_items q) \<le> length (ring_items r) + 1" unfolding q(4) by (cases ok) simp_all
  qed (use q(5) u(2) in \<open>simp_all add: bbo_stamp_def\<close>)
qed

lemma market_total:
  assumes "ring_ok r" and "unat (r_head r) + applies es < 2 ^ 64"
  shows "\<exists>outs p' r'. market_run on_message_applied es p r = Some (outs, p', r')"
  using assms
proof (induction es arbitrary: p r)
  case (Cons e es)
  show ?case
  proof (cases e)
    case (Applied b tsc)
    have h: "unat (r_head r) + 1 < 2 ^ 64" using Cons.prems(2) Applied by simp
    obtain p1 r1 where 1: "on_message_applied b tsc p r = Some (p1, r1)" "ring_ok r1" "unat (r_head r1) \<le> unat (r_head r) + 1"
      by (rule applied_total [OF Cons.prems(1) h]) (rule that)
    have "unat (r_head r1) + applies es < 2 ^ 64" using 1(3) Cons.prems(2) Applied by simp
    with Cons.IH [OF 1(2) this] 1(1) Applied show ?thesis by simp
  next
    case Taken
    show ?thesis
    proof (cases rule: ring.pop_cases [OF Cons.prems(1)])
      case (1 r1)
      with Cons.IH [of r1 p] Cons.prems(2) Taken show ?thesis by auto
    next
      case (2 u r1)
      with Cons.IH [of r1 p] Cons.prems(2) Taken show ?thesis by auto
    qed
  qed
qed simp

section \<open>Theorems\<close>

text \<open>What the subscriber sees. Over any history of pops and fewer than \<open>2^64\<close> applied messages,
  starting from a fresh publisher and ring, no call is undefined; the updates received and
  those still queued are a subsequence of the changes of the top of the book, numbered from 1,
  with the time stamps of the messages that caused them; every change is counted as published
  or as dropped; and if none was dropped the subscriber gets every change, so the last update
  it gets is the current top.\<close>

theorem bbo_history:
  assumes "pow2_cap cap" and "applies es < 2 ^ 64"
  shows "\<exists>outs p r. market_run on_message_applied es bbo_new (ring_new cap) = Some (outs, p, r) \<and>
    subseq (map bbo_stamp (outs @ ring_items r)) (numbered 0 (changes no_top es)) \<and>
    published p = word_of_nat (length (outs @ ring_items r)) \<and>
    published p + bbo_dropped p = word_of_nat (length (changes no_top es)) \<and>
    (bbo_dropped p = 0 \<longrightarrow> map bbo_stamp (outs @ ring_items r) = numbered 0 (changes no_top es) \<and>
      (outs @ ring_items r \<noteq> [] \<longrightarrow> bbo_top (last (outs @ ring_items r)) = last_top no_top es))"
proof -
  have h: "unat (r_head (ring_new cap :: bbo_update ring)) + applies es < 2 ^ 64" using assms(2) by (simp add: ring_new_ok)
  note ok = ring_new_ok(1) [OF assms(1), where 'a = bbo_update]
  have new: "bbo_top (bp_last bbo_new) = no_top" "bp_seq bbo_new = 0" "bp_published bbo_new = 0" "bp_dropped bbo_new = 0"
    by (simp_all add: bbo_new_def bbo_top_def no_top_def)
  have lab: "bbo.label = (\<lambda>x. x)" by (auto simp: bbo.label_def)
  obtain outs p r where run: "market_run on_message_applied es bbo_new (ring_new cap) = Some (outs, p, r)"
    using market_total [OF ok h] by blast
  obtain acc where acc: "acc = outs @ ring_items r" "subseq (map bbo_stamp acc) (numbered 0 (changes no_top es))"
    "bp_seq p = word_of_nat (length (changes no_top es))" "bp_published p = word_of_nat (length acc)"
    "bp_published p + bp_dropped p = bp_seq p"
    using bbo.history [OF run ok h, unfolded new lab] by (auto simp: ring_new_ok)
  have full: "map bbo_stamp (outs @ ring_items r) = numbered 0 (changes no_top es)" if "bp_dropped p = 0"
    using bbo.complete_when_none_lost [OF run ok h _ new(2-4) that] by (simp add: new(1) lab ring_new_ok)
  have "bbo_top (last (outs @ ring_items r)) = last_top no_top es"
    if d: "bp_dropped p = 0" and ne: "outs @ ring_items r \<noteq> []"
  proof -
    have c: "changes no_top es \<noteq> []" using full [OF d] ne by auto
    have "bbo_top (last (outs @ ring_items r)) = snd (snd (last (map bbo_stamp (outs @ ring_items r))))"
      unfolding last_map [OF ne] by (simp add: bbo_stamp_def)
    also have "\<dots> = last_top no_top es" unfolding full [OF d] numbered_last [OF c] using c by (simp add: last_top_changes)
    finally show ?thesis .
  qed
  with run acc full show ?thesis by (auto simp: published_def bbo_dropped_def)
qed

theorem bbo_history_witness:
  "\<exists>b outs p r. market_run on_message_applied [Applied b 5, Taken] bbo_new (ring_new 4) = Some (outs, p, r) \<and>
    changes no_top [Applied b 5, Taken] = [(5, 1005, - 1, 10, 0)] \<and> published p + bbo_dropped p = 1"
proof (rule one_top)
  fix b
  assume t: "top_of_book b = (1005, - 1, 10, 0)"
  have c: "pow2_cap 4" unfolding pow2_cap_def by (intro exI [of _ 2]) simp
  have d: "changes no_top [Applied b 5, Taken] = [(5, 1005, - 1, 10, 0)]" by (simp add: no_top_def t)
  obtain outs p r where "market_run on_message_applied [Applied b 5, Taken] bbo_new (ring_new 4) = Some (outs, p, r)"
    "published p + bbo_dropped p = 1"
    using bbo_history [OF c, of "[Applied b 5, Taken]"] unfolding d by auto
  with d show ?thesis by blast
qed

text \<open>C31. The price of dropping: a change of the top that finds the ring full is counted and forgotten.
  As long as the top stays what it is, no later message makes the publisher send it, even into
  an empty ring, so the subscriber keeps a stale top.\<close>

theorem bbo_drop_is_final:
  assumes "ring_ok r" and "length (ring_items r) = ring_cap r" and "bbo_top (bp_last p) \<noteq> top_of_book b"
    and "unat (r_head r) + 1 < 2 ^ 64"
  shows "\<exists>p' r'. on_message_applied b tsc p r = Some (p', r') \<and> ring_items r' = ring_items r \<and>
    bbo_dropped p' = bbo_dropped p + 1 \<and>
    (\<forall>b' tsc' r''. top_of_book b' = top_of_book b \<longrightarrow> on_message_applied b' tsc' p' r'' = Some (p', r''))"
proof -
  obtain p' r' where run: "on_message_applied b tsc p r = Some (p', r')" by (rule applied_total [OF assms(1,4)])
  from bbo.drop_not_resent [OF assms(3) run assms(1,2)] run show ?thesis by (auto simp: bbo_dropped_def)
qed

theorem bbo_drop_is_final_witness:
  "\<exists>b r p' r'. r_buf r = [Some (bp_last bbo_new), Some (bp_last bbo_new)] \<and>
    on_message_applied b 9 bbo_new r = Some (p', r') \<and> ring_items r' = ring_items r \<and> bbo_dropped p' = 1"
proof (rule one_top)
  fix b
  assume t: "top_of_book b = (1005, - 1, 10, 0)"
  define r where "r = \<lparr>r_head = 2, r_tail_cache = 0, r_tail = 0, r_head_cache = 0,
    r_buf = [Some (bp_last bbo_new), Some (bp_last bbo_new)]\<rparr>"
  have c: "pow2_cap 2" by (auto simp: pow2_cap_def intro: exI [of _ 1])
  have i: "ring_items r = [bp_last bbo_new, bp_last bbo_new]" by (simp add: ring_items_def r_def ring_cap_def upt_rec)
  have "ring_ok r" unfolding ring_ok_def i
    by (simp add: r_def ring_cap_def c queued_def nth_Cons' less_2_cases_iff c [unfolded numeral_2_eq_2])
  from bbo_drop_is_final [OF this, of bbo_new b 9] i t show ?thesis
    by (intro exI [of _ b] exI [of _ r]) (auto simp: r_def ring_cap_def bbo_new_def bbo_top_def bbo_dropped_def)
qed

end
