(* ===== verification/Checked.thy ===== *)
theory Checked
  imports Common
begin

text \<open>
  Signed 64-bit arithmetic with the overflow made visible. Signed overflow is undefined in C++;
  \<open>sadd\<close>, \<open>ssub\<close> and \<open>smul\<close> are \<^const>\<open>None\<close> when the mathematical result does not fit into 64 bits.
  The risk gateway and the signal publisher compute on quantities whose size nothing bounds, so
  their models use these operations.
\<close>

definition fits64 :: "int \<Rightarrow> bool" where
  "fits64 i \<longleftrightarrow> - (2 ^ 63) \<le> i \<and> i < 2 ^ 63"

definition sadd :: "i64 \<Rightarrow> i64 \<Rightarrow> i64 option" where
  "sadd a b = (if fits64 (sint a + sint b) then Some (a + b) else None)"

definition ssub :: "i64 \<Rightarrow> i64 \<Rightarrow> i64 option" where
  "ssub a b = (if fits64 (sint a - sint b) then Some (a - b) else None)"

definition smul :: "i64 \<Rightarrow> i64 \<Rightarrow> i64 option" where
  "smul a b = (if fits64 (sint a * sint b) then Some (a * b) else None)"

lemma sadd_fits:
  assumes "- (2 ^ 63) \<le> sint a + sint b" and "sint a + sint b < 2 ^ 63"
  shows "sadd a b = Some (a + b)" and "sint (a + b) = sint a + sint b"
  using assms by (simp_all add: sadd_def fits64_def sint_add64)

lemma ssub_fits:
  assumes "- (2 ^ 63) \<le> sint a - sint b" and "sint a - sint b < 2 ^ 63"
  shows "ssub a b = Some (a - b)" and "sint (a - b) = sint a - sint b"
  using assms by (simp_all add: ssub_def fits64_def sint_diff64)

lemma smul_01 [simp]: "smul q 0 = Some 0" "smul q 1 = Some q"
  using sint_range64 [of q] by (simp_all add: smul_def fits64_def)

lemma smul_minus: "- (2 ^ 63) < sint q \<Longrightarrow> smul q (- 1) = Some (- q) \<and> sint (- q) = - sint q"
  using sint_range64 [of q] sint_diff64 [of 0 q] by (simp add: smul_def fits64_def)

end
