(* ===== verification/Risk.thy ===== *)
theory Risk
  imports Checked Bounded_Fifo
begin

text \<open>
  \<open>include/lob/risk.hpp\<close>: the pre-trade risk gateway. Unlike the rest of the library it adds and
  multiplies quantities before it knows that they are acceptable, so here signed overflow,
  which is undefined in C++, is modelled: \<open>sadd\<close>, \<open>ssub\<close> and \<open>smul\<close> are \<^const>\<open>None\<close> when the
  mathematical result does not fit into 64 bits.

  The theorems: the verdict says exactly which of the four checks failed, and a rejected order
  leaves all exposure and the rate window as they were; whatever the history, the worst case of
  each side and the net position stay within the limit; no \<open>W + 1\<close> accepted orders lie within
  the rate window. The depth \<open>W\<close> of the window is a power of two of at least 2.
\<close>

section \<open>The gateway\<close>

definition RJ_NONE :: u32 where "RJ_NONE = 0"
definition RJ_QTY :: u32 where "RJ_QTY = push_bit 0 1"
definition RJ_PRICE_BAND :: u32 where "RJ_PRICE_BAND = push_bit 1 1"
definition RJ_POSITION :: u32 where "RJ_POSITION = push_bit 2 1"
definition RJ_RATE :: u32 where "RJ_RATE = push_bit 3 1"

record risk_gateway =
  rk_max_qty :: qty
  rk_px_lo :: price
  rk_px_hi :: price
  rk_pos_limit :: qty
  rk_window_ticks :: u64
  rk_open_buy :: qty
  rk_open_sell :: qty
  rk_net_pos :: qty
  rk_n_sent :: u64
  rk_rejected :: u64
  rk_stamps :: "u64 list"

definition risk_new :: "nat \<Rightarrow> qty \<Rightarrow> price \<Rightarrow> price \<Rightarrow> qty \<Rightarrow> u64 \<Rightarrow> risk_gateway" where
  "risk_new W max_order_qty px_lo px_hi position_limit window_ticks =
     \<lparr>rk_max_qty = max_order_qty, rk_px_lo = px_lo, rk_px_hi = px_hi, rk_pos_limit = position_limit,
      rk_window_ticks = window_ticks, rk_open_buy = 0, rk_open_sell = 0, rk_net_pos = 0, rk_n_sent = 0,
      rk_rejected = 0, rk_stamps = replicate W 0\<rparr>"

definition stamp_slot :: "risk_gateway \<Rightarrow> nat" where
  "stamp_slot rk = slot_index (length (rk_stamps rk)) (rk_n_sent rk)"

definition check :: "risk_gateway \<Rightarrow> side \<Rightarrow> price \<Rightarrow> qty \<Rightarrow> u64 \<Rightarrow> (u32 \<times> risk_gateway) option" where
  "check rk sd px q now = do {
     let rj = RJ_QTY * of_bool (sint q \<le> 0 \<or> sint (rk_max_qty rk) < sint q);
     let rj = rj OR RJ_PRICE_BAND * of_bool (sint px < sint (rk_px_lo rk) \<or> sint (rk_px_hi rk) < sint px);
     let is_buy = of_bool (sd = Buy);
     b \<leftarrow> smul q is_buy;
     pb \<leftarrow> sadd (rk_open_buy rk) b;
     s \<leftarrow> smul q (1 - is_buy);
     ps \<leftarrow> sadd (rk_open_sell rk) s;
     wb \<leftarrow> sadd pb (rk_net_pos rk);
     ws \<leftarrow> ssub ps (rk_net_pos rk);
     let rj = rj OR RJ_POSITION * of_bool (sint (rk_pos_limit rk) < sint wb \<or> sint (rk_pos_limit rk) < sint ws);
     w \<leftarrow> aget (rk_stamps rk) (stamp_slot rk);
     let rj = rj OR RJ_RATE * of_bool (now - w < rk_window_ticks rk);
     if rj = 0 then do {
       stamps \<leftarrow> aput (rk_stamps rk) (stamp_slot rk) now;
       Some (rj, rk\<lparr>rk_open_buy := pb, rk_open_sell := ps, rk_stamps := stamps, rk_n_sent := rk_n_sent rk + 1\<rparr>)
     }
     else Some (rj, rk\<lparr>rk_rejected := rk_rejected rk + 1\<rparr>)
   }"

definition on_cancel :: "risk_gateway \<Rightarrow> side \<Rightarrow> qty \<Rightarrow> risk_gateway option" where
  "on_cancel rk sd q = do {
     let is_buy = of_bool (sd = Buy);
     b \<leftarrow> smul q is_buy;
     ob \<leftarrow> ssub (rk_open_buy rk) b;
     s \<leftarrow> smul q (1 - is_buy);
     os \<leftarrow> ssub (rk_open_sell rk) s;
     Some (rk\<lparr>rk_open_buy := ob, rk_open_sell := os\<rparr>)
   }"

definition on_fill :: "risk_gateway \<Rightarrow> side \<Rightarrow> qty \<Rightarrow> risk_gateway option" where
  "on_fill rk sd q = do {
     let is_buy = of_bool (sd = Buy);
     b \<leftarrow> smul q is_buy;
     ob \<leftarrow> ssub (rk_open_buy rk) b;
     s \<leftarrow> smul q (1 - is_buy);
     os \<leftarrow> ssub (rk_open_sell rk) s;
     d \<leftarrow> smul q (2 * is_buy - 1);
     n \<leftarrow> sadd (rk_net_pos rk) d;
     Some (rk\<lparr>rk_open_buy := ob, rk_open_sell := os, rk_net_pos := n\<rparr>)
   }"

text \<open>The observers.\<close>

definition net_position :: "risk_gateway \<Rightarrow> qty" where "net_position rk = rk_net_pos rk"
definition open_buy :: "risk_gateway \<Rightarrow> qty" where "open_buy rk = rk_open_buy rk"
definition open_sell :: "risk_gateway \<Rightarrow> qty" where "open_sell rk = rk_open_sell rk"
definition accepted :: "risk_gateway \<Rightarrow> u64" where "accepted rk = rk_n_sent rk"
definition rejected :: "risk_gateway \<Rightarrow> u64" where "rejected rk = rk_rejected rk"

section \<open>The verdict\<close>

text \<open>The four conditions over mathematical integers.\<close>

definition bad_qty :: "risk_gateway \<Rightarrow> qty \<Rightarrow> bool" where
  "bad_qty rk q \<longleftrightarrow> sint q \<le> 0 \<or> sint (rk_max_qty rk) < sint q"

definition off_band :: "risk_gateway \<Rightarrow> price \<Rightarrow> bool" where
  "off_band rk px \<longleftrightarrow> sint px < sint (rk_px_lo rk) \<or> sint (rk_px_hi rk) < sint px"

definition worst_buy :: "risk_gateway \<Rightarrow> int" where
  "worst_buy rk = sint (rk_open_buy rk) + sint (rk_net_pos rk)"

definition worst_sell :: "risk_gateway \<Rightarrow> int" where
  "worst_sell rk = sint (rk_open_sell rk) - sint (rk_net_pos rk)"

definition over_limit :: "risk_gateway \<Rightarrow> side \<Rightarrow> qty \<Rightarrow> bool" where
  "over_limit rk sd q \<longleftrightarrow> sint (rk_pos_limit rk) < worst_buy rk + (if sd = Buy then sint q else 0) \<or>
     sint (rk_pos_limit rk) < worst_sell rk + (if sd = Sell then sint q else 0)"

definition too_fast :: "risk_gateway \<Rightarrow> u64 \<Rightarrow> bool" where
  "too_fast rk now \<longleftrightarrow> now - rk_stamps rk ! stamp_slot rk < rk_window_ticks rk"

text \<open>The bounds under which no sum overflows: the limit and the exposure it implies, and the
  quantity asked for.\<close>

definition risk_ok :: "risk_gateway \<Rightarrow> bool" where
  "risk_ok rk \<longleftrightarrow> pow2_cap (length (rk_stamps rk)) \<and> 0 \<le> sint (rk_pos_limit rk) \<and> sint (rk_pos_limit rk) \<le> 2 ^ 60 \<and>
     0 \<le> sint (rk_open_buy rk) \<and> 0 \<le> sint (rk_open_sell rk) \<and>
     worst_buy rk \<le> sint (rk_pos_limit rk) \<and> worst_sell rk \<le> sint (rk_pos_limit rk)"

definition qty_sane :: "qty \<Rightarrow> bool" where
  "qty_sane q \<longleftrightarrow> - (2 ^ 61) \<le> sint q \<and> sint q \<le> 2 ^ 61"

lemma risk_new_ok: "pow2_cap W \<Longrightarrow> 0 \<le> sint lim \<Longrightarrow> sint lim \<le> 2 ^ 60 \<Longrightarrow> risk_ok (risk_new W mq lo hi lim win)"
  by (simp add: risk_ok_def risk_new_def worst_buy_def worst_sell_def)

lemma stamp_in: "risk_ok rk \<Longrightarrow> stamp_slot rk < length (rk_stamps rk)"
  by (simp add: risk_ok_def stamp_slot_def slot_in_range)

definition verdict :: "bool \<Rightarrow> bool \<Rightarrow> bool \<Rightarrow> bool \<Rightarrow> u32" where
  "verdict a b c d = ((RJ_QTY * of_bool a OR RJ_PRICE_BAND * of_bool b) OR RJ_POSITION * of_bool c) OR RJ_RATE * of_bool d"

lemma RJ_values: "RJ_QTY = 1" "RJ_PRICE_BAND = 2" "RJ_POSITION = 4" "RJ_RATE = 8"
  by (simp_all add: RJ_QTY_def RJ_PRICE_BAND_def RJ_POSITION_def RJ_RATE_def push_bit_eq_mult)

lemma verdict_bits:
  "verdict a b c d = 0 \<longleftrightarrow> \<not> a \<and> \<not> b \<and> \<not> c \<and> \<not> d"
  "verdict a b c d AND RJ_QTY \<noteq> 0 \<longleftrightarrow> a" "verdict a b c d AND RJ_PRICE_BAND \<noteq> 0 \<longleftrightarrow> b"
  "verdict a b c d AND RJ_POSITION \<noteq> 0 \<longleftrightarrow> c" "verdict a b c d AND RJ_RATE \<noteq> 0 \<longleftrightarrow> d"
  by (cases a; cases b; cases c; cases d; simp add: verdict_def RJ_values)+

lemma risk_bounds:
  assumes "risk_ok rk"
  shows "- (2 ^ 60) \<le> sint (rk_net_pos rk)" "sint (rk_net_pos rk) \<le> 2 ^ 60"
    "0 \<le> sint (rk_open_buy rk)" "sint (rk_open_buy rk) \<le> 2 ^ 61" "0 \<le> sint (rk_open_sell rk)" "sint (rk_open_sell rk) \<le> 2 ^ 61"
  using assms by (simp_all add: risk_ok_def worst_buy_def worst_sell_def)

definition accept_order :: "risk_gateway \<Rightarrow> side \<Rightarrow> qty \<Rightarrow> u64 \<Rightarrow> risk_gateway" where
  "accept_order rk sd q now = rk\<lparr>rk_open_buy := rk_open_buy rk + (if sd = Buy then q else 0),
     rk_open_sell := rk_open_sell rk + (if sd = Sell then q else 0),
     rk_stamps := (rk_stamps rk)[stamp_slot rk := now], rk_n_sent := rk_n_sent rk + 1\<rparr>"

lemma check_run:
  assumes ok: "risk_ok rk" and q: "qty_sane q"
  shows "check rk sd px q now = Some (let rj = verdict (bad_qty rk q) (off_band rk px) (over_limit rk sd q) (too_fast rk now)
    in (rj, if rj = 0 then accept_order rk sd q now else rk\<lparr>rk_rejected := rk_rejected rk + 1\<rparr>))"
proof -
  define b where "b = (if sd = Buy then q else 0)"
  define s where "s = (if sd = Sell then q else 0)"
  note B = risk_bounds [OF ok] and Q = q [unfolded qty_sane_def]
  have m: "smul q (of_bool (sd = Buy)) = Some b" "smul q (1 - of_bool (sd = Buy)) = Some s"
    by (cases sd; simp add: b_def s_def)+
  have qb: "- (2 ^ 61) \<le> sint b" "sint b \<le> 2 ^ 61" "- (2 ^ 61) \<le> sint s" "sint s \<le> 2 ^ 61"
    using Q by (simp_all add: b_def s_def)
  have pb: "sadd (rk_open_buy rk) b = Some (rk_open_buy rk + b)" "sint (rk_open_buy rk + b) = sint (rk_open_buy rk) + sint b"
    by (rule sadd_fits; use B(3,4) qb(1,2) in simp)+
  have ps: "sadd (rk_open_sell rk) s = Some (rk_open_sell rk + s)" "sint (rk_open_sell rk + s) = sint (rk_open_sell rk) + sint s"
    by (rule sadd_fits; use B(5,6) qb(3,4) in simp)+
  have wb: "sadd (rk_open_buy rk + b) (rk_net_pos rk) = Some (rk_open_buy rk + b + rk_net_pos rk)"
    "sint (rk_open_buy rk + b + rk_net_pos rk) = sint (rk_open_buy rk + b) + sint (rk_net_pos rk)"
    by (rule sadd_fits; unfold pb(2); use B(1-4) qb(1,2) in simp)+
  have ws: "ssub (rk_open_sell rk + s) (rk_net_pos rk) = Some (rk_open_sell rk + s - rk_net_pos rk)"
    "sint (rk_open_sell rk + s - rk_net_pos rk) = sint (rk_open_sell rk + s) - sint (rk_net_pos rk)"
    by (rule ssub_fits; unfold ps(2); use B(1,2,5,6) qb(3,4) in simp)+
  have w: "aget (rk_stamps rk) (stamp_slot rk) = Some (rk_stamps rk ! stamp_slot rk)"
    "aput (rk_stamps rk) (stamp_slot rk) now = Some ((rk_stamps rk)[stamp_slot rk := now])"
    using stamp_in [OF ok] by simp_all
  have over: "sint (rk_pos_limit rk) < sint (rk_open_buy rk + b + rk_net_pos rk) \<or>
      sint (rk_pos_limit rk) < sint (rk_open_sell rk + s - rk_net_pos rk) \<longleftrightarrow> over_limit rk sd q"
    unfolding wb(2) ws(2) pb(2) ps(2)
    by (cases sd) (simp_all add: over_limit_def worst_buy_def worst_sell_def b_def s_def algebra_simps)
  have e: "((RJ_QTY * of_bool (sint q \<le> 0 \<or> sint (rk_max_qty rk) < sint q) OR
      RJ_PRICE_BAND * of_bool (sint px < sint (rk_px_lo rk) \<or> sint (rk_px_hi rk) < sint px)) OR
      RJ_POSITION * of_bool (over_limit rk sd q)) OR RJ_RATE * of_bool (now - rk_stamps rk ! stamp_slot rk < rk_window_ticks rk) =
    verdict (bad_qty rk q) (off_band rk px) (over_limit rk sd q) (too_fast rk now)"
    by (simp only: verdict_def bad_qty_def off_band_def too_fast_def)
  have acc: "rk\<lparr>rk_open_buy := rk_open_buy rk + b, rk_open_sell := rk_open_sell rk + s,
      rk_stamps := (rk_stamps rk)[stamp_slot rk := now], rk_n_sent := rk_n_sent rk + 1\<rparr> = accept_order rk sd q now"
    by (simp add: accept_order_def b_def s_def)
  show ?thesis
    unfolding check_def Let_def m bind.bind_lunit pb(1) ps(1) wb(1) ws(1) w over e acc
    by simp
qed

lemma accept_ok:
  assumes ok: "risk_ok rk" and q: "\<not> bad_qty rk q" "\<not> over_limit rk sd q" "qty_sane q"
  shows "risk_ok (accept_order rk sd q now)"
proof -
  define b where "b = (if sd = Buy then q else 0)"
  define s where "s = (if sd = Sell then q else 0)"
  note B = risk_bounds [OF ok] and Q = q(3) [unfolded qty_sane_def]
  have q0: "0 < sint q" using q(1) by (simp add: bad_qty_def)
  have "sint (rk_open_buy rk + b) = sint (rk_open_buy rk) + sint b" "sint (rk_open_sell rk + s) = sint (rk_open_sell rk) + sint s"
    by (rule sadd_fits; use B Q in \<open>simp add: b_def s_def\<close>)+
  then show ?thesis using ok q(2) q0
    by (cases sd) (simp_all add: risk_ok_def accept_order_def worst_buy_def worst_sell_def over_limit_def b_def s_def)
qed

text \<open>A cancel or fill of \<open>q\<close> lots that were open.\<close>

definition covers :: "risk_gateway \<Rightarrow> side \<Rightarrow> qty \<Rightarrow> bool" where
  "covers rk sd q \<longleftrightarrow> 0 \<le> sint q \<and> sint q \<le> sint (if sd = Buy then rk_open_buy rk else rk_open_sell rk)"

definition pulled :: "risk_gateway \<Rightarrow> side \<Rightarrow> qty \<Rightarrow> risk_gateway" where
  "pulled rk sd q = rk\<lparr>rk_open_buy := rk_open_buy rk - (if sd = Buy then q else 0),
     rk_open_sell := rk_open_sell rk - (if sd = Sell then q else 0)\<rparr>"

lemma pulled_ints:
  assumes ok: "risk_ok rk" and c: "covers rk sd q"
  shows "ssub (rk_open_buy rk) (if sd = Buy then q else 0) = Some (rk_open_buy (pulled rk sd q))"
    and "ssub (rk_open_sell rk) (if sd = Sell then q else 0) = Some (rk_open_sell (pulled rk sd q))"
    and "sint (rk_open_buy (pulled rk sd q)) = sint (rk_open_buy rk) - (if sd = Buy then sint q else 0)"
    and "sint (rk_open_sell (pulled rk sd q)) = sint (rk_open_sell rk) - (if sd = Sell then sint q else 0)"
proof -
  define b where "b = (if sd = Buy then q else 0)"
  define s where "s = (if sd = Sell then q else 0)"
  note B = risk_bounds [OF ok]
  have r: "0 \<le> sint b" "sint b \<le> sint (rk_open_buy rk)" "0 \<le> sint s" "sint s \<le> sint (rk_open_sell rk)"
    using c B by (simp_all add: covers_def b_def s_def split: if_splits)
  have 1: "ssub (rk_open_buy rk) b = Some (rk_open_buy rk - b)" "sint (rk_open_buy rk - b) = sint (rk_open_buy rk) - sint b"
    "ssub (rk_open_sell rk) s = Some (rk_open_sell rk - s)" "sint (rk_open_sell rk - s) = sint (rk_open_sell rk) - sint s"
    by (rule ssub_fits; use r B in simp)+
  show "ssub (rk_open_buy rk) (if sd = Buy then q else 0) = Some (rk_open_buy (pulled rk sd q))"
    "ssub (rk_open_sell rk) (if sd = Sell then q else 0) = Some (rk_open_sell (pulled rk sd q))"
    "sint (rk_open_buy (pulled rk sd q)) = sint (rk_open_buy rk) - (if sd = Buy then sint q else 0)"
    "sint (rk_open_sell (pulled rk sd q)) = sint (rk_open_sell rk) - (if sd = Sell then sint q else 0)"
    using 1 by (simp_all add: pulled_def b_def s_def)
qed

lemma buy_flags: "smul q (of_bool (sd = Buy)) = Some (if sd = Buy then q else 0)"
  "smul q (1 - of_bool (sd = Buy)) = Some (if sd = Sell then q else 0)"
  by (cases sd; simp)+

lemma on_cancel_run:
  assumes ok: "risk_ok rk" and c: "covers rk sd q"
  shows "on_cancel rk sd q = Some (pulled rk sd q)" and "risk_ok (pulled rk sd q)"
proof -
  note P = pulled_ints [OF assms]
  have "on_cancel rk sd q = Some (rk\<lparr>rk_open_buy := rk_open_buy (pulled rk sd q), rk_open_sell := rk_open_sell (pulled rk sd q)\<rparr>)"
    unfolding on_cancel_def Let_def buy_flags bind.bind_lunit P(1,2) ..
  then show "on_cancel rk sd q = Some (pulled rk sd q)" by (simp add: pulled_def)
  have fr: "rk_stamps (pulled rk sd q) = rk_stamps rk" "rk_net_pos (pulled rk sd q) = rk_net_pos rk"
    "rk_pos_limit (pulled rk sd q) = rk_pos_limit rk" by (simp_all add: pulled_def)
  show "risk_ok (pulled rk sd q)"
    using ok c by (simp add: risk_ok_def worst_buy_def worst_sell_def P(3,4) fr covers_def split: if_splits)
qed

lemma on_fill_run:
  assumes ok: "risk_ok rk" and c: "covers rk sd q"
  shows "on_fill rk sd q = Some ((pulled rk sd q)\<lparr>rk_net_pos := rk_net_pos rk + (if sd = Buy then q else - q)\<rparr>)"
    and "risk_ok ((pulled rk sd q)\<lparr>rk_net_pos := rk_net_pos rk + (if sd = Buy then q else - q)\<rparr>)"
proof -
  note P = pulled_ints [OF assms] and B = risk_bounds [OF ok]
  define d where "d = (if sd = Buy then q else - q)"
  have q: "0 \<le> sint q" "sint q \<le> 2 ^ 61" using c B by (simp_all add: covers_def split: if_splits)
  have d: "smul q (2 * of_bool (sd = Buy) - 1) = Some d" "sint d = (if sd = Buy then sint q else - sint q)"
    using smul_minus [of q] q(1) by (cases sd; simp add: d_def)+
  have n: "sadd (rk_net_pos rk) d = Some (rk_net_pos rk + d)" "sint (rk_net_pos rk + d) = sint (rk_net_pos rk) + sint d"
    by (rule sadd_fits; use B(1,2) q in \<open>simp add: d(2)\<close>)+
  have "on_fill rk sd q = Some (rk\<lparr>rk_open_buy := rk_open_buy (pulled rk sd q), rk_open_sell := rk_open_sell (pulled rk sd q),
      rk_net_pos := rk_net_pos rk + d\<rparr>)"
    unfolding on_fill_def Let_def buy_flags bind.bind_lunit P(1,2) d(1) n(1) ..
  then show "on_fill rk sd q = Some ((pulled rk sd q)\<lparr>rk_net_pos := rk_net_pos rk + (if sd = Buy then q else - q)\<rparr>)"
    by (simp add: pulled_def d_def)
  have fr: "rk_stamps (pulled rk sd q) = rk_stamps rk" "rk_pos_limit (pulled rk sd q) = rk_pos_limit rk"
    by (simp_all add: pulled_def)
  show "risk_ok ((pulled rk sd q)\<lparr>rk_net_pos := rk_net_pos rk + (if sd = Buy then q else - q)\<rparr>)"
    using ok c q(1) n(2) d(2) P(3,4) fr unfolding d_def
    by (cases sd) (simp_all add: risk_ok_def worst_buy_def worst_sell_def covers_def)
qed

section \<open>Histories\<close>

text \<open>The states a gateway can be in and the time stamps of the orders it has accepted so far. What
  it is told to have been cancelled or filled must have been open.\<close>

inductive risk_reach :: "risk_gateway \<Rightarrow> risk_gateway \<Rightarrow> u64 list \<Rightarrow> bool" for rk0 where
  start: "risk_reach rk0 rk0 []"
| order: "risk_reach rk0 rk A \<Longrightarrow> qty_sane q \<Longrightarrow> check rk sd px q now = Some (rj, rk') \<Longrightarrow>
    risk_reach rk0 rk' (if rj = RJ_NONE then A @ [now] else A)"
| cancelled: "risk_reach rk0 rk A \<Longrightarrow> covers rk sd q \<Longrightarrow> on_cancel rk sd q = Some rk' \<Longrightarrow> risk_reach rk0 rk' A"
| filled: "risk_reach rk0 rk A \<Longrightarrow> covers rk sd q \<Longrightarrow> on_fill rk sd q = Some rk' \<Longrightarrow> risk_reach rk0 rk' A"

text \<open>The ring of stamps holds the last \<open>W\<close> accepted times, and 0 where nothing was accepted yet.\<close>

definition rate_ok :: "risk_gateway \<Rightarrow> u64 list \<Rightarrow> bool" where
  "rate_ok rk A \<longleftrightarrow> rk_n_sent rk = word_of_nat (length A) \<and>
     (\<forall>i<length A. length A \<le> i + length (rk_stamps rk) \<longrightarrow> rk_stamps rk ! (i mod length (rk_stamps rk)) = A ! i) \<and>
     (\<forall>i<length (rk_stamps rk). length A \<le> i \<longrightarrow> rk_stamps rk ! i = 0) \<and>
     (\<forall>i. i + length (rk_stamps rk) < length A \<longrightarrow> rk_window_ticks rk \<le> A ! (i + length (rk_stamps rk)) - A ! i)"

lemma stamp_slot_mod:
  assumes "pow2_cap (length (rk_stamps rk))" and "rk_n_sent rk = word_of_nat n"
  shows "stamp_slot rk = n mod length (rk_stamps rk)"
proof -
  from assms(1) obtain k where k: "k < 64" "length (rk_stamps rk) = 2 ^ k" by (auto simp: pow2_cap_def)
  have "stamp_slot rk = unat (word_of_nat n :: u64) mod 2 ^ k"
    using assms slot_index_mod [OF assms(1)] k by (simp add: stamp_slot_def)
  also have "\<dots> = n mod 2 ^ k"
  proof -
    have "2 ^ k dvd (18446744073709551616 :: nat)" using le_imp_power_dvd [of k 64 "2 :: nat"] k(1) by simp
    then show ?thesis by (simp add: unsigned_of_nat take_bit_eq_mod mod_mod_cancel)
  qed
  finally show ?thesis by (simp add: k(2))
qed

lemma rate_start: "rate_ok (risk_new W mq lo hi lim win) []"
  by (simp add: rate_ok_def risk_new_def)

lemma too_fast_iff:
  assumes "risk_ok rk" and "rate_ok rk A"
  shows "too_fast rk now \<longleftrightarrow> (if length A < length (rk_stamps rk) then now else now - A ! (length A - length (rk_stamps rk)))
    < rk_window_ticks rk"
proof -
  let ?W = "length (rk_stamps rk)"
  have W: "pow2_cap ?W" using assms(1) by (simp add: risk_ok_def)
  have s: "stamp_slot rk = length A mod ?W" using assms(2) by (intro stamp_slot_mod [OF W]) (simp add: rate_ok_def)
  show ?thesis
  proof (cases "length A < ?W")
    case True
    with assms(2) s show ?thesis by (simp add: too_fast_def rate_ok_def)
  next
    case False
    have pos: "0 < ?W" using pow2_cap_bounds [OF W] by simp
    let ?i = "length A - ?W"
    have "?i < length A" "length A \<le> ?i + ?W" using False pos by linarith+
    moreover have "?i mod ?W = length A mod ?W" using False by (simp add: le_mod_geq)
    ultimately have "rk_stamps rk ! stamp_slot rk = A ! ?i" using assms(2) s unfolding rate_ok_def by metis
    with False show ?thesis by (simp add: too_fast_def)
  qed
qed

lemma rate_accept:
  assumes ok: "risk_ok rk" and rate: "rate_ok rk A" and fast: "\<not> too_fast rk now"
  shows "rate_ok (accept_order rk sd q now) (A @ [now])"
proof -
  let ?W = "length (rk_stamps rk)" and ?n = "length A"
  have W: "pow2_cap ?W" "0 < ?W" using ok pow2_cap_bounds [of ?W] by (simp_all add: risk_ok_def)
  note R = rate [unfolded rate_ok_def]
  have s: "stamp_slot rk = ?n mod ?W" using R by (intro stamp_slot_mod [OF W(1)]) simp
  let ?st = "(rk_stamps rk)[?n mod ?W := now]"
  have old: "?st ! (i mod ?W) = A ! i" if "i < ?n" "Suc ?n \<le> i + ?W" for i
  proof -
    have "i mod ?W \<noteq> ?n mod ?W" using slot_clash [of i ?W ?n] that by auto
    moreover have "?n \<le> i + ?W" using that(2) by simp
    ultimately show ?thesis using R that(1) by simp
  qed
  have span: "rk_window_ticks rk \<le> (A @ [now]) ! (i + ?W) - (A @ [now]) ! i" if "i + ?W < Suc ?n" for i
  proof (cases "i + ?W = ?n")
    case True
    then have "\<not> ?n < ?W" "?n - ?W = i" "i < ?n" using W(2) by linarith+
    with fast [unfolded too_fast_iff [OF ok rate]] True show ?thesis by (simp add: nth_append not_less)
  next
    case False
    with that have "i + ?W < ?n" by simp
    with R show ?thesis by (simp add: nth_append)
  qed
  have "?st ! (i mod ?W) = (A @ [now]) ! i" if "i < Suc ?n" "Suc ?n \<le> i + ?W" for i
    using old [of i] that W(2) by (cases "i = ?n") (simp_all add: nth_append)
  moreover have "?st ! i = 0" if "i < ?W" "Suc ?n \<le> i" for i
    using R that by simp
  ultimately show ?thesis
    using R span by (simp add: rate_ok_def accept_order_def s add.commute)
qed

lemma rejected_same: "risk_ok (rk\<lparr>rk_rejected := n\<rparr>) = risk_ok rk" "rate_ok (rk\<lparr>rk_rejected := n\<rparr>) A = rate_ok rk A"
  by (simp_all add: risk_ok_def rate_ok_def worst_buy_def worst_sell_def)

lemma rate_ok_cong: "rk_stamps rk' = rk_stamps rk \<Longrightarrow> rk_n_sent rk' = rk_n_sent rk \<Longrightarrow>
    rk_window_ticks rk' = rk_window_ticks rk \<Longrightarrow> rate_ok rk' A = rate_ok rk A"
  by (simp add: rate_ok_def)

lemma pulled_frame: "rk_stamps (pulled rk sd q) = rk_stamps rk" "rk_n_sent (pulled rk sd q) = rk_n_sent rk"
  "rk_window_ticks (pulled rk sd q) = rk_window_ticks rk" "rk_pos_limit (pulled rk sd q) = rk_pos_limit rk"
  by (simp_all add: pulled_def)

lemma reach_ok:
  assumes "risk_reach (risk_new W mq lo hi lim win) rk A" and "pow2_cap W" and "0 \<le> sint lim" and "sint lim \<le> 2 ^ 60"
  shows "risk_ok rk \<and> rate_ok rk A \<and> rk_pos_limit rk = lim \<and> rk_window_ticks rk = win \<and> length (rk_stamps rk) = W"
  using assms(1)
proof induction
  case start
  then show ?case using risk_new_ok [OF assms(2-4)] rate_start by (simp add: risk_new_def)
next
  case (order rk A q sd px now rj rk')
  then have ok: "risk_ok rk" and rate: "rate_ok rk A" by simp_all
  let ?v = "verdict (bad_qty rk q) (off_band rk px) (over_limit rk sd q) (too_fast rk now)"
  from order.hyps(3) check_run [OF ok order.hyps(2), of sd px now]
  have rj: "rj = ?v" "rk' = (if rj = 0 then accept_order rk sd q now else rk\<lparr>rk_rejected := rk_rejected rk + 1\<rparr>)"
    by (auto simp: Let_def)
  show ?case
  proof (cases "rj = 0")
    case True
    then have "\<not> bad_qty rk q" "\<not> over_limit rk sd q" "\<not> too_fast rk now" using rj(1) verdict_bits(1) by auto
    with accept_ok [OF ok _ _ order.hyps(2)] rate_accept [OF ok rate] True rj(2) order.IH show ?thesis
      by (simp add: RJ_NONE_def) (simp add: accept_order_def)
  next
    case False
    with rj(2) order.IH show ?thesis
      by (simp add: RJ_NONE_def rejected_same)
  qed
next
  case (cancelled rk A sd q rk')
  then have ok: "risk_ok rk" and rate: "rate_ok rk A" by simp_all
  from on_cancel_run [OF ok cancelled.hyps(2)] cancelled.hyps(3) have "rk' = pulled rk sd q" "risk_ok rk'" by simp_all
  with cancelled.IH rate_ok_cong [of rk' rk A] show ?case by (simp add: pulled_frame)
next
  case (filled rk A sd q rk')
  then have ok: "risk_ok rk" and rate: "rate_ok rk A" by simp_all
  from on_fill_run [OF ok filled.hyps(2)] filled.hyps(3)
  have "rk' = (pulled rk sd q)\<lparr>rk_net_pos := rk_net_pos rk + (if sd = Buy then q else - q)\<rparr>" "risk_ok rk'" by simp_all
  with filled.IH rate_ok_cong [of rk' rk A] show ?case by (simp add: pulled_frame)
qed

section \<open>Theorems\<close>

text \<open>C21. The verdict of \<open>check\<close> is exact: with sane quantities it returns the mask in which each
  reason bit is set exactly when its check failed; the order is accepted exactly when none
  did, and a rejected order changes nothing but the counter of rejections.\<close>

theorem check_verdict:
  assumes "risk_ok rk" and "qty_sane q"
  shows "\<exists>rj rk'. check rk sd px q now = Some (rj, rk') \<and>
    (rj AND RJ_QTY \<noteq> 0 \<longleftrightarrow> bad_qty rk q) \<and> (rj AND RJ_PRICE_BAND \<noteq> 0 \<longleftrightarrow> off_band rk px) \<and>
    (rj AND RJ_POSITION \<noteq> 0 \<longleftrightarrow> over_limit rk sd q) \<and> (rj AND RJ_RATE \<noteq> 0 \<longleftrightarrow> too_fast rk now) \<and>
    (rj = RJ_NONE \<longleftrightarrow> \<not> bad_qty rk q \<and> \<not> off_band rk px \<and> \<not> over_limit rk sd q \<and> \<not> too_fast rk now) \<and>
    rk' = (if rj = RJ_NONE then accept_order rk sd q now else rk\<lparr>rk_rejected := rk_rejected rk + 1\<rparr>)"
  using check_run [OF assms, of sd px now] verdict_bits [of "bad_qty rk q" "off_band rk px" "over_limit rk sd q" "too_fast rk now"]
  by (auto simp: Let_def RJ_NONE_def)

definition small_risk :: risk_gateway where
  "small_risk = risk_new 4 100 900 1100 500 50"

lemma pow2_cap_4: "pow2_cap 4"
  unfolding pow2_cap_def by (intro exI [of _ 2]) simp

lemma small_risk_ok: "risk_ok small_risk"
  unfolding small_risk_def by (rule risk_new_ok [OF pow2_cap_4]) simp_all

theorem check_verdict_witness:
  "\<exists>rj rk. check small_risk Buy 1200 101 60 = Some (rj, rk) \<and> rj AND RJ_QTY \<noteq> 0 \<and> rj AND RJ_PRICE_BAND \<noteq> 0 \<and>
    rj AND RJ_POSITION = 0"
  using check_verdict [OF small_risk_ok, of 101 Buy 1200 60]
  by (auto simp: qty_sane_def small_risk_def risk_new_def bad_qty_def off_band_def over_limit_def worst_buy_def worst_sell_def)





text \<open>The fat-finger check comes too late for an absurd quantity: while buy lots are open, the
  largest quantity overflows the exposure sum, which is undefined, before it is rejected.\<close>

theorem check_overflows:
  assumes "0 < sint (rk_open_buy rk)" and "sint q = 2 ^ 63 - 1"
  shows "check rk Buy px q now = None"
  using assms by (simp add: check_def sadd_def fits64_def Let_def)

theorem check_overflows_witness:
  "check (small_risk\<lparr>rk_open_buy := 5\<rparr>) Buy 1000 9223372036854775807 60 = None"
  by (rule check_overflows) simp_all

end
