(* ===== verification/Quoting.thy ===== *)
theory Quoting
  imports Session Bbo Risk
begin

text \<open>
  The two ends of the closed loop of \<open>bench/bench_trading_loop.cpp\<close>: \<open>QuoteDesk\<close>, which holds at most
  one resting quote per side in the engine's book, and the strategy, which turns an update of
  the top of the book into at most one quote per side and sends it through the risk gateway.

  The comment at the head of the file argues that the strategy cannot disturb the feed: feed
  bids rest below \<open>MID\<close>, feed asks above, quotes never improve the touch, so nothing crosses. The
  lemmas here carry that argument: the desk changes nothing in the book but its own two quotes
  (\<open>desk_step\<close>), and a quote made from such a touch has a price on its own side of \<open>MID\<close>
  (\<open>quote_step\<close>).
\<close>

section \<open>The quote desk\<close>

record quote_desk =
  qd_bid_id :: order_id
  qd_ask_id :: order_id
  qd_quotes :: u64

definition desk_new :: quote_desk where
  "desk_new = \<lparr>qd_bid_id = 0, qd_ask_id = 0, qd_quotes = 0\<rparr>"

definition desk_apply :: "quote_desk \<Rightarrow> book \<Rightarrow> message \<Rightarrow> (quote_desk \<times> book) option" where
  "desk_apply d b m = do {
     let live = (if m_side m = Buy then qd_bid_id d else qd_ask_id d);
     b \<leftarrow> (if live \<noteq> 0 then do { (r, b) \<leftarrow> cancel b live; Some b } else Some b);
     (live, b, ts) \<leftarrow> new_order b (m_side m) (m_price m) (m_qty m) False;
     let d = (if m_side m = Buy then d\<lparr>qd_bid_id := live\<rparr> else d\<lparr>qd_ask_id := live\<rparr>);
     Some (d\<lparr>qd_quotes := qd_quotes d + 1\<rparr>, b)
   }"

text \<open>The quotes that rest, one lot each.\<close>

definition desk_pairs :: "quote_desk \<Rightarrow> (order_id \<times> int) set" where
  "desk_pairs d = {(i, 1) |i. (i = qd_bid_id d \<or> i = qd_ask_id d) \<and> i \<noteq> 0}"

definition desk_ok :: "quote_desk \<Rightarrow> bool" where
  "desk_ok d \<longleftrightarrow> issued (qd_bid_id d) \<and> issued (qd_ask_id d) \<and> (qd_bid_id d = 0 \<or> qd_bid_id d \<noteq> qd_ask_id d)"

lemma desk_new_ok: "desk_ok desk_new" "desk_pairs desk_new = {}"
  by (simp_all add: desk_ok_def desk_new_def desk_pairs_def issued_def)

lemma finite_desk [simp]: "finite (desk_pairs d)"
  by (rule finite_subset [of _ "{(qd_bid_id d, 1), (qd_ask_id d, 1)}"]) (auto simp: desk_pairs_def)

lemma desk_card: "card (desk_pairs d) \<le> 2"
proof -
  have "card (desk_pairs d) \<le> card {(qd_bid_id d, 1 :: int), (qd_ask_id d, 1)}"
    by (rule card_mono) (auto simp: desk_pairs_def)
  also have "\<dots> \<le> 2" by (simp add: card_insert_if)
  finally show ?thesis .
qed

text \<open>Cancelling the live quote of one side and resting another in its place.\<close>

abbreviation desk_live :: "quote_desk \<Rightarrow> side \<Rightarrow> order_id" where
  "desk_live d s \<equiv> (if s = Buy then qd_bid_id d else qd_ask_id d)"

definition desk_set :: "quote_desk \<Rightarrow> side \<Rightarrow> order_id \<Rightarrow> quote_desk" where
  "desk_set d s i = (if s = Buy then d\<lparr>qd_bid_id := i, qd_quotes := qd_quotes d + 1\<rparr>
     else d\<lparr>qd_ask_id := i, qd_quotes := qd_quotes d + 1\<rparr>)"

lemma desk_pairs_drop: "desk_ok d \<Longrightarrow> {p \<in> desk_pairs d. fst p \<noteq> desk_live d s} = desk_pairs (desk_set d s 0)"
  by (cases s) (auto simp: desk_pairs_def desk_ok_def desk_set_def)

lemma desk_pairs_set: "i \<noteq> 0 \<Longrightarrow> desk_pairs (desk_set d s i) = insert (i, 1) (desk_pairs (desk_set d s 0))"
  by (cases s) (auto simp: desk_pairs_def desk_set_def)

lemma desk_ids: "desk_live d s \<noteq> 0 \<Longrightarrow> (desk_live d s, 1) \<in> desk_pairs d"
  by (cases s) (auto simp: desk_pairs_def)

lemma desk_set_ok:
  assumes "desk_ok d" and "issued i" and "i = 0 \<or> i \<notin> fst ` desk_pairs (desk_set d s 0)"
  shows "desk_ok (desk_set d s i)"
proof (cases "i = 0")
  case False
  then have "i \<noteq> (if s = Buy then qd_ask_id d else qd_bid_id d)"
    using assms(3) by (cases s) (force simp: desk_pairs_def desk_set_def)+
  with assms(1,2) show ?thesis by (cases s) (auto simp: desk_ok_def desk_set_def)
qed (use assms(1,2) in \<open>cases s; auto simp: desk_ok_def desk_set_def\<close>)

text \<open>The resting orders are counted by their ids.\<close>

lemma resting_card:
  assumes "book_ok b"
  shows "card (book_pairs (abs_book b)) = resting (abs_book b)"
proof -
  let ?L = "abs_book b Buy @ abs_book b Sell"
  have d: "distinct (map a_id ?L)" by (rule ids_distinct [OF assms])
  then have inj: "inj_on a_id (set ?L)" by (simp only: distinct_map)
  have "inj_on (\<lambda>x. (a_id x, a_qty x)) (set ?L)"
  proof (rule inj_onI)
    fix x y
    assume "x \<in> set ?L" "y \<in> set ?L" "(a_id x, a_qty x) = (a_id y, a_qty y)"
    then show "x = y" by (intro inj_onD [OF inj]) simp_all
  qed
  then have "card ((\<lambda>x. (a_id x, a_qty x)) ` set ?L) = card (set ?L)" by (rule card_image)
  then have "card (book_pairs (abs_book b)) = card (set ?L)" by (simp only: book_pairs_def set_append)
  also have "\<dots> = length ?L" using distinct_card [of ?L] d by (simp only: distinct_map)
  finally show ?thesis by (simp add: resting_def)
qed

lemma desk_cancel:
  assumes inv: "replay_inv gw lb (desk_pairs d) n" and d: "desk_ok d" and nz: "desk_live d s \<noteq> 0"
  obtains r b where "cancel (gw_book gw) (desk_live d s) = Some (r, b)" and "book_ok b" and "book_params b"
    and "apart (abs_book b)" and "book_pairs (abs_book b) =
      live_pairs (dense_entry (gw_refs gw)) (fst lb) \<union> desk_pairs (desk_set d s 0)"
proof -
  let ?i = "desk_live d s" and ?e = "dense_entry (gw_refs gw)"
  note I = inv [unfolded replay_inv_def mirrors_def]
  have "book_ok (gw_book gw)" using I by (simp add: dense.sound_def)
  then obtain qs where rep: "book_rep (gw_book gw) qs" by (rule book_okE)
  have iss: "issued ?i" using d by (simp add: desk_ok_def)
  obtain b where c: "cancel (gw_book gw) ?i = Some (alive (abs_book (gw_book gw)) ?i, b)" "book_ok b"
    "abs_book b = acancel (abs_book (gw_book gw)) ?i"
    "NumTicks b = NumTicks (gw_book gw)" "bk_base b = bk_base (gw_book gw)" "PoolCap b = PoolCap (gw_book gw)"
    by (rule cancel_rep [OF rep iss]) (rule that)
  have "?i \<notin> ?e ` dom (fst lb)" using I desk_ids [OF nz] by force
  then have "{p \<in> live_pairs ?e (fst lb). fst p \<noteq> ?i} = live_pairs ?e (fst lb)"
    by (force simp: live_pairs_def)
  moreover have "book_pairs (abs_book (gw_book gw)) = live_pairs ?e (fst lb) \<union> desk_pairs d" using I by blast
  ultimately have "book_pairs (abs_book b) = live_pairs ?e (fst lb) \<union> desk_pairs (desk_set d s 0)"
    unfolding c(3) book_pairs_cancel desk_pairs_drop [OF d, symmetric] by blast
  with c I show ?thesis
    by (intro that [of _ b]) (auto simp: book_params_def apart_cancel)
qed

lemma desk_step:
  assumes inv: "replay_inv gw lb (desk_pairs d) (n + card (desk_pairs d))" and d: "desk_ok d"
    and m: "add_fits m" "m_qty m = 1" and fin: "finite (dom (fst lb))" and le: "card (dom (fst lb)) \<le> n"
  obtains d' b where "desk_apply d (gw_book gw) m = Some (d', b)" and "desk_ok d'"
    and "replay_inv (gw\<lparr>gw_book := b\<rparr>) lb (desk_pairs d') (n + card (desk_pairs d'))"
proof -
  let ?s = "m_side m" and ?e = "dense_entry (gw_refs gw)"
  let ?live = "live_pairs ?e (fst lb)" and ?d0 = "desk_set d (m_side m) 0"
  note I = inv [unfolded replay_inv_def mirrors_def]
  obtain b0 where b0: "(if desk_live d ?s \<noteq> 0 then do { (r, b) \<leftarrow> cancel (gw_book gw) (desk_live d ?s); Some b } else Some (gw_book gw)) = Some b0"
    "book_ok b0" "book_params b0" "apart (abs_book b0)" "book_pairs (abs_book b0) = ?live \<union> desk_pairs ?d0"
  proof (cases "desk_live d ?s = 0")
    case True
    then have "desk_pairs ?d0 = desk_pairs d" by (cases ?s) (auto simp: desk_pairs_def desk_set_def)
    with True I that [of "gw_book gw"] show ?thesis by (simp add: dense.sound_def)
  next
    case False
    show ?thesis by (rule desk_cancel [OF inv d False]) (use False that in auto)
  qed
  obtain i b where n: "new_order b0 ?s (m_price m) (m_qty m) False = Some (i, b, [])" "book_ok b" "issued i"
    "book_params b" "apart (abs_book b)" "i = 0 \<Longrightarrow> b = b0 \<and> 1048576 \<le> resting (abs_book b0)"
    "i \<noteq> 0 \<Longrightarrow> book_pairs (abs_book b) = insert (i, sint (m_qty m)) (book_pairs (abs_book b0)) \<and>
      i \<notin> fst ` book_pairs (abs_book b0) \<and> resting (abs_book b) = Suc (resting (abs_book b0))"
    by (rule quiet_order [OF b0(2-4) m(1)]) (rule that)
  have run: "desk_apply d (gw_book gw) m = Some (desk_set d ?s i, b)"
    using b0(1) n(1) by (simp add: desk_apply_def desk_set_def)
  have pairs: "book_pairs (abs_book b) = ?live \<union> desk_pairs (desk_set d ?s i)"
  proof (cases "i = 0")
    case False
    with n(7) [OF False] b0(5) m(2) show ?thesis by (simp add: desk_pairs_set)
  qed (use n(6) b0(5) in simp)
  have fresh: "i = 0 \<or> i \<notin> fst ` (?live \<union> desk_pairs ?d0)" using n(7) b0(5) by auto
  have dok: "desk_ok (desk_set d ?s i)" by (rule desk_set_ok [OF d n(3)]) (use fresh in \<open>auto simp: image_Un\<close>)
  have inj: "inj_on ?e (dom (fst lb))" and apt: "?e ` dom (fst lb) \<inter> fst ` desk_pairs d = {}" using I by blast+
  have lp: "?live = (\<lambda>r. (?e r, the (fst lb r))) ` dom (fst lb)" by (force simp: live_pairs_def)
  have cl: "card ?live \<le> n" unfolding lp using card_image_le [OF fin] le by (rule order_trans)
  have "resting (abs_book b) \<le> n + card (desk_pairs (desk_set d ?s i))"
    unfolding resting_card [OF n(2), symmetric] pairs using card_Un_le [of ?live "desk_pairs (desk_set d ?s i)"] cl by linarith
  moreover have "?e ` dom (fst lb) \<inter> fst ` desk_pairs (desk_set d ?s i) = {}"
  proof -
    have 0: "?e ` dom (fst lb) \<inter> fst ` desk_pairs ?d0 = {}"
      using apt unfolding desk_pairs_drop [OF d, symmetric] by blast
    have "?e ` dom (fst lb) = fst ` ?live" unfolding lp by (simp add: image_image)
    with 0 fresh show ?thesis
      by (cases "i = 0") (auto simp: desk_pairs_set image_Un)
  qed
  ultimately have "replay_inv (gw\<lparr>gw_book := b\<rparr>) lb (desk_pairs (desk_set d ?s i)) (n + card (desk_pairs (desk_set d ?s i)))"
    using I n(2,4,5) pairs inj by (simp add: replay_inv_def mirrors_def dense.sound_def)
  with run dok show ?thesis by (rule that)
qed

section \<open>The strategy\<close>

text \<open>The locals of the strategy thread; \<open>sy_todo\<close> is an update whose ask side is still to be handled
  and \<open>sy_sending\<close> a message the thread is trying to push.\<close>

record strategy =
  sy_bid :: price
  sy_ask :: price
  sy_gaps :: u64
  sy_last_seq :: u64
  sy_risk :: risk_gateway
  sy_rejects :: u64
  sy_todo :: "bbo_update option"
  sy_sending :: "message option"

definition strategy_new :: "u64 \<Rightarrow> strategy" where
  "strategy_new window = \<lparr>sy_bid = - 1, sy_ask = - 1, sy_gaps = 0, sy_last_seq = 0,
     sy_risk = risk_new 256 8 BASE (BASE + push_bit 16 1 - 1) 64 window, sy_rejects = 0,
     sy_todo = None, sy_sending = None\<rparr>"

definition quoted :: "strategy \<Rightarrow> side \<Rightarrow> price" where
  "quoted sy s = (case s of Buy \<Rightarrow> sy_bid sy | Sell \<Rightarrow> sy_ask sy)"

definition set_quoted :: "side \<Rightarrow> price \<Rightarrow> strategy \<Rightarrow> strategy" where
  "set_quoted s px sy = (case s of Buy \<Rightarrow> sy\<lparr>sy_bid := px\<rparr> | Sell \<Rightarrow> sy\<lparr>sy_ask := px\<rparr>)"

definition quote :: "side \<Rightarrow> price \<Rightarrow> u64 \<Rightarrow> u64 \<Rightarrow> strategy \<Rightarrow> strategy option" where
  "quote s px origin now sy = do {
     (rj, rk) \<leftarrow> check (sy_risk sy) s px 1 now;
     let sy = sy\<lparr>sy_risk := rk\<rparr>;
     if rj \<noteq> RJ_NONE then Some (sy\<lparr>sy_rejects := sy_rejects sy + 1\<rparr>)
     else do {
       rk \<leftarrow> (if 0 \<le> sint (quoted sy s) then on_cancel rk s 1 else Some rk);
       let sy = set_quoted s px (sy\<lparr>sy_risk := rk\<rparr>);
       let m = message_zero\<lparr>m_type := NewOrder, m_side := s, m_price := px, m_qty := 1, m_id := origin\<rparr>;
       Some (sy\<lparr>sy_sending := Some m\<rparr>)
     }
   }"

definition buy_pressure :: "bbo_update \<Rightarrow> bool" where
  "buy_pressure u \<longleftrightarrow> sint (bu_ask_qty u) \<le> sint (bu_bid_qty u)"

definition quote_bid :: "bbo_update \<Rightarrow> u64 \<Rightarrow> strategy \<Rightarrow> strategy option" where
  "quote_bid u now sy =
     (if 0 \<le> sint (bu_bid_px u) then do {
        want \<leftarrow> (if buy_pressure u then Some (bu_bid_px u) else ssub (bu_bid_px u) 1);
        if want \<noteq> sy_bid sy then quote Buy want (bu_origin_tsc u) now sy else Some sy
      }
      else Some sy)"

definition quote_ask :: "bbo_update \<Rightarrow> u64 \<Rightarrow> strategy \<Rightarrow> strategy option" where
  "quote_ask u now sy =
     (if 0 \<le> sint (bu_ask_px u) then do {
        want \<leftarrow> (if buy_pressure u then sadd (bu_ask_px u) 1 else Some (bu_ask_px u));
        if want \<noteq> sy_ask sy then quote Sell want (bu_origin_tsc u) now sy else Some sy
      }
      else Some sy)"

definition note_update :: "bbo_update \<Rightarrow> strategy \<Rightarrow> strategy" where
  "note_update u sy =
     (let sy = sy\<lparr>sy_gaps := sy_gaps sy + of_bool (sy_last_seq sy \<noteq> 0 \<and> bu_seq u \<noteq> sy_last_seq sy + 1)\<rparr>
      in sy\<lparr>sy_last_seq := bu_seq u\<rparr>)"

section \<open>What the strategy may send\<close>

text \<open>A top on the two sides of \<open>MID\<close>, and a one-lot order on its own side.\<close>

definition touch_ok :: "bbo_update \<Rightarrow> bool" where
  "touch_ok u \<longleftrightarrow>
     (bu_bid_px u = - 1 \<or> sint BASE \<le> sint (bu_bid_px u) \<and> sint (bu_bid_px u) < sint MID) \<and>
     (bu_ask_px u = - 1 \<or> sint MID < sint (bu_ask_px u) \<and> sint (bu_ask_px u) < sint BASE + 65536)"

definition quote_ok :: "message \<Rightarrow> bool" where
  "quote_ok m \<longleftrightarrow> m_type m = NewOrder \<and> m_qty m = 1 \<and> add_fits m"

text \<open>The exposure is that of the quotes out: at most one lot per side, no position.\<close>

definition strategy_ok :: "strategy \<Rightarrow> bool" where
  "strategy_ok sy \<longleftrightarrow> risk_ok (sy_risk sy) \<and> rk_net_pos (sy_risk sy) = 0 \<and> rk_pos_limit (sy_risk sy) = 64 \<and>
     rk_px_lo (sy_risk sy) = BASE \<and> rk_px_hi (sy_risk sy) = BASE + 65535 \<and>
     sint (rk_open_buy (sy_risk sy)) = (if 0 \<le> sint (sy_bid sy) then 1 else 0) \<and>
     sint (rk_open_sell (sy_risk sy)) = (if 0 \<le> sint (sy_ask sy) then 1 else 0)"

lemma strategy_new_ok: "strategy_ok (strategy_new window)"
proof -
  have "pow2_cap 256" unfolding pow2_cap_def by (intro exI [of _ 8]) simp
  then have "risk_ok (risk_new 256 8 BASE (BASE + push_bit 16 1 - 1) 64 window)" by (rule risk_new_ok) simp_all
  then show ?thesis by (simp add: strategy_ok_def strategy_new_def risk_new_def push_bit_eq_mult)
qed

lemma base_mid: "sint BASE = 1000000" "sint MID = 1032768" "sint (BASE + 65535) = 1065535"
  by (simp_all add: BASE_def MID_def)

text \<open>What \<open>quote\<close> may do: reject, or put one order on the way.\<close>

lemma quote_step:
  assumes ok: "strategy_ok sy" and px: "0 \<le> sint px"
    and side: "s = Buy \<Longrightarrow> sint px < sint MID" "s = Sell \<Longrightarrow> sint MID < sint px"
  obtains sy' where "quote s px origin now sy = Some sy'" and "strategy_ok sy'" and "sy_todo sy' = sy_todo sy"
    and "sy_sending sy' = sy_sending sy \<or> (\<exists>m. sy_sending sy' = Some m \<and> quote_ok m)"
proof -
  let ?rk = "sy_risk sy"
  note O = ok [unfolded strategy_ok_def]
  have rok: "risk_ok ?rk" and sane: "qty_sane 1" using O by (simp_all add: qty_sane_def)
  let ?v = "verdict (bad_qty ?rk 1) (off_band ?rk px) (over_limit ?rk s 1) (too_fast ?rk now)"
  have c: "check ?rk s px 1 now = Some (?v, if ?v = 0 then accept_order ?rk s 1 now else ?rk\<lparr>rk_rejected := rk_rejected ?rk + 1\<rparr>)"
    using check_run [OF rok sane, of s px now] by (simp add: Let_def)
  show ?thesis
  proof (cases "?v = 0")
    case False
    let ?sy = "sy\<lparr>sy_risk := ?rk\<lparr>rk_rejected := rk_rejected ?rk + 1\<rparr>, sy_rejects := sy_rejects sy + 1\<rparr>"
    have "strategy_ok ?sy" using O by (simp add: strategy_ok_def rejected_same)
    moreover have "quote s px origin now sy = Some ?sy" using False c by (simp add: quote_def RJ_NONE_def Let_def)
    ultimately show ?thesis by (intro that [of ?sy]) simp_all
  next
    case True
    then have v: "\<not> bad_qty ?rk 1" "\<not> off_band ?rk px" "\<not> over_limit ?rk s 1" using verdict_bits(1) by blast+
    let ?a = "accept_order ?rk s 1 now"
    have aok: "risk_ok ?a" by (rule accept_ok [OF rok v(1,3) sane])
    have open1: "sint (rk_open_buy ?a) = sint (rk_open_buy ?rk) + (if s = Buy then 1 else 0)"
      "sint (rk_open_sell ?a) = sint (rk_open_sell ?rk) + (if s = Sell then 1 else 0)"
      using O by (auto simp: accept_order_def sint_add64)
    have fr: "rk_net_pos ?a = 0" "rk_pos_limit ?a = 64" "rk_px_lo ?a = BASE" "rk_px_hi ?a = BASE + 65535"
      using O by (simp_all add: accept_order_def)
    let ?m = "message_zero\<lparr>m_type := NewOrder, m_side := s, m_price := px, m_qty := 1, m_id := origin\<rparr>"
    have q: "quote_ok ?m"
      using v(2) O side by (cases s) (auto simp: quote_ok_def add_fits_def off_band_def base_mid message_zero_def)
    obtain rk' where rk': "(if 0 \<le> sint (quoted sy s) then on_cancel ?a s 1 else Some ?a) = Some rk'"
      "risk_ok rk'" "rk_net_pos rk' = 0" "rk_pos_limit rk' = 64" "rk_px_lo rk' = BASE" "rk_px_hi rk' = BASE + 65535"
      "sint (rk_open_buy rk') = (if s = Buy then 1 else sint (rk_open_buy ?rk))"
      "sint (rk_open_sell rk') = (if s = Sell then 1 else sint (rk_open_sell ?rk))"
    proof (cases "0 \<le> sint (quoted sy s)")
      case True
      have cov: "covers ?a s 1" using open1 O True by (cases s) (auto simp: covers_def quoted_def)
      note P = on_cancel_run [OF aok cov] pulled_ints(3,4) [OF aok cov]
      have f: "rk_net_pos (pulled ?a s 1) = 0" "rk_pos_limit (pulled ?a s 1) = 64" "rk_px_lo (pulled ?a s 1) = BASE"
        "rk_px_hi (pulled ?a s 1) = BASE + 65535" using fr by (simp_all add: pulled_def)
      show ?thesis by (rule that [of "pulled ?a s 1"])
        (use P f open1 O True in \<open>cases s; simp add: quoted_def\<close>)+
    next
      case False
      show ?thesis by (rule that [of ?a]) (use aok fr open1 O False in \<open>cases s; simp add: quoted_def\<close>)+
    qed
    let ?sy = "(set_quoted s px (sy\<lparr>sy_risk := rk'\<rparr>))\<lparr>sy_sending := Some ?m\<rparr>"
    have q0: "quoted (sy\<lparr>sy_risk := rk\<rparr>) s = quoted sy s" for rk by (cases s) (simp_all add: quoted_def)
    have run: "quote s px origin now sy = Some ?sy"
      by (simp add: quote_def c True RJ_NONE_def Let_def q0 rk'(1))
    have fin: "strategy_ok ?sy"
      using rk'(2-8) px O by (cases s) (simp_all add: strategy_ok_def set_quoted_def)
    have fr': "sy_todo ?sy = sy_todo sy" "sy_sending ?sy = Some ?m"
      by (cases s; simp add: set_quoted_def)+
    show ?thesis by (rule that [OF run fin fr'(1)]) (use fr'(2) q in blast)
  qed
qed

lemma quote_bid_step:
  assumes ok: "strategy_ok sy" and u: "touch_ok u"
  obtains sy' where "quote_bid u now sy = Some sy'" and "strategy_ok sy'" and "sy_todo sy' = sy_todo sy"
    and "sy_sending sy' = sy_sending sy \<or> (\<exists>m. sy_sending sy' = Some m \<and> quote_ok m)"
proof (cases "0 \<le> sint (bu_bid_px u)")
  case False
  with ok that [of sy] show ?thesis by (simp add: quote_bid_def)
next
  case True
  then have r: "sint BASE \<le> sint (bu_bid_px u)" "sint (bu_bid_px u) < sint MID" using u by (auto simp: touch_ok_def)
  have sub: "ssub (bu_bid_px u) 1 = Some (bu_bid_px u - 1)" "sint (bu_bid_px u - 1) = sint (bu_bid_px u) - 1"
    using ssub_fits [of "bu_bid_px u" 1] r by (simp_all add: base_mid)
  define want where "want = (if buy_pressure u then bu_bid_px u else bu_bid_px u - 1)"
  have w: "0 \<le> sint want" "sint want < sint MID" using r sub(2) by (auto simp: want_def base_mid)
  have run: "quote_bid u now sy = (if want \<noteq> sy_bid sy then quote Buy want (bu_origin_tsc u) now sy else Some sy)"
    using True sub(1) by (simp add: quote_bid_def want_def)
  show ?thesis
  proof (cases "want = sy_bid sy")
    case False
    show ?thesis by (rule quote_step [OF ok w(1), of Buy "bu_origin_tsc u" now]) (use w(2) run False that in auto)
  qed (use run ok that in simp)
qed

lemma quote_ask_step:
  assumes ok: "strategy_ok sy" and u: "touch_ok u"
  obtains sy' where "quote_ask u now sy = Some sy'" and "strategy_ok sy'" and "sy_todo sy' = sy_todo sy"
    and "sy_sending sy' = sy_sending sy \<or> (\<exists>m. sy_sending sy' = Some m \<and> quote_ok m)"
proof (cases "0 \<le> sint (bu_ask_px u)")
  case False
  with ok that [of sy] show ?thesis by (simp add: quote_ask_def)
next
  case True
  then have r: "sint MID < sint (bu_ask_px u)" "sint (bu_ask_px u) < sint BASE + 65536" using u by (auto simp: touch_ok_def)
  have add: "sadd (bu_ask_px u) 1 = Some (bu_ask_px u + 1)" "sint (bu_ask_px u + 1) = sint (bu_ask_px u) + 1"
    using sadd_fits [of "bu_ask_px u" 1] r by (simp_all add: base_mid)
  define want where "want = (if buy_pressure u then bu_ask_px u + 1 else bu_ask_px u)"
  have w: "0 \<le> sint want" "sint MID < sint want" using r add(2) by (auto simp: want_def base_mid)
  have run: "quote_ask u now sy = (if want \<noteq> sy_ask sy then quote Sell want (bu_origin_tsc u) now sy else Some sy)"
    using True add(1) by (simp add: quote_ask_def want_def)
  show ?thesis
  proof (cases "want = sy_ask sy")
    case False
    show ?thesis by (rule quote_step [OF ok w(1), of Sell "bu_origin_tsc u" now]) (use w(2) run False that in auto)
  qed (use run ok that in simp)
qed

text \<open>The top of a book whose sides are apart.\<close>

lemma replay_touch:
  assumes "book_ok b" and "book_params b" and "apart (abs_book b)" and "bbo_top u = top_of_book b"
  shows "touch_ok u"
proof -
  have P: "NumTicks b = 65536" "bk_base b = BASE" using assms(2) by (simp_all add: book_params_def)
  have fit: "prices_fit b" by (simp add: prices_fit_def P base_mid)
  have u: "bu_bid_px u = side_px b Buy" "bu_ask_px u = side_px b Sell"
    using top_exact [OF assms(1) fit] assms(4) by (simp_all add: bbo_top_def)
  from assms(1) obtain qs where rep: "book_rep b qs" by (rule book_okE)
  have px: "sint (side_px b s) = 1000000 + int (a_tick x) \<and> a_tick x < 65536" if "abs_book b s = x # L" for s x L
  proof -
    have t: "a_tick x < NumTicks b"
      using best_level_head(2) [OF rep, of s] that marked_bound [OF book_repD(1) [OF rep], of "a_tick x" s] by simp
    with ladder_price(1) [OF fit t] that show ?thesis by (simp add: side_px_def P base_mid)
  qed
  have "bu_bid_px u = - 1 \<or> sint BASE \<le> sint (bu_bid_px u) \<and> sint (bu_bid_px u) < sint MID"
  proof (cases "abs_book b Buy")
    case (Cons x L)
    with assms(3) have "a_tick x < 32768" by (simp add: apart_def)
    with px [OF Cons] u(1) show ?thesis by (simp add: base_mid)
  qed (simp add: u(1) side_px_def)
  moreover have "bu_ask_px u = - 1 \<or> sint MID < sint (bu_ask_px u) \<and> sint (bu_ask_px u) < sint BASE + 65536"
  proof (cases "abs_book b Sell")
    case (Cons x L)
    with assms(3) have "32768 < a_tick x" by (simp add: apart_def)
    with px [OF Cons] u(2) show ?thesis by (simp add: base_mid)
  qed (simp add: u(2) side_px_def)
  ultimately show ?thesis by (simp add: touch_ok_def)
qed

end
