(* ===== verification/Trading.thy ===== *)
theory Trading
  imports Quoting Pipeline
begin

text \<open>
  The closed trading loop of \<open>bench/bench_trading_loop.cpp\<close>: three threads over three queues. The
  feed thread lands raw frames in the arena; the engine (the main thread) takes the strategy's
  orders off one ring, applies a frame to the gateway, and publishes the top of the book on
  another; the strategy reads that ring and sends quotes.

  A turn of a thread is one pass of its innermost loop: one attempt of a push, one attempt of a
  pop with what follows it; a schedule is any sequence of turns, each with the clock value the
  thread reads. The queues are used by one producer and one consumer each, and a call on one
  is a step here; what happens inside the calls is the subject of \<open>Spsc_Ring\<close> and \<open>Arena_Ring\<close>.
  After the feed has been applied the engine waits for the feed thread, raises the stop flag,
  waits for the strategy to leave its loop, and applies the quotes still in flight.
\<close>

record trading =
  tr_feed :: "u8 list"
  tr_cur :: nat
  tr_next :: nat
  tr_landing :: "u8 list option"
  tr_t0 :: "u64 list"
  tr_arena :: "u8 list arena_ring"
  tr_gw :: dense_gateway
  tr_desk :: quote_desk
  tr_pub :: bbo_publisher
  tr_bbo :: "bbo_update ring"
  tr_done :: nat
  tr_t2t :: "u32 list"
  tr_n_t2t :: nat
  tr_stop :: bool
  tr_strat :: strategy
  tr_orders :: "message ring"
  tr_halted :: bool

definition trading_start :: "nat \<Rightarrow> u8 list \<Rightarrow> u8 list arena_ring \<Rightarrow> u64 \<Rightarrow> u64 \<Rightarrow> trading" where
  "trading_start n feed arena max_ref window =
     \<lparr>tr_feed = feed, tr_cur = 0, tr_next = 0, tr_landing = None, tr_t0 = replicate n 0, tr_arena = arena,
      tr_gw = gateway_new max_ref, tr_desk = desk_new, tr_pub = bbo_new, tr_bbo = ring_new (2 ^ 15),
      tr_done = 0, tr_t2t = replicate (2 * n) 0, tr_n_t2t = 0, tr_stop = False,
      tr_strat = strategy_new window, tr_orders = ring_new (2 ^ 12), tr_halted = False\<rparr>"

definition feeder_turn :: "nat \<Rightarrow> u64 \<Rightarrow> trading \<Rightarrow> trading option" where
  "feeder_turn n clock st = (case tr_landing st of
     Some bs \<Rightarrow> do {
       (r, q) \<leftarrow> arena_push (tr_arena st) bs;
       Some (st\<lparr>tr_arena := q, tr_landing := (if r then None else Some bs)\<rparr>)
     }
   | None \<Rightarrow>
       if tr_next st < n then do {
         t0 \<leftarrow> aput (tr_t0 st) (tr_next st) clock;
         w \<leftarrow> load_be16 (tr_feed st) (tr_cur st);
         let k = 2 + unat w;
         if 64 < k then None
         else do {
           bs \<leftarrow> bytes_at (tr_feed st) (tr_cur st) k;
           Some (st\<lparr>tr_t0 := t0, tr_landing := Some bs, tr_cur := tr_cur st + k, tr_next := tr_next st + 1\<rparr>)
         }
       }
       else Some st)"

definition engine_orders :: "u64 \<Rightarrow> trading \<Rightarrow> trading option" where
  "engine_orders clock st = do {
     (q, r) \<leftarrow> try_pop (tr_orders st);
     let st = st\<lparr>tr_orders := r\<rparr>;
     case q of
       None \<Rightarrow> Some st
     | Some m \<Rightarrow> do {
         (d, b) \<leftarrow> desk_apply (tr_desk st) (gw_book (tr_gw st)) m;
         t2t \<leftarrow> aput (tr_t2t st) (tr_n_t2t st) (ucast (clock - m_id m));
         Some (st\<lparr>tr_desk := d, tr_gw := (tr_gw st)\<lparr>gw_book := b\<rparr>, tr_t2t := t2t, tr_n_t2t := tr_n_t2t st + 1\<rparr>)
       }
   }"

definition engine_feed :: "trading \<Rightarrow> trading option" where
  "engine_feed st = do {
     (p, a) \<leftarrow> arena_pop (tr_arena st);
     let st = st\<lparr>tr_arena := a\<rparr>;
     case p of
       None \<Rightarrow> Some st
     | Some bs \<Rightarrow> do {
         gw \<leftarrow> engine_slot gateway_sink bs (tr_gw st);
         t \<leftarrow> aget (tr_t0 st) (tr_done st);
         (pub, r) \<leftarrow> on_message_applied (gw_book gw) t (tr_pub st) (tr_bbo st);
         Some (st\<lparr>tr_gw := gw, tr_pub := pub, tr_bbo := r, tr_done := tr_done st + 1\<rparr>)
       }
   }"

definition engine_turn :: "nat \<Rightarrow> u64 \<Rightarrow> trading \<Rightarrow> trading option" where
  "engine_turn n clock st =
     (if tr_done st < n then do {
        st \<leftarrow> engine_orders clock st;
        engine_feed st
      }
      else if tr_next st < n \<or> tr_landing st \<noteq> None then Some st
      else if \<not> tr_stop st then Some (st\<lparr>tr_stop := True\<rparr>)
      else if \<not> tr_halted st then Some st
      else do {
        (q, r) \<leftarrow> try_pop (tr_orders st);
        let st = st\<lparr>tr_orders := r\<rparr>;
        case q of
          None \<Rightarrow> Some st
        | Some m \<Rightarrow> do {
            (d, b) \<leftarrow> desk_apply (tr_desk st) (gw_book (tr_gw st)) m;
            Some (st\<lparr>tr_desk := d, tr_gw := (tr_gw st)\<lparr>gw_book := b\<rparr>\<rparr>)
          }
      })"

definition strategy_turn :: "u64 \<Rightarrow> trading \<Rightarrow> trading option" where
  "strategy_turn clock st =
     (if tr_halted st then Some st
      else case sy_sending (tr_strat st) of
        Some m \<Rightarrow> do {
          (ok, r) \<leftarrow> try_push (tr_orders st) m;
          Some (st\<lparr>tr_orders := r, tr_strat := (tr_strat st)\<lparr>sy_sending := (if ok then None else Some m)\<rparr>\<rparr>)
        }
      | None \<Rightarrow> (case sy_todo (tr_strat st) of
          Some u \<Rightarrow> do {
            sy \<leftarrow> quote_ask u clock ((tr_strat st)\<lparr>sy_todo := None\<rparr>);
            Some (st\<lparr>tr_strat := sy\<rparr>)
          }
        | None \<Rightarrow> do {
            (u, r) \<leftarrow> try_pop (tr_bbo st);
            let st = st\<lparr>tr_bbo := r\<rparr>;
            case u of
              None \<Rightarrow> Some (if tr_stop st then st\<lparr>tr_halted := True\<rparr> else st)
            | Some u \<Rightarrow> do {
                sy \<leftarrow> quote_bid u clock (note_update u ((tr_strat st)\<lparr>sy_todo := Some u\<rparr>));
                Some (st\<lparr>tr_strat := sy\<rparr>)
              }
          }))"

datatype thread = Feeder | Engine | Strategy

definition turn :: "nat \<Rightarrow> thread \<Rightarrow> u64 \<Rightarrow> trading \<Rightarrow> trading option" where
  "turn n t clock st = (case t of
     Feeder \<Rightarrow> feeder_turn n clock st
   | Engine \<Rightarrow> engine_turn n clock st
   | Strategy \<Rightarrow> strategy_turn clock st)"

fun trading_run :: "nat \<Rightarrow> (thread \<times> u64) list \<Rightarrow> trading \<Rightarrow> trading option" where
  "trading_run n [] st = Some st"
| "trading_run n ((t, clock) # ts) st = turn n t clock st \<bind> trading_run n ts"

section \<open>The invariant\<close>

text \<open>The engine and its book: \<open>k\<close> messages of the session applied, \<open>lb\<close> the live orders they leave.\<close>

definition engine_ok :: "message list \<Rightarrow> dense_gateway \<Rightarrow> quote_desk \<Rightarrow> nat \<Rightarrow> bool" where
  "engine_ok ms gw d k \<longleftrightarrow> (\<exists>lb. live_run (take k ms) live_start = Some lb \<and>
     replay_inv gw lb (desk_pairs d) (adds (take k ms) + card (desk_pairs d)) \<and> desk_ok d \<and>
     (\<forall>m\<in>set ms. unat (m_id m) < length (gw_refs gw)) \<and>
     gw_trades gw = word_of_nat (execs (take k ms)) \<and> gw_traded_lots gw = word_of_int (exec_lots (take k ms)))"

text \<open>The path of the frames: applied, in the arena, being landed, still in the file.\<close>

definition feed_ok :: "u8 list list \<Rightarrow> trading \<Rightarrow> bool" where
  "feed_ok bss st \<longleftrightarrow> arena_ok (tr_arena st) \<and>
     (\<exists>left. map frame bss = take (tr_done st) (map frame bss) @ arena_items (tr_arena st) @
         (case tr_landing st of None \<Rightarrow> [] | Some bs \<Rightarrow> [bs]) @ map frame left \<and>
       tr_next st + length left = length bss \<and>
       (\<exists>pre. tr_feed st = pre @ concat (map frame left) \<and> tr_cur st = length pre) \<and>
       (\<forall>bs\<in>set left. \<exists>w. payload_msg bs = Some w) \<and>
       unat (ar_head (tr_arena st)) + (case tr_landing st of None \<Rightarrow> 0 | Some bs \<Rightarrow> 1) + length left < 2 ^ 64) \<and>
     tr_done st \<le> length bss \<and> length (tr_t0 st) = length bss"

text \<open>The path of the quotes, with a bound on how many there can be: two for an update.\<close>

definition busy :: "strategy \<Rightarrow> nat" where
  "busy sy = (case sy_todo sy of None \<Rightarrow> 0 | Some u \<Rightarrow> 1) + (case sy_sending sy of None \<Rightarrow> 0 | Some m \<Rightarrow> 1)"

definition quotes_ok :: "nat \<Rightarrow> trading \<Rightarrow> bool" where
  "quotes_ok n st \<longleftrightarrow> ring_ok (tr_bbo st) \<and> ring_ok (tr_orders st) \<and> strategy_ok (tr_strat st) \<and>
     (\<forall>u\<in>set (ring_items (tr_bbo st)). touch_ok u) \<and> (\<forall>u. sy_todo (tr_strat st) = Some u \<longrightarrow> touch_ok u) \<and>
     (\<forall>m\<in>set (ring_items (tr_orders st)). quote_ok m) \<and> (\<forall>m. sy_sending (tr_strat st) = Some m \<longrightarrow> quote_ok m) \<and>
     unat (r_head (tr_bbo st)) \<le> tr_done st \<and>
     unat (r_head (tr_orders st)) + busy (tr_strat st) + 2 * length (ring_items (tr_bbo st)) \<le> 2 * tr_done st \<and>
     tr_n_t2t st + length (ring_items (tr_orders st)) + busy (tr_strat st) + 2 * length (ring_items (tr_bbo st)) \<le> 2 * tr_done st \<and>
     length (tr_t2t st) = 2 * n"

definition trading_ok :: "u8 list list \<Rightarrow> message list \<Rightarrow> trading \<Rightarrow> bool" where
  "trading_ok bss ms st \<longleftrightarrow> feed_ok bss st \<and> quotes_ok (length bss) st \<and> engine_ok ms (tr_gw st) (tr_desk st) (tr_done st)"

section \<open>The engine side\<close>

lemma live_step_dom:
  assumes "live_step lb m = Some lb'" and "finite (dom (fst lb))"
  shows "finite (dom (fst lb')) \<and> card (dom (fst lb')) \<le> card (dom (fst lb)) + adds [m]"
proof -
  have "dom (fst lb') \<subseteq> dom (fst lb) \<union> (if m_type m = NewOrder then {m_id m} else {})"
    using assms(1) by (auto simp: live_step_def split: msg_type.splits option.splits if_splits)
  then have "card (dom (fst lb')) \<le> card (dom (fst lb) \<union> (if m_type m = NewOrder then {m_id m} else {}))"
    "finite (dom (fst lb'))" using assms(2) by (auto intro!: card_mono intro: finite_subset)
  with card_Un_le [of "dom (fst lb)" "if m_type m = NewOrder then {m_id m} else {}"] show ?thesis
    by (simp split: if_splits)
qed

lemma live_run_dom:
  assumes "live_run ms lb = Some lb'" and "finite (dom (fst lb))"
  shows "finite (dom (fst lb')) \<and> card (dom (fst lb')) \<le> card (dom (fst lb)) + adds ms"
  using assms
proof (induction ms arbitrary: lb)
  case (Cons m ms)
  then obtain lb1 where 1: "live_step lb m = Some lb1" "live_run ms lb1 = Some lb'" by (auto simp: bind_eq_Some_conv)
  from live_step_dom [OF 1(1) Cons.prems(2)] Cons.IH [OF 1(2)] show ?case by simp
qed simp

lemma live_run_prefix:
  assumes "live_run ms lb0 = Some lbF" and "k < length ms" and "live_run (take k ms) lb0 = Some lb"
  obtains lb' where "live_step lb (ms ! k) = Some lb'" and "live_run (take (Suc k) ms) lb0 = Some lb'"
proof -
  have ms: "ms = take k ms @ ms ! k # drop (Suc k) ms" by (simp add: id_take_nth_drop [OF assms(2), symmetric])
  have "live_run ms lb0 = live_step lb (ms ! k) \<bind> live_run (drop (Suc k) ms)"
    by (subst ms) (simp add: live_run_append assms(3))
  then obtain lb' where "live_step lb (ms ! k) = Some lb'"
    using assms(1) by (cases "live_step lb (ms ! k)") auto
  with live_run_snoc [OF assms(3), of "ms ! k"] that take_Suc_conv_app_nth [OF assms(2)] show ?thesis by simp
qed

lemma adds_take: "adds (take k ms) \<le> adds ms"
  using adds_simps(3) [of "take k ms" "drop k ms"] by simp

lemma engine_message:
  assumes ok: "engine_ok ms gw d k" and k: "k < length ms" and run: "live_run ms live_start = Some lbF"
    and room: "adds ms \<le> 1048574"
  obtains gw' where "gateway_apply gw (ms ! k) = Some gw'" and "engine_ok ms gw' d (Suc k)"
proof -
  obtain lb where lb: "live_run (take k ms) live_start = Some lb"
    "replay_inv gw lb (desk_pairs d) (adds (take k ms) + card (desk_pairs d))" "desk_ok d"
    "\<forall>m\<in>set ms. unat (m_id m) < length (gw_refs gw)"
    "gw_trades gw = word_of_nat (execs (take k ms))" "gw_traded_lots gw = word_of_int (exec_lots (take k ms))"
    using ok by (auto simp: engine_ok_def)
  obtain lb' where lb': "live_step lb (ms ! k) = Some lb'" "live_run (take (Suc k) ms) live_start = Some lb'"
    by (rule live_run_prefix [OF run k lb(1)])
  have t: "take (Suc k) ms = take k ms @ [ms ! k]" by (rule take_Suc_conv_app_nth [OF k])
  have live: "live_ok lb" using live_run_ok [OF lb(1) live_start_ok] by blast
  have a: "unat (m_id (ms ! k)) < length (gw_refs gw)" using lb(4) k by simp
  have r: "adds (take k ms) + card (desk_pairs d) < 1048576" if "m_type (ms ! k) = NewOrder"
    using adds_take [of "Suc k" ms] room desk_card [of d] that t by simp
  from replay_step [OF lb(2) live lb'(1) a r] obtain gw' where gw':
    "gateway_apply gw (ms ! k) = Some gw'"
    "replay_inv gw' lb' (desk_pairs d) (adds (take k ms) + card (desk_pairs d) + (if m_type (ms ! k) = NewOrder then 1 else 0))"
    "length (gw_refs gw') = length (gw_refs gw)"
    "gw_trades gw' = gw_trades gw + (if m_type (ms ! k) = Execute then 1 else 0)"
    "gw_traded_lots gw' = gw_traded_lots gw + (if m_type (ms ! k) = Execute then m_qty (ms ! k) else 0)" by blast
  have "adds (take (Suc k) ms) + card (desk_pairs d) =
      adds (take k ms) + card (desk_pairs d) + (if m_type (ms ! k) = NewOrder then 1 else 0)" by (simp add: t)
  with gw'(2) have "replay_inv gw' lb' (desk_pairs d) (adds (take (Suc k) ms) + card (desk_pairs d))" by (simp only:)
  with gw'(3-5) lb(3-6) lb'(2) have "engine_ok ms gw' d (Suc k)"
    unfolding engine_ok_def by (intro exI [of _ lb'] conjI) (simp_all add: t)
  with gw'(1) show ?thesis by (rule that)
qed

lemma engine_quote:
  assumes ok: "engine_ok ms gw d k" and m: "quote_ok m"
  obtains d' b where "desk_apply d (gw_book gw) m = Some (d', b)" and "engine_ok ms (gw\<lparr>gw_book := b\<rparr>) d' k"
proof -
  obtain lb where lb: "live_run (take k ms) live_start = Some lb"
    "replay_inv gw lb (desk_pairs d) (adds (take k ms) + card (desk_pairs d))" "desk_ok d"
    "\<forall>m\<in>set ms. unat (m_id m) < length (gw_refs gw)"
    "gw_trades gw = word_of_nat (execs (take k ms))" "gw_traded_lots gw = word_of_int (exec_lots (take k ms))"
    using ok by (auto simp: engine_ok_def)
  have D: "finite (dom (fst lb))" "card (dom (fst lb)) \<le> adds (take k ms)"
    using live_run_dom [OF lb(1)] by (simp_all add: live_start_def)
  obtain d' b where "desk_apply d (gw_book gw) m = Some (d', b)" "desk_ok d'"
    "replay_inv (gw\<lparr>gw_book := b\<rparr>) lb (desk_pairs d') (adds (take k ms) + card (desk_pairs d'))"
    by (rule desk_step [OF lb(2,3) _ _ D]) (use m in \<open>blast intro: that | simp add: quote_ok_def\<close>)+
  with lb show ?thesis by (intro that [of d' b]) (auto simp: engine_ok_def)
qed

lemma engine_touch:
  assumes ok: "engine_ok ms gw d k" and u: "bbo_top u = top_of_book (gw_book gw)"
  shows "touch_ok u"
proof (rule replay_touch [OF _ _ _ u])
  show "book_ok (gw_book gw)" "book_params (gw_book gw)" "apart (abs_book (gw_book gw))"
    using ok by (auto simp: engine_ok_def replay_inv_def dense.sound_def)
qed

lemma engine_orders_step:
  assumes q: "quotes_ok n st" and e: "engine_ok ms (tr_gw st) (tr_desk st) (tr_done st)" and k: "tr_done st \<le> n"
  obtains st' where "engine_orders clock st = Some st'" and "quotes_ok n st'"
    and "engine_ok ms (tr_gw st') (tr_desk st') (tr_done st')" and "tr_done st' = tr_done st"
    and "tr_arena st' = tr_arena st" and "tr_t0 st' = tr_t0 st" and "\<And>bss. feed_ok bss st' = feed_ok bss st"
proof -
  note Q = q [unfolded quotes_ok_def]
  have ok: "ring_ok (tr_orders st)" using Q by blast
  show ?thesis
  proof (cases rule: ring.pop_cases [OF ok])
    case (1 r)
    have "quotes_ok n (st\<lparr>tr_orders := r\<rparr>)" using Q 1 by (simp add: quotes_ok_def)
    moreover have "engine_orders clock st = Some (st\<lparr>tr_orders := r\<rparr>)" using 1 by (simp add: engine_orders_def Let_def)
    ultimately show ?thesis using e by (intro that [of "st\<lparr>tr_orders := r\<rparr>"]) (simp_all add: feed_ok_def)
  next
    case (2 m r)
    have m: "quote_ok m" using Q 2(1) by simp
    obtain d b where d: "desk_apply (tr_desk st) (gw_book (tr_gw st)) m = Some (d, b)"
      "engine_ok ms ((tr_gw st)\<lparr>gw_book := b\<rparr>) d (tr_done st)" by (rule engine_quote [OF e m])
    have lt: "tr_n_t2t st < length (tr_t2t st)" using Q 2(1) k by simp
    let ?st = "st\<lparr>tr_orders := r, tr_desk := d, tr_gw := (tr_gw st)\<lparr>gw_book := b\<rparr>,
      tr_t2t := (tr_t2t st)[tr_n_t2t st := ucast (clock - m_id m)], tr_n_t2t := tr_n_t2t st + 1\<rparr>"
    have "engine_orders clock st = Some ?st" using 2(2) d(1) lt by (simp add: engine_orders_def Let_def)
    moreover have "quotes_ok n ?st" using Q 2 by (simp add: quotes_ok_def)
    ultimately show ?thesis using d(2) by (intro that [of ?st]) (simp_all add: feed_ok_def)
  qed
qed

section \<open>The turns\<close>

text \<open>What the frames in the arena are: the next messages of the session.\<close>

lemma feed_okE:
  assumes "feed_ok bss st"
  obtains left where "arena_ok (tr_arena st)"
    and "map frame bss = take (tr_done st) (map frame bss) @ arena_items (tr_arena st) @
         (case tr_landing st of None \<Rightarrow> [] | Some bs \<Rightarrow> [bs]) @ map frame left"
    and "tr_next st + length left = length bss"
    and "\<exists>pre. tr_feed st = pre @ concat (map frame left) \<and> tr_cur st = length pre"
    and "\<forall>bs\<in>set left. \<exists>w. payload_msg bs = Some w"
    and "unat (ar_head (tr_arena st)) + (case tr_landing st of None \<Rightarrow> 0 | Some bs \<Rightarrow> 1) + length left < 2 ^ 64"
    and "tr_done st \<le> length bss" and "length (tr_t0 st) = length bss"
  using assms by (auto simp: feed_ok_def)

lemma next_frame:
  assumes xs: "xs = take k xs @ x # ys" and k: "k \<le> length xs"
  shows "k < length xs" and "xs ! k = x" and "xs = take (Suc k) xs @ ys"
proof -
  have l: "length (take k xs) = k" using k by simp
  show lt: "k < length xs" using arg_cong [OF xs, of length] k by simp
  have d: "drop k xs = x # ys" using arg_cong [OF xs, of "drop k"] l by simp
  with lt show "xs ! k = x" by (metis Cons_nth_drop_Suc list.inject)
  from d have "drop (Suc k) xs = ys" by (metis drop_Suc list.sel(3) tl_drop)
  then show "xs = take (Suc k) xs @ ys" by (metis append_take_drop_id)
qed

lemma feeder_step:
  assumes f: "feed_ok bss st"
  obtains st' where "feeder_turn (length bss) clock st = Some st'" and "feed_ok bss st'"
    and "quotes_ok n st' = quotes_ok n st" and "tr_gw st' = tr_gw st" and "tr_desk st' = tr_desk st" and "tr_done st' = tr_done st"
proof -
  obtain left where F: "arena_ok (tr_arena st)"
    "map frame bss = take (tr_done st) (map frame bss) @ arena_items (tr_arena st) @
       (case tr_landing st of None \<Rightarrow> [] | Some bs \<Rightarrow> [bs]) @ map frame left"
    "tr_next st + length left = length bss" "\<exists>pre. tr_feed st = pre @ concat (map frame left) \<and> tr_cur st = length pre"
    "\<forall>bs\<in>set left. \<exists>w. payload_msg bs = Some w"
    "unat (ar_head (tr_arena st)) + (case tr_landing st of None \<Rightarrow> 0 | Some bs \<Rightarrow> 1) + length left < 2 ^ 64"
    "tr_done st \<le> length bss" "length (tr_t0 st) = length bss"
    by (rule feed_okE [OF f])
  show ?thesis
  proof (cases "tr_landing st")
    case (Some bs)
    have h: "unat (ar_head (tr_arena st)) + 1 < 2 ^ 64" using F(6) Some by simp
    obtain ok q where q: "arena_push (tr_arena st) bs = Some (ok, q)" "arena_ok q"
      "arena_items q = (if ok then arena_items (tr_arena st) @ [bs] else arena_items (tr_arena st))"
      "unat (ar_head q) = (if ok then unat (ar_head (tr_arena st)) + 1 else unat (ar_head (tr_arena st)))"
      by (rule aring.push_cases [OF F(1) h, of bs]) (rule that)
    let ?st = "st\<lparr>tr_arena := q, tr_landing := (if ok then None else Some bs)\<rparr>"
    have "feeder_turn (length bss) clock st = Some ?st" using q(1) Some by (simp add: feeder_turn_def)
    moreover have "feed_ok bss ?st" unfolding feed_ok_def
      by (intro conjI exI [of _ left]) (use F q Some in \<open>auto\<close>)
    ultimately show ?thesis by (intro that [of ?st]) (simp_all add: quotes_ok_def)
  next
    case None
    show ?thesis
    proof (cases "tr_next st < length bss")
      case False
      with None f show ?thesis by (intro that [of st]) (simp_all add: feeder_turn_def)
    next
      case True
      then obtain bs rs where left: "left = bs # rs" using F(3) by (cases left) auto
      then obtain w where w: "payload_msg bs = Some w" using F(5) by auto
      obtain pre where pre: "tr_feed st = pre @ frame bs @ concat (map frame rs)" "tr_cur st = length pre"
        using F(4) left by auto
      note P = frame_prefix [OF w]
      have ld: "load_be16 (tr_feed st) (tr_cur st) = Some (word_of_nat (length bs))"
        unfolding pre by (rule P(4))
      have by': "bytes_at (tr_feed st) (tr_cur st) (2 + length bs) = Some (frame bs)"
        using pre sub_bytes_mid [of pre "length pre" "frame bs" "2 + length bs"] P(2) by (simp add: bytes_at_def)
      let ?st = "st\<lparr>tr_t0 := (tr_t0 st)[tr_next st := clock], tr_landing := Some (frame bs),
        tr_cur := tr_cur st + (2 + length bs), tr_next := tr_next st + 1\<rparr>"
      have "feeder_turn (length bss) clock st = Some ?st"
        using None True F(8) ld by' P(1,2,3) by (simp add: feeder_turn_def Let_def)
      moreover have "feed_ok bss ?st" unfolding feed_ok_def
      proof (intro conjI exI [of _ rs])
        show "\<exists>pre. tr_feed ?st = pre @ concat (map frame rs) \<and> tr_cur ?st = length pre"
          using pre P(2) by (intro exI [of _ "pre @ frame bs"]) simp
      qed (use F None left in auto)
      ultimately show ?thesis by (intro that [of ?st]) (simp_all add: quotes_ok_def)
    qed
  qed
qed

lemma engine_feed_step:
  assumes f: "feed_ok bss st" and q: "quotes_ok (length bss) st" and e: "engine_ok ms (tr_gw st) (tr_desk st) (tr_done st)"
    and ws: "list_all2 (\<lambda>bs w. payload_msg bs = Some w) bss ws" and ms: "ms = map decode_msg ws"
    and run: "live_run ms live_start = Some lbF" and room: "adds ms \<le> 1048574" and len: "2 * length bss < 2 ^ 64"
  obtains st' where "engine_feed st = Some st'" and "trading_ok bss ms st'"
proof -
  obtain left where F: "arena_ok (tr_arena st)"
    "map frame bss = take (tr_done st) (map frame bss) @ arena_items (tr_arena st) @
       (case tr_landing st of None \<Rightarrow> [] | Some bs \<Rightarrow> [bs]) @ map frame left"
    "tr_next st + length left = length bss" "\<exists>pre. tr_feed st = pre @ concat (map frame left) \<and> tr_cur st = length pre"
    "\<forall>bs\<in>set left. \<exists>w. payload_msg bs = Some w"
    "unat (ar_head (tr_arena st)) + (case tr_landing st of None \<Rightarrow> 0 | Some bs \<Rightarrow> 1) + length left < 2 ^ 64"
    "tr_done st \<le> length bss" "length (tr_t0 st) = length bss"
    by (rule feed_okE [OF f])
  note Q = q [unfolded quotes_ok_def]
  show ?thesis
  proof (cases rule: aring.pop_cases [OF F(1)])
    case (1 a)
    let ?st = "st\<lparr>tr_arena := a\<rparr>"
    have "engine_feed st = Some ?st" using 1 by (simp add: engine_feed_def Let_def)
    moreover have "feed_ok bss ?st" unfolding feed_ok_def
      by (intro conjI exI [of _ left]) (use F 1 in auto)
    ultimately show ?thesis using q e by (intro that [of ?st]) (simp_all add: trading_ok_def quotes_ok_def)
  next
    case (2 x a)
    let ?k = "tr_done st"
    let ?tl = "arena_items a @ (case tr_landing st of None \<Rightarrow> [] | Some bs \<Rightarrow> [bs]) @ map frame left"
    have xs: "map frame bss = take ?k (map frame bss) @ x # ?tl" using F(2) 2(1) by simp
    note N = next_frame [OF xs, unfolded length_map, OF F(7)]
    have x: "x = frame (bss ! ?k)" using N(1,2) by simp
    have pm: "payload_msg (bss ! ?k) = Some (ws ! ?k)" "length ws = length bss"
      using ws N(1) by (auto simp: list_all2_conv_all_nth)
    have k: "?k < length ms" using N(1) pm(2) ms by simp
    obtain gw where gw: "gateway_apply (tr_gw st) (ms ! ?k) = Some gw" "engine_ok ms gw (tr_desk st) (Suc ?k)"
      by (rule engine_message [OF e k run room])
    have slot: "engine_slot gateway_sink x (tr_gw st) = Some gw"
      using gw(1) N(1) pm(2) by (simp add: x engine_slot_frame [OF pm(1)] gateway_sink_def ms)
    have t0: "aget (tr_t0 st) ?k = Some (tr_t0 st ! ?k)" using F(8) N(1) by simp
    have rok: "ring_ok (tr_bbo st)" and h: "unat (r_head (tr_bbo st)) + 1 < 2 ^ 64" using Q N(1) len by auto
    obtain p r where p: "on_message_applied (gw_book gw) (tr_t0 st ! ?k) (tr_pub st) (tr_bbo st) = Some (p, r)" "ring_ok r"
      "unat (r_head r) \<le> unat (r_head (tr_bbo st)) + 1" "length (ring_items r) \<le> length (ring_items (tr_bbo st)) + 1"
      "set (ring_items r) \<subseteq> set (ring_items (tr_bbo st)) \<union> {u. bbo_top u = top_of_book (gw_book gw)}"
      by (rule applied_total [OF rok h, of "gw_book gw" "tr_t0 st ! ?k" "tr_pub st"]) (rule that)
    let ?st = "st\<lparr>tr_arena := a, tr_gw := gw, tr_pub := p, tr_bbo := r, tr_done := Suc ?k\<rparr>"
    have "engine_feed st = Some ?st" using 2(2) slot t0 p(1) by (simp add: engine_feed_def Let_def)
    moreover have "feed_ok bss ?st" unfolding feed_ok_def
      by (intro conjI exI [of _ left]) (use F(3-6,8) 2 N(1,3) in auto)
    moreover have "quotes_ok (length bss) ?st"
      using Q p engine_touch [OF gw(2)] unfolding quotes_ok_def by (auto simp: subset_iff)
    ultimately show ?thesis using gw(2) by (intro that [of ?st]) (simp_all add: trading_ok_def)
  qed
qed

lemma busy_simps: "sy_todo sy = t \<Longrightarrow> sy_sending sy = m \<Longrightarrow>
    busy sy = (case t of None \<Rightarrow> 0 | Some u \<Rightarrow> 1) + (case m of None \<Rightarrow> 0 | Some m \<Rightarrow> 1)"
  by (simp add: busy_def)

lemma strategy_ok_frame: "strategy_ok (note_update u sy) = strategy_ok sy" "strategy_ok (sy\<lparr>sy_todo := t\<rparr>) = strategy_ok sy"
  "strategy_ok (sy\<lparr>sy_sending := m\<rparr>) = strategy_ok sy"
  by (simp_all add: strategy_ok_def note_update_def Let_def)

lemma note_frame: "sy_todo (note_update u sy) = sy_todo sy" "sy_sending (note_update u sy) = sy_sending sy"
  by (simp_all add: note_update_def Let_def)

lemma strategy_step:
  assumes q: "quotes_ok n st" and h: "2 * tr_done st < 2 ^ 64"
  obtains st' where "strategy_turn clock st = Some st'" and "quotes_ok n st'" and "\<And>bss. feed_ok bss st' = feed_ok bss st"
    and "tr_gw st' = tr_gw st" and "tr_desk st' = tr_desk st" and "tr_done st' = tr_done st"
proof -
  let ?sy = "tr_strat st"
  note Q = q [unfolded quotes_ok_def]
  have rb: "ring_ok (tr_bbo st)" and ro: "ring_ok (tr_orders st)" and sy: "strategy_ok ?sy" using Q by blast+
  show ?thesis
  proof (cases "tr_halted st")
    case True
    with q that [of st] show ?thesis by (simp add: strategy_turn_def)
  next
    case run: False
    show ?thesis
    proof (cases "sy_sending ?sy")
      case (Some m)
      have hd: "unat (r_head (tr_orders st)) + 1 < 2 ^ 64" using Q h Some by (simp add: busy_def)
      obtain ok r where r: "try_push (tr_orders st) m = Some (ok, r)" "ring_ok r"
        "ring_items r = (if ok then ring_items (tr_orders st) @ [m] else ring_items (tr_orders st))"
        "unat (r_head r) = (if ok then unat (r_head (tr_orders st)) + 1 else unat (r_head (tr_orders st)))"
        by (rule ring.push_cases [OF ro hd, of m]) (rule that)
      let ?st = "st\<lparr>tr_orders := r, tr_strat := ?sy\<lparr>sy_sending := (if ok then None else Some m)\<rparr>\<rparr>"
      have len: "length (ring_items r) = (if ok then length (ring_items (tr_orders st)) + 1 else length (ring_items (tr_orders st)))"
        unfolding r(3) by (simp del: ring_items_len)
      have "strategy_turn clock st = Some ?st" using run Some r(1) by (simp add: strategy_turn_def)
      moreover have "quotes_ok n ?st"
        using Q r len Some unfolding quotes_ok_def by (cases ok) (simp_all add: busy_def strategy_ok_frame del: ring_items_len)
      ultimately show ?thesis by (intro that [of ?st]) (simp_all add: feed_ok_def)
    next
      case sending: None
      show ?thesis
      proof (cases "sy_todo ?sy")
        case (Some u)
        have u: "touch_ok u" using Q Some by blast
        have sy': "strategy_ok (?sy\<lparr>sy_todo := None\<rparr>)" using sy by (simp add: strategy_ok_frame)
        obtain s2 where s2: "quote_ask u clock (?sy\<lparr>sy_todo := None\<rparr>) = Some s2" "strategy_ok s2" "sy_todo s2 = None"
          "sy_sending s2 = None \<or> (\<exists>m. sy_sending s2 = Some m \<and> quote_ok m)"
          by (rule quote_ask_step [OF sy' u, of clock]) (rule that, use sending in simp_all)
        let ?st = "st\<lparr>tr_strat := s2\<rparr>"
        have "strategy_turn clock st = Some ?st" using run sending Some s2(1) by (simp add: strategy_turn_def)
        moreover have "busy s2 \<le> busy ?sy" using s2(3,4) Some by (auto simp: busy_def)
        then have "quotes_ok n ?st" using Q s2 unfolding quotes_ok_def by (auto simp del: ring_items_len)
        ultimately show ?thesis by (intro that [of ?st]) (simp_all add: feed_ok_def)
      next
        case todo: None
        show ?thesis
        proof (cases rule: ring.pop_cases [OF rb])
          case (1 r)
          let ?st = "if tr_stop st then st\<lparr>tr_bbo := r, tr_halted := True\<rparr> else st\<lparr>tr_bbo := r\<rparr>"
          have "strategy_turn clock st = Some ?st" using run sending todo 1 by (simp add: strategy_turn_def Let_def)
          moreover have "quotes_ok n ?st" using Q 1 by (simp add: quotes_ok_def del: ring_items_len)
          ultimately show ?thesis by (intro that [of ?st]) (simp_all add: feed_ok_def)
        next
          case (2 u r)
          have u: "touch_ok u" using Q 2(1) by simp
          let ?s1 = "note_update u (?sy\<lparr>sy_todo := Some u\<rparr>)"
          have sy': "strategy_ok ?s1" using sy by (simp add: strategy_ok_frame)
          obtain s2 where s2: "quote_bid u clock ?s1 = Some s2" "strategy_ok s2" "sy_todo s2 = Some u"
            "sy_sending s2 = None \<or> (\<exists>m. sy_sending s2 = Some m \<and> quote_ok m)"
            by (rule quote_bid_step [OF sy' u, of clock]) (rule that, use sending in \<open>simp_all add: note_frame\<close>)
          let ?st = "st\<lparr>tr_bbo := r, tr_strat := s2\<rparr>"
          have run': "strategy_turn clock st = Some ?st"
            using run sending todo 2(2) s2(1) by (simp add: strategy_turn_def Let_def)
          have "busy s2 \<le> 2" "busy ?sy = 0" using s2(3,4) sending todo by (auto simp: busy_def)
          moreover have "length (ring_items (tr_bbo st)) = Suc (length (ring_items r))" unfolding 2(1) by simp
          ultimately have "quotes_ok n ?st"
            using Q 2 s2 u unfolding quotes_ok_def by (auto simp del: ring_items_len)
          with run' show ?thesis by (intro that [of ?st]) (simp_all add: feed_ok_def)
        qed
      qed
    qed
  qed
qed

lemma engine_step:
  assumes st: "trading_ok bss ms st" and ws: "list_all2 (\<lambda>bs w. payload_msg bs = Some w) bss ws" and ms: "ms = map decode_msg ws"
    and run: "live_run ms live_start = Some lbF" and room: "adds ms \<le> 1048574" and len: "2 * length bss < 2 ^ 64"
  obtains st' where "engine_turn (length bss) clock st = Some st'" and "trading_ok bss ms st'"
proof -
  have f: "feed_ok bss st" and q: "quotes_ok (length bss) st" and e: "engine_ok ms (tr_gw st) (tr_desk st) (tr_done st)"
    using st by (simp_all add: trading_ok_def)
  have k: "tr_done st \<le> length bss" using f by (simp add: feed_ok_def)
  show ?thesis
  proof (cases "tr_done st < length bss")
    case True
    obtain s1 where s1: "engine_orders clock st = Some s1" "quotes_ok (length bss) s1"
      "engine_ok ms (tr_gw s1) (tr_desk s1) (tr_done s1)" "\<And>bss. feed_ok bss s1 = feed_ok bss st"
      by (rule engine_orders_step [OF q e k, of clock]) (rule that)
    have f1: "feed_ok bss s1" using f s1(4) by simp
    obtain s2 where "engine_feed s1 = Some s2" "trading_ok bss ms s2"
      by (rule engine_feed_step [OF f1 s1(2,3) ws ms run room len]) (rule that)
    with True s1(1) show ?thesis by (intro that [of s2]) (simp_all add: engine_turn_def)
  next
    case fin: False
    note Q = q [unfolded quotes_ok_def]
    show ?thesis
    proof (cases "tr_next st < length bss \<or> tr_landing st \<noteq> None \<or> \<not> tr_stop st \<or> \<not> tr_halted st")
      case True
      have "trading_ok bss ms (st\<lparr>tr_stop := True\<rparr>)" using st by (simp add: trading_ok_def feed_ok_def quotes_ok_def)
      with True fin st show ?thesis
        by (cases "tr_next st < length bss \<or> tr_landing st \<noteq> None"; cases "tr_stop st")
          (auto simp: engine_turn_def intro: that)
    next
      case False
      have ok: "ring_ok (tr_orders st)" using Q by blast
      show ?thesis
      proof (cases rule: ring.pop_cases [OF ok])
        case (1 r)
        let ?st = "st\<lparr>tr_orders := r\<rparr>"
        have "trading_ok bss ms ?st" using st 1 by (simp add: trading_ok_def feed_ok_def quotes_ok_def)
        moreover have "engine_turn (length bss) clock st = Some ?st" using fin False 1 by (simp add: engine_turn_def Let_def)
        ultimately show ?thesis by (intro that [of ?st]) simp_all
      next
        case (2 m r)
        have m: "quote_ok m" using Q 2(1) by simp
        obtain d b where d: "desk_apply (tr_desk st) (gw_book (tr_gw st)) m = Some (d, b)"
          "engine_ok ms ((tr_gw st)\<lparr>gw_book := b\<rparr>) d (tr_done st)" by (rule engine_quote [OF e m])
        let ?st = "st\<lparr>tr_orders := r, tr_desk := d, tr_gw := (tr_gw st)\<lparr>gw_book := b\<rparr>\<rparr>"
        have "quotes_ok (length bss) ?st" using Q 2 by (simp add: quotes_ok_def)
        moreover have "feed_ok bss ?st" using f by (simp add: feed_ok_def)
        moreover have "engine_turn (length bss) clock st = Some ?st" using fin False 2(2) d(1) by (simp add: engine_turn_def Let_def)
        ultimately show ?thesis using d(2) by (intro that [of ?st]) (simp_all add: trading_ok_def)
      qed
    qed
  qed
qed

lemma trading_step:
  assumes st: "trading_ok bss ms st" and ws: "list_all2 (\<lambda>bs w. payload_msg bs = Some w) bss ws" and ms: "ms = map decode_msg ws"
    and run: "live_run ms live_start = Some lbF" and room: "adds ms \<le> 1048574" and len: "2 * length bss < 2 ^ 64"
  obtains st' where "turn (length bss) t clock st = Some st'" and "trading_ok bss ms st'"
proof (cases t)
  case Feeder
  have f: "feed_ok bss st" using st by (simp add: trading_ok_def)
  obtain s1 where s1: "feeder_turn (length bss) clock st = Some s1" "feed_ok bss s1"
    "quotes_ok (length bss) s1 = quotes_ok (length bss) st" "tr_gw s1 = tr_gw st" "tr_desk s1 = tr_desk st" "tr_done s1 = tr_done st"
    by (rule feeder_step [OF f, of clock "length bss"]) (rule that)
  with st Feeder show ?thesis by (intro that [of s1]) (simp_all add: turn_def trading_ok_def)
next
  case Engine
  obtain s1 where "engine_turn (length bss) clock st = Some s1" "trading_ok bss ms s1"
    by (rule engine_step [OF assms, of clock]) (rule that)
  with Engine show ?thesis by (intro that [of s1]) (simp_all add: turn_def)
next
  case Strategy
  have q: "quotes_ok (length bss) st" and h: "2 * tr_done st < 2 ^ 64"
    using st len by (simp_all add: trading_ok_def feed_ok_def)
  obtain s1 where "strategy_turn clock st = Some s1" "quotes_ok (length bss) s1" "\<And>bss. feed_ok bss s1 = feed_ok bss st"
    "tr_gw s1 = tr_gw st" "tr_desk s1 = tr_desk st" "tr_done s1 = tr_done st"
    by (rule strategy_step [OF q h, of clock]) (rule that)
  with st Strategy show ?thesis by (intro that [of s1]) (simp_all add: turn_def trading_ok_def)
qed

lemma trading_safe:
  assumes "trading_ok bss ms st" and "list_all2 (\<lambda>bs w. payload_msg bs = Some w) bss ws" and "ms = map decode_msg ws"
    and "live_run ms live_start = Some lbF" and "adds ms \<le> 1048574" and "2 * length bss < 2 ^ 64"
  shows "\<exists>st'. trading_run (length bss) ts st = Some st' \<and> trading_ok bss ms st'"
  using assms(1)
proof (induction ts arbitrary: st)
  case (Cons tc ts)
  obtain t clock where tc: "tc = (t, clock)" by force
  obtain st1 where "turn (length bss) t clock st = Some st1" "trading_ok bss ms st1"
    by (rule trading_step [OF Cons.prems assms(2-6), of t clock]) (rule that)
  with Cons.IH [of st1] tc show ?case by simp
qed simp

lemma trading_start_ok:
  assumes ws: "list_all2 (\<lambda>bs w. payload_msg bs = Some w) bss ws" and a: "idle_arena arena (length bss)"
    and ms: "ms = map decode_msg ws" and run: "live_run ms live_start = Some lb" and mx: "snd lb \<le> max_ref" "max_ref \<noteq> - 1"
  shows "trading_ok bss ms (trading_start (length bss) (concat (map frame bss)) arena max_ref window)"
proof -
  have c: "pow2_cap (2 ^ 15)" "pow2_cap (2 ^ 12)" unfolding pow2_cap_def by (intro exI [of _ 15]; simp) (intro exI [of _ 12]; simp)
  let ?st = "trading_start (length bss) (concat (map frame bss)) arena max_ref window"
  have "feed_ok bss ?st" unfolding feed_ok_def
    by (intro conjI exI [of _ bss]) (use a ws in \<open>auto simp: trading_start_def idle_arena_def list_all2_conv_all_nth in_set_conv_nth\<close>)
  moreover have "quotes_ok (length bss) ?st"
    using strategy_new_ok ring_new_ok(1) [OF c(1), where 'a = bbo_update] ring_new_ok(1) [OF c(2), where 'a = message]
    by (simp add: quotes_ok_def trading_start_def busy_def strategy_new_def ring_new_ok(2-4) del: ring_items_len)
  moreover have "engine_ok ms (gateway_new max_ref) desk_new 0"
    unfolding engine_ok_def
    by (intro exI [of _ live_start] conjI)
      (use replay_start [OF mx(2)] live_run_dense [OF run mx] in \<open>auto simp: desk_new_ok gateway_new_def\<close>)
  ultimately show ?thesis by (simp add: trading_ok_def trading_start_def)
qed

section \<open>Theorems\<close>

lemma trading_feed:
  assumes "generate_feed n seed = Some fs" and "n \<le> 1048574" and "idle_arena arena n"
  obtains st bss ws where "trading_run n ts (trading_start n (fd_buf fs) arena (fs_max_ref (fd_st fs)) window) = Some st"
    and "length ws = n" and "well_framed (fd_buf fs) ws" and "trading_ok bss (map decode_msg ws) st" and "length bss = n"
    and "fs_execs (fd_st fs) = word_of_nat (execs (map decode_msg ws))"
    and "fs_exec_lots (fd_st fs) = word_of_int (exec_lots (map decode_msg ws))"
proof -
  have n: "n \<le> 1048576" using assms(2) by simp
  obtain bss ws lb where F: "length ws = n" "fd_buf fs = concat (map frame bss)"
    "list_all2 (\<lambda>bs w. payload_msg bs = Some w) bss ws" "live_run (map decode_msg ws) live_start = Some lb"
    "snd lb = fs_max_ref (fd_st fs)" "snd lb \<noteq> - 1" "adds (map decode_msg ws) \<le> n"
    "fs_execs (fd_st fs) = word_of_nat (execs (map decode_msg ws))"
    "fs_exec_lots (fd_st fs) = word_of_int (exec_lots (map decode_msg ws))"
    by (rule feed_session [OF assms(1) n]) (rule that)
  have l: "length bss = n" using list_all2_lengthD [OF F(3)] F(1) by simp
  have start: "trading_ok bss (map decode_msg ws) (trading_start n (fd_buf fs) arena (fs_max_ref (fd_st fs)) window)"
    using trading_start_ok [OF F(3) _ refl F(4), of arena "fs_max_ref (fd_st fs)" window] assms(3) F(2,5,6) l by simp
  have room: "adds (map decode_msg ws) \<le> 1048574" "2 * length bss < 2 ^ 64" using F(7) assms(2) l by simp_all
  obtain st where "trading_run n ts (trading_start n (fd_buf fs) arena (fs_max_ref (fd_st fs)) window) = Some st"
    "trading_ok bss (map decode_msg ws) st"
    using trading_safe [OF start F(3) refl F(4) room, of ts] l by auto
  moreover have "well_framed (fd_buf fs) ws" using F(2,3) by (auto simp: well_framed_def)
  ultimately show ?thesis using F(1,8,9) l by (intro that) simp_all
qed

text \<open>C35. The strategy cannot break the verification of the feed. Over a generated feed of at most
  1,048,574 messages, under every schedule of the three threads and whatever the clocks read, no
  turn is undefined (no slot, stamp or sample buffer is overrun, no signed overflow, no bad id
  reaches the book); and whenever all messages have been applied, also after the late quotes,
  the engine counts exactly the executions and lots that the generator emitted.\<close>

theorem trading_verified:
  assumes "generate_feed n seed = Some fs" and "n \<le> 1048574" and "idle_arena arena n"
  shows "\<exists>st. trading_run n ts (trading_start n (fd_buf fs) arena (fs_max_ref (fd_st fs)) window) = Some st \<and> tr_done st \<le> n \<and>
    (tr_done st = n \<longrightarrow> gw_trades (tr_gw st) = fs_execs (fd_st fs) \<and> gw_traded_lots (tr_gw st) = fs_exec_lots (fd_st fs))"
  by (rule trading_feed [OF assms, of ts window]) (auto simp: trading_ok_def feed_ok_def engine_ok_def)

theorem trading_verified_witness:
  "\<exists>fs st. generate_feed 1 7 = Some fs \<and>
    trading_run 1 [(Feeder, 5), (Feeder, 6), (Engine, 7), (Strategy, 8), (Strategy, 9), (Engine, 10)]
      (trading_start 1 (fd_buf fs) (arena_new (2 ^ 14)) (fs_max_ref (fd_st fs)) 100) = Some st \<and> tr_done st \<le> 1"
proof -
  obtain fs where fs: "generate_feed 1 7 = Some fs" using generate_one by blast
  with trading_verified [OF fs _ idle_new, of "[(Feeder, 5), (Feeder, 6), (Engine, 7), (Strategy, 8), (Strategy, 9), (Engine, 10)]" 100]
  show ?thesis by auto
qed



text \<open>C37. The shutdown can hang. The engine stops draining the order ring when the last frame has been
  applied and then waits for the strategy to leave its loop; if the strategy still has a quote to
  send and the ring is full, neither can move: under every schedule the quote stays unsent and
  the strategy never halts, so the program does not end.\<close>

theorem shutdown_hangs:
  assumes "ring_ok (tr_orders st)" and "length (ring_items (tr_orders st)) = ring_cap (tr_orders st)"
    and "sy_sending (tr_strat st) = Some m" and "\<not> tr_halted st"
    and "tr_done st = n" and "tr_next st = n" and "tr_landing st = None"
  shows "\<exists>st'. trading_run n ts st = Some st' \<and> sy_sending (tr_strat st') = Some m \<and> \<not> tr_halted st' \<and>
    ring_items (tr_orders st') = ring_items (tr_orders st)"
  using assms
proof (induction ts arbitrary: st)
  case (Cons tc ts)
  obtain t clock where tc: "tc = (t, clock)" by force
  obtain r where r: "try_push (tr_orders st) m = Some (False, r)" "ring_ok r" "ring_cap r = ring_cap (tr_orders st)"
    "ring_items r = ring_items (tr_orders st)"
    using ring.push_full [OF Cons.prems(1,2), of m] by blast
  let ?st = "case t of Feeder \<Rightarrow> st | Engine \<Rightarrow> st\<lparr>tr_stop := True\<rparr> | Strategy \<Rightarrow> st\<lparr>tr_orders := r,
    tr_strat := (tr_strat st)\<lparr>sy_sending := Some m\<rparr>\<rparr>"
  have "turn n t clock st = Some ?st"
    using Cons.prems r(1) by (cases t) (simp_all add: turn_def feeder_turn_def engine_turn_def strategy_turn_def)
  moreover have "\<exists>st'. trading_run n ts ?st = Some st' \<and> sy_sending (tr_strat st') = Some m \<and> \<not> tr_halted st' \<and>
      ring_items (tr_orders st') = ring_items (tr_orders ?st)"
    by (rule Cons.IH) (use Cons.prems r in \<open>cases t; simp del: ring_items_len\<close>)+
  moreover have "ring_items (tr_orders ?st) = ring_items (tr_orders st)" using r(4) by (cases t) simp_all
  ultimately show ?case using tc by simp
qed simp

theorem shutdown_hangs_witness:
  "\<exists>st0 st. sy_sending (tr_strat st0) = Some message_zero \<and>
    trading_run 0 [(Engine, 1), (Strategy, 2), (Feeder, 3), (Engine, 4), (Strategy, 5)] st0 = Some st \<and>
    sy_sending (tr_strat st) = Some message_zero \<and> \<not> tr_halted st"
proof -
  define r where "r = \<lparr>r_head = 2, r_tail_cache = 0, r_tail = 0, r_head_cache = 0,
    r_buf = [Some message_zero, Some message_zero]\<rparr>"
  have c: "pow2_cap 2" by (auto simp: pow2_cap_def intro: exI [of _ 1])
  have i: "ring_items r = [message_zero, message_zero]" by (simp add: ring_items_def r_def ring_cap_def upt_rec)
  have ok: "ring_ok r" unfolding ring_ok_def i
    by (simp add: r_def ring_cap_def queued_def nth_Cons' less_2_cases_iff c [unfolded numeral_2_eq_2])
  let ?st = "(trading_start 0 [] (arena_new 2) 0 100)\<lparr>tr_orders := r,
    tr_strat := (strategy_new 100)\<lparr>sy_sending := Some message_zero\<rparr>\<rparr>"
  have "length (ring_items (tr_orders ?st)) = ring_cap (tr_orders ?st)" using i by (simp add: r_def ring_cap_def)
  from shutdown_hangs [OF _ this, of message_zero 0 "[(Engine, 1), (Strategy, 2), (Feeder, 3), (Engine, 4), (Strategy, 5)]"] ok
  obtain st where "trading_run 0 [(Engine, 1), (Strategy, 2), (Feeder, 3), (Engine, 4), (Strategy, 5)] ?st = Some st"
    "sy_sending (tr_strat st) = Some message_zero" "\<not> tr_halted st"
    by (auto simp: trading_start_def)
  then show ?thesis by (intro exI [of _ ?st] exI [of _ st]) simp
qed

end
