(* ===== verification/Hash_Oracle.thy ===== *)
theory Hash_Oracle
  imports Flat_Hash Feed
begin

text \<open>
  Parts 1 and 2 of \<open>bench/bench_flat_hash.cpp\<close>: the randomized comparison of the flat hash map
  with a dense array of expected values, and the workload of the micro-benchmark. The random
  generator is the \<open>Rng\<close> of \<open>pipeline_common.hpp\<close>. Seeds and numbers of operations are
  parameters, the source's constants appear in the definitions that run the programs; time
  stamps, percentiles and printing are not modelled.

  The comparison is a test, and the theorem says that it cannot fail, for any seed and any
  number of operations. It rests on the contract of the map (interpretation \<open>flat\<close>) and on two
  facts about the keys: multiplication by the odd constant is injective, and no key is 0.
\<close>

section \<open>The comparison with the oracle\<close>

definition DOM :: nat where "DOM = 3000"

definition oracle_key :: "u64 \<Rightarrow> u64" where
  "oracle_key ord = (ord + 1) * 0x9E3779B97F4A7C15"

record hash_check =
  oc_map :: flat_map
  oc_expect :: "u64 list"
  oc_ref_size :: u64
  oc_rng :: u64
  oc_ok :: bool

definition oracle_start :: "u64 \<Rightarrow> hash_check" where
  "oracle_start seed = \<lparr>oc_map = flat_map_new (2 ^ 13) 50, oc_expect = replicate DOM 0, oc_ref_size = 0,
     oc_rng = seed, oc_ok = True\<rparr>"

definition oracle_step :: "hash_check \<Rightarrow> hash_check option" where
  "oracle_step st = do {
     let (v, s) = rng_next (oc_rng st);
     let st = st\<lparr>oc_rng := s\<rparr>;
     let ord = v mod word_of_nat DOM;
     let k = oracle_key ord;
     if drop_bit 32 v mod 3 = 0 then do {
       (r, m) \<leftarrow> fm_insert (oc_map st) k (v OR 1);
       e \<leftarrow> aget (oc_expect st) (unat ord);
       ex \<leftarrow> aput (oc_expect st) (unat ord) (v OR 1);
       Some (st\<lparr>oc_map := m, oc_ok := r, oc_ref_size := oc_ref_size st + of_bool (e = 0), oc_expect := ex\<rparr>)
     }
     else if drop_bit 32 v mod 3 = 1 then do {
       (r, m) \<leftarrow> fm_erase (oc_map st) k;
       e \<leftarrow> aget (oc_expect st) (unat ord);
       ex \<leftarrow> aput (oc_expect st) (unat ord) 0;
       Some (st\<lparr>oc_map := m, oc_ok := (r = (e \<noteq> 0)), oc_ref_size := oc_ref_size st - of_bool (e \<noteq> 0),
         oc_expect := ex\<rparr>)
     }
     else do {
       x \<leftarrow> fm_find (oc_map st) k;
       e \<leftarrow> aget (oc_expect st) (unat ord);
       Some (st\<lparr>oc_ok := (x = e)\<rparr>)
     }
   }"

text \<open>\<open>for (int i = 0; i < n && ok; ++i)\<close>\<close>

fun oracle_loop :: "nat \<Rightarrow> hash_check \<Rightarrow> hash_check option" where
  "oracle_loop 0 st = Some st"
| "oracle_loop (Suc n) st = (if oc_ok st then oracle_step st \<bind> oracle_loop n else Some st)"

text \<open>The audit of the final state: \<open>ok\<close> is read before \<open>find\<close> is called.\<close>

fun oracle_audit :: "nat list \<Rightarrow> hash_check \<Rightarrow> bool \<Rightarrow> bool option" where
  "oracle_audit [] st ok = Some ok"
| "oracle_audit (ord # ords) st ok =
     (if ok then do {
        x \<leftarrow> fm_find (oc_map st) (oracle_key (word_of_nat ord));
        e \<leftarrow> aget (oc_expect st) ord;
        oracle_audit ords st (x = e)
      }
      else oracle_audit ords st False)"

definition oracle_test :: "u64 \<Rightarrow> nat \<Rightarrow> bool option" where
  "oracle_test seed n = do {
     st \<leftarrow> oracle_loop n (oracle_start seed);
     oracle_audit [0..<DOM] st (oc_ok st \<and> fm_size (oc_map st) = oc_ref_size st)
   }"

section \<open>The keys\<close>

lemma golden_inverse: "(0x9E3779B97F4A7C15 :: u64) * 0xF1DE83E19937733D = 1"
  by simp

lemma oracle_key_inj: "oracle_key a = oracle_key b \<longleftrightarrow> a = b"
proof
  assume "oracle_key a = oracle_key b"
  then have "(a + 1) * (0x9E3779B97F4A7C15 * 0xF1DE83E19937733D) = (b + 1) * (0x9E3779B97F4A7C15 * 0xF1DE83E19937733D)"
    unfolding oracle_key_def mult.assoc [symmetric] by metis
  then show "a = b" by (simp only: golden_inverse mult_1_right add_right_cancel)
qed simp

lemma oracle_key_nonzero: "a \<noteq> - 1 \<Longrightarrow> oracle_key a \<noteq> 0"
  using oracle_key_inj [of a "- 1"] by (simp add: oracle_key_def)

lemma small_ord: "ord < DOM \<Longrightarrow> unat (word_of_nat ord :: u64) = ord"
  by (simp add: DOM_def unat_of_nat)

lemma ord_bound: "unat ((v :: u64) mod word_of_nat DOM) < DOM"
  by (simp add: unat_mod DOM_def)

lemma ord_key: "ord < DOM \<Longrightarrow> oracle_key (word_of_nat ord) \<noteq> 0"
proof (rule oracle_key_nonzero)
  assume "ord < DOM"
  moreover have "unat (- 1 :: u64) = 2 ^ 64 - 1" by (simp add: unsigned_minus_1_eq_mask mask_eq_exp_minus_1)
  ultimately show "word_of_nat ord \<noteq> (- 1 :: u64)" using small_ord [of ord] by (auto simp: DOM_def)
qed

lemma or_one_nonzero: "(v :: u64) OR 1 \<noteq> 0"
  by (metis or_eq_0_iff zero_neq_one)

section \<open>The oracle describes the table\<close>

definition mirror :: "u64 list \<Rightarrow> (u64 \<rightharpoonup> u64) \<Rightarrow> bool" where
  "mirror E M \<longleftrightarrow> length E = DOM \<and>
     (\<forall>ord<DOM. M (oracle_key (word_of_nat ord)) = (if E ! ord = 0 then None else Some (E ! ord))) \<and>
     dom M \<subseteq> (\<lambda>ord. oracle_key (word_of_nat ord)) ` {..<DOM}"

lemma mirror_get: "mirror E M \<Longrightarrow> ord < DOM \<Longrightarrow>
    aget E ord = Some (E ! ord) \<and> or_zero (M (oracle_key (word_of_nat ord))) = E ! ord"
  by (auto simp: mirror_def aget_def)

lemma mirror_card: "mirror E M \<Longrightarrow> finite (dom M) \<and> card (dom M) \<le> DOM"
proof -
  assume m: "mirror E M"
  then have s: "dom M \<subseteq> (\<lambda>ord. oracle_key (word_of_nat ord)) ` {..<DOM}" by (simp add: mirror_def)
  with card_mono [OF _ s] card_image_le [of "{..<DOM}" "\<lambda>ord. oracle_key (word_of_nat ord)"]
  show ?thesis by (auto intro: finite_subset [OF s])
qed

lemma mirror_put:
  assumes "mirror E M" and "ord < DOM"
  shows "mirror (E[ord := x]) (if x = 0 then M(oracle_key (word_of_nat ord) := None)
    else M(oracle_key (word_of_nat ord) \<mapsto> x))"
proof -
  have k: "oracle_key (word_of_nat o') = oracle_key (word_of_nat ord) \<longleftrightarrow> o' = ord" if "o' < DOM" for o'
    using small_ord [OF that] small_ord [OF assms(2)] by (metis oracle_key_inj)
  show ?thesis using assms by (auto simp: mirror_def nth_list_update k)
qed

definition oracle_inv :: "hash_check \<Rightarrow> bool" where
  "oracle_inv st \<longleftrightarrow> fm_ok (oc_map st) \<and> fm_limit (oc_map st) = 4096 \<and> mirror (oc_expect st) (fm_map (oc_map st)) \<and>
     unat (oc_ref_size st) = card (dom (fm_map (oc_map st))) \<and> oc_ok st"

lemma oracle_start_inv: "oracle_inv (oracle_start seed)"
proof -
  have "hash_cap (2 ^ 13)" unfolding hash_cap_def by (intro exI [of _ 13]) simp
  from flat_map_new_ok [OF this, of 50] show ?thesis
    by (simp add: oracle_inv_def oracle_start_def mirror_def aget_def)
qed

lemma oracle_step_inv:
  assumes "oracle_inv st"
  obtains st' where "oracle_step st = Some st'" and "oracle_inv st'"
proof -
  obtain v s where vs: "rng_next (oc_rng st) = (v, s)" by force
  let ?ord = "unat (v mod word_of_nat DOM)" and ?k = "oracle_key (v mod word_of_nat DOM)"
  let ?M = "fm_map (oc_map st)" and ?E = "oc_expect st"
  note o = ord_bound [of v]
  have k: "oracle_key (word_of_nat ?ord) = ?k" by simp
  from assms have ok: "fm_ok (oc_map st)" and lim: "fm_limit (oc_map st) = 4096"
    and mir: "mirror ?E ?M" and sz: "unat (oc_ref_size st) = card (dom ?M)"
    by (simp_all add: oracle_inv_def)
  note get = mirror_get [OF mir o, unfolded k]
  have k0: "?k \<noteq> 0" using ord_key [OF o] unfolding k .
  have len: "length ?E = DOM" using mir by (simp add: mirror_def)
  have put: "aput ?E ?ord x = Some (?E[?ord := x])" for x using o len by (simp add: aput_def)
  have pres: "?M ?k = (if ?E ! ?ord = 0 then None else Some (?E ! ?ord))"
    using mir o unfolding mirror_def k [symmetric] by blast
  have fin: "finite (dom ?M)" and c: "card (dom ?M) < 4096" using mirror_card [OF mir] by (auto simp: DOM_def)
  have w: "unat (oc_ref_size st + 1) = card (dom ?M) + 1" using sz c by (intro trans [OF unat_plus_simple [THEN iffD1]]) (auto simp: word_le_nat_alt unat_word_ariths)
  consider "drop_bit 32 v mod 3 = 0" | "drop_bit 32 v mod 3 = 1"
    | "drop_bit 32 v mod 3 \<noteq> 0" "drop_bit 32 v mod 3 \<noteq> 1" by blast
  then show ?thesis
  proof cases
    case 1
    from flat.insert_law [OF ok k0, of "v OR 1"] c lim obtain m where m: "fm_insert (oc_map st) ?k (v OR 1) = Some (True, m)"
      "fm_ok m" "fm_limit m = 4096" "fm_map m = ?M(?k \<mapsto> v OR 1)" by auto
    from mirror_put [OF mir o, of "v OR 1"] or_one_nonzero [of v] m(4)
    have "mirror (?E[?ord := v OR 1]) (fm_map m)" by (simp add: k)
    moreover have "dom (fm_map m) = insert ?k (dom ?M)" using m(4) by simp
    then have "unat (oc_ref_size st + of_bool (?E ! ?ord = 0)) = card (dom (fm_map m))"
      using w sz pres fin m(4) by (simp add: card_insert_if domIff)
    ultimately show ?thesis
      using 1 vs m get put
      by (intro that [of "st\<lparr>oc_rng := s, oc_map := m, oc_ok := True,
          oc_ref_size := oc_ref_size st + of_bool (?E ! ?ord = 0), oc_expect := ?E[?ord := v OR 1]\<rparr>"])
        (simp_all add: oracle_step_def oracle_inv_def Let_def)
  next
    case 2
    from flat.erase_law [OF ok k0] lim obtain m where m: "fm_erase (oc_map st) ?k = Some (?M ?k \<noteq> None, m)"
      "fm_ok m" "fm_limit m = 4096" "fm_map m = ?M(?k := None)" by auto
    from mirror_put [OF mir o, of 0] m(4)
    have "mirror (?E[?ord := 0]) (fm_map m)" by (simp add: k)
    moreover have "unat (oc_ref_size st - of_bool (?E ! ?ord \<noteq> 0)) = card (dom (fm_map m))"
    proof (cases "?E ! ?ord = 0")
      case True
      with pres m(4) sz show ?thesis by (simp add: fun_upd_idem)
    next
      case False
      with pres have "?k \<in> dom ?M" by auto
      with fin have "card (dom ?M) = Suc (card (dom ?M - {?k}))" by (intro card.remove)
      moreover from this sz have "oc_ref_size st \<noteq> 0" by (intro notI) simp
      ultimately show ?thesis using sz m(4) False by (simp add: unat_minus_one)
    qed
    ultimately show ?thesis
      using 2 vs m get put pres
      by (intro that [of "st\<lparr>oc_rng := s, oc_map := m, oc_ok := True,
          oc_ref_size := oc_ref_size st - of_bool (?E ! ?ord \<noteq> 0), oc_expect := ?E[?ord := 0]\<rparr>"])
        (simp_all add: oracle_step_def oracle_inv_def Let_def)
  next
    case 3
    with vs get assms flat.find_law [OF ok k0] show ?thesis
      by (intro that [of "st\<lparr>oc_rng := s, oc_ok := True\<rparr>"]) (simp_all add: oracle_step_def oracle_inv_def Let_def)
  qed
qed

lemma oracle_loop_inv: "oracle_inv st \<Longrightarrow> \<exists>st'. oracle_loop n st = Some st' \<and> oracle_inv st'"
proof (induction n arbitrary: st)
  case (Suc n)
  show ?case
    by (rule oracle_step_inv [OF Suc.prems]) (use Suc in \<open>auto simp: oracle_inv_def\<close>)
qed simp

lemma oracle_audit_ok:
  "oracle_inv st \<Longrightarrow> \<forall>ord\<in>set ords. ord < DOM \<Longrightarrow> oracle_audit ords st True = Some True"
proof (induction ords)
  case (Cons ord ords)
  then have o: "ord < DOM" and ok: "fm_ok (oc_map st)" and mir: "mirror (oc_expect st) (fm_map (oc_map st))"
    by (simp_all add: oracle_inv_def)
  show ?case
    using Cons mirror_get [OF mir o] flat.find_law [OF ok ord_key [OF o]] by simp
qed simp

text \<open>C15. The oracle test of the hash map cannot fail: for every seed and every number of
  operations no call is undefined or endless, every answer agrees with the array of expected
  values, and so do the final size and the final contents.\<close>

theorem oracle_never_breaks: "oracle_test seed n = Some True"
proof -
  from oracle_loop_inv [OF oracle_start_inv] obtain st where st: "oracle_loop n (oracle_start seed) = Some st"
    "oracle_inv st" by blast
  then have "fm_size (oc_map st) = oc_ref_size st" "oc_ok st"
    using fm_size_card [of "oc_map st"] by (auto simp: oracle_inv_def word_unat_eq_iff)
  with st oracle_audit_ok [OF st(2), of "[0..<DOM]"] show ?thesis by (simp add: oracle_test_def)
qed

section \<open>The workload of the micro-benchmark\<close>

text \<open>\<open>do { k = r.next(); } while (k == 0);\<close>\<close>

partial_function (option) draw_key :: "u64 \<Rightarrow> (u64 \<times> u64) option" where
  "draw_key s = (let (k, s) = rng_next s in if k = 0 then draw_key s else Some (k, s))"

fun draw_keys :: "nat \<Rightarrow> u64 \<Rightarrow> (u64 list \<times> u64) option" where
  "draw_keys 0 s = Some ([], s)"
| "draw_keys (Suc n) s = do {
     (k, s) \<leftarrow> draw_key s;
     (ks, s) \<leftarrow> draw_keys n s;
     Some (k # ks, s)
   }"

fun lap_insert :: "u64 list \<Rightarrow> flat_map \<Rightarrow> flat_map option" where
  "lap_insert [] m = Some m"
| "lap_insert (k # ks) m = do { (r, m) \<leftarrow> fm_insert m k (k XOR 1); lap_insert ks m }"

fun lap_find :: "u64 list \<Rightarrow> flat_map \<Rightarrow> u64 \<Rightarrow> u64 option" where
  "lap_find [] m acc = Some acc"
| "lap_find (k # ks) m acc = do { v \<leftarrow> fm_find m k; lap_find ks m (acc + v) }"

fun lap_erase :: "u64 list \<Rightarrow> flat_map \<Rightarrow> flat_map option" where
  "lap_erase [] m = Some m"
| "lap_erase (k # ks) m = do { (r, m) \<leftarrow> fm_erase m k; lap_erase ks m }"

text \<open>The last line is the refill with the lookups of the blocks of 64 keys.\<close>

definition microcost :: "u64 \<Rightarrow> nat \<Rightarrow> (u64 \<times> flat_map) option" where
  "microcost seed n = do {
     (ks, s) \<leftarrow> draw_keys n seed;
     (misses, s) \<leftarrow> draw_keys n s;
     m \<leftarrow> lap_insert ks (flat_map_new (2 ^ 21) 50);
     acc \<leftarrow> lap_find ks m 0;
     acc \<leftarrow> lap_find misses m acc;
     m \<leftarrow> lap_erase ks m;
     m \<leftarrow> lap_insert ks m;
     acc \<leftarrow> lap_find (take (64 * (n div 64)) ks) m acc;
     Some (acc, m)
   }"

text \<open>The generator never leaves the non-zero states, and its output there is not 0, so the
  rejection loop ends at the first draw.\<close>

lemma xor_zero_iff: "(a :: u64) XOR b = 0 \<longleftrightarrow> a = b"
  by (auto simp: bit_eq_iff bit_simps)

lemma drop_bit_out: "drop_bit 72 (s :: u64) = 0" "drop_bit 81 (s :: u64) = 0"
  by (auto simp: bit_eq_iff bit_simps dest: bit_imp_le_length)

lemma push_bit_out: "push_bit 75 (s :: u64) = 0"
  by (auto simp: bit_eq_iff bit_simps dest: bit_imp_le_length)

lemma shift_fixed:
  fixes s :: u64
  shows "s = drop_bit 12 s \<Longrightarrow> s = 0" and "s = push_bit 25 s \<Longrightarrow> s = 0" and "s = drop_bit 27 s \<Longrightarrow> s = 0"
proof -
  assume e: "s = drop_bit 12 s"
  then have "s = drop_bit 12 (drop_bit 12 (drop_bit 12 (drop_bit 12 (drop_bit 12 (drop_bit 12 s)))))" by metis
  then show "s = 0" by (simp add: drop_bit_drop_bit drop_bit_out)
next
  assume e: "s = push_bit 25 s"
  then have "s = push_bit 25 (push_bit 25 (push_bit 25 s))" by metis
  then show "s = 0" by (simp add: push_bit_push_bit push_bit_out)
next
  assume e: "s = drop_bit 27 s"
  then have "s = drop_bit 27 (drop_bit 27 (drop_bit 27 s))" by metis
  then show "s = 0" by (simp add: drop_bit_drop_bit drop_bit_out)
qed

lemma multiplier_inverse: "(0x2545F4914F6CDD1D :: u64) * 0x59071D96D81ECD35 = 1"
  by simp

lemma rng_nonzero:
  assumes "s \<noteq> 0" and "rng_next s = (k, s')"
  shows "k \<noteq> 0 \<and> s' \<noteq> 0"
proof -
  define a where "a = s XOR drop_bit 12 s"
  define b where "b = a XOR push_bit 25 a"
  define c where "c = b XOR drop_bit 27 b"
  have "a \<noteq> 0" using shift_fixed(1) [of s] assms(1) by (auto simp only: a_def xor_zero_iff)
  then have "b \<noteq> 0" using shift_fixed(2) [of a] by (auto simp only: b_def xor_zero_iff)
  then have c: "c \<noteq> 0" using shift_fixed(3) [of b] by (auto simp only: c_def xor_zero_iff)
  have e: "rng_next s = (c * 0x2545F4914F6CDD1D, c)"
    unfolding rng_next_def Let_def a_def b_def c_def ..
  have "c * 0x2545F4914F6CDD1D \<noteq> 0"
  proof
    assume "c * 0x2545F4914F6CDD1D = 0"
    then have "c * 0x2545F4914F6CDD1D * 0x59071D96D81ECD35 = 0" by (simp only: mult_zero_left)
    with c show False by (simp only: mult.assoc multiplier_inverse mult_1_right)
  qed
  with c e assms(2) show ?thesis by simp
qed

lemma draw_key_first:
  assumes "s \<noteq> 0"
  shows "draw_key s = Some (rng_next s)"
  using rng_nonzero [OF assms] by (subst draw_key.simps) (auto split: prod.splits)

lemma draw_keys_ok:
  assumes "s \<noteq> 0"
  shows "\<exists>ks s'. draw_keys n s = Some (ks, s') \<and> s' \<noteq> 0 \<and> length ks = n \<and> 0 \<notin> set ks"
  using assms
proof (induction n arbitrary: s)
  case (Suc n)
  obtain k s1 where k: "rng_next s = (k, s1)" by force
  from Suc.IH [of s1] rng_nonzero [OF Suc.prems k] draw_key_first [OF Suc.prems] k show ?case by fastforce
qed simp

lemma lap_insert_ok:
  assumes "fm_ok m" and "0 \<notin> set ks" and "card (dom (fm_map m)) + length ks \<le> fm_limit m"
  shows "\<exists>m'. lap_insert ks m = Some m' \<and> fm_ok m' \<and> fm_limit m' = fm_limit m \<and>
    fm_map m' = (\<lambda>k. if k \<in> set ks then Some (k XOR 1) else fm_map m k)"
  using assms
proof (induction ks arbitrary: m)
  case (Cons k ks)
  then have k: "k \<noteq> 0" "card (dom (fm_map m)) < fm_limit m" by auto
  with flat.insert_law [OF Cons.prems(1) k(1), of "k XOR 1"] obtain m1 where m1:
    "fm_insert m k (k XOR 1) = Some (True, m1)" "fm_ok m1" "fm_limit m1 = fm_limit m"
    "fm_map m1 = (fm_map m)(k \<mapsto> k XOR 1)" by auto
  have "card (dom (fm_map m1)) \<le> card (dom (fm_map m)) + 1"
    using m1(4) card_insert_le_m1 by (simp add: card_insert_if)
  with Cons.prems m1(3) have "card (dom (fm_map m1)) + length ks \<le> fm_limit m1" by simp
  from Cons.IH [OF m1(2) _ this] Cons.prems(2) m1 show ?case by (auto simp: fun_eq_iff)
qed auto

lemma lap_find_ok: "fm_ok m \<Longrightarrow> lap_find ks m acc = Some (acc + (\<Sum>k\<leftarrow>ks. or_zero (fm_map m k)))"
  by (induction ks arbitrary: acc) (simp_all add: fm_find_correct add.assoc)

lemma lap_erase_ok:
  assumes "fm_ok m" and "0 \<notin> set ks"
  shows "\<exists>m'. lap_erase ks m = Some m' \<and> fm_ok m' \<and> fm_limit m' = fm_limit m \<and>
    fm_map m' = (\<lambda>k. if k \<in> set ks then None else fm_map m k)"
  using assms
proof (induction ks arbitrary: m)
  case (Cons k ks)
  then have k: "k \<noteq> 0" by auto
  with flat.erase_law [OF Cons.prems(1) k] obtain r m1 where m1:
    "fm_erase m k = Some (r, m1)" "fm_ok m1" "fm_limit m1 = fm_limit m" "fm_map m1 = (fm_map m)(k := None)" by auto
  from Cons.IH [OF m1(2)] Cons.prems(2) m1 show ?case by (auto simp: fun_eq_iff)
qed auto

text \<open>The micro-benchmark is well-defined and does what its laps are named after: with a seed
  other than 0 and up to \<open>2^20\<close> keys (half of the table) both rejection loops end, no insert is
  refused, every hit reads the value stored for its key, a miss contributes nothing unless the
  key drawn for it is one of the keys, and the erase lap leaves a table that can be filled again
  with the same contents.\<close>

theorem microcost_runs:
  assumes "seed \<noteq> 0" and "n \<le> 2 ^ 20"
  shows "\<exists>ks misses s s' m. draw_keys n seed = Some (ks, s) \<and> draw_keys n s = Some (misses, s') \<and>
    microcost seed n = Some ((\<Sum>k\<leftarrow>ks. k XOR 1) + (\<Sum>k\<leftarrow>filter (\<lambda>k. k \<in> set ks) misses. k XOR 1) +
      (\<Sum>k\<leftarrow>take (64 * (n div 64)) ks. k XOR 1), m) \<and>
    fm_map m = (\<lambda>k. if k \<in> set ks then Some (k XOR 1) else None)"
proof -
  from draw_keys_ok [OF assms(1), of n] obtain ks s where ks: "draw_keys n seed = Some (ks, s)" "s \<noteq> 0"
    "length ks = n" "0 \<notin> set ks" by blast
  from draw_keys_ok [OF ks(2), of n] obtain misses s' where ms: "draw_keys n s = Some (misses, s')" by blast
  have "hash_cap (2 ^ 21)" unfolding hash_cap_def by (intro exI [of _ 21]) simp
  note N = flat_map_new_ok [OF this, of 50]
  have lim: "fm_limit (flat_map_new (2 ^ 21) 50) = 2 ^ 20" using N(3) by simp
  let ?T = "\<lambda>k. if k \<in> set ks then Some (k XOR 1) else None"
  have ok: "fm_ok (flat_map_new (2 ^ 21) 50)" "fm_map (flat_map_new (2 ^ 21) 50) = Map.empty" by (rule N; simp)+
  from lap_insert_ok [OF ok(1) ks(4), unfolded ok(2) lim] ks(3) assms(2) obtain m1 where m1:
    "lap_insert ks (flat_map_new (2 ^ 21) 50) = Some m1" "fm_ok m1" "fm_limit m1 = 2 ^ 20" "fm_map m1 = ?T" by auto
  have none: "(\<lambda>k. if k \<in> set ks then None else ?T k) = Map.empty" by auto
  from lap_erase_ok [OF m1(2) ks(4), unfolded m1(3,4) none] obtain m2 where m2: "lap_erase ks m1 = Some m2" "fm_ok m2"
    "fm_limit m2 = 2 ^ 20" "fm_map m2 = Map.empty" by auto
  from lap_insert_ok [OF m2(2) ks(4), unfolded m2(3,4)] ks(3) assms(2) obtain m3 where m3:
    "lap_insert ks m2 = Some m3" "fm_ok m3" "fm_map m3 = ?T" by auto
  have hit: "(\<Sum>k\<leftarrow>xs. or_zero (?T k)) = (\<Sum>k\<leftarrow>xs. k XOR 1)" if "set xs \<subseteq> set ks" for xs
    using that by (induction xs) auto
  have miss: "(\<Sum>k\<leftarrow>xs. or_zero (?T k)) = (\<Sum>k\<leftarrow>filter (\<lambda>k. k \<in> set ks) xs. k XOR 1)" for xs
    by (induction xs) auto
  have "microcost seed n = Some ((\<Sum>k\<leftarrow>ks. k XOR 1) + (\<Sum>k\<leftarrow>filter (\<lambda>k. k \<in> set ks) misses. k XOR 1) +
      (\<Sum>k\<leftarrow>take (64 * (n div 64)) ks. k XOR 1), m3)"
    using ks(1) ms m1 m2(1) m3 hit [of ks] miss [of misses] hit [OF set_take_subset, of "64 * (n div 64)"]
    by (simp add: microcost_def lap_find_ok add.assoc)
  with ks(1) ms m3(3) show ?thesis by blast
qed

theorem microcost_runs_witness:
  "\<exists>acc m. microcost 0xB16B00B5 1000000 = Some (acc, m)"
  using microcost_runs [of "0xB16B00B5" 1000000] by auto

text \<open>With the state 0 the generator repeats 0, and the rejection loop would not end.\<close>

lemma draw_key_zero: "rng_next 0 = (0, 0)"
  by (simp add: rng_next_def)

end
