(* ===== verification/Hash_History.thy ===== *)
theory Hash_History
  imports Flat_Hash
begin

text \<open>
  The claim of the header comment of \<open>include/lob/flat_hash.hpp\<close> about deletion by backward
  shift: erasing a key restores the table \<open>to the exact state as if the erased key had never been
  inserted\<close>, so that probe chains cannot degrade over a session. \<open>occupied\<close> is the exact state:
  every slot with its key and value, up to the value left behind in an empty slot, which no
  operation reads. The proof gives every key its age, the time of the insertion that put it into
  the table: both tables are first come, first served with the same ages, and such a table is
  determined by its map.
\<close>

definition occupied :: "entry list \<Rightarrow> entry option list" where
  "occupied s = map (\<lambda>e. if e_key e = 0 then None else Some e) s"

lemma same_position:
  assumes len: "length t = length s" and kd: "keys_distinct s" "keys_distinct t"
    and re: "reachable s" "reachable t" and ag: "aged a s" "aged a t" and same: "slot_map s = slot_map t"
    and p: "p < length s" "kat s p = k" and q: "q < length s" "kat t q = k" and k: "k \<noteq> 0"
    and cap: "hash_cap (length s)"
  shows "p = q"
  using p q k
proof (induction "a k" arbitrary: k p q rule: less_induct)
  case less
  let ?n = "length s" and ?h = "home (length s) k"
  have inS: "\<exists>x<?n. kat s x = kat t y" if "y < ?n" "kat t y \<noteq> 0" for y
    using slot_map_at [OF kd(2), of y] that len slot_map_None [of s "kat t y"] same by auto
  have inT: "\<exists>x<?n. kat t x = kat s y" if "y < ?n" "kat s y \<noteq> 0" for y
    using slot_map_at [OF kd(1), of y] that len slot_map_None [of t "kat s y"] same by auto
  have "\<not> cyc ?n ?h p < cyc ?n ?h q"
  proof
    assume lt: "cyc ?n ?h p < cyc ?n ?h q"
    then have nz: "kat t p \<noteq> 0" using re(2) less.prems len unfolding reachable_def Let_def by metis
    with agedD [OF ag(2), of q p] less.prems len lt have old: "a (kat t p) < a k" by simp
    obtain x where x: "x < ?n" "kat s x = kat t p" using inS [OF less.prems(1) nz] by blast
    have "x = p" by (rule less.hyps [OF old x less.prems(1) refl nz])
    with x(2) less.prems(2) old show False by simp
  qed
  moreover have "\<not> cyc ?n ?h q < cyc ?n ?h p"
  proof
    assume lt: "cyc ?n ?h q < cyc ?n ?h p"
    then have nz: "kat s q \<noteq> 0" using re(1) less.prems unfolding reachable_def Let_def by metis
    with agedD [OF ag(1), of p q] less.prems lt have old: "a (kat s q) < a k" by simp
    obtain x where x: "x < ?n" "kat t x = kat s q" using inT [OF less.prems(3) nz] by blast
    have "q = x" by (rule less.hyps [OF old less.prems(3) refl x nz])
    with x(2) less.prems(4) old show False by simp
  qed
  ultimately have "cyc ?n ?h p = cyc ?n ?h q" by simp
  with cyc_inj [OF home_bound [OF cap] less.prems(1,3)] show ?case by blast
qed

lemma table_determined:
  assumes len: "length t = length s" and kd: "keys_distinct s" "keys_distinct t"
    and re: "reachable s" "reachable t" and ag: "aged a s" "aged a t" and same: "slot_map s = slot_map t"
    and cap: "hash_cap (length s)"
  shows "occupied s = occupied t"
proof (rule nth_equalityI)
  note P = same_position [OF len kd re ag same _ _ _ _ _ cap]
  fix p assume "p < length (occupied s)"
  then have p: "p < length s" by (simp add: occupied_def)
  have eq: "kat s p = kat t p"
  proof (rule ccontr)
    assume ne: "kat s p \<noteq> kat t p"
    show False
    proof (cases "kat s p = 0")
      case False
      with slot_map_at [OF kd(1) p refl] same obtain q where "q < length s" "kat t q = kat s p"
        using slot_map_None [of t "kat s p"] len by auto
      with P [OF p refl this False] ne show False by auto
    next
      case True
      with ne have z: "kat t p \<noteq> 0" by simp
      have pt: "p < length t" using p len by simp
      from slot_map_at [OF kd(2) pt refl z] same obtain q where "q < length s" "kat s q = kat t p"
        using slot_map_None [of s "kat t p"] by auto
      with P [OF this p refl z] ne show False by auto
    qed
  qed
  have "e_val (s ! p) = e_val (t ! p)" if z: "kat s p \<noteq> 0"
    using slot_map_at [OF kd(1) p refl z] slot_map_at [OF kd(2), of p "kat s p"] same p len eq z by simp
  with eq p len show "occupied s ! p = occupied t ! p" by (auto simp: occupied_def kat_def)
qed (simp add: occupied_def len)

section \<open>A session and the same session without one key\<close>

fun refused :: "map_op \<Rightarrow> u64 \<Rightarrow> bool" where
  "refused (Insert k v) r = (r = 0)"
| "refused op r = False"

definition twins :: "u64 \<Rightarrow> (u64 \<Rightarrow> nat) \<Rightarrow> nat \<Rightarrow> flat_map \<Rightarrow> flat_map \<Rightarrow> bool" where
  "twins k a t m w \<longleftrightarrow> fm_ok m \<and> fm_ok w \<and> fm_cap w = fm_cap m \<and> load_cap w = load_cap m \<and>
     fm_map w = (fm_map m)(k := None) \<and> aged a (fm_slots m) \<and> aged a (fm_slots w) \<and>
     (\<forall>x\<in>dom (fm_map m). a x < t)"

lemma twinsD:
  assumes "twins k a t m w"
  shows "fm_ok m" "fm_ok w" "fm_cap w = fm_cap m" "load_cap w = load_cap m" "fm_map w = (fm_map m)(k := None)"
    "aged a (fm_slots m)" "aged a (fm_slots w)" "\<forall>x\<in>dom (fm_map m). a x < t" "\<forall>x\<in>dom (fm_map w). a x < t"
    "fm_size w \<le> fm_size m"
proof -
  show r: "fm_ok m" "fm_ok w" "fm_cap w = fm_cap m" "load_cap w = load_cap m" "fm_map w = (fm_map m)(k := None)"
    "aged a (fm_slots m)" "aged a (fm_slots w)" "\<forall>x\<in>dom (fm_map m). a x < t"
    using assms by (simp_all add: twins_def)
  then show "\<forall>x\<in>dom (fm_map w). a x < t" by auto
  have "finite (dom (fm_map m))"
  proof -
    have "dom (fm_map m) \<subseteq> kat (fm_slots m) ` {..<length (fm_slots m)}"
      by (auto simp: fm_map_def slot_map_def split: if_splits)
    then show ?thesis by (rule finite_subset) simp
  qed
  then have "card (dom (fm_map w)) \<le> card (dom (fm_map m))" by (intro card_mono) (auto simp: r(5))
  with r show "fm_size w \<le> fm_size m" by (simp add: word_le_nat_alt fm_size_card)
qed

lemma aged_upd_absent:
  assumes "aged a s" and "keys_distinct s" and "slot_map s k = None"
  shows "aged (a(k := t)) s"
proof -
  have "kat s p \<noteq> k" if "p < length s" "kat s p \<noteq> 0" for p
    using slot_map_at [OF assms(2) that(1) refl that(2)] assms(3) by auto
  with assms(1) show ?thesis unfolding aged_def by simp
qed

text \<open>An operation on the erased key, in one session only.\<close>

lemma twins_alone:
  assumes tw: "twins k a t m w" and key: "op_key op = k" "k \<noteq> 0"
    and run: "run_op fm_insert fm_find fm_erase op m = Some (r, m')" and acc: "\<not> refused op r"
  shows "\<exists>a' t'. twins k a' t' m' w"
proof -
  note W = twinsD [OF tw]
  have none: "slot_map (fm_slots w) k = None" using W(5) by (simp add: fm_map_def)
  show ?thesis
  proof (cases op)
    case (Insert k' v)
    with key have k: "k' = k" by simp
    note C = fm_insert_correct [OF W(1) key(2), of v a t]
    obtain ok where ins: "fm_insert m k v = Some (ok, m')" "r = of_bool ok" using run Insert k by auto
    with acc Insert have "ok" by (cases ok) auto
    with ins C have lt: "fm_size m < load_cap m" and m': "fm_ok m'" "fm_cap m' = fm_cap m" "load_cap m' = load_cap m"
      "fm_map m' = (fm_map m)(k \<mapsto> v)" "aged (if fm_map m k = None then a(k := t) else a) (fm_slots m')"
      using W(6,8) by auto
    let ?a = "if fm_map m k = None then a(k := t) else a"
    have "aged ?a (fm_slots w)" using aged_upd_absent [OF W(7) fm_okD(2) [OF W(2)] none] W(7) by simp
    moreover have "\<forall>x\<in>dom (fm_map m'). ?a x < Suc t" using W(8) m'(4) by (auto intro: less_SucI)
    ultimately have "twins k ?a (Suc t) m' w" using m' W by (simp add: twins_def)
    then show ?thesis by blast
  next
    case (Find k')
    with run have "m' = m" by auto
    with tw show ?thesis by blast
  next
    case (Erase k')
    with key have k: "k' = k" by simp
    obtain ok where er: "fm_erase m k = Some (ok, m')" using run Erase k by auto
    with fm_erase_correct [OF W(1) key(2)] have m': "fm_ok m'" "fm_cap m' = fm_cap m" "load_cap m' = load_cap m"
      "fm_map m' = (fm_map m)(k := None)" "aged a (fm_slots m')" using W(6) by auto
    have "\<forall>x\<in>dom (fm_map m'). a x < t" using W(8) m'(4) by auto
    with m' W have "twins k a t m' w" by (simp add: twins_def)
    then show ?thesis by blast
  qed
qed

text \<open>An operation on another key, in both.\<close>

lemma twins_both:
  assumes tw: "twins k a t m w" and key: "op_key op \<noteq> k" "op_key op \<noteq> 0"
    and run: "run_op fm_insert fm_find fm_erase op m = Some (r, m')" and acc: "\<not> refused op r"
  shows "\<exists>a' t' w'. run_op fm_insert fm_find fm_erase op w = Some (r, w') \<and> twins k a' t' m' w'"
proof -
  note W = twinsD [OF tw]
  show ?thesis
  proof (cases op)
    case (Insert x v)
    with key have x: "x \<noteq> k" "x \<noteq> 0" by auto
    note C = fm_insert_correct [OF W(1) x(2), of v a t]
    obtain ok where ins: "fm_insert m x v = Some (ok, m')" "r = of_bool ok" using run Insert by auto
    with acc Insert have ok: "ok" by (cases ok) auto
    with ins C have lt: "fm_size m < load_cap m" and m': "fm_ok m'" "fm_cap m' = fm_cap m" "load_cap m' = load_cap m"
      "fm_map m' = (fm_map m)(x \<mapsto> v)" "aged (if fm_map m x = None then a(x := t) else a) (fm_slots m')"
      using W(6,8) by auto
    have "fm_size w < load_cap w" using W(4,10) lt by simp
    with fm_insert_correct [OF W(2) x(2), of v a t] W(7,9) obtain w' where w': "fm_insert w x v = Some (True, w')"
      "fm_ok w'" "fm_cap w' = fm_cap w" "load_cap w' = load_cap w" "fm_map w' = (fm_map w)(x \<mapsto> v)"
      "aged (if fm_map w x = None then a(x := t) else a) (fm_slots w')" by auto
    let ?a = "if fm_map m x = None then a(x := t) else a"
    have "fm_map w x = fm_map m x" using W(5) x by simp
    then have "aged ?a (fm_slots w')" using w'(6) by simp
    moreover have "\<forall>y\<in>dom (fm_map m'). ?a y < Suc t" using W(8) m'(4) by (auto intro: less_SucI)
    moreover have "fm_map w' = (fm_map m')(k := None)" using w'(5) m'(4) W(5) x by (simp add: fun_upd_twist)
    ultimately have "twins k ?a (Suc t) m' w'" using m' w' W by (simp add: twins_def)
    moreover have "run_op fm_insert fm_find fm_erase op w = Some (r, w')" using Insert w'(1) ins ok by simp
    ultimately show ?thesis by blast
  next
    case (Find x)
    with run have "m' = m" "r = or_zero (fm_map m x)" using fm_find_correct [OF W(1)] by auto
    moreover have "fm_find w x = Some (or_zero (fm_map m x))"
      using fm_find_correct [OF W(2), of x] W(5) key Find by simp
    ultimately show ?thesis using tw Find by auto
  next
    case (Erase x)
    with key have x: "x \<noteq> k" "x \<noteq> 0" by auto
    obtain ok where er: "fm_erase m x = Some (ok, m')" "r = of_bool ok" using run Erase by auto
    with fm_erase_correct [OF W(1) x(2)] have m': "ok = (fm_map m x \<noteq> None)" "fm_ok m'" "fm_cap m' = fm_cap m"
      "load_cap m' = load_cap m" "fm_map m' = (fm_map m)(x := None)" "aged a (fm_slots m')" using W(6) by auto
    from fm_erase_correct [OF W(2) x(2)] W(5,7) x obtain w' where w': "fm_erase w x = Some (fm_map m x \<noteq> None, w')"
      "fm_ok w'" "fm_cap w' = fm_cap w" "load_cap w' = load_cap w" "fm_map w' = (fm_map w)(x := None)"
      "aged a (fm_slots w')" by auto
    have "fm_map w' = (fm_map m')(k := None)" using w'(5) m'(5) W(5) x by (simp add: fun_upd_twist)
    moreover have "\<forall>y\<in>dom (fm_map m'). a y < t" using W(8) m'(5) by auto
    ultimately have "twins k a t m' w'" using m' w' W by (simp add: twins_def)
    moreover have "run_op fm_insert fm_find fm_erase op w = Some (r, w')" using Erase w'(1) er m'(1) by simp
    ultimately show ?thesis by blast
  qed
qed

lemma twins_run:
  assumes "twins k a t m w" and "k \<noteq> 0" and "\<forall>op\<in>set ops. op_key op \<noteq> 0"
    and "run_ops fm_insert fm_find fm_erase ops m = Some (rs, m')" and "\<forall>(op, r)\<in>set (zip ops rs). \<not> refused op r"
  shows "\<exists>a' t' rs' w'. run_ops fm_insert fm_find fm_erase (filter (\<lambda>op. op_key op \<noteq> k) ops) w = Some (rs', w') \<and>
    twins k a' t' m' w'"
  using assms
proof (induction ops arbitrary: a t m w rs)
  case (Cons op ops)
  from Cons.prems(4) obtain r m1 rs1 where r: "run_op fm_insert fm_find fm_erase op m = Some (r, m1)"
    "run_ops fm_insert fm_find fm_erase ops m1 = Some (rs1, m')" "rs = r # rs1"
    by (auto simp: bind_eq_Some_conv)
  have acc: "\<not> refused op r" "\<forall>(op, r)\<in>set (zip ops rs1). \<not> refused op r" using Cons.prems(5) r(3) by auto
  have nz: "\<forall>op\<in>set ops. op_key op \<noteq> 0" "op_key op \<noteq> 0" using Cons.prems(3) by auto
  show ?case
  proof (cases "op_key op = k")
    case True
    from twins_alone [OF Cons.prems(1) True Cons.prems(2) r(1) acc(1)] obtain a1 t1 where "twins k a1 t1 m1 w" by blast
    from Cons.IH [OF this Cons.prems(2) nz(1) r(2) acc(2)] True show ?thesis by simp
  next
    case False
    from twins_both [OF Cons.prems(1) False nz(2) r(1) acc(1)] obtain a1 t1 w1 where
      w1: "run_op fm_insert fm_find fm_erase op w = Some (r, w1)" "twins k a1 t1 m1 w1" by blast
    from Cons.IH [OF w1(2) Cons.prems(2) nz(1) r(2) acc(2)] w1(1) False show ?thesis by fastforce
  qed
qed auto

text \<open>C14. Deletion by backward shift forgets: take any session of inserts, lookups and erasures of
  non-zero keys in which no insert was refused. Erasing a key at its end leaves the table, slot
  by slot, in the state it would have if no operation of the session had ever named that key.\<close>

theorem erase_forgets:
  assumes "hash_cap cap" and "10 \<le> pct" and "pct \<le> 90" and "k \<noteq> 0" and "\<forall>op\<in>set ops. op_key op \<noteq> 0"
    and "run_ops fm_insert fm_find fm_erase ops (flat_map_new cap pct) = Some (rs, m)"
    and "\<forall>(op, r)\<in>set (zip ops rs). \<not> refused op r"
  shows "\<exists>r m' rs' w. fm_erase m k = Some (r, m') \<and>
    run_ops fm_insert fm_find fm_erase (filter (\<lambda>op. op_key op \<noteq> k) ops) (flat_map_new cap pct) = Some (rs', w) \<and>
    occupied (fm_slots m') = occupied (fm_slots w) \<and> fm_size m' = fm_size w"
proof -
  let ?new = "flat_map_new cap pct"
  note N = flat_map_new_ok [OF assms(1-3)]
  have "aged (\<lambda>_. 0) (fm_slots ?new)"
    by (auto simp: aged_def flat_map_new_def kat_def)
  then have "twins k (\<lambda>_. 0) 0 ?new ?new" using N by (simp add: twins_def)
  from twins_run [OF this assms(4-7)] obtain a t rs' w where w: "twins k a t m w"
    "run_ops fm_insert fm_find fm_erase (filter (\<lambda>op. op_key op \<noteq> k) ops) ?new = Some (rs', w)" by blast
  note W = twinsD [OF w(1)]
  from fm_erase_correct [OF W(1) assms(4)] W(6) obtain r m' where m': "fm_erase m k = Some (r, m')" "fm_ok m'"
    "fm_cap m' = fm_cap m" "fm_map m' = (fm_map m)(k := None)" "aged a (fm_slots m')" by auto
  have "occupied (fm_slots m') = occupied (fm_slots w)"
    by (rule table_determined)
      (use m' W fm_okD [OF m'(2)] fm_okD [OF W(2)] in \<open>simp_all add: fm_cap_def fm_map_def\<close>)
  moreover have "fm_size m' = fm_size w"
    using fm_size_card [OF m'(2)] fm_size_card [OF W(2)] m'(4) W(5) by (simp add: word_unat_eq_iff)
  ultimately show ?thesis using m'(1) w(2) by blast
qed

theorem erase_forgets_witness:
  "\<exists>m m' w rs' r. run_ops fm_insert fm_find fm_erase [Insert 5 7, Insert 9 8] (flat_map_new 4 50) = Some ([1, 1], m) \<and>
    fm_erase m 5 = Some (r, m') \<and> run_ops fm_insert fm_find fm_erase [Insert 9 8] (flat_map_new 4 50) = Some (rs', w) \<and>
    occupied (fm_slots m') = occupied (fm_slots w)"
proof -
  have cap: "hash_cap 4" by (auto simp: hash_cap_def intro: exI [of _ 2])
  note N = flat_map_new_ok [OF cap, of 50, simplified]
  let ?ops = "[Insert 5 7, Insert 9 8]"
  from flat.run_ops_refine [OF N(1), of ?ops] N(2,3) obtain m where m:
    "run_ops fm_insert fm_find fm_erase ?ops (flat_map_new 4 50) = Some ([1, 1], m)" by auto
  from erase_forgets [OF cap _ _ _ _ m, of 5] m show ?thesis by auto
qed

end
