(* ===== verification/Signals.thy ===== *)
theory Signals
  imports Publisher Checked "HOL-Library.Signed_Division"
begin

text \<open>
  \<open>include/lob/signals.hpp\<close>: the publisher that adds order flow imbalance (OFI) and the micro-price
  to every change of the top of the book. Its arithmetic is on quantities nothing bounds, so
  signed overflow is modelled (\<open>Checked\<close>); \<open><<\<close> wraps and \<open>/\<close> truncates as in C++20.

  The theorems: with prices below \<open>2^21\<close> and quantities below \<open>2^31\<close> the publisher is defined for
  \<open>2^29\<close> messages, its OFI is the sum of the flow formula over all of them, and the subscriber
  gets a subsequence of the numbered changes; the micro-price is the rounded weighted mean and
  lies between the best prices; the OFI is blind to an ask side that opens or empties.
\<close>

section \<open>The publisher\<close>

type_synonym i32 = "32 word"

record signal_update =
  su_bid_px :: i32
  su_ask_px :: i32
  su_bid_qty :: i32
  su_ask_qty :: i32
  su_ofi :: i64
  su_micro_px :: i64
  su_seq :: u64
  su_origin_tsc :: u64

record signal_publisher =
  sp_last_bp :: price
  sp_last_ap :: price
  sp_last_bq :: qty
  sp_last_aq :: qty
  sp_ofi :: i64
  sp_seq :: u64
  sp_published :: u64
  sp_dropped :: u64

definition signal_new :: signal_publisher where
  "signal_new = \<lparr>sp_last_bp = - 1, sp_last_ap = - 1, sp_last_bq = 0, sp_last_aq = 0, sp_ofi = 0,
     sp_seq = 0, sp_published = 0, sp_dropped = 0\<rparr>"

text \<open>Signed division truncates; dividing by 0 and \<open>INT64_MIN / -1\<close> are undefined.\<close>

definition sdiv64 :: "i64 \<Rightarrow> i64 \<Rightarrow> i64 option" where
  "sdiv64 a b = (if b \<noteq> 0 \<and> fits64 (sint a sdiv sint b) then Some (word_of_int (sint a sdiv sint b)) else None)"

definition ofi_increment :: "signal_publisher \<Rightarrow> top \<Rightarrow> i64 option" where
  "ofi_increment p = (\<lambda>(bp, ap, bq, aq). do {
     e1 \<leftarrow> smul (of_bool (sint (sp_last_bp p) \<le> sint bp)) bq;
     e2 \<leftarrow> smul (of_bool (sint bp \<le> sint (sp_last_bp p))) (sp_last_bq p);
     e \<leftarrow> ssub e1 e2;
     e3 \<leftarrow> smul (of_bool (sint ap \<le> sint (sp_last_ap p))) aq;
     e \<leftarrow> ssub e e3;
     e4 \<leftarrow> smul (of_bool (sint (sp_last_ap p) \<le> sint ap)) (sp_last_aq p);
     sadd e e4
   })"

definition micro_price :: "top \<Rightarrow> i64 option" where
  "micro_price = (\<lambda>(bp, ap, bq, aq). do {
     denom \<leftarrow> sadd bq aq;
     x \<leftarrow> smul bp aq;
     y \<leftarrow> smul ap bq;
     n \<leftarrow> sadd x y;
     d \<leftarrow> sadd denom (of_bool (denom = 0));
     sdiv64 (push_bit 8 n) d
   })"

definition signal_applied :: "book \<Rightarrow> u64 \<Rightarrow> signal_publisher \<Rightarrow> signal_update ring \<Rightarrow>
    (signal_publisher \<times> signal_update ring) option" where
  "signal_applied b origin_tsc p r =
     (let (bp, ap, bq, aq) = top_of_book b
      in if bp = sp_last_bp p \<and> ap = sp_last_ap p \<and> bq = sp_last_bq p \<and> aq = sp_last_aq p then Some (p, r)
         else do {
           e \<leftarrow> ofi_increment p (bp, ap, bq, aq);
           ofi \<leftarrow> sadd (sp_ofi p) e;
           micro \<leftarrow> micro_price (bp, ap, bq, aq);
           let p = p\<lparr>sp_ofi := ofi, sp_last_bp := bp, sp_last_ap := ap, sp_last_bq := bq, sp_last_aq := aq\<rparr>;
           let seq = sp_seq p + 1;
           let u = \<lparr>su_bid_px = ucast bp, su_ask_px = ucast ap, su_bid_qty = ucast bq, su_ask_qty = ucast aq,
             su_ofi = ofi, su_micro_px = micro, su_seq = seq, su_origin_tsc = origin_tsc\<rparr>;
           (ok, r) \<leftarrow> try_push r u;
           let p = p\<lparr>sp_seq := seq\<rparr>;
           Some (if \<not> ok then p\<lparr>sp_dropped := sp_dropped p + 1\<rparr> else p\<lparr>sp_published := sp_published p + 1\<rparr>, r)
         })"

definition signal_ofi :: "signal_publisher \<Rightarrow> i64" where "signal_ofi p = sp_ofi p"
definition signal_published :: "signal_publisher \<Rightarrow> u64" where "signal_published p = sp_published p"
definition signal_dropped :: "signal_publisher \<Rightarrow> u64" where "signal_dropped p = sp_dropped p"

section \<open>The publisher keeps the contract\<close>

definition signal_top :: "signal_publisher \<Rightarrow> top" where
  "signal_top p = (sp_last_bp p, sp_last_ap p, sp_last_bq p, sp_last_aq p)"

definition signal_stamp :: "signal_update \<Rightarrow> u64 \<times> u64 \<times> i32 \<times> i32 \<times> i32 \<times> i32" where
  "signal_stamp u = (su_seq u, su_origin_tsc u, su_bid_px u, su_ask_px u, su_bid_qty u, su_ask_qty u)"

definition narrow_top :: "top \<Rightarrow> i32 \<times> i32 \<times> i32 \<times> i32" where
  "narrow_top = (\<lambda>(bp, ap, bq, aq). (ucast bp, ucast ap, ucast bq, ucast aq))"

lemma signal_same: "signal_top p = top_of_book b \<Longrightarrow> signal_applied b tsc p r = Some (p, r)"
  by (auto simp: signal_applied_def signal_top_def split: prod.splits)

lemma signal_change:
  assumes "signal_top p \<noteq> top_of_book b"
  shows "signal_applied b tsc p r = do {
    e \<leftarrow> ofi_increment p (top_of_book b);
    ofi \<leftarrow> sadd (sp_ofi p) e;
    micro \<leftarrow> micro_price (top_of_book b);
    let (bp, ap, bq, aq) = top_of_book b;
    let u = \<lparr>su_bid_px = ucast bp, su_ask_px = ucast ap, su_bid_qty = ucast bq, su_ask_qty = ucast aq,
             su_ofi = ofi, su_micro_px = micro, su_seq = sp_seq p + 1, su_origin_tsc = tsc\<rparr>;
    (ok, r) \<leftarrow> try_push r u;
    Some (\<lparr>sp_last_bp = bp, sp_last_ap = ap, sp_last_bq = bq, sp_last_aq = aq, sp_ofi = ofi, sp_seq = sp_seq p + 1,
      sp_published = sp_published p + of_bool ok, sp_dropped = sp_dropped p + of_bool (\<not> ok)\<rparr>, r)
  }"
proof -
  obtain bp ap bq aq where t: "top_of_book b = (bp, ap, bq, aq)" by (metis prod.exhaust)
  have n: "\<not> (bp = sp_last_bp p \<and> ap = sp_last_ap p \<and> bq = sp_last_bq p \<and> aq = sp_last_aq p)"
    using assms by (auto simp: signal_top_def t)
  show ?thesis
    unfolding signal_applied_def t Let_def prod.case if_not_P [OF n]
    by (intro arg_cong2 [of _ _ _ _ Option.bind] ext refl) (auto split: prod.splits bool.splits)
qed

interpretation signal: conflating_publisher signal_applied signal_top sp_seq sp_published sp_dropped signal_stamp narrow_top
proof
  fix p b tsc and r r' :: "signal_update ring" and p'
  show "signal_top p = top_of_book b \<Longrightarrow> signal_applied b tsc p r = Some (p, r)" by (rule signal_same)
  assume n: "signal_top p \<noteq> top_of_book b" and run: "signal_applied b tsc p r = Some (p', r')"
  obtain bp ap bq aq where t: "top_of_book b = (bp, ap, bq, aq)" by (metis prod.exhaust)
  from run obtain ofi micro ok where u: "try_push r \<lparr>su_bid_px = ucast bp, su_ask_px = ucast ap, su_bid_qty = ucast bq,
      su_ask_qty = ucast aq, su_ofi = ofi, su_micro_px = micro, su_seq = sp_seq p + 1, su_origin_tsc = tsc\<rparr> = Some (ok, r')"
    and p': "p' = \<lparr>sp_last_bp = bp, sp_last_ap = ap, sp_last_bq = bq, sp_last_aq = aq, sp_ofi = ofi, sp_seq = sp_seq p + 1,
      sp_published = sp_published p + of_bool ok, sp_dropped = sp_dropped p + of_bool (\<not> ok)\<rparr>"
    unfolding signal_change [OF n] t by (auto simp: Let_def bind_eq_Some_conv)
  show "\<exists>u ok. try_push r u = Some (ok, r') \<and> signal_stamp u = (sp_seq p + 1, tsc, narrow_top (top_of_book b)) \<and>
      signal_top p' = top_of_book b \<and> sp_seq p' = sp_seq p + 1 \<and>
      sp_published p' = sp_published p + of_bool ok \<and> sp_dropped p' = sp_dropped p + of_bool (\<not> ok)"
    using u by (intro exI conjI) (auto simp: p' t signal_stamp_def narrow_top_def signal_top_def)
qed

section \<open>The arithmetic\<close>

text \<open>The OFI formula over the integers, for the last top and the new one.\<close>

definition flow :: "top \<Rightarrow> top \<Rightarrow> int" where
  "flow = (\<lambda>(lbp, lap, lbq, laq) (bp, ap, bq, aq).
     (if sint lbp \<le> sint bp then sint bq else 0) - (if sint bp \<le> sint lbp then sint lbq else 0)
     - (if sint ap \<le> sint lap then sint aq else 0) + (if sint lap \<le> sint ap then sint laq else 0))"

definition bounded_top :: "top \<Rightarrow> bool" where
  "bounded_top = (\<lambda>(bp, ap, bq, aq). - 1 \<le> sint bp \<and> sint bp < 2 ^ 21 \<and> - 1 \<le> sint ap \<and> sint ap < 2 ^ 21 \<and>
     0 \<le> sint bq \<and> sint bq < 2 ^ 31 \<and> 0 \<le> sint aq \<and> sint aq < 2 ^ 31)"

definition weighted :: "top \<Rightarrow> int" where
  "weighted = (\<lambda>(bp, ap, bq, aq). sint bp * sint aq + sint ap * sint bq)"

definition depth :: "top \<Rightarrow> int" where
  "depth = (\<lambda>(bp, ap, bq, aq). let d = sint bq + sint aq in if d = 0 then 1 else d)"

lemma smul_flag [simp]: "smul (of_bool c) q = Some (if c then q else 0)"
  using sint_range64 [of q] by (cases c) (simp_all add: smul_def fits64_def)

lemma flow_bound: "bounded_top t \<Longrightarrow> bounded_top t' \<Longrightarrow> \<bar>flow t t'\<bar> \<le> 2 ^ 32"
  by (cases t; cases t') (auto simp: bounded_top_def flow_def)

lemma ofi_run:
  assumes "bounded_top (signal_top p)" and "bounded_top t"
  shows "ofi_increment p t = Some (word_of_int (flow (signal_top p) t))" and "sint (word_of_int (flow (signal_top p) t) :: i64) = flow (signal_top p) t"
proof -
  obtain bp ap bq aq where t: "t = (bp, ap, bq, aq)" by (metis prod.exhaust)
  define a b c d where abcd: "a = (if sint (sp_last_bp p) \<le> sint bp then bq else 0)"
    "b = (if sint bp \<le> sint (sp_last_bp p) then sp_last_bq p else 0)"
    "c = (if sint ap \<le> sint (sp_last_ap p) then aq else 0)" "d = (if sint (sp_last_ap p) \<le> sint ap then sp_last_aq p else 0)"
  have r: "0 \<le> sint a" "sint a < 2 ^ 31" "0 \<le> sint b" "sint b < 2 ^ 31" "0 \<le> sint c" "sint c < 2 ^ 31"
    "0 \<le> sint d" "sint d < 2 ^ 31"
    using assms by (auto simp: abcd bounded_top_def signal_top_def t)
  have 1: "ssub a b = Some (a - b)" "sint (a - b) = sint a - sint b"
    using ssub_fits [of a b] r by simp_all
  have 2: "ssub (a - b) c = Some (a - b - c)" "sint (a - b - c) = sint a - sint b - sint c"
    using ssub_fits [of "a - b" c] r 1(2) by simp_all
  have 3: "sadd (a - b - c) d = Some (a - b - c + d)" "sint (a - b - c + d) = sint a - sint b - sint c + sint d"
    using sadd_fits [of "a - b - c" d] r 2(2) by simp_all
  have f: "flow (signal_top p) t = sint (a - b - c + d)"
    unfolding 3(2) by (simp add: flow_def signal_top_def t abcd)
  have "ofi_increment p t = Some (a - b - c + d)"
    unfolding ofi_increment_def t prod.case smul_flag abcd [symmetric] bind.bind_lunit 1(1) 2(1) by (rule 3(1))
  then show "ofi_increment p t = Some (word_of_int (flow (signal_top p) t))"
    "sint (word_of_int (flow (signal_top p) t) :: i64) = flow (signal_top p) t" by (simp_all add: f)
qed

lemma smul_fits:
  assumes "- (2 ^ 63) \<le> sint a * sint b" and "sint a * sint b < 2 ^ 63"
  shows "smul a b = Some (a * b)" and "sint (a * b) = sint a * sint b"
proof -
  show "smul a b = Some (a * b)" using assms by (simp add: smul_def fits64_def)
  have "sint (a * b) = signed_take_bit 63 (sint a * sint b)" by (simp add: sint_word_ariths)
  also have "\<dots> = sint a * sint b" using assms by (intro signed_take_bit_int_eq_self) simp_all
  finally show "sint (a * b) = sint a * sint b" .
qed

lemma product_bound: "- 1 \<le> (x :: int) \<Longrightarrow> x < 2 ^ 21 \<Longrightarrow> 0 \<le> y \<Longrightarrow> y < 2 ^ 31 \<Longrightarrow> - (2 ^ 31) \<le> x * y \<and> x * y \<le> 2 ^ 52"
proof
  assume a: "- 1 \<le> x" "x < 2 ^ 21" "0 \<le> y" "y < 2 ^ 31"
  have "- 1 * y \<le> x * y" using a by (intro mult_right_mono) simp_all
  with a show "- (2 ^ 31) \<le> x * y" by simp
  have "x * y \<le> 2 ^ 21 * y" using a by (intro mult_right_mono) simp_all
  also have "\<dots> \<le> 2 ^ 21 * 2 ^ 31" using a by (intro mult_left_mono) simp_all
  finally show "x * y \<le> 2 ^ 52" by simp
qed

lemma sdiv_bound:
  assumes "0 < (d :: int)"
  shows "\<bar>x sdiv d\<bar> \<le> \<bar>x\<bar>"
proof -
  have "\<bar>x\<bar> div d \<le> \<bar>x\<bar> div 1" using assms by (intro zdiv_mono2) simp_all
  moreover have "0 \<le> \<bar>x\<bar> div d" using assms by (simp add: pos_imp_zdiv_nonneg_iff)
  ultimately show ?thesis using assms by (cases "x = 0") (simp_all add: signed_divide_int_def abs_mult abs_sgn_eq)
qed

lemma micro_run:
  assumes "bounded_top t"
  shows "\<exists>m. micro_price t = Some m \<and> sint m = (256 * weighted t) sdiv depth t"
proof -
  obtain bp ap bq aq where t: "t = (bp, ap, bq, aq)" by (metis prod.exhaust)
  have b: "- 1 \<le> sint bp" "sint bp < 2 ^ 21" "- 1 \<le> sint ap" "sint ap < 2 ^ 21"
    "0 \<le> sint bq" "sint bq < 2 ^ 31" "0 \<le> sint aq" "sint aq < 2 ^ 31" using assms by (simp_all add: bounded_top_def t)
  have q: "sadd bq aq = Some (bq + aq)" "sint (bq + aq) = sint bq + sint aq" using sadd_fits [of bq aq] b by simp_all
  note X = product_bound [OF b(1,2,7,8)] and Y = product_bound [OF b(3-6)]
  have x: "smul bp aq = Some (bp * aq)" "sint (bp * aq) = sint bp * sint aq" using smul_fits [of bp aq] X by simp_all
  have y: "smul ap bq = Some (ap * bq)" "sint (ap * bq) = sint ap * sint bq" using smul_fits [of ap bq] Y by simp_all
  have n: "sadd (bp * aq) (ap * bq) = Some (bp * aq + ap * bq)" "sint (bp * aq + ap * bq) = weighted t"
    using sadd_fits [of "bp * aq" "ap * bq"] X Y by (simp_all add: x(2) y(2) weighted_def t)
  define d where "d = bq + aq + of_bool (bq + aq = 0)"
  have d: "sadd (bq + aq) (of_bool (bq + aq = 0)) = Some d" "sint d = depth t"
  proof -
    have z: "bq + aq = 0 \<longleftrightarrow> sint bq + sint aq = 0" by (metis q(2) sint_zero_iff)
    define o1 :: i64 where "o1 = of_bool (bq + aq = 0)"
    have o1: "sint o1 = (if sint bq + sint aq = 0 then 1 else 0)" unfolding o1_def z by simp
    have "sadd (bq + aq) o1 = Some (bq + aq + o1)" "sint (bq + aq + o1) = sint (bq + aq) + sint o1"
      by (rule sadd_fits; use b in \<open>simp add: q(2) o1\<close>)+
    then show "sadd (bq + aq) (of_bool (bq + aq = 0)) = Some d" "sint d = depth t"
      by (simp_all add: d_def o1_def [symmetric] q(2) o1 depth_def t Let_def)
  qed
  have dp: "0 < depth t" using b by (auto simp: depth_def t Let_def)
  have W: "- (2 ^ 32) \<le> weighted t" "weighted t \<le> 2 ^ 53" using X Y by (simp_all add: weighted_def t)
  have "256 = (word_of_int 256 :: i64)" by simp
  have sh: "sint (push_bit 8 (bp * aq + ap * bq)) = 256 * weighted t"
    using smul_fits(2) [of "bp * aq + ap * bq" 256] W n(2) by (simp add: push_bit_eq_mult)
  have "\<bar>(256 * weighted t) sdiv depth t\<bar> \<le> \<bar>256 * weighted t\<bar>" by (rule sdiv_bound [OF dp])
  then have f: "fits64 ((256 * weighted t) sdiv depth t)" using W by (auto simp: fits64_def)
  have nz: "d \<noteq> 0" using dp d(2) by auto
  have "micro_price t = Some (word_of_int ((256 * weighted t) sdiv depth t))"
    unfolding micro_price_def t prod.case q(1) bind.bind_lunit x(1) y(1) n(1) d(1) sdiv64_def sh d(2)
    using f nz by (simp add: t)
  moreover have "sint (word_of_int ((256 * weighted t) sdiv depth t) :: i64) = (256 * weighted t) sdiv depth t"
    using f by (simp add: fits64_def signed_of_int signed_take_bit_int_eq_self)
  ultimately show ?thesis by blast
qed

section \<open>Histories\<close>

fun flow_sum :: "top \<Rightarrow> market_event list \<Rightarrow> int" where
  "flow_sum t [] = 0"
| "flow_sum t (Applied b tsc # es) = flow t (top_of_book b) + flow_sum (top_of_book b) es"
| "flow_sum t (Taken # es) = flow_sum t es"

definition bounded_events :: "market_event list \<Rightarrow> bool" where
  "bounded_events es \<longleftrightarrow> (\<forall>e\<in>set es. case e of Applied b tsc \<Rightarrow> bounded_top (top_of_book b) | Taken \<Rightarrow> True)"

text \<open>An update that shows a top without loss and its micro-price.\<close>

definition shows_top :: "signal_update \<Rightarrow> top \<Rightarrow> bool" where
  "shows_top u = (\<lambda>(bp, ap, bq, aq). sint (su_bid_px u) = sint bp \<and> sint (su_ask_px u) = sint ap \<and>
     sint (su_bid_qty u) = sint bq \<and> sint (su_ask_qty u) = sint aq \<and>
     sint (su_micro_px u) = (256 * weighted (bp, ap, bq, aq)) sdiv depth (bp, ap, bq, aq))"

definition exact_update :: "signal_update \<Rightarrow> bool" where
  "exact_update u \<longleftrightarrow> (\<exists>t. bounded_top t \<and> shows_top u t)"

lemma flow_self: "flow t t = 0"
  by (cases t) (simp add: flow_def)

lemma sint_narrow:
  assumes "- (2 ^ 31) \<le> sint (x :: i64)" and "sint x < 2 ^ 31"
  shows "sint (ucast x :: i32) = sint x"
proof -
  have "sint (ucast x :: i32) = signed_take_bit 31 (take_bit 64 (sint x))"
    by (simp add: signed_ucast_eq) (simp add: uint_sint)
  also have "\<dots> = signed_take_bit 31 (sint x)" by (simp add: signed_take_bit_take_bit)
  also have "\<dots> = sint x" using assms by (intro signed_take_bit_int_eq_self) simp_all
  finally show ?thesis .
qed

lemma signal_step:
  assumes top: "bounded_top (signal_top p)" "bounded_top (top_of_book b)"
    and ofi: "\<bar>sint (sp_ofi p)\<bar> \<le> 2 ^ 61" and r: "ring_ok r" "unat (r_head r) + 1 < 2 ^ 64"
  obtains p' r' where "signal_applied b tsc p r = Some (p', r')" and "ring_ok r'"
    and "unat (r_head r') \<le> unat (r_head r) + 1" and "signal_top p' = top_of_book b"
    and "sint (sp_ofi p') = sint (sp_ofi p) + flow (signal_top p) (top_of_book b)"
    and "set (ring_items r') \<subseteq> set (ring_items r) \<union> Collect exact_update"
proof (cases "signal_top p = top_of_book b")
  case True
  show ?thesis
    by (rule that [OF signal_same [OF True] r(1)]) (use True in \<open>simp_all add: flow_self\<close>)
next
  case False
  obtain bp ap bq aq where t: "top_of_book b = (bp, ap, bq, aq)" by (metis prod.exhaust)
  let ?e = "flow (signal_top p) (top_of_book b)"
  have e: "ofi_increment p (top_of_book b) = Some (word_of_int ?e)" "sint (word_of_int ?e :: i64) = ?e"
    by (rule ofi_run [OF top])+
  have o: "sadd (sp_ofi p) (word_of_int ?e) = Some (sp_ofi p + word_of_int ?e)"
    "sint (sp_ofi p + word_of_int ?e) = sint (sp_ofi p) + ?e"
    using sadd_fits [of "sp_ofi p" "word_of_int ?e"] flow_bound [OF top] ofi by (simp_all add: e(2))
  obtain m where m: "micro_price (top_of_book b) = Some m"
    "sint m = (256 * weighted (top_of_book b)) sdiv depth (top_of_book b)" using micro_run [OF top(2)] by blast
  define u where "u = \<lparr>su_bid_px = ucast bp, su_ask_px = ucast ap, su_bid_qty = ucast bq, su_ask_qty = ucast aq,
    su_ofi = sp_ofi p + word_of_int ?e, su_micro_px = m, su_seq = sp_seq p + 1, su_origin_tsc = tsc\<rparr>"
  have "shows_top u (top_of_book b)"
    using top(2) m(2) by (simp add: shows_top_def u_def t bounded_top_def sint_narrow)
  then have u: "exact_update u" using top(2) unfolding exact_update_def by blast
  obtain ok q where q: "try_push r u = Some (ok, q)" "ring_ok q"
    "ring_items q = (if ok then ring_items r @ [u] else ring_items r)" "unat (r_head q) = (if ok then unat (r_head r) + 1 else unat (r_head r))"
    by (rule ring.push_cases [OF r, of u]) (rule that)
  let ?p = "\<lparr>sp_last_bp = bp, sp_last_ap = ap, sp_last_bq = bq, sp_last_aq = aq, sp_ofi = sp_ofi p + word_of_int ?e,
    sp_seq = sp_seq p + 1, sp_published = sp_published p + of_bool ok, sp_dropped = sp_dropped p + of_bool (\<not> ok)\<rparr>"
  have run: "signal_applied b tsc p r = Some (?p, q)"
    unfolding signal_change [OF False] e(1) bind.bind_lunit o(1) m(1)
    by (simp add: t Let_def u_def [unfolded t, symmetric] q(1))
  show ?thesis
    by (rule that [OF run q(2)]) (use q(3,4) o(2) u in \<open>auto simp: signal_top_def t\<close>)
qed

lemma signal_run:
  assumes "bounded_top (signal_top p)" and "bounded_events es" and "\<bar>sint (sp_ofi p)\<bar> + 2 ^ 32 * int (applies es) \<le> 2 ^ 61"
    and "ring_ok r" and "unat (r_head r) + applies es < 2 ^ 64" and "set (ring_items r) \<subseteq> Collect exact_update"
  shows "\<exists>outs p' r'. market_run signal_applied es p r = Some (outs, p', r') \<and>
    sint (sp_ofi p') = sint (sp_ofi p) + flow_sum (signal_top p) es \<and> set (outs @ ring_items r') \<subseteq> Collect exact_update"
  using assms
proof (induction es arbitrary: p r)
  case (Cons e es)
  show ?case
  proof (cases e)
    case (Applied b tsc)
    have tb: "bounded_top (top_of_book b)" and be: "bounded_events es"
      using Cons.prems(2) Applied by (simp_all add: bounded_events_def)
    have ofi: "\<bar>sint (sp_ofi p)\<bar> \<le> 2 ^ 61" "unat (r_head r) + 1 < 2 ^ 64" using Cons.prems(3,5) Applied by simp_all
    obtain p1 r1 where 1: "signal_applied b tsc p r = Some (p1, r1)" "ring_ok r1" "unat (r_head r1) \<le> unat (r_head r) + 1"
      "signal_top p1 = top_of_book b" "sint (sp_ofi p1) = sint (sp_ofi p) + flow (signal_top p) (top_of_book b)"
      "set (ring_items r1) \<subseteq> set (ring_items r) \<union> Collect exact_update"
      by (rule signal_step [OF Cons.prems(1) tb ofi(1) Cons.prems(4) ofi(2), of tsc]) (rule that)
    have "\<bar>sint (sp_ofi p1)\<bar> + 2 ^ 32 * int (applies es) \<le> 2 ^ 61"
      using flow_bound [OF Cons.prems(1) tb] Cons.prems(3) Applied by (simp add: 1(5) algebra_simps)
    from Cons.IH [OF _ be this 1(2)] 1 tb Cons.prems(5,6) Applied show ?thesis by (simp add: subset_iff) fastforce
  next
    case Taken
    have be: "bounded_events es" using Cons.prems(2) by (simp add: bounded_events_def)
    have o: "\<bar>sint (sp_ofi p)\<bar> + 2 ^ 32 * int (applies es) \<le> 2 ^ 61" using Cons.prems(3) Taken by simp
    show ?thesis
    proof (cases rule: ring.pop_cases [OF Cons.prems(4)])
      case (1 r1)
      with Cons.IH [OF Cons.prems(1) be o 1(3)] Cons.prems(5) Taken show ?thesis by auto
    next
      case (2 u r1)
      have "unat (r_head r1) + applies es < 2 ^ 64" "set (ring_items r1) \<subseteq> Collect exact_update" "exact_update u"
        using 2 Cons.prems(5,6) Taken by simp_all
      with Cons.IH [OF Cons.prems(1) be o 2(3)] 2 Taken show ?thesis by auto
    qed
  qed
qed simp

section \<open>Theorems\<close>

text \<open>Over any history of pops and at most \<open>2^28\<close> messages with prices below \<open>2^21\<close> and quantities
  at the top below \<open>2^31\<close>, the signal publisher never overflows; its OFI is the sum of the flow
  formula over all messages (the messages it skips contribute nothing); what the subscriber
  receives is a subsequence of the numbered changes of the top, with nothing lost to the 32-bit
  fields, each with the micro-price of its top; and every change is counted once.\<close>

theorem signal_history:
  assumes "pow2_cap cap" and "applies es \<le> 2 ^ 28" and "bounded_events es"
  shows "\<exists>outs p r. market_run signal_applied es signal_new (ring_new cap) = Some (outs, p, r) \<and>
    sint (signal_ofi p) = flow_sum no_top es \<and> (\<forall>u\<in>set (outs @ ring_items r). exact_update u) \<and>
    subseq (map signal_stamp (outs @ ring_items r)) (map signal.label (numbered 0 (changes no_top es))) \<and>
    signal_published p + signal_dropped p = word_of_nat (length (changes no_top es))"
proof -
  note ok = ring_new_ok(1) [OF assms(1), where 'a = signal_update]
  have h: "unat (r_head (ring_new cap :: signal_update ring)) + applies es < 2 ^ 64" using assms(2) by (simp add: ring_new_ok)
  have new: "signal_top signal_new = no_top" "sp_seq signal_new = 0" "sp_published signal_new = 0" "sp_dropped signal_new = 0"
    "sp_ofi signal_new = 0" by (simp_all add: signal_new_def signal_top_def no_top_def)
  have "bounded_top no_top" by (simp add: no_top_def bounded_top_def)
  then obtain outs p r where run: "market_run signal_applied es signal_new (ring_new cap) = Some (outs, p, r)"
    "sint (sp_ofi p) = flow_sum no_top es" "set (outs @ ring_items r) \<subseteq> Collect exact_update"
    using signal_run [of signal_new es "ring_new cap"] new ok h assms by (auto simp: ring_new_ok)
  obtain acc where "acc = outs @ ring_items r" "subseq (map signal_stamp acc) (map signal.label (numbered 0 (changes no_top es)))"
    "sp_published p + sp_dropped p = word_of_nat (length (changes no_top es))"
    using signal.history [OF run(1) ok h, unfolded new] by (auto simp: ring_new_ok)
  with run show ?thesis by (auto simp: signal_ofi_def signal_published_def signal_dropped_def)
qed

theorem signal_history_witness:
  "\<exists>b outs p r. top_of_book b = (1005, - 1, 10, 0) \<and>
    market_run signal_applied [Applied b 5, Taken] signal_new (ring_new 4) = Some (outs, p, r) \<and> sint (signal_ofi p) = 10"
proof (rule one_top)
  fix b
  assume t: "top_of_book b = (1005, - 1, 10, 0)"
  have c: "pow2_cap 4" unfolding pow2_cap_def by (intro exI [of _ 2]) simp
  have e: "bounded_events [Applied b 5, Taken]" by (simp add: bounded_events_def t bounded_top_def)
  have f: "flow_sum no_top [Applied b 5, Taken] = 10" by (simp add: t no_top_def flow_def)
  from signal_history [OF c _ e] t f show ?thesis by auto
qed

text \<open>On a two-sided, uncrossed top the micro-price (in 1/256 ticks) is the rounded-down mean of
  the best prices, each weighted with the quantity on the other side, so it lies between the
  best bid and the best ask.\<close>

theorem micro_between:
  assumes "bounded_top (bp, ap, bq, aq)" and "0 \<le> sint bp" and "sint bp < sint ap" and "0 < sint bq" and "0 < sint aq"
  shows "\<exists>m. micro_price (bp, ap, bq, aq) = Some m \<and> 256 * sint bp \<le> sint m \<and> sint m \<le> 256 * sint ap \<and>
    sint m * (sint bq + sint aq) \<le> 256 * (sint bp * sint aq + sint ap * sint bq) \<and>
    256 * (sint bp * sint aq + sint ap * sint bq) < (sint m + 1) * (sint bq + sint aq)"
proof -
  let ?W = "256 * (sint bp * sint aq + sint ap * sint bq)" and ?d = "sint bq + sint aq"
  obtain m where m: "micro_price (bp, ap, bq, aq) = Some m" "sint m = (256 * weighted (bp, ap, bq, aq)) sdiv depth (bp, ap, bq, aq)"
    using micro_run [OF assms(1)] by blast
  have d: "0 < ?d" using assms by simp
  have W: "0 \<le> ?W" using assms by simp
  have e: "sint m = ?W div ?d"
    using m(2) d W assms(4,5) by (simp add: weighted_def depth_def Let_def signed_divide_int_def sgn_if)
  have dm: "?W div ?d * ?d + ?W mod ?d = ?W" "0 \<le> ?W mod ?d" "?W mod ?d < ?d"
    by (rule div_mult_mod_eq, rule pos_mod_sign [OF d], rule pos_mod_bound [OF d])
  have low: "256 * sint bp * ?d \<le> ?W" using assms by (simp add: algebra_simps mult_right_mono)
  have high: "?W \<le> 256 * sint ap * ?d" using assms by (simp add: algebra_simps mult_right_mono)
  have "256 * sint bp \<le> ?W div ?d" using low d by (metis nonzero_mult_div_cancel_right zdiv_mono1 less_irrefl)
  moreover have "?W div ?d \<le> 256 * sint ap" using high d by (metis nonzero_mult_div_cancel_right zdiv_mono1 less_irrefl)
  ultimately show ?thesis using m(1) e dm by (intro exI [of _ m]) (simp add: algebra_simps)
qed

theorem micro_between_witness:
  "\<exists>m. micro_price (1000, 1010, 10, 30) = Some m \<and> 256000 \<le> sint m \<and> sint m \<le> 258560"
  using micro_between [of 1000 1010 10 30] by (auto simp: bounded_top_def)

text \<open>The flow formula with the empty ask side read as the worst ask, \<open>\<infinity>\<close>, as the empty bid side is
  the worst bid.\<close>

definition ask_key :: "price \<Rightarrow> int" where
  "ask_key ap = (if ap = - 1 then 2 ^ 63 else sint ap)"

definition fair_flow :: "top \<Rightarrow> top \<Rightarrow> int" where
  "fair_flow = (\<lambda>(lbp, lap, lbq, laq) (bp, ap, bq, aq).
     (if sint lbp \<le> sint bp then sint bq else 0) - (if sint bp \<le> sint lbp then sint lbq else 0)
     - (if ask_key ap \<le> ask_key lap then sint aq else 0) + (if ask_key lap \<le> ask_key ap then sint laq else 0))"

text \<open>An empty side has price - 1 and quantity 0.\<close>

definition proper_top :: "top \<Rightarrow> bool" where
  "proper_top = (\<lambda>(bp, ap, bq, aq). (bp = - 1 \<longrightarrow> bq = 0) \<and> (ap = - 1 \<longrightarrow> aq = 0) \<and> (ap \<noteq> - 1 \<longrightarrow> 0 \<le> sint ap))"

text \<open>C38. The published OFI is blind on one side: because the empty ask is encoded as - 1, which the
  indicators read as the best possible ask, the selling interest of an ask side that opens is
  not subtracted and that of one that empties is not added back; in all other transitions the
  increment is the flow formula.\<close>

theorem ofi_ask_blind:
  assumes "bounded_top (signal_top p)" and "bounded_top t" and "proper_top (signal_top p)" and "proper_top t"
  shows "\<exists>e. ofi_increment p t = Some e \<and>
    sint e = fair_flow (signal_top p) t
      + (if sp_last_ap p = - 1 \<and> fst (snd t) \<noteq> - 1 then sint (snd (snd (snd t))) else 0)
      - (if sp_last_ap p \<noteq> - 1 \<and> fst (snd t) = - 1 then sint (sp_last_aq p) else 0)"
proof -
  obtain bp ap bq aq where t: "t = (bp, ap, bq, aq)" by (metis prod.exhaust)
  have "flow (signal_top p) t = fair_flow (signal_top p) t
      + (if sp_last_ap p = - 1 \<and> ap \<noteq> - 1 then sint aq else 0) - (if sp_last_ap p \<noteq> - 1 \<and> ap = - 1 then sint (sp_last_aq p) else 0)"
    using assms by (auto simp: flow_def fair_flow_def ask_key_def signal_top_def proper_top_def bounded_top_def t)
  with ofi_run [OF assms(1,2)] show ?thesis by (simp add: t)
qed

theorem ofi_ask_blind_witness:
  "\<exists>e. ofi_increment signal_new (- 1, 1010, 0, 30) = Some e \<and> sint e = fair_flow no_top (- 1, 1010, 0, 30) + 30"
  using ofi_ask_blind [of signal_new "(- 1, 1010, 0, 30)"]
  by (auto simp: signal_new_def signal_top_def bounded_top_def proper_top_def no_top_def)

text \<open>Nothing bounds the quantities of a book: with a large enough order at the top the numerator of
  the micro-price overflows.\<close>

lemma micro_overflows:
  assumes "2 ^ 63 \<le> sint bp * sint aq"
  shows "micro_price (bp, ap, bq, aq) = None"
  using assms by (simp add: micro_price_def smul_def [of bp aq] fits64_def)

end
