(* ===== verification/Scenarios.thy ===== *)
theory Scenarios
  imports Gateway Signals
begin

text \<open>
  The scripted correctness checks of \<open>bench/bench_advanced_orders.cpp\<close> (an iceberg that reloads
  loses its time priority; a post-only order that would cross is rejected) and of
  \<open>bench/bench_signals.cpp\<close> (OFI and micro-price along six messages), as programs that run the
  model. Each returns \<open>Some\<close> of its verdict; printing is not modelled. The theorems say that the
  verdict is \<open>True\<close>: the proofs follow the abstract book, step by step, so they do not depend
  on how the matching engine lays out its data.
\<close>

section \<open>Books that stand for abstract books\<close>

definition stands :: "nat \<Rightarrow> nat \<Rightarrow> abook \<Rightarrow> book \<Rightarrow> bool" where
  "stands n cap B b \<longleftrightarrow> book_ok b \<and> NumTicks b = n \<and> PoolCap b = cap \<and> bk_base b = BASE \<and> abs_book b = B"

lemma standsD:
  assumes "stands n cap B b"
  shows "book_ok b" "NumTicks b = n" "PoolCap b = cap" "bk_base b = BASE" "abs_book b = B"
  using assms by (simp_all add: stands_def)

lemma stands_new: "sizes_ok n cap \<Longrightarrow> stands n cap (\<lambda>s. []) (book_new n cap BASE)"
  using book_new_ok book_new_abs by (simp add: stands_def)

definition tick_at :: "nat \<Rightarrow> price" where
  "tick_at i = BASE + word_of_nat i"

lemma idx_tick_at: "bk_base b = BASE \<Longrightarrow> i < 2 ^ 64 \<Longrightarrow> idx_of b (tick_at i) = i"
  by (simp add: idx_of_def tick_at_def unat_of_nat_small)

lemma fresh_id:
  assumes ok: "book_ok b'" and B': "abs_book b' = B(s := ainsert s x (B s))"
  shows "a_id x \<noteq> 0 \<and> a_id x \<noteq> - 1 \<and> \<not> alive B (a_id x)"
proof -
  let ?P = "\<lambda>y. ahead s (a_tick y) (a_tick x)"
  have "x \<in> set (abs_book b' s)" using B' by simp
  then have "alive (abs_book b') (a_id x)" unfolding alive_def by blast
  with ids_identify [OF ok] have id: "a_id x \<noteq> 0" "a_id x \<noteq> - 1" by (auto simp: TAKER_FILLED_ID_def)
  have L: "B s = takeWhile ?P (B s) @ dropWhile ?P (B s)" by simp
  have d: "distinct (map a_id (abs_book b' Buy @ abs_book b' Sell))" by (rule ids_distinct [OF ok])
  have "a_id x \<notin> a_id ` set (B s)" "a_id x \<notin> a_id ` set (B (opposite s))"
    subgoal using d B' by (subst L) (cases s; auto simp: ainsert_def simp del: takeWhile_dropWhile_id)
    subgoal using d B' by (cases s) (auto simp del: set_ainsert simp: ainsert_def)
    done
  then have "\<not> alive B (a_id x)" by (cases s) (auto simp: alive_def, (metis (full_types) side.exhaust rev_image_eqI)+)
  with id show ?thesis by blast
qed

text \<open>The four ways an order goes: it rests, it rests with a reserve, it is filled, it is refused.\<close>

lemma unmatched_order:
  assumes st: "stands n cap B b" and i: "i < n" "i < 2 ^ 64" and q: "0 < sint q"
    and quiet: "\<forall>x\<in>set (B (opposite s)). \<not> meets s i (a_tick x)"
  obtains (rests) oid b' where "new_order b s (tick_at i) q po = Some (oid, b', [])"
    and "stands n cap (B(s := ainsert s \<lparr>a_id = oid, a_tick = i, a_qty = sint q, a_hidden = 0, a_display = 0\<rparr> (B s))) b'"
    and "oid \<noteq> 0" and "oid \<noteq> - 1" and "\<not> alive B oid" and "issued oid"
  | (full) "new_order b s (tick_at i) q po = Some (0, b, [])" and "length (B Buy) + length (B Sell) = cap"
proof -
  note S = standsD [OF st]
  have ix: "idx_of b (tick_at i) = i" by (rule idx_tick_at [OF S(4) i(2)])
  have acc: "accepts b (tick_at i) q" using i q S(2) by (simp add: accepts_def ix)
  obtain qs where rep: "book_rep b qs" using S(1) by (rule book_okE)
  have nc: "\<not> crosses b s i" using crosses_meets [OF rep, of i s] i(1) S(2,5) quiet by simp
  show ?thesis
  proof (rule new_order_run [OF S(1) acc, of s po])
    fix oid b' ts g
    assume r: "new_order b s (tick_at i) q po = Some (oid, b', ts)" "book_ok b'" "issued oid"
      "NumTicks b' = NumTicks b" "PoolCap b' = PoolCap b" "bk_base b' = bk_base b"
      "(oid, abs_book b', map (atrade_of (bk_base b)) ts) = anew_order (abs_book b) s (idx_of b (tick_at i)) (sint q) po g"
      and z: "oid = 0 \<Longrightarrow> b' = b \<and> ts = [] \<and> (po \<and> crosses b s (idx_of b (tick_at i)) \<or>
        length (abs_book b Buy) + length (abs_book b Sell) = PoolCap b)"
    show thesis
    proof (cases "oid = 0")
      case True
      with z r(1) nc S(3,5) show thesis by (intro full) (auto simp: ix)
    next
      case nz: False
    let ?x = "\<lambda>oid. \<lparr>a_id = oid, a_tick = i, a_qty = sint q, a_hidden = 0, a_display = 0\<rparr>"
    have am: "amatch s i (sint q) (B (opposite s)) = (sint q, B (opposite s), [])" by (rule amatch_none [OF quiet])
    have po: "\<not> (po \<and> (\<exists>x\<in>set (B (opposite s)). meets s i (a_tick x)))" using quiet by blast
    have e: "(oid, abs_book b', map (atrade_of BASE) ts) = (g, B(s := ainsert s (?x g) (B s)), [])"
      using r(7) q nz unfolding S(4,5) ix anew_order_def if_not_P [OF po] am
      by (simp add: arest_def fun_upd_idem split: if_splits)
    then have B': "abs_book b' = B(s := ainsert s (?x oid) (B s))" and ts: "ts = []" by simp_all
    from fresh_id [OF r(2) B'] r S ts B' nz show thesis by (intro rests [of oid b']) (simp_all add: stands_def)
    qed
  qed
qed

lemma goes_to_rest:
  assumes st: "stands n cap B b" and i: "i < n" "i < 2 ^ 64" and q: "0 < sint q"
    and quiet: "\<forall>x\<in>set (B (opposite s)). \<not> meets s i (a_tick x)"
    and room: "length (B Buy) + length (B Sell) < cap"
  obtains oid b' where "new_order b s (tick_at i) q po = Some (oid, b', [])"
    and "stands n cap (B(s := ainsert s \<lparr>a_id = oid, a_tick = i, a_qty = sint q, a_hidden = 0, a_display = 0\<rparr> (B s))) b'"
    and "oid \<noteq> 0" and "oid \<noteq> - 1" and "\<not> alive B oid" and "issued oid"
  by (rule unmatched_order [OF st i q quiet, of po]) (rule that, assumption+, use room in simp)

lemma quiet_iceberg:
  assumes st: "stands n cap B b" and i: "i < n" "i < 2 ^ 64" and q: "0 < sint q" and d: "0 < sint d"
    and quiet: "\<forall>x\<in>set (B (opposite s)). \<not> meets s i (a_tick x)"
  obtains (rests) oid b' where "new_iceberg_order b s (tick_at i) d q = Some (oid, b', [])"
    and "stands n cap (B(s := ainsert s \<lparr>a_id = oid, a_tick = i, a_qty = min (sint d) (sint q),
      a_hidden = sint q - min (sint d) (sint q), a_display = sint d\<rparr> (B s))) b'"
    and "oid \<noteq> 0" and "oid \<noteq> - 1" and "\<not> alive B oid" and "issued oid"
  | (full) "new_iceberg_order b s (tick_at i) d q = Some (0, b, [])" and "length (B Buy) + length (B Sell) = cap"
proof -
  note S = standsD [OF st]
  have ix: "idx_of b (tick_at i) = i" by (rule idx_tick_at [OF S(4) i(2)])
  have acc: "accepts b (tick_at i) q" using i q S(2) by (simp add: accepts_def ix)
  show ?thesis
  proof (rule iceberg_run [OF S(1) acc d, of s])
    fix oid b' ts g
    assume r: "new_iceberg_order b s (tick_at i) d q = Some (oid, b', ts)" "book_ok b'" "issued oid"
      "NumTicks b' = NumTicks b" "PoolCap b' = PoolCap b" "bk_base b' = bk_base b"
      "(oid, abs_book b', map (atrade_of (bk_base b)) ts) =
        anew_iceberg (abs_book b) s (idx_of b (tick_at i)) (sint d) (sint q) g"
      and z: "oid = 0 \<Longrightarrow> b' = b \<and> ts = [] \<and> length (abs_book b Buy) + length (abs_book b Sell) = PoolCap b"
    show thesis
    proof (cases "oid = 0")
      case True
      with z r(1) S(3,5) show thesis by (intro full) auto
    next
      case nz: False
    let ?x = "\<lambda>oid. \<lparr>a_id = oid, a_tick = i, a_qty = min (sint d) (sint q),
      a_hidden = sint q - min (sint d) (sint q), a_display = sint d\<rparr>"
    have am: "amatch s i (sint q) (B (opposite s)) = (sint q, B (opposite s), [])" by (rule amatch_none [OF quiet])
    have e: "(oid, abs_book b', map (atrade_of BASE) ts) = (g, B(s := ainsert s (?x g) (B s)), [])"
      using r(7) q nz unfolding S(4,5) ix anew_iceberg_def am
      by (simp add: arest_def Let_def fun_upd_idem split: if_splits)
    then have B': "abs_book b' = B(s := ainsert s (?x oid) (B s))" and ts: "ts = []" by simp_all
    from fresh_id [OF r(2) B'] r S ts B' nz show thesis by (intro rests [of oid b']) (simp_all add: stands_def)
    qed
  qed
qed

lemma goes_to_rest_iceberg:
  assumes st: "stands n cap B b" and i: "i < n" "i < 2 ^ 64" and q: "0 < sint q" and d: "0 < sint d"
    and quiet: "\<forall>x\<in>set (B (opposite s)). \<not> meets s i (a_tick x)"
    and room: "length (B Buy) + length (B Sell) < cap"
  obtains oid b' where "new_iceberg_order b s (tick_at i) d q = Some (oid, b', [])"
    and "stands n cap (B(s := ainsert s \<lparr>a_id = oid, a_tick = i, a_qty = min (sint d) (sint q),
      a_hidden = sint q - min (sint d) (sint q), a_display = sint d\<rparr> (B s))) b'"
    and "oid \<noteq> 0" and "oid \<noteq> - 1" and "\<not> alive B oid" and "issued oid"
  by (rule quiet_iceberg [OF st i q d quiet]) (rule that, assumption+, use room in simp)

lemma goes_to_fill:
  assumes st: "stands n cap B b" and i: "i < n" "i < 2 ^ 64" and q: "0 < sint q"
    and am: "amatch s i (sint q) (B (opposite s)) = (0, L, us)"
  obtains b' ts where "new_order b s (tick_at i) q False = Some (- 1, b', ts)"
    and "stands n cap (B(opposite s := L)) b'" and "map (atrade_of BASE) ts = us"
proof -
  note S = standsD [OF st]
  have ix: "idx_of b (tick_at i) = i" by (rule idx_tick_at [OF S(4) i(2)])
  have acc: "accepts b (tick_at i) q" using i q S(2) by (simp add: accepts_def ix)
  show ?thesis
  proof (rule new_order_run [OF S(1) acc, of s False])
    fix oid b' ts g
    assume r: "new_order b s (tick_at i) q False = Some (oid, b', ts)" "book_ok b'"
      "NumTicks b' = NumTicks b" "PoolCap b' = PoolCap b" "bk_base b' = bk_base b"
      "(oid, abs_book b', map (atrade_of (bk_base b)) ts) = anew_order (abs_book b) s (idx_of b (tick_at i)) (sint q) False g"
    have "(oid, abs_book b', map (atrade_of BASE) ts) = (- 1, B(opposite s := L), us)"
      using r(6) unfolding S(4,5) ix anew_order_def by (simp add: am)
    with r(1-5) S show thesis by (intro that [of b' ts]) (simp_all add: stands_def)
  qed
qed

lemma goes_nowhere:
  assumes st: "stands n cap B b" and i: "i < n" "i < 2 ^ 64" and q: "0 < sint q"
    and x: "x \<in> set (B (opposite s))" "meets s i (a_tick x)"
  shows "new_order b s (tick_at i) q True = Some (0, b, [])"
proof -
  note S = standsD [OF st]
  have ix: "idx_of b (tick_at i) = i" by (rule idx_tick_at [OF S(4) i(2)])
  obtain qs where rep: "book_rep b qs" using S(1) by (rule book_okE)
  have "crosses b s i" using crosses_meets [OF rep, of i s] i(1) S(2,5) x by auto
  with i q S(2) ix show ?thesis by (simp add: new_order_def Let_def)
qed

lemma level_at:
  assumes st: "stands n cap B b" and i: "i < n" "i < 2 ^ 64"
  shows "level_qty b (tick_at i) = of_int (\<Sum>x\<leftarrow>filter (\<lambda>x. a_tick x = i) (B Buy @ B Sell). a_qty x)"
  using level_qty_sum [OF standsD(1) [OF st], of "tick_at i"] standsD(2,4,5) [OF st] idx_tick_at [of b i] i
  by simp

text \<open>\<open>trades.size() == 1 && trades[0].maker_id == oid && trades[0].qty == q\<close>\<close>

definition sole_trade :: "trade list \<Rightarrow> order_id \<Rightarrow> qty \<Rightarrow> bool" where
  "sole_trade ts oid q = (case ts of [t] \<Rightarrow> maker_id t = oid \<and> t_qty t = q | _ \<Rightarrow> False)"

lemma sole_tradeI: "map (atrade_of BASE) ts = [(oid, i, sint q)] \<Longrightarrow> sole_trade ts oid q"
  by (auto simp: sole_trade_def atrade_of_def intro: signed_word_eqI)

section \<open>Iceberg reload loses time priority\<close>

definition test_book :: book where
  "test_book = book_new (2 ^ 16) (2 ^ 12) BASE"

definition test_iceberg_priority :: "bool option" where
  "test_iceberg_priority = do {
     let P = BASE + 500;
     (ice, b, ts) \<leftarrow> new_iceberg_order test_book Sell P 10 30;
     let ok = (ice \<noteq> 0 \<and> ice \<noteq> NOT 0 \<and> level_qty b P = 10);
     (plain, b, ts) \<leftarrow> new_order b Sell P 5 False;
     let ok = (ok \<and> plain \<noteq> 0 \<and> plain \<noteq> NOT 0 \<and> level_qty b P = 15);
     (r, b, ts) \<leftarrow> new_order b Buy P 10 False;
     let ok = (ok \<and> sole_trade ts ice 10);
     let ok = (ok \<and> level_qty b P = 15);
     (r, b, ts) \<leftarrow> new_order b Buy P 5 False;
     let ok = (ok \<and> sole_trade ts plain 5);
     let ok = (ok \<and> level_qty b P = 10);
     (gone, b) \<leftarrow> cancel b plain;
     let ok = (ok \<and> gone = False);
     (r, b, ts) \<leftarrow> new_order b Buy P 3 False;
     let ok = (ok \<and> sole_trade ts ice 3);
     let ok = (ok \<and> level_qty b P = 7);
     Some ok
   }"

lemma sizes_test: "sizes_ok (2 ^ 16) (2 ^ 12)"
  by (simp add: sizes_ok_def)

lemma tick_500: "BASE + 500 = tick_at 500" "BASE + 1000 = tick_at 1000"
  "tick_at 1000 + 50 = tick_at 1050" "tick_at 1000 - 100 = tick_at 900"
  by (simp_all add: tick_at_def)

definition sides :: "aorder list \<Rightarrow> aorder list \<Rightarrow> abook" where
  "sides L M s = (case s of Buy \<Rightarrow> L | Sell \<Rightarrow> M)"

lemma sides_simps [simp]: "sides L M Buy = L" "sides L M Sell = M"
  "(sides L M)(Buy := N) = sides N M" "(sides L M)(Sell := N) = sides L N"
  by (auto simp: sides_def fun_eq_iff split: side.splits)

lemma no_sides: "(\<lambda>s. []) = sides [] []"
  by (auto simp: sides_def fun_eq_iff split: side.splits)

text \<open>The check (a) of \<open>bench_advanced_orders.cpp\<close> succeeds: an iceberg of display 10 and total
  30 rests in front of a plain order; a taker of 10 trades with the iceberg alone and makes it
  reload, the next taker trades with the plain order, which came later but before the reload,
  and the one after that with the iceberg again; the level shows 10, 15, 15, 10 and 7 lots, and
  the id of the filled order is dead.\<close>

theorem iceberg_priority_holds: "test_iceberg_priority = Some True"
proof -
  let ?n = "2 ^ 16 :: nat" and ?c = "2 ^ 12 :: nat"
  let ?I = "\<lambda>oid h. \<lparr>a_id = oid, a_tick = 500, a_qty = 10, a_hidden = h, a_display = 10\<rparr>"
  let ?P = "\<lambda>oid. \<lparr>a_id = oid, a_tick = 500, a_qty = 5, a_hidden = 0, a_display = 0\<rparr>"
  have "stands ?n ?c (sides [] []) test_book" using stands_new [OF sizes_test] by (simp add: test_book_def no_sides)
  note 0 = this
  obtain ice b1 where
    1: "new_iceberg_order test_book Sell (tick_at 500) 10 30 = Some (ice, b1, [])" "stands ?n ?c (sides [] [?I ice 20]) b1"
    "ice \<noteq> 0" "ice \<noteq> - 1"
    by (rule goes_to_rest_iceberg [OF 0, of 500 30 10 Sell]) (auto simp: ainsert_def intro!: that)
  obtain plain b2 where
    2: "new_order b1 Sell (tick_at 500) 5 False = Some (plain, b2, [])"
    "stands ?n ?c (sides [] [?I ice 20, ?P plain]) b2" "plain \<noteq> 0" "plain \<noteq> - 1" "\<not> alive (sides [] [?I ice 20]) plain" "issued plain"
    by (rule goes_to_rest [OF 1(2), of 500 5 Sell False]) (auto simp: ainsert_def intro!: that)
  have ne: "plain \<noteq> ice" using 2(5) by (auto simp: alive_def dest: spec [of _ Sell])
  obtain b3 ts3 where
    3: "new_order b2 Buy (tick_at 500) 10 False = Some (- 1, b3, ts3)"
    "stands ?n ?c (sides [] [?P plain, ?I ice 10]) b3" "map (atrade_of BASE) ts3 = [(ice, 500, 10)]"
    by (rule goes_to_fill [OF 2(2), of 500 10 Buy]) (auto simp: afilled_def areload_def ainsert_def Let_def amatch_done intro!: that)
  obtain b4 ts4 where
    4: "new_order b3 Buy (tick_at 500) 5 False = Some (- 1, b4, ts4)"
    "stands ?n ?c (sides [] [?I ice 10]) b4" "map (atrade_of BASE) ts4 = [(plain, 500, 5)]"
    by (rule goes_to_fill [OF 3(2), of 500 5 Buy]) (auto simp: afilled_def Let_def amatch_done intro!: that)
  have dead: "\<not> alive (sides [] [?I ice 10]) plain" using ne by (auto simp: alive_def sides_def split: side.splits)
  obtain qs where "book_rep b4 qs" using standsD(1) [OF 4(2)] by (rule book_okE)
  then have 5: "cancel b4 plain = Some (False, b4)"
    by (rule cancel_rep [OF _ 2(6)]) (use dead standsD(5) [OF 4(2)] in auto)
  obtain b6 ts6 where
    6: "new_order b4 Buy (tick_at 500) 3 False = Some (- 1, b6, ts6)"
    "stands ?n ?c (sides [] [(?I ice 10)\<lparr>a_qty := 7\<rparr>]) b6" "map (atrade_of BASE) ts6 = [(ice, 500, 3)]"
    by (rule goes_to_fill [OF 4(2), of 500 3 Buy]) (auto simp: afilled_def Let_def amatch_done intro!: that)
  have T: "sole_trade ts3 ice 10" "sole_trade ts4 plain 5" "sole_trade ts6 ice 3"
    using sole_tradeI [of _ _ 500] 3(3) 4(3) 6(3) by simp_all
  have L: "level_qty b1 (tick_at 500) = 10" "level_qty b2 (tick_at 500) = 15" "level_qty b3 (tick_at 500) = 15"
    "level_qty b4 (tick_at 500) = 10" "level_qty b6 (tick_at 500) = 7"
    using level_at [OF 1(2), of 500] level_at [OF 2(2), of 500] level_at [OF 3(2), of 500] level_at [OF 4(2), of 500]
      level_at [OF 6(2), of 500] by simp_all
  show ?thesis
    unfolding test_iceberg_priority_def Let_def tick_500
    using 1 2 3 4 5 6 T L by simp
qed

section \<open>Post-only orders never take\<close>

definition test_post_only :: "bool option" where
  "test_post_only = do {
     let ASK = BASE + 1000;
     (resting_ask, b, ts) \<leftarrow> new_order test_book Sell ASK 20 False;
     let trades = ts;
     let ok = (resting_ask \<noteq> 0);
     (cross_at, b, ts) \<leftarrow> new_order b Buy ASK 5 True;
     let trades = trades @ ts;
     let ok = (ok \<and> cross_at = 0 \<and> trades = [] \<and> level_qty b ASK = 20);
     (cross_thru, b, ts) \<leftarrow> new_order b Buy (ASK + 50) 5 True;
     let trades = trades @ ts;
     let ok = (ok \<and> cross_thru = 0 \<and> trades = [] \<and> level_qty b ASK = 20);
     (maker, b, ts) \<leftarrow> new_order b Buy (ASK - 100) 7 True;
     let trades = trades @ ts;
     let ok = (ok \<and> maker \<noteq> 0 \<and> maker \<noteq> NOT 0 \<and> trades = [] \<and> best_bid b = ASK - 100 \<and>
       level_qty b (ASK - 100) = 7);
     (taker, b, ts) \<leftarrow> new_order b Buy ASK 5 False;
     Some (ok \<and> taker = NOT 0 \<and> sole_trade ts resting_ask 5)
   }"

text \<open>The check (b) of \<open>bench_advanced_orders.cpp\<close> succeeds: against a resting ask a post-only
  bid at or through its price is rejected without a trade and without a trace on the level, one
  below it rests and becomes the best bid, and the same bid without the flag trades with the ask.\<close>

theorem post_only_holds: "test_post_only = Some True"
proof -
  let ?n = "2 ^ 16 :: nat" and ?c = "2 ^ 12 :: nat"
  let ?A = "\<lambda>oid. \<lparr>a_id = oid, a_tick = 1000, a_qty = 20, a_hidden = 0, a_display = 0\<rparr>"
  let ?M = "\<lambda>oid. \<lparr>a_id = oid, a_tick = 900, a_qty = 7, a_hidden = 0, a_display = 0\<rparr>"
  have 0: "stands ?n ?c (sides [] []) test_book" using stands_new [OF sizes_test] by (simp add: test_book_def no_sides)
  obtain ask b1 where 1: "new_order test_book Sell (tick_at 1000) 20 False = Some (ask, b1, [])"
    "stands ?n ?c (sides [] [?A ask]) b1" "ask \<noteq> 0"
    by (rule goes_to_rest [OF 0, of 1000 20 Sell False]) (auto simp: ainsert_def intro!: that)
  have 2: "new_order b1 Buy (tick_at 1000) 5 True = Some (0, b1, [])" "new_order b1 Buy (tick_at 1050) 5 True = Some (0, b1, [])"
    by (rule goes_nowhere [OF 1(2), where x = "?A ask"]; simp)+
  obtain maker b2 where 3: "new_order b1 Buy (tick_at 900) 7 True = Some (maker, b2, [])"
    "stands ?n ?c (sides [?M maker] [?A ask]) b2" "maker \<noteq> 0" "maker \<noteq> - 1"
    by (rule goes_to_rest [OF 1(2), of 900 7 Buy True]) (auto simp: ainsert_def intro!: that)
  obtain b3 ts where 4: "new_order b2 Buy (tick_at 1000) 5 False = Some (- 1, b3, ts)"
    "map (atrade_of BASE) ts = [(ask, 1000, 5)]"
    by (rule goes_to_fill [OF 3(2), of 1000 5 Buy]) (auto simp: afilled_def Let_def amatch_done intro!: that)
  have "best_bid b2 = tick_at 900"
    using best_prices_abs [OF standsD(1) [OF 3(2)]] standsD(4,5) [OF 3(2)] by (simp add: tick_at_def)
  moreover have "sole_trade ts ask 5" using sole_tradeI [of _ _ 1000] 4(2) by simp
  moreover have "level_qty b1 (tick_at 1000) = 20" "level_qty b2 (tick_at 900) = 7"
    using level_at [OF 1(2), of 1000] level_at [OF 3(2), of 900] by simp_all
  ultimately show ?thesis
    unfolding test_post_only_def Let_def tick_500 using 1 2 3 4 by simp
qed

section \<open>Order flow and micro-price along a script\<close>

text \<open>The lambda \<open>expect\<close>: the verdict so far and the ring with its front update taken out.\<close>

definition expect_update :: "i64 \<Rightarrow> i64 \<Rightarrow> signal_update ring \<Rightarrow> bool \<Rightarrow> (bool \<times> signal_update ring) option" where
  "expect_update ofi micro r ok = do {
     (x, r) \<leftarrow> try_pop r;
     case x of
       None \<Rightarrow> Some (False, r)
     | Some u \<Rightarrow> Some (ok \<and> (su_ofi u = ofi \<and> su_micro_px u = micro), r)
   }"

definition signal_script :: "bool option" where
  "signal_script = do {
     let B = BASE + 1000;
     let A = BASE + 1010;
     (i, b, ts) \<leftarrow> new_order (book_new (2 ^ 16) (2 ^ 20) BASE) Buy B 10 False;
     (p, r) \<leftarrow> signal_applied b 1 signal_new (ring_new 16);
     w \<leftarrow> sdiv64 (push_bit 8 (B * 0 + (- 1) * 10)) 10;
     (ok, r) \<leftarrow> expect_update 10 w r True;
     (i, b, ts) \<leftarrow> new_order b Sell A 30 False;
     (p, r) \<leftarrow> signal_applied b 2 p r;
     w \<leftarrow> sdiv64 (push_bit 8 (B * 30 + A * 10)) 40;
     (ok, r) \<leftarrow> expect_update 10 w r ok;
     (i, b, ts) \<leftarrow> new_order b Buy B 15 False;
     (p, r) \<leftarrow> signal_applied b 3 p r;
     w \<leftarrow> sdiv64 (push_bit 8 (B * 30 + A * 25)) 55;
     (ok, r) \<leftarrow> expect_update 25 w r ok;
     (i, b, ts) \<leftarrow> new_order b Buy (B + 2) 7 False;
     (p, r) \<leftarrow> signal_applied b 4 p r;
     w \<leftarrow> sdiv64 (push_bit 8 ((B + 2) * 30 + A * 7)) 37;
     (ok, r) \<leftarrow> expect_update 32 w r ok;
     (i, b, ts) \<leftarrow> new_order b Sell (A - 3) 5 False;
     (p, r) \<leftarrow> signal_applied b 5 p r;
     w \<leftarrow> sdiv64 (push_bit 8 ((B + 2) * 5 + (A - 3) * 7)) 12;
     (ok, r) \<leftarrow> expect_update 27 w r ok;
     (i, b, ts) \<leftarrow> new_order b Sell (B + 2) 7 False;
     (p, r) \<leftarrow> signal_applied b 6 p r;
     w \<leftarrow> sdiv64 (push_bit 8 (B * 5 + (A - 3) * 25)) 30;
     (ok, r) \<leftarrow> expect_update 20 w r ok;
     Some ok
   }"

definition idle_ring :: "nat \<Rightarrow> signal_update ring \<Rightarrow> bool" where
  "idle_ring k r \<longleftrightarrow> ring_ok r \<and> ring_items r = [] \<and> unat (r_head r) = k \<and> ring_cap r = 16"

text \<open>One step of the script: the top changes, the update goes through the ring.\<close>

lemma script_step:
  assumes new: "signal_top p \<noteq> t" and t: "top_of_book b = t" and e: "ofi_increment p t = Some e"
    and o: "sadd (sp_ofi p) e = Some ofi" and m: "micro_price t = Some w"
    and r: "idle_ring k r" "k < 1000" and k': "k' = Suc k"
  obtains p' r' r'' where "signal_applied b tsc p r = Some (p', r')"
    and "expect_update ofi w r' ok = Some (ok, r'')" and "signal_top p' = t" and "sp_ofi p' = ofi"
    and "idle_ring k' r''"
proof -
  obtain bp ap bq aq where tt: "t = (bp, ap, bq, aq)" by (metis prod.exhaust)
  define u where "u = \<lparr>su_bid_px = ucast bp, su_ask_px = ucast ap, su_bid_qty = ucast bq, su_ask_qty = ucast aq,
    su_ofi = ofi, su_micro_px = w, su_seq = sp_seq p + 1, su_origin_tsc = tsc\<rparr>"
  from r have R: "ring_ok r" "length (ring_items r) < ring_cap r" "unat (r_head r) + 1 < 2 ^ 64" by (auto simp: idle_ring_def)
  from ring.push_room [OF R, of u] r k' obtain r1 where r1: "try_push r u = Some (True, r1)" "ring_ok r1" "ring_cap r1 = 16"
    "ring_items r1 = [u]" "unat (r_head r1) = k'" by (auto simp: idle_ring_def)
  from ring.pop_some [OF r1(2,4)] r1(3,5) obtain r2 where r2: "try_pop r1 = Some (Some u, r2)" "idle_ring k' r2"
    by (auto simp: idle_ring_def)
  let ?p = "\<lparr>sp_last_bp = bp, sp_last_ap = ap, sp_last_bq = bq, sp_last_aq = aq, sp_ofi = ofi, sp_seq = sp_seq p + 1,
    sp_published = sp_published p + 1, sp_dropped = sp_dropped p\<rparr>"
  have "signal_top p \<noteq> top_of_book b" using new t by simp
  from signal_change [OF this, of tsc r] have "signal_applied b tsc p r = Some (?p, r1)"
    unfolding t e bind.bind_lunit o m by (simp add: tt Let_def u_def [symmetric] r1(1))
  moreover have "expect_update ofi w r1 ok = Some (ok, r2)" by (simp add: expect_update_def r2(1) u_def)
  ultimately show ?thesis by (rule that) (simp_all add: signal_top_def tt r2(2))
qed

lemma top_at:
  assumes "stands (2 ^ 16) cap B b"
  shows "top_of_book b =
    (case B Buy of [] \<Rightarrow> - 1 | x # L \<Rightarrow> tick_at (a_tick x), case B Sell of [] \<Rightarrow> - 1 | x # L \<Rightarrow> tick_at (a_tick x),
     case B Buy of [] \<Rightarrow> 0 | x # L \<Rightarrow> of_int (\<Sum>y\<leftarrow>filter (\<lambda>y. a_tick y = a_tick x) (x # L). a_qty y),
     case B Sell of [] \<Rightarrow> 0 | x # L \<Rightarrow> of_int (\<Sum>y\<leftarrow>filter (\<lambda>y. a_tick y = a_tick x) (x # L). a_qty y))"
proof -
  note S = standsD [OF assms]
  have "prices_fit b" using S(2,4) by (simp add: prices_fit_def BASE_def)
  from top_exact [OF S(1) this] S(4,5) show ?thesis
    by (simp add: side_px_def side_qty_def tick_at_def split: list.splits)
qed

lemma script_micro:
  "micro_price (tick_at 1000, - 1, 10, 0) = Some (- 256) \<and> sdiv64 (push_bit 8 ((BASE + 1000) * 0 + (- 1) * 10)) 10 = Some (- 256)"
  "micro_price (tick_at 1000, tick_at 1010, 10, 30) = Some (256256640) \<and> sdiv64 (push_bit 8 ((BASE + 1000) * 30 + (BASE + 1010) * 10)) 40 = Some (256256640)"
  "micro_price (tick_at 1000, tick_at 1010, 25, 30) = Some (256257163) \<and> sdiv64 (push_bit 8 ((BASE + 1000) * 30 + (BASE + 1010) * 25)) 55 = Some (256257163)"
  "micro_price (tick_at 1002, tick_at 1010, 7, 30) = Some (256256899) \<and> sdiv64 (push_bit 8 (((BASE + 1000) + 2) * 30 + (BASE + 1010) * 7)) 37 = Some (256256899)"
  "micro_price (tick_at 1002, tick_at 1007, 7, 5) = Some (256257258) \<and> sdiv64 (push_bit 8 (((BASE + 1000) + 2) * 5 + ((BASE + 1010) - 3) * 7)) 12 = Some (256257258)"
  "micro_price (tick_at 1000, tick_at 1007, 25, 5) = Some (256257493) \<and> sdiv64 (push_bit 8 ((BASE + 1000) * 5 + ((BASE + 1010) - 3) * 25)) 30 = Some (256257493)"
  by (simp_all add: micro_price_def tick_at_def BASE_def sdiv64_def sadd_def smul_def fits64_def push_bit_eq_mult)

lemma script_ticks: "BASE + 1000 = tick_at 1000" "BASE + 1010 = tick_at 1010" "tick_at 1000 + 2 = tick_at 1002"
  "tick_at 1010 - 3 = tick_at 1007"
  by (simp_all add: tick_at_def)

lemma script_flow:
  "signal_top p = (- 1, - 1, 0, 0) \<Longrightarrow> ofi_increment p (tick_at 1000, - 1, 10, 0) = Some (10)"
  "signal_top p = (tick_at 1000, - 1, 10, 0) \<Longrightarrow> ofi_increment p (tick_at 1000, tick_at 1010, 10, 30) = Some (0)"
  "signal_top p = (tick_at 1000, tick_at 1010, 10, 30) \<Longrightarrow> ofi_increment p (tick_at 1000, tick_at 1010, 25, 30) = Some (15)"
  "signal_top p = (tick_at 1000, tick_at 1010, 25, 30) \<Longrightarrow> ofi_increment p (tick_at 1002, tick_at 1010, 7, 30) = Some (7)"
  "signal_top p = (tick_at 1002, tick_at 1010, 7, 30) \<Longrightarrow> ofi_increment p (tick_at 1002, tick_at 1007, 7, 5) = Some (- 5)"
  "signal_top p = (tick_at 1002, tick_at 1007, 7, 5) \<Longrightarrow> ofi_increment p (tick_at 1000, tick_at 1007, 25, 5) = Some (- 7)"
  by (auto simp: signal_top_def ofi_increment_def tick_at_def BASE_def sadd_def ssub_def smul_def fits64_def)

text \<open>The scripted check of \<open>bench_signals.cpp\<close> succeeds: after each of the six messages the
  publisher sends one update, with the cumulative order flow 10, 10, 25, 32, 27, 20 and with the
  micro-price the script computes from its prices and sizes.\<close>

theorem signal_script_holds: "signal_script = Some True"
proof -
  let ?n = "2 ^ 16 :: nat" and ?c = "2 ^ 20 :: nat"
  let ?x = "\<lambda>oid i q. \<lparr>a_id = oid, a_tick = i, a_qty = q, a_hidden = 0, a_display = 0\<rparr>"
  let ?b0 = "book_new ?n ?c BASE"
  have 0: "stands ?n ?c (sides [] []) ?b0" using stands_new [of ?n ?c] by (simp add: sizes_ok_def no_sides)
  have "pow2_cap 16" unfolding pow2_cap_def by (intro exI [of _ 4]) simp
  then have i0: "idle_ring 0 (ring_new 16)" by (simp add: idle_ring_def ring_new_ok)
  obtain o1 b1 where 1: "new_order ?b0 Buy (tick_at 1000) 10 False = Some (o1, b1, [])"
    "stands ?n ?c (sides [?x o1 1000 10] []) b1"
    by (rule goes_to_rest [OF 0, of 1000 10 Buy False]) (auto simp: ainsert_def intro!: that)
  obtain o2 b2 where 2: "new_order b1 Sell (tick_at 1010) 30 False = Some (o2, b2, [])"
    "stands ?n ?c (sides [?x o1 1000 10] [?x o2 1010 30]) b2"
    by (rule goes_to_rest [OF 1(2), of 1010 30 Sell False]) (auto simp: ainsert_def intro!: that)
  obtain o3 b3 where 3: "new_order b2 Buy (tick_at 1000) 15 False = Some (o3, b3, [])"
    "stands ?n ?c (sides [?x o1 1000 10, ?x o3 1000 15] [?x o2 1010 30]) b3"
    by (rule goes_to_rest [OF 2(2), of 1000 15 Buy False]) (auto simp: ainsert_def intro!: that)
  obtain o4 b4 where 4: "new_order b3 Buy (tick_at 1002) 7 False = Some (o4, b4, [])"
    "stands ?n ?c (sides [?x o4 1002 7, ?x o1 1000 10, ?x o3 1000 15] [?x o2 1010 30]) b4"
    by (rule goes_to_rest [OF 3(2), of 1002 7 Buy False]) (auto simp: ainsert_def intro!: that)
  obtain o5 b5 where 5: "new_order b4 Sell (tick_at 1007) 5 False = Some (o5, b5, [])"
    "stands ?n ?c (sides [?x o4 1002 7, ?x o1 1000 10, ?x o3 1000 15] [?x o5 1007 5, ?x o2 1010 30]) b5"
    by (rule goes_to_rest [OF 4(2), of 1007 5 Sell False]) (auto simp: ainsert_def intro!: that)
  obtain b6 ts where 6: "new_order b5 Sell (tick_at 1002) 7 False = Some (- 1, b6, ts)"
    "stands ?n ?c (sides [?x o1 1000 10, ?x o3 1000 15] [?x o5 1007 5, ?x o2 1010 30]) b6"
    by (rule goes_to_fill [OF 5(2), of 1002 7 Sell]) (auto simp: afilled_def Let_def amatch_done intro!: that)
  have T: "top_of_book b1 = (tick_at 1000, - 1, 10, 0)" "top_of_book b2 = (tick_at 1000, tick_at 1010, 10, 30)"
    "top_of_book b3 = (tick_at 1000, tick_at 1010, 25, 30)" "top_of_book b4 = (tick_at 1002, tick_at 1010, 7, 30)"
    "top_of_book b5 = (tick_at 1002, tick_at 1007, 7, 5)" "top_of_book b6 = (tick_at 1000, tick_at 1007, 25, 5)"
    using top_at [OF 1(2)] top_at [OF 2(2)] top_at [OF 3(2)] top_at [OF 4(2)] top_at [OF 5(2)] top_at [OF 6(2)]
    by simp_all
  have n0: "signal_top signal_new = (- 1, - 1, 0, 0)" "sp_ofi signal_new = 0" by (simp_all add: signal_top_def signal_new_def)
  obtain p1 r1 q1 where p1: "signal_applied b1 1 signal_new (ring_new 16) = Some (p1, r1)"
    "expect_update 10 (- 256) r1 True = Some (True, q1)" "signal_top p1 = (tick_at 1000, - 1, 10, 0)"
    "sp_ofi p1 = 10" "idle_ring 1 q1"
    by (rule script_step [OF _ T(1) script_flow(1) [OF n0(1)] _ script_micro(1) [THEN conjunct1] i0,
        where ofi = 10 and tsc = 1 and ok = True and k' = 1])
      (auto simp: n0 sadd_def fits64_def intro!: that)
  obtain p2 r2 q2 where p2: "signal_applied b2 2 p1 q1 = Some (p2, r2)"
    "expect_update 10 (256256640) r2 True = Some (True, q2)" "signal_top p2 = (tick_at 1000, tick_at 1010, 10, 30)"
    "sp_ofi p2 = 10" "idle_ring 2 q2"
    by (rule script_step [OF _ T(2) script_flow(2) [OF p1(3)] _ script_micro(2) [THEN conjunct1] p1(5),
        where ofi = 10 and tsc = 2 and ok = True and k' = 2])
      (auto simp: p1(3,4) sadd_def fits64_def intro!: that)
  obtain p3 r3 q3 where p3: "signal_applied b3 3 p2 q2 = Some (p3, r3)"
    "expect_update 25 (256257163) r3 True = Some (True, q3)" "signal_top p3 = (tick_at 1000, tick_at 1010, 25, 30)"
    "sp_ofi p3 = 25" "idle_ring 3 q3"
    by (rule script_step [OF _ T(3) script_flow(3) [OF p2(3)] _ script_micro(3) [THEN conjunct1] p2(5),
        where ofi = 25 and tsc = 3 and ok = True and k' = 3])
      (auto simp: p2(3,4) sadd_def fits64_def intro!: that)
  obtain p4 r4 q4 where p4: "signal_applied b4 4 p3 q3 = Some (p4, r4)"
    "expect_update 32 (256256899) r4 True = Some (True, q4)" "signal_top p4 = (tick_at 1002, tick_at 1010, 7, 30)"
    "sp_ofi p4 = 32" "idle_ring 4 q4"
    by (rule script_step [OF _ T(4) script_flow(4) [OF p3(3)] _ script_micro(4) [THEN conjunct1] p3(5),
        where ofi = 32 and tsc = 4 and ok = True and k' = 4])
      (auto simp: p3(3,4) sadd_def fits64_def intro!: that)
  obtain p5 r5 q5 where p5: "signal_applied b5 5 p4 q4 = Some (p5, r5)"
    "expect_update 27 (256257258) r5 True = Some (True, q5)" "signal_top p5 = (tick_at 1002, tick_at 1007, 7, 5)"
    "sp_ofi p5 = 27" "idle_ring 5 q5"
    by (rule script_step [OF _ T(5) script_flow(5) [OF p4(3)] _ script_micro(5) [THEN conjunct1] p4(5),
        where ofi = 27 and tsc = 5 and ok = True and k' = 5])
      (auto simp: p4(3,4) sadd_def fits64_def intro!: that)
  obtain p6 r6 q6 where p6: "signal_applied b6 6 p5 q5 = Some (p6, r6)"
    "expect_update 20 (256257493) r6 True = Some (True, q6)" "signal_top p6 = (tick_at 1000, tick_at 1007, 25, 5)"
    "sp_ofi p6 = 20" "idle_ring 6 q6"
    by (rule script_step [OF _ T(6) script_flow(6) [OF p5(3)] _ script_micro(6) [THEN conjunct1] p5(5),
        where ofi = 20 and tsc = 6 and ok = True and k' = 6])
      (auto simp: p5(3,4) sadd_def fits64_def intro!: that)
  show ?thesis
    unfolding signal_script_def Let_def script_micro [THEN conjunct2] bind.bind_lunit
    unfolding script_ticks 1(1) 2(1) 3(1) 4(1) 5(1) 6(1) p1(1,2) p2(1,2) p3(1,2) p4(1,2) p5(1,2) p6(1,2)
      bind.bind_lunit prod.case ..
qed

end
