(* ===== verification/Order_Costs.thy ===== *)
theory Order_Costs
  imports Scenarios
begin

text \<open>
  \<open>microcost\<close> of \<open>bench/bench_advanced_orders.cpp\<close>: the loops whose time the benchmark divides by
  200000 to compare plain, post-only and iceberg orders. The trade handler does nothing and the
  ids are ignored by the program; the model returns the ids as its observation, so that a theorem
  can say which path of \<open>new_order\<close> each iteration takes. Time stamps are not modelled.

  The book of this file has 4096 order slots and a ladder of 65536 prices. The theorem: out of
  200000 timed iterations at most 4096 rest or trade, all others are rejected at once, because
  the arena is full or the price is off the ladder. What the program prints is the cost of a
  rejection.
\<close>

fun order_loop :: "(nat \<Rightarrow> book \<Rightarrow> (order_id \<times> book \<times> trade list) option) \<Rightarrow> nat list \<Rightarrow> book \<Rightarrow>
    (order_id list \<times> book) option" where
  "order_loop f [] b = Some ([], b)"
| "order_loop f (i # is) b = do {
     (oid, b, ts) \<leftarrow> f i b;
     (ids, b) \<leftarrow> order_loop f is b;
     Some (oid # ids, b)
   }"

definition preload :: "nat \<Rightarrow> book \<Rightarrow> (order_id \<times> book \<times> trade list) option" where
  "preload i b = new_order b (if odd i then Buy else Sell)
     (BASE + 10000 + (if odd i then - 1 else 1) * word_of_nat (i mod 500)) 1 False"

definition plain_order :: "nat \<Rightarrow> book \<Rightarrow> (order_id \<times> book \<times> trade list) option" where
  "plain_order i b = new_order b Buy (BASE + 50000) 1 False"

definition flagged_order :: "nat \<Rightarrow> book \<Rightarrow> (order_id \<times> book \<times> trade list) option" where
  "flagged_order i b = new_order b Buy (BASE + 50000 + word_of_nat i) 1 False"

definition iceberg_order :: "nat \<Rightarrow> book \<Rightarrow> (order_id \<times> book \<times> trade list) option" where
  "iceberg_order i b = new_iceberg_order b Buy (BASE + 60000 + word_of_nat i) 5 1000000"

definition cost_plain :: "nat \<Rightarrow> order_id list option" where
  "cost_plain n = do {
     (ids, b) \<leftarrow> order_loop preload [0..<n] test_book;
     (ids, b) \<leftarrow> order_loop plain_order [0..<n] b;
     Some ids
   }"

definition cost_flagged :: "nat \<Rightarrow> order_id list option" where
  "cost_flagged n = do { (ids, b) \<leftarrow> order_loop flagged_order [0..<n] test_book; Some ids }"

definition cost_iceberg :: "nat \<Rightarrow> order_id list option" where
  "cost_iceberg n = do { (ids, b) \<leftarrow> order_loop iceberg_order [0..<n] test_book; Some ids }"

section \<open>A full arena rejects\<close>

lemma arena_bound:
  assumes "stands n cap B b"
  shows "length (B Buy) + length (B Sell) \<le> cap"
proof -
  note S = standsD [OF assms]
  obtain qs where rep: "book_rep b qs" using S(1) by (rule book_okE)
  have "dom (heap b) \<subseteq> {..<cap}" using heap_slot [OF book_repD(1) [OF rep]] S(3) by auto
  then have "card (dom (heap b)) \<le> cap" using card_mono [of "{..<cap}" "dom (heap b)"] by simp
  with abs_size [OF rep] S(5) show ?thesis by simp
qed

lemma grows:
  assumes "length (B Buy) + length (B Sell) = cap"
  shows "\<not> stands n cap (B(s := ainsert s x (B s))) b"
  using arena_bound [of n cap "B(s := ainsert s x (B s))" b] assms
  by (cases s) (auto simp: length_ainsert)

lemma full_rejects:
  assumes st: "stands n cap B b" and i: "i < n" "i < 2 ^ 64" and q: "0 < sint q"
    and quiet: "\<forall>x\<in>set (B (opposite s)). \<not> meets s i (a_tick x)"
    and full: "length (B Buy) + length (B Sell) = cap"
  shows "new_order b s (tick_at i) q po = Some (0, b, [])"
    and "0 < sint d \<Longrightarrow> new_iceberg_order b s (tick_at i) d q = Some (0, b, [])"
proof -
  show "new_order b s (tick_at i) q po = Some (0, b, [])"
    by (rule unmatched_order [OF st i q quiet, of po]) (use grows [OF full] in blast)+
  assume d: "0 < sint d"
  show "new_iceberg_order b s (tick_at i) d q = Some (0, b, [])"
    by (rule quiet_iceberg [OF st i q d quiet]) (use grows [OF full] in blast)+
qed

lemma off_ladder:
  assumes "stands n cap B b" and "n \<le> i" and "i < 2 ^ 64"
  shows "new_order b s (tick_at i) q po = Some (0, b, [])" and "new_iceberg_order b s (tick_at i) d q = Some (0, b, [])"
  using standsD(2,4) [OF assms(1)] assms(2,3) idx_tick_at [of b i]
  by (simp_all add: new_order_def new_iceberg_order_def Let_def)

section \<open>Loops of bids\<close>

text \<open>\<open>bidding f is\<close>: with no asks in the book, every iteration of the loop rests while the arena
  has room, and is rejected when it has none.\<close>

definition bidding :: "(nat \<Rightarrow> book \<Rightarrow> (order_id \<times> book \<times> trade list) option) \<Rightarrow> nat \<Rightarrow> bool" where
  "bidding f i \<longleftrightarrow> (\<forall>b L. stands (2 ^ 16) (2 ^ 12) (sides L []) b \<longrightarrow>
     (length L < 2 ^ 12 \<longrightarrow> (\<exists>oid b' L'. f i b = Some (oid, b', []) \<and> oid \<noteq> 0 \<and> oid \<noteq> - 1 \<and>
        stands (2 ^ 16) (2 ^ 12) (sides L' []) b' \<and> length L' = Suc (length L))))"

definition rejecting :: "(nat \<Rightarrow> book \<Rightarrow> (order_id \<times> book \<times> trade list) option) \<Rightarrow> nat \<Rightarrow> bool" where
  "rejecting f i \<longleftrightarrow> (\<forall>b L. stands (2 ^ 16) (2 ^ 12) (sides L []) b \<longrightarrow> length L = 2 ^ 12 \<longrightarrow> f i b = Some (0, b, []))"

declare upt_rec_numeral [simp del]

lemma order_loop_append:
  "order_loop f (is @ js) b = do { (ids, b) \<leftarrow> order_loop f is b; (ids', b) \<leftarrow> order_loop f js b; Some (ids @ ids', b) }"
  by (induction "is" arbitrary: b) (auto split: bind_splits)

lemma bidding_loop:
  assumes "stands (2 ^ 16) (2 ^ 12) (sides L []) b" and "length L + length is \<le> 2 ^ 12" and "\<forall>i\<in>set is. bidding f i"
  shows "\<exists>ids b' L'. order_loop f is b = Some (ids, b') \<and> stands (2 ^ 16) (2 ^ 12) (sides L' []) b' \<and>
    length L' = length L + length is \<and> length ids = length is \<and> 0 \<notin> set ids \<and> - 1 \<notin> set ids"
  using assms
proof (induction "is" arbitrary: b L)
  case (Cons i "is")
  then have "length L < 2 ^ 12" "bidding f i" by simp_all
  with Cons.prems(1) obtain oid b1 L1 where 1: "f i b = Some (oid, b1, [])" "oid \<noteq> 0" "oid \<noteq> - 1"
    "stands (2 ^ 16) (2 ^ 12) (sides L1 []) b1" "length L1 = Suc (length L)" unfolding bidding_def by blast
  from Cons.IH [OF 1(4)] 1 Cons.prems(2,3) show ?case by auto
qed auto

lemma rejecting_loop:
  assumes "stands (2 ^ 16) (2 ^ 12) (sides L []) b" and "length L = 2 ^ 12" and "\<forall>i\<in>set is. rejecting f i"
  shows "order_loop f is b = Some (replicate (length is) 0, b)"
  using assms(3)
proof (induction "is")
  case (Cons i "is")
  then have "f i b = Some (0, b, [])" using assms(1,2) unfolding rejecting_def by simp
  with Cons show ?case by simp
qed simp

text \<open>From a book with \<open>k\<close> bids and no asks, all but the first \<open>4096 - k\<close> iterations are rejected.\<close>

lemma bids_then_rejects:
  assumes "stands (2 ^ 16) (2 ^ 12) (sides L []) b" and "2 ^ 12 \<le> length L + length is"
    and "\<forall>i\<in>set (take (2 ^ 12 - length L) is). bidding f i" and "\<forall>i\<in>set (drop (2 ^ 12 - length L) is). rejecting f i"
  shows "\<exists>ids b'. order_loop f is b = Some (ids @ replicate (length L + length is - 2 ^ 12) 0, b') \<and>
    length ids = 2 ^ 12 - length L \<and> 0 \<notin> set ids \<and> - 1 \<notin> set ids"
proof -
  have L: "length L \<le> 2 ^ 12" using arena_bound [OF assms(1)] by simp
  let ?k = "2 ^ 12 - length L"
  have k: "?k \<le> length is" using assms(2) by linarith
  then have len: "length (take ?k is) = ?k" by simp
  obtain ids b1 L1 where 1: "order_loop f (take ?k is) b = Some (ids, b1)" "stands (2 ^ 16) (2 ^ 12) (sides L1 []) b1"
    "length L1 = length L + ?k" "length ids = ?k" "0 \<notin> set ids" "- 1 \<notin> set ids"
    using bidding_loop [OF assms(1) _ assms(3)] L unfolding len by auto
  have L1: "length L1 = 2 ^ 12" using 1(3) L by simp
  have "length (drop ?k is) = length L + length is - 2 ^ 12" using L k by simp
  with rejecting_loop [OF 1(2) L1 assms(4)] have
    "order_loop f (take ?k is @ drop ?k is) b = Some (ids @ replicate (length L + length is - 2 ^ 12) 0, b1)"
    unfolding order_loop_append 1(1) by simp
  with 1(4-6) show ?thesis by auto
qed

lemma tick_sum: "BASE + 50000 = tick_at 50000" "BASE + 50000 + word_of_nat i = tick_at (50000 + i)"
  "BASE + 60000 + word_of_nat i = tick_at (60000 + i)"
  by (simp_all add: tick_at_def)

lemma bidding_orders:
  assumes "k < 2 ^ 16" and "\<And>b. f i b = new_order b Buy (tick_at k) 1 False \<or> f i b = new_iceberg_order b Buy (tick_at k) 5 1000000"
  shows "bidding f i"
  unfolding bidding_def
proof (intro allI impI)
  fix b L assume st: "stands (2 ^ 16) (2 ^ 12) (sides L []) b" and room: "length L < 2 ^ 12"
  have k: "k < 2 ^ 64" using assms(1) by simp
  from assms(2) [of b] show "\<exists>oid b' L'. f i b = Some (oid, b', []) \<and> oid \<noteq> 0 \<and> oid \<noteq> - 1 \<and>
    stands (2 ^ 16) (2 ^ 12) (sides L' []) b' \<and> length L' = Suc (length L)"
  proof
    assume f: "f i b = new_order b Buy (tick_at k) 1 False"
    show ?thesis
      by (rule goes_to_rest [OF st assms(1) k, of 1 Buy False]) (use room in \<open>auto simp: f length_ainsert\<close>)
  next
    assume f: "f i b = new_iceberg_order b Buy (tick_at k) 5 1000000"
    show ?thesis
      by (rule goes_to_rest_iceberg [OF st assms(1) k, of 1000000 5 Buy]) (use room in \<open>auto simp: f length_ainsert\<close>)
  qed
qed

lemma rejecting_orders:
  assumes "k < 2 ^ 64" and "\<And>b. f i b = new_order b Buy (tick_at k) 1 False \<or> f i b = new_iceberg_order b Buy (tick_at k) 5 1000000"
  shows "rejecting f i"
  unfolding rejecting_def
proof (intro allI impI)
  fix b L assume st: "stands (2 ^ 16) (2 ^ 12) (sides L []) b" and full: "length L = 2 ^ 12"
  show "f i b = Some (0, b, [])"
  proof (cases "k < 2 ^ 16")
    case True
    from full_rejects [OF st True assms(1), where s = Buy] full assms(2) [of b] show ?thesis by auto
  next
    case False
    then have "2 ^ 16 \<le> k" by simp
    from off_ladder [OF st this assms(1)] assms(2) [of b] show ?thesis by auto
  qed
qed

section \<open>The book of the first loop\<close>

definition one_lot :: "aorder \<Rightarrow> bool" where
  "one_lot x \<longleftrightarrow> a_qty x = 1 \<and> a_hidden x = 0"

definition preloaded :: "nat \<Rightarrow> nat \<Rightarrow> aorder list \<Rightarrow> aorder list \<Rightarrow> book \<Rightarrow> bool" where
  "preloaded l m L M b \<longleftrightarrow> stands (2 ^ 16) (2 ^ 12) (sides L M) b \<and> length L = l \<and> length M = m \<and>
     (\<forall>x\<in>set L. a_tick x < 10000) \<and> (\<forall>x\<in>set M. 10000 \<le> a_tick x \<and> a_tick x < 50000 \<and> one_lot x)"

lemma preload_tick:
  assumes "m < 500"
  shows "BASE + 10000 + - 1 * word_of_nat m = tick_at (10000 - m)" and "BASE + 10000 + 1 * word_of_nat m = tick_at (10000 + m)"
  using assms by (simp_all add: tick_at_def of_nat_diff)

lemma odd_mod: "odd i \<Longrightarrow> 0 < i mod (500 :: nat)"
proof (rule ccontr)
  assume "odd i" and "\<not> 0 < i mod 500"
  then have "500 dvd i" by (simp add: mod_eq_0_iff_dvd)
  moreover have "(2 :: nat) dvd 500" by simp
  ultimately show False using \<open>odd i\<close> dvd_trans by blast
qed

lemma preload_step:
  assumes "preloaded l m L M b" and "l + m < 2 ^ 12"
  shows "\<exists>oid b' L' M'. preload i b = Some (oid, b', []) \<and>
    preloaded (if odd i then Suc l else l) (if odd i then m else Suc m) L' M' b'"
proof -
  have st: "stands (2 ^ 16) (2 ^ 12) (sides L M) b" and P: "length L = l" "length M = m"
    "\<forall>x\<in>set L. a_tick x < 10000" "\<forall>x\<in>set M. 10000 \<le> a_tick x \<and> a_tick x < 50000 \<and> one_lot x"
    using assms(1) by (simp_all add: preloaded_def)
  have r: "i mod 500 < 500" by simp
  show ?thesis
  proof (cases "odd i")
    case True
    then have t: "10000 - i mod 500 < (10000 :: nat)" using odd_mod [of i] by simp
    have f: "preload i b = new_order b Buy (tick_at (10000 - i mod 500)) 1 False"
      using True preload_tick(1) [OF r] by (simp add: preload_def)
    show ?thesis
    proof (rule goes_to_rest [OF st, of "10000 - i mod 500" 1 Buy False])
      show "\<forall>x\<in>set (sides L M (opposite Buy)). \<not> meets Buy (10000 - i mod 500) (a_tick x)"
        using P(4) t by (simp add: not_le) (meson less_le_trans)
    next
      fix oid b' assume g: "new_order b Buy (tick_at (10000 - i mod 500)) 1 False = Some (oid, b', [])"
        and st': "stands (2 ^ 16) (2 ^ 12) ((sides L M)(Buy := ainsert Buy \<lparr>a_id = oid, a_tick = 10000 - i mod 500,
          a_qty = sint (1 :: qty), a_hidden = 0, a_display = 0\<rparr> (sides L M Buy))) b'"
      let ?N = "ainsert Buy \<lparr>a_id = oid, a_tick = 10000 - i mod 500, a_qty = 1, a_hidden = 0, a_display = 0\<rparr> L"
      have "preloaded (Suc l) (m) ?N M b'"
        using st' P t by (auto simp: preloaded_def length_ainsert)
      with g f True show ?thesis by auto
    qed (use assms(2) P t in auto)
  next
    case False
    have f: "preload i b = new_order b Sell (tick_at (10000 + i mod 500)) 1 False"
      using False preload_tick(2) [OF r] by (simp add: preload_def)
    have t: "10000 + i mod 500 < 50000" using r by simp
    show ?thesis
    proof (rule goes_to_rest [OF st, of "10000 + i mod 500" 1 Sell False])
      show "\<forall>x\<in>set (sides L M (opposite Sell)). \<not> meets Sell (10000 + i mod 500) (a_tick x)"
        using P(3) by (auto simp: not_le)
    next
      fix oid b' assume g: "new_order b Sell (tick_at (10000 + i mod 500)) 1 False = Some (oid, b', [])"
        and st': "stands (2 ^ 16) (2 ^ 12) ((sides L M)(Sell := ainsert Sell \<lparr>a_id = oid, a_tick = 10000 + i mod 500,
          a_qty = sint (1 :: qty), a_hidden = 0, a_display = 0\<rparr> (sides L M Sell))) b'"
      let ?N = "ainsert Sell \<lparr>a_id = oid, a_tick = 10000 + i mod 500, a_qty = 1, a_hidden = 0, a_display = 0\<rparr> M"
      have "preloaded (l) (Suc m) L ?N b'"
        using st' P t by (auto simp: preloaded_def length_ainsert one_lot_def)
      with g f False show ?thesis by auto
    qed (use assms(2) P t in auto)
  qed
qed

lemma preload_full:
  assumes "preloaded l m L M b" and "l + m = 2 ^ 12"
  shows "preload i b = Some (0, b, [])"
proof -
  have st: "stands (2 ^ 16) (2 ^ 12) (sides L M) b" and P: "length L = l" "length M = m"
    "\<forall>x\<in>set L. a_tick x < 10000" "\<forall>x\<in>set M. 10000 \<le> a_tick x \<and> a_tick x < 50000 \<and> one_lot x"
    using assms(1) by (simp_all add: preloaded_def)
  have r: "i mod 500 < 500" by simp
  have qb: "\<forall>x\<in>set (sides L M (opposite Buy)). \<not> meets Buy (10000 - i mod 500) (a_tick x)" if "odd i"
  proof -
    have "10000 - i mod 500 < 10000" using odd_mod [OF that] by simp
    then show ?thesis using P(4) by (simp add: not_le) (meson less_le_trans)
  qed
  have qs: "\<forall>x\<in>set (sides L M (opposite Sell)). \<not> meets Sell (10000 + i mod 500) (a_tick x)"
    using P(3) by (auto simp: not_le)
  have full: "length (sides L M Buy) + length (sides L M Sell) = 2 ^ 12" using P assms(2) by simp
  show ?thesis
  proof (cases "odd i")
    case True
    have f: "preload i b = new_order b Buy (tick_at (10000 - i mod 500)) 1 False"
      using True preload_tick(1) [OF r] by (simp add: preload_def)
    show ?thesis unfolding f by (rule full_rejects(1) [OF st _ _ _ qb [OF True] full]) simp_all
  next
    case False
    have f: "preload i b = new_order b Sell (tick_at (10000 + i mod 500)) 1 False"
      using False preload_tick(2) [OF r] by (simp add: preload_def)
    show ?thesis unfolding f by (rule full_rejects(1) [OF st _ _ _ qs full]) (use r in simp_all)
  qed
qed

lemma preload_grows:
  "n \<le> 2 ^ 12 \<Longrightarrow> \<exists>ids b L M. order_loop preload [0..<n] test_book = Some (ids, b) \<and>
    preloaded (n div 2) ((n + 1) div 2) L M b"
proof (induction n)
  case 0
  have "stands (2 ^ 16) (2 ^ 12) (sides [] []) test_book"
    using stands_new [OF sizes_test] by (simp add: test_book_def no_sides)
  then show ?case by (auto simp: preloaded_def)
next
  case (Suc n)
  then obtain ids b L M where 1: "order_loop preload [0..<n] test_book = Some (ids, b)"
    "preloaded (n div 2) ((n + 1) div 2) L M b" by auto
  have "n div 2 + (n + 1) div 2 < 2 ^ 12" using Suc.prems by simp
  from preload_step [OF 1(2) this, of n] obtain oid b' L' M' where 2: "preload n b = Some (oid, b', [])"
    "preloaded (if odd n then Suc (n div 2) else n div 2) (if odd n then (n + 1) div 2 else Suc ((n + 1) div 2)) L' M' b'"
    by blast
  have "(if odd n then Suc (n div 2) else n div 2) = Suc n div 2"
    "(if odd n then (n + 1) div 2 else Suc ((n + 1) div 2)) = (Suc n + 1) div 2" by presburger+
  with 2 have "preloaded (Suc n div 2) ((Suc n + 1) div 2) L' M' b'" by simp
  moreover have "order_loop preload [0..<Suc n] test_book = Some (ids @ [oid], b')"
    using 1(1) 2(1) by (simp add: order_loop_append)
  ultimately show ?case by blast
qed

lemma preload_stays:
  assumes "preloaded l m L M b" and "l + m = 2 ^ 12"
  shows "order_loop preload is b = Some (replicate (length is) 0, b)"
  by (induction "is") (simp_all add: preload_full [OF assms])

text \<open>Every ask of the preload is taken by one bid of one lot.\<close>

lemma plain_fills:
  assumes "preloaded l m L M b" and "length is = m"
  shows "\<exists>b'. order_loop plain_order is b = Some (replicate m (- 1), b') \<and> preloaded l 0 L [] b'"
  using assms
proof (induction "is" arbitrary: m M b)
  case (Cons i "is")
  then obtain k where k: "m = Suc k" "length is = k" by auto
  with Cons.prems(1) obtain x N where M: "M = x # N" by (cases M) (auto simp: preloaded_def)
  have st: "stands (2 ^ 16) (2 ^ 12) (sides L (x # N)) b" and x: "a_tick x < 50000" "a_qty x = 1" "a_hidden x = 0"
    using Cons.prems(1) by (auto simp: preloaded_def M one_lot_def)
  have am: "amatch Buy 50000 (sint (1 :: qty)) (sides L (x # N) (opposite Buy)) = (0, N, [(a_id x, a_tick x, 1)])"
    using x by (simp add: afilled_def Let_def amatch_done)
  obtain b1 ts where 1: "new_order b Buy (tick_at 50000) 1 False = Some (- 1, b1, ts)"
    "stands (2 ^ 16) (2 ^ 12) (sides L N) b1"
    by (rule goes_to_fill [OF st _ _ _ am]) (auto intro!: that)
  have "preloaded l k L N b1" using Cons.prems(1) 1(2) k by (simp add: preloaded_def M)
  from Cons.IH [OF this k(2)] 1(1) k show ?case by (auto simp: plain_order_def tick_sum)
qed (auto simp: preloaded_def)

text \<open>The cost check of \<open>bench_advanced_orders.cpp\<close> times rejections: in each of its three
  loops of \<open>n\<close> orders (200000 in the source) exactly 4096 do something, and the other \<open>n - 4096\<close>
  return 0 with the book as it was. Of the 4096 plain orders the first 2048 trade with the
  preloaded asks and 2048 rest; in the other two loops all 4096 rest.\<close>

theorem costs_time_rejections:
  assumes "2 ^ 12 \<le> n" and "n \<le> 2 ^ 32"
  shows "(\<exists>ids. cost_plain n = Some (replicate 2048 (- 1) @ ids @ replicate (n - 4096) 0) \<and>
      length ids = 2048 \<and> 0 \<notin> set ids \<and> - 1 \<notin> set ids) \<and>
    (\<exists>ids. cost_flagged n = Some (ids @ replicate (n - 4096) 0) \<and> length ids = 4096 \<and> 0 \<notin> set ids \<and> - 1 \<notin> set ids) \<and>
    (\<exists>ids. cost_iceberg n = Some (ids @ replicate (n - 4096) 0) \<and> length ids = 4096 \<and> 0 \<notin> set ids \<and> - 1 \<notin> set ids)"
proof (intro conjI)
  have new: "stands (2 ^ 16) (2 ^ 12) (sides [] []) test_book"
    using stands_new [OF sizes_test] by (simp add: test_book_def no_sides)
  have split: "take 4096 [0..<n] = [0..<4096]" "drop 4096 [0..<n] = [4096..<n]"
    using assms(1) by (simp_all add: take_upt)
  have "bidding flagged_order i" if "i < 4096" for i
    by (rule bidding_orders [of "50000 + i"]) (use that in \<open>simp_all add: flagged_order_def tick_sum(2)\<close>)
  moreover have "rejecting flagged_order i" if "i < n" for i
    by (rule rejecting_orders [of "50000 + i"]) (use that assms in \<open>simp_all add: flagged_order_def tick_sum(2)\<close>)
  ultimately show "\<exists>ids. cost_flagged n = Some (ids @ replicate (n - 4096) 0) \<and> length ids = 4096 \<and> 0 \<notin> set ids \<and> - 1 \<notin> set ids"
    using bids_then_rejects [OF new, of "[0..<n]" flagged_order] assms(1) by (auto simp: cost_flagged_def split)
  have "bidding iceberg_order i" if "i < 4096" for i
    by (rule bidding_orders [of "60000 + i"]) (use that in \<open>simp_all add: iceberg_order_def tick_sum(3)\<close>)
  moreover have "rejecting iceberg_order i" if "i < n" for i
    by (rule rejecting_orders [of "60000 + i"]) (use that assms in \<open>simp_all add: iceberg_order_def tick_sum(3)\<close>)
  ultimately show "\<exists>ids. cost_iceberg n = Some (ids @ replicate (n - 4096) 0) \<and> length ids = 4096 \<and> 0 \<notin> set ids \<and> - 1 \<notin> set ids"
    using bids_then_rejects [OF new, of "[0..<n]" iceberg_order] assms(1) by (auto simp: cost_iceberg_def split)
  obtain ids0 b0 L M where 0: "order_loop preload [0..<4096] test_book = Some (ids0, b0)" "preloaded 2048 2048 L M b0"
    using preload_grows [of 4096] by auto
  have "[0..<n] = [0..<4096] @ [4096..<n]" using assms(1) upt_add_eq_append [of 0 4096 "n - 4096"] by simp
  with 0 preload_stays [OF 0(2), of "[4096..<n]"] have pre: "\<exists>ids. order_loop preload [0..<n] test_book = Some (ids, b0)"
    by (simp add: order_loop_append)
  obtain b1 where 1: "order_loop plain_order [0..<2048] b0 = Some (replicate 2048 (- 1), b1)" "preloaded 2048 0 L [] b1"
    using plain_fills [OF 0(2), of "[0..<2048]"] by auto
  have st1: "stands (2 ^ 16) (2 ^ 12) (sides L []) b1" and len: "length L = 2048" using 1(2) by (simp_all add: preloaded_def)
  have b: "bidding plain_order i" and r: "rejecting plain_order i" for i
    by (rule bidding_orders [of 50000] rejecting_orders [of 50000]; simp add: plain_order_def tick_sum)+
  have "2048 \<le> n - 2048" using assms(1) by simp
  with bids_then_rejects [OF st1, of "[2048..<n]" plain_order] b r len assms(1) obtain ids b2 where
    2: "order_loop plain_order [2048..<n] b1 = Some (ids @ replicate (n - 4096) 0, b2)" "length ids = 2048"
    "0 \<notin> set ids" "- 1 \<notin> set ids" by auto
  have "[0..<n] = [0..<2048] @ [2048..<n]" using assms(1) upt_add_eq_append [of 0 2048 "n - 2048"] by simp
  then have "order_loop plain_order [0..<n] b0 = Some (replicate 2048 (- 1) @ ids @ replicate (n - 4096) 0, b2)"
    using 1(1) 2(1) by (simp add: order_loop_append)
  with pre 2(2-4) show "\<exists>ids. cost_plain n = Some (replicate 2048 (- 1) @ ids @ replicate (n - 4096) 0) \<and>
      length ids = 2048 \<and> 0 \<notin> set ids \<and> - 1 \<notin> set ids" by (auto simp: cost_plain_def)
qed

theorem costs_time_rejections_witness:
  "\<exists>ids. cost_flagged 200000 = Some (ids @ replicate 195904 0) \<and> length ids = 4096 \<and> 0 \<notin> set ids"
  using costs_time_rejections [of 200000] by auto

end
