(* ===== verification/Workload.thy ===== *)
theory Workload
  imports Pipeline
begin

text \<open>
  \<open>bench/bench_rdtsc.cpp\<close>, benches 1 to 3: the synthetic workload of passive orders, crossing
  orders and cancels around the middle of the ladder, the rolling window of ids that cancels pick
  from, the lambda \<open>drive\<close> that applies one message to the book, the single-threaded runs and the
  run with a producer thread and the copying ring. \<open>Rng\<close> is the generator of \<open>Feed\<close> (the file
  has its own copy of it); time stamps, samples, percentiles and printing are not modelled.

  The theorems: on every workload the runs are defined; the book stays within 32 ticks of the
  middle and shows orders of at most 23 lots, as the comment on the generator promises of the
  prices; and whatever the schedule of the two threads, the pipeline does to its book exactly
  what the single-threaded run does.
\<close>

section \<open>The workload\<close>

definition make_message :: "u64 \<Rightarrow> message" where
  "make_message r =
     (let bucket = r mod 100;
          side = (if drop_bit 8 r AND 1 \<noteq> 0 then Buy else Sell);
          off = 1 + ucast (drop_bit 16 r AND 31) :: price
      in if bucket < 58 then
           message_zero\<lparr>m_type := NewOrder, m_side := side,
             m_price := (if side = Buy then MID - off else MID + off),
             m_qty := 1 + ucast (drop_bit 24 r AND 7)\<rparr>
         else if bucket < 94 then
           message_zero\<lparr>m_type := NewOrder, m_side := side,
             m_price := (if side = Buy then MID + 8 else MID - 8),
             m_qty := 8 + ucast (drop_bit 24 r AND 15)\<rparr>
         else message_zero\<lparr>m_type := Cancel, m_id := 0\<rparr>)"

fun make_workload :: "nat \<Rightarrow> u64 \<Rightarrow> message list" where
  "make_workload 0 s = []"
| "make_workload (Suc n) s = (let (r, s) = rng_next s in make_message r # make_workload n s)"

record id_window =
  iw_ids :: "order_id list"
  iw_w :: u64

definition window_new :: id_window where
  "window_new = \<lparr>iw_ids = replicate 4096 0, iw_w = 0\<rparr>"

definition window_push :: "order_id \<Rightarrow> id_window \<Rightarrow> id_window option" where
  "window_push oid w = do {
     ids \<leftarrow> aput (iw_ids w) (unat (iw_w w AND (4096 - 1))) oid;
     Some (w\<lparr>iw_ids := ids, iw_w := iw_w w + 1\<rparr>)
   }"

definition window_pick :: "u64 \<Rightarrow> id_window \<Rightarrow> order_id option" where
  "window_pick r w = aget (iw_ids w) (unat (r AND (4096 - 1)))"

section \<open>Driving the book\<close>

text \<open>The variables the lambdas capture; the handler of trades is a parameter.\<close>

record driver =
  dr_book :: book
  dr_ids :: id_window
  dr_rng :: u64
  dr_trades :: u64
  dr_traded_qty :: u64

definition engine_trade :: "trade \<Rightarrow> u64 \<times> u64 \<Rightarrow> u64 \<times> u64" where
  "engine_trade t = (\<lambda>(n, q). (n + 1, q + t_qty t))"

definition pipeline_trade :: "trade \<Rightarrow> u64 \<times> u64 \<Rightarrow> u64 \<times> u64" where
  "pipeline_trade t = (\<lambda>(n, q). (n + 1, q))"

definition drive :: "(trade \<Rightarrow> u64 \<times> u64 \<Rightarrow> u64 \<times> u64) \<Rightarrow> message \<Rightarrow> driver \<Rightarrow> driver option" where
  "drive on_trade m d =
     (if m_type m = NewOrder then do {
        (oid, b, ts) \<leftarrow> new_order (dr_book d) (m_side m) (m_price m) (m_qty m) False;
        let (n, q) = fold on_trade ts (dr_trades d, dr_traded_qty d);
        let d = d\<lparr>dr_book := b, dr_trades := n, dr_traded_qty := q\<rparr>;
        if oid \<noteq> 0 \<and> oid \<noteq> NOT 0 then do {
          w \<leftarrow> window_push oid (dr_ids d);
          Some (d\<lparr>dr_ids := w\<rparr>)
        }
        else Some d
      }
      else do {
        let (r, s) = rng_next (dr_rng d);
        oid \<leftarrow> window_pick r (dr_ids d);
        (ok, b) \<leftarrow> cancel (dr_book d) oid;
        Some (d\<lparr>dr_rng := s, dr_book := b\<rparr>)
      })"

definition driver_start :: driver where
  "driver_start = \<lparr>dr_book = book_new (2 ^ 16) (2 ^ 20) BASE, dr_ids = window_new, dr_rng = 0xABCD,
     dr_trades = 0, dr_traded_qty = 0\<rparr>"

text \<open>The warm-up, the run whose operations are timed one by one, and the streaming run.\<close>

definition bench_engine :: "nat \<Rightarrow> nat \<Rightarrow> driver option" where
  "bench_engine warm n = do {
     d \<leftarrow> apply_items (drive engine_trade) (make_workload warm 0xDEADBEEF) driver_start;
     d \<leftarrow> apply_items (drive engine_trade) (make_workload n 0xC0FFEE) d;
     apply_items (drive engine_trade) (make_workload n 0xFACE) d
   }"

section \<open>The messages\<close>

definition central :: "nat \<Rightarrow> bool" where
  "central i \<longleftrightarrow> 32736 \<le> i \<and> i \<le> 32800"

definition plausible :: "message \<Rightarrow> bool" where
  "plausible m \<longleftrightarrow> m_type m = Cancel \<or> m_type m = NewOrder \<and>
     central (unat (m_price m - BASE)) \<and> 0 < sint (m_qty m) \<and> sint (m_qty m) \<le> 23"

lemma small_mask:
  assumes "k < 2 ^ 63"
  obtains n where "n \<le> k" and "(x AND word_of_nat k :: u64) = word_of_nat n"
proof -
  have "x AND word_of_nat k \<le> word_of_nat k" by (rule word_and_le1)
  then have "unat (x AND word_of_nat k) \<le> k" using assms by (simp add: word_le_nat_alt unat_of_nat_small)
  then show ?thesis by (rule that) simp
qed

lemma make_message_plausible: "plausible (make_message r)"
proof -
  obtain n where n: "n \<le> 31" "(drop_bit 16 r AND 31 :: u64) = word_of_nat n" using small_mask [of 31 "drop_bit 16 r"] by auto
  obtain k where k: "k \<le> 7" "(drop_bit 24 r AND 7 :: u64) = word_of_nat k" using small_mask [of 7 "drop_bit 24 r"] by auto
  obtain l where l: "l \<le> 15" "(drop_bit 24 r AND 15 :: u64) = word_of_nat l" using small_mask [of 15 "drop_bit 24 r"] by auto
  have p: "unat (MID - (1 + word_of_nat n) - BASE :: price) = 32767 - n" "unat (MID + (1 + word_of_nat n) - BASE :: price) = 32769 + n"
    "unat (MID + 8 - BASE :: price) = 32776" "unat (MID - 8 - BASE :: price) = 32760"
  proof -
    have "MID - (1 + word_of_nat n) - BASE = (word_of_nat (32767 - n) :: price)"
      "MID + (1 + word_of_nat n) - BASE = (word_of_nat (32769 + n) :: price)"
      using n(1) by (simp_all add: MID_def BASE_def of_nat_diff)
    then show "unat (MID - (1 + word_of_nat n) - BASE :: price) = 32767 - n" "unat (MID + (1 + word_of_nat n) - BASE :: price) = 32769 + n"
      using n(1) by (simp_all only:) (simp_all add: unat_of_nat_small del: of_nat_add of_nat_diff)
  qed (simp_all add: MID_def BASE_def)
  have q: "sint (1 + word_of_nat k :: qty) = 1 + int k" "sint (8 + word_of_nat l :: qty) = 8 + int l"
    using k(1) l(1) sint_add64 [of 1 "word_of_nat k"] sint_add64 [of 8 "word_of_nat l"]
    by (simp_all add: signed_of_nat signed_take_bit_int_eq_self)
  show ?thesis
    using n(1) k(1) l(1)
    by (simp add: make_message_def Let_def plausible_def central_def n(2) k(2) l(2) p q) arith
qed

lemma workload_plausible: "m \<in> set (make_workload n s) \<Longrightarrow> plausible m"
  by (induction n arbitrary: s) (auto simp: Let_def make_message_plausible split: prod.splits)

section \<open>The book stays in the middle\<close>

definition modest :: "aorder \<Rightarrow> bool" where
  "modest x \<longleftrightarrow> central (a_tick x) \<and> 0 < a_qty x \<and> a_qty x \<le> 23 \<and> a_hidden x = 0"

lemma amatch_modest:
  assumes "amatch s lim q L = (q', R, us)" and "\<forall>x\<in>set L. modest x" and "0 \<le> q"
  shows "(\<forall>x\<in>set R. modest x) \<and> 0 \<le> q' \<and> q' \<le> q"
  using assms
proof (induction s lim q L arbitrary: q' R us rule: amatch.induct)
  case (2 s lim q x L)
  let ?f = "min q (a_qty x)"
  show ?case
  proof (cases "0 < q \<and> meets s lim (a_tick x) \<and> 0 < a_qty x")
    case True
    then obtain us' where m: "amatch s lim (q - ?f) (afilled (opposite s) ?f x L) = (q', R, us')"
      using 2(2) by (auto simp: Let_def split: prod.splits)
    have "\<forall>y\<in>set (afilled (opposite s) ?f x L). modest y"
      using 2(3) True by (auto simp: afilled_def modest_def min_def)
    from 2(1) [OF True refl m this] True have "(\<forall>y\<in>set R. modest y) \<and> 0 \<le> q' \<and> q' \<le> q - ?f" "0 \<le> ?f" by auto
    then show ?thesis by auto
  qed (use 2 in auto)
qed auto

definition modest_book :: "abook \<Rightarrow> bool" where
  "modest_book B \<longleftrightarrow> (\<forall>s. \<forall>x\<in>set (B s). modest x)"

lemma anew_order_modest:
  assumes "modest_book B" and "central lim" and "0 < q" and "q \<le> 23"
    and "(oid, B', us) = anew_order B s lim q po g"
  shows "modest_book B'"
proof (cases "po \<and> (\<exists>x\<in>set (B (opposite s)). meets s lim (a_tick x))")
  case True
  with assms(1,5) show ?thesis by (simp add: anew_order_def)
next
  case False
  obtain q' L us' where m: "amatch s lim q (B (opposite s)) = (q', L, us')" by (metis prod.exhaust)
  from amatch_modest [OF m] assms(1,3) have R: "\<forall>x\<in>set L. modest x" "0 \<le> q'" "q' \<le> q" by (auto simp: modest_book_def)
  have e: "B' = (if q' = 0 then B(opposite s := L)
      else snd (arest (B(opposite s := L)) s \<lparr>a_id = g, a_tick = lim, a_qty = q', a_hidden = 0, a_display = 0\<rparr>))"
    using assms(5) False by (auto simp: anew_order_def m split: if_splits prod.splits)
  show ?thesis
    using assms(1,2,4) R by (auto simp: e modest_book_def arest_def modest_def split: if_splits)
qed

definition driver_ok :: "driver \<Rightarrow> bool" where
  "driver_ok d \<longleftrightarrow> book_ok (dr_book d) \<and> NumTicks (dr_book d) = 2 ^ 16 \<and> bk_base (dr_book d) = BASE \<and>
     modest_book (abs_book (dr_book d)) \<and> length (iw_ids (dr_ids d)) = 4096 \<and> (\<forall>oid\<in>set (iw_ids (dr_ids d)). issued oid)"

lemma window_index: "unat (x AND (4096 - 1) :: u64) < 4096"
proof -
  have "x AND (4096 - 1) \<le> 4096 - 1" by (rule word_and_le1)
  then show ?thesis by (simp add: word_le_nat_alt)
qed

lemma driver_start_ok: "driver_ok driver_start"
proof -
  have z: "sizes_ok (2 ^ 16) (2 ^ 20)" by (simp add: sizes_ok_def)
  from book_new_ok [OF z] book_new_abs [OF z] show ?thesis
    by (simp add: driver_ok_def driver_start_def window_new_def modest_book_def issued_def)
qed

lemma drive_ok:
  assumes ok: "driver_ok d" and m: "plausible m"
  obtains d' where "drive on_trade m d = Some d'" and "driver_ok d'"
proof -
  have D: "book_ok (dr_book d)" "NumTicks (dr_book d) = 2 ^ 16" "bk_base (dr_book d) = BASE"
    "modest_book (abs_book (dr_book d))" "length (iw_ids (dr_ids d)) = 4096" "\<forall>oid\<in>set (iw_ids (dr_ids d)). issued oid"
    using ok by (simp_all add: driver_ok_def)
  show ?thesis
  proof (cases "m_type m = NewOrder")
    case True
    let ?i = "idx_of (dr_book d) (m_price m)"
    have P: "central ?i" "0 < sint (m_qty m)" "sint (m_qty m) \<le> 23"
      using m True D(3) by (auto simp: plausible_def idx_of_def)
    then have acc: "accepts (dr_book d) (m_price m) (m_qty m)" using D(2) by (simp add: accepts_def central_def)
    show ?thesis
    proof (rule new_order_run [OF D(1) acc, of "m_side m" False])
      fix oid b' ts g
      assume r: "new_order (dr_book d) (m_side m) (m_price m) (m_qty m) False = Some (oid, b', ts)" "book_ok b'" "issued oid"
        "NumTicks b' = NumTicks (dr_book d)" "bk_base b' = bk_base (dr_book d)"
        "(oid, abs_book b', map (atrade_of (bk_base (dr_book d))) ts) =
          anew_order (abs_book (dr_book d)) (m_side m) ?i (sint (m_qty m)) False g"
      obtain n q where nq: "fold on_trade ts (dr_trades d, dr_traded_qty d) = (n, q)" by force
      let ?d = "d\<lparr>dr_book := b', dr_trades := n, dr_traded_qty := q\<rparr>"
      have "modest_book (abs_book b')" by (rule anew_order_modest [OF D(4) P r(6)])
      then have ok': "driver_ok ?d" using r(2,4,5) D by (simp add: driver_ok_def)
      show thesis
      proof (cases "oid \<noteq> 0 \<and> oid \<noteq> NOT 0")
        case False
        with True r(1) nq ok' show thesis by (intro that [of ?d]) (auto simp: drive_def Let_def)
      next
        case push: True
        let ?j = "unat (iw_w (dr_ids d) AND (4096 - 1))"
        let ?w = "(dr_ids d)\<lparr>iw_ids := (iw_ids (dr_ids d))[?j := oid], iw_w := iw_w (dr_ids d) + 1\<rparr>"
        have w: "window_push oid (dr_ids d) = Some ?w"
          using window_index [of "iw_w (dr_ids d)"] D(5) by (simp add: window_push_def)
        have "driver_ok (?d\<lparr>dr_ids := ?w\<rparr>)"
          using ok' r(3) set_update_subset_insert [of "iw_ids (dr_ids d)" ?j oid] by (auto simp: driver_ok_def)
        moreover have "drive on_trade m d = Some (?d\<lparr>dr_ids := ?w\<rparr>)"
          using True r(1) nq push w by (simp add: drive_def Let_def)
        ultimately show thesis by (rule that [rotated])
      qed
    qed
  next
    case False
    obtain r s where rs: "rng_next (dr_rng d) = (r, s)" by force
    let ?oid = "iw_ids (dr_ids d) ! unat (r AND (4096 - 1))"
    have pick: "window_pick r (dr_ids d) = Some ?oid" and iss: "issued ?oid"
      using window_index [of r] D(5,6) by (simp_all add: window_pick_def)
    obtain qs where "book_rep (dr_book d) qs" using D(1) by (rule book_okE)
    then show ?thesis
    proof (rule cancel_rep [OF _ iss])
      fix b' assume c: "cancel (dr_book d) ?oid = Some (alive (abs_book (dr_book d)) ?oid, b')" "book_ok b'"
        "abs_book b' = acancel (abs_book (dr_book d)) ?oid"
        "NumTicks b' = NumTicks (dr_book d)" "bk_base b' = bk_base (dr_book d)"
      have "modest_book (abs_book b')" using D(4) by (auto simp: c(3) acancel_def modest_book_def)
      then show thesis using False rs pick c D
        by (intro that [of "d\<lparr>dr_rng := s, dr_book := b'\<rparr>"]) (simp_all add: drive_def driver_ok_def)
    qed
  qed
qed

lemma drives_ok: "driver_ok d \<Longrightarrow> \<forall>m\<in>set ms. plausible m \<Longrightarrow>
    \<exists>d'. apply_items (drive on_trade) ms d = Some d' \<and> driver_ok d'"
proof (induction ms arbitrary: d)
  case (Cons m ms)
  have m: "plausible m" using Cons.prems(2) by simp
  show ?case by (rule drive_ok [OF Cons.prems(1) m, of on_trade]) (use Cons in auto)
qed simp

text \<open>Benches 1 and 2 of \<open>bench_rdtsc.cpp\<close> are defined for every number of operations (no call is
  undefined or endless, no id the driver cancels is one the book did not hand out), and they end
  with a well-formed book all of whose orders lie within 32 ticks of the middle of the ladder and
  show 1 to 23 lots: the workload does not drift off the ladder.\<close>

theorem engine_stays_central:
  "\<exists>d. bench_engine warm n = Some d \<and> book_ok (dr_book d) \<and>
    (\<forall>s. \<forall>x\<in>set (abs_book (dr_book d) s). central (a_tick x) \<and> 0 < a_qty x \<and> a_qty x \<le> 23)"
proof -
  have w: "\<forall>m\<in>set (make_workload k s). plausible m" for k s using workload_plausible by blast
  from drives_ok [OF driver_start_ok w] obtain d1 where 1:
    "apply_items (drive engine_trade) (make_workload warm 0xDEADBEEF) driver_start = Some d1" "driver_ok d1" by blast
  from drives_ok [OF 1(2) w] obtain d2 where 2:
    "apply_items (drive engine_trade) (make_workload n 0xC0FFEE) d1 = Some d2" "driver_ok d2" by blast
  from drives_ok [OF 2(2) w] obtain d3 where 3:
    "apply_items (drive engine_trade) (make_workload n 0xFACE) d2 = Some d3" "driver_ok d3" by blast
  from 1(1) 2(1) 3 show ?thesis
    by (auto simp: bench_engine_def driver_ok_def modest_book_def modest_def)
qed

theorem engine_stays_central_witness:
  "\<exists>d. bench_engine 100000 2000000 = Some d \<and> book_ok (dr_book d) \<and>
    (\<forall>s. \<forall>x\<in>set (abs_book (dr_book d) s). 32736 \<le> a_tick x \<and> a_tick x \<le> 32800)"
  using engine_stays_central [of 100000 2000000] unfolding central_def by blast

section \<open>The run with two threads\<close>

definition list_source :: "message list \<Rightarrow> (message option \<times> message list) option" where
  "list_source work = Some (case work of [] \<Rightarrow> (None, []) | m # work \<Rightarrow> (Some m, work))"

definition bench_pipeline :: "nat \<Rightarrow> u64 \<Rightarrow> bool list \<Rightarrow> (message list, message, message ring, driver) pipe option" where
  "bench_pipeline n seed sched = pipe_run n list_source try_push try_pop (drive pipeline_trade) sched
     \<lparr>pi_src = make_workload n seed, pi_pending = None, pi_queue = ring_new (2 ^ 14), pi_done = 0, pi_eng = driver_start\<rparr>"

interpretation workload: pipeline ring_ok ring_cap ring_items "\<lambda>r. unat (r_head r)" try_push try_pop
  list_source "\<lambda>work xs. work = xs" "drive pipeline_trade"
proof unfold_locales
  fix q :: "message ring"
  show "ring_ok q \<Longrightarrow> 0 < ring_cap q" using pow2_cap_bounds [of "ring_cap q"] by (simp add: ring_ok_def)
qed (auto simp: list_source_def)

text \<open>Counting lots is all that the single-threaded driver does beyond the pipelined one.\<close>

lemma fold_trades: "fold pipeline_trade ts (n, 0) = (fst (fold engine_trade ts (n, q)), 0)"
  by (induction ts arbitrary: n q) (auto simp: pipeline_trade_def engine_trade_def)

lemma drive_lots: "drive pipeline_trade m (d\<lparr>dr_traded_qty := 0\<rparr>) = map_option (\<lambda>d. d\<lparr>dr_traded_qty := 0\<rparr>) (drive engine_trade m d)"
  by (auto simp: drive_def Let_def fold_trades [where q = "dr_traded_qty d"] split: option.splits prod.splits bind_splits)

lemma drives_lots: "apply_items (drive pipeline_trade) ms (d\<lparr>dr_traded_qty := 0\<rparr>) =
    map_option (\<lambda>d. d\<lparr>dr_traded_qty := 0\<rparr>) (apply_items (drive engine_trade) ms d)"
proof (induction ms arbitrary: d)
  case (Cons m ms)
  show ?case by (cases "drive engine_trade m d") (simp_all add: drive_lots Cons.IH)
qed simp

lemma make_workload_length [simp]: "length (make_workload n s) = n"
  by (induction n arbitrary: s) (auto split: prod.splits)

text \<open>Bench 3: for fewer than \<open>2^64\<close> messages and under every schedule of the two threads the
  run is defined, and the engine has done to its book, ids and trade count exactly what the
  single-threaded driver does with the messages consumed so far; and \<open>3 n\<close> alternating turns
  consume all \<open>n\<close> messages.\<close>

theorem pipeline_is_sequential:
  assumes "n < 2 ^ 64"
  shows "(\<exists>p d. bench_pipeline n seed sched = Some p \<and> pi_done p \<le> n \<and>
      apply_items (drive engine_trade) (take (pi_done p) (make_workload n seed)) driver_start = Some d \<and>
      pi_eng p = d\<lparr>dr_traded_qty := 0\<rparr>) \<and>
    (\<exists>p. bench_pipeline n seed (concat (replicate (3 * n) [True, False])) = Some p \<and> pi_done p = n)"
proof -
  let ?ms = "make_workload n seed"
  let ?st = "\<lparr>pi_src = ?ms, pi_pending = None, pi_queue = ring_new (2 ^ 14), pi_done = 0, pi_eng = driver_start\<rparr>"
  have "pow2_cap (2 ^ 14)" unfolding pow2_cap_def by (intro exI [of _ 14]) simp
  note R = ring_new_ok(1) [OF this, where 'a = message]
  have inv: "workload.pipe_inv ?ms driver_start ?st ?ms"
    by (rule workload.inv_start) (use R assms in \<open>simp_all add: ring_new_ok(2,4)\<close>)
  have w: "\<forall>m\<in>set xs. plausible m" if "set xs \<subseteq> set ?ms" for xs using workload_plausible that by blast
  from drives_ok [OF driver_start_ok w [OF subset_refl]] have fin: "apply_items (drive pipeline_trade) ?ms driver_start \<noteq> None" by auto
  have z: "driver_start\<lparr>dr_traded_qty := 0\<rparr> = driver_start" by (simp add: driver_start_def)
  from workload.run_inv [OF inv _ fin, of n sched] obtain p left where
    p: "bench_pipeline n seed sched = Some p" "workload.pipe_inv ?ms driver_start p left" by (auto simp: bench_pipeline_def)
  note A = workload.inv_applied [OF p(2)]
  from drives_ok [OF driver_start_ok w [OF set_take_subset], of engine_trade "pi_done p"] obtain d where
    "apply_items (drive engine_trade) (take (pi_done p) ?ms) driver_start = Some d" by blast
  with A drives_lots [of "take (pi_done p) ?ms" driver_start] p(1) z
  have seq: "\<exists>p d. bench_pipeline n seed sched = Some p \<and> pi_done p \<le> n \<and>
    apply_items (drive engine_trade) (take (pi_done p) ?ms) driver_start = Some d \<and> pi_eng p = d\<lparr>dr_traded_qty := 0\<rparr>" by auto
  have "workload.work ?ms ?st ?ms \<le> 3 * n" by (simp add: workload.work_def ring_new_ok(2))
  from workload.rounds_finish [OF inv _ fin this, of n]
  have "\<exists>p. bench_pipeline n seed (concat (replicate (3 * n) [True, False])) = Some p \<and> pi_done p = n"
    by (auto simp: bench_pipeline_def)
  with seq show ?thesis by blast
qed

theorem pipeline_is_sequential_witness:
  "\<exists>p. bench_pipeline 2000000 0xBEEF (concat (replicate (3 * 2000000) [True, False])) = Some p \<and> pi_done p = 2000000"
  using pipeline_is_sequential [of 2000000 "0xBEEF"] by simp

end
