(* ===== verification/Ping_Pong.thy ===== *)
theory Ping_Pong
  imports Spsc_Ring
begin

text \<open>
  Bench 4 of \<open>bench/bench_rdtsc.cpp\<close> (\<open>bench_spsc_rtt\<close>): two threads and two rings of 64 words.
  The main thread stamps, pushes the stamp into \<open>g_ping\<close> and waits for a value in \<open>g_pong\<close>; the
  echo thread moves values from \<open>g_ping\<close> to \<open>g_pong\<close>. A turn of a thread is one attempt of its
  innermost loop. The time-stamp counter is a parameter: the value of every reading, numbered in
  the order the main thread reads it. Besides the samples the model logs each round's stamp, the
  value received for it, and the second stamp, which the program does not keep. \<open>measure_tsc_overhead\<close> of
  \<open>include/lob/rdtsc.hpp\<close>, the least difference of two successive readings, is here as well.

  The benchmark claims that a round trip is exactly two transfers: no stamp waits in a queue.
  The invariant says so: at most one value is under way, at one of the three places between the
  threads, so no push ever meets a full ring, and every value comes back to the round that sent it.
\<close>

datatype main_at = Stamp | Push u64 | Await u64

datatype echo_at = Take | Give u64

record ping_pong =
  pp_ping :: "u64 ring"
  pp_pong :: "u64 ring"
  pp_main :: main_at
  pp_echo :: echo_at
  pp_reads :: nat
  pp_echoed :: nat
  pp_rtt :: "u32 list"
  pp_log :: "(u64 \<times> u64 \<times> u64) list"

definition ping_pong_start :: ping_pong where
  "ping_pong_start = \<lparr>pp_ping = ring_new 64, pp_pong = ring_new 64, pp_main = Stamp, pp_echo = Take,
     pp_reads = 0, pp_echoed = 0, pp_rtt = [], pp_log = []\<rparr>"

definition main_turn :: "(nat \<Rightarrow> u64) \<Rightarrow> nat \<Rightarrow> ping_pong \<Rightarrow> ping_pong option" where
  "main_turn clk n st =
     (if length (pp_rtt st) < n then
        (case pp_main st of
           Stamp \<Rightarrow> Some (st\<lparr>pp_main := Push (clk (pp_reads st)), pp_reads := pp_reads st + 1\<rparr>)
         | Push t0 \<Rightarrow> do {
             (r, q) \<leftarrow> try_push (pp_ping st) t0;
             Some (st\<lparr>pp_ping := q, pp_main := (if r then Await t0 else Push t0)\<rparr>)
           }
         | Await t0 \<Rightarrow> do {
             (x, q) \<leftarrow> try_pop (pp_pong st);
             case x of
               None \<Rightarrow> Some (st\<lparr>pp_pong := q\<rparr>)
             | Some v \<Rightarrow>
                 (let t1 = clk (pp_reads st)
                  in Some (st\<lparr>pp_pong := q, pp_main := Stamp, pp_reads := pp_reads st + 1,
                       pp_rtt := pp_rtt st @ [ucast ((t1 - t0) div 2)], pp_log := pp_log st @ [(t0, v, t1)]\<rparr>))
           })
      else Some st)"

definition echo_turn :: "nat \<Rightarrow> ping_pong \<Rightarrow> ping_pong option" where
  "echo_turn n st =
     (if pp_echoed st < n then
        (case pp_echo st of
           Take \<Rightarrow> do {
             (x, q) \<leftarrow> try_pop (pp_ping st);
             Some (st\<lparr>pp_ping := q, pp_echo := (case x of None \<Rightarrow> Take | Some v \<Rightarrow> Give v)\<rparr>)
           }
         | Give v \<Rightarrow> do {
             (r, q) \<leftarrow> try_push (pp_pong st) v;
             Some (if r then st\<lparr>pp_pong := q, pp_echo := Take, pp_echoed := pp_echoed st + 1\<rparr>
                   else st\<lparr>pp_pong := q\<rparr>)
           })
      else Some st)"

fun ping_pong_run :: "(nat \<Rightarrow> u64) \<Rightarrow> nat \<Rightarrow> bool list \<Rightarrow> ping_pong \<Rightarrow> ping_pong option" where
  "ping_pong_run clk n [] st = Some st"
| "ping_pong_run clk n (t # ts) st = (if t then main_turn clk n st else echo_turn n st) \<bind> ping_pong_run clk n ts"

text \<open>The samples that are reported: the first tenth is dropped.\<close>

definition steady :: "nat \<Rightarrow> ping_pong \<Rightarrow> u32 list" where
  "steady n st = drop (n div 10) (pp_rtt st)"

section \<open>Where the one value is\<close>

definition rings_ready :: "nat \<Rightarrow> ping_pong \<Rightarrow> bool" where
  "rings_ready k st \<longleftrightarrow> ring_ok (pp_ping st) \<and> ring_cap (pp_ping st) = 64 \<and> unat (r_head (pp_ping st)) \<le> k \<and>
     ring_ok (pp_pong st) \<and> ring_cap (pp_pong st) = 64 \<and> unat (r_head (pp_pong st)) \<le> pp_echoed st"

text \<open>The phase of a round: nothing under way (0, 1), the stamp in \<open>g_ping\<close> (2), with the echo thread
  (3), in \<open>g_pong\<close> (4).\<close>

definition at_phase :: "nat \<Rightarrow> nat \<Rightarrow> ping_pong \<Rightarrow> bool" where
  "at_phase k ph st \<longleftrightarrow> length (pp_rtt st) = k \<and>
     pp_rtt st = map (\<lambda>(t0, v, t1). ucast ((t1 - t0) div 2)) (pp_log st) \<and> (\<forall>(t0, v, t1)\<in>set (pp_log st). v = t0) \<and>
     (ph = 0 \<and> pp_main st = Stamp \<and> ring_items (pp_ping st) = [] \<and> pp_echo st = Take \<and> ring_items (pp_pong st) = [] \<and>
        pp_echoed st = k \<and> rings_ready k st \<or>
      ph = 1 \<and> (\<exists>t0. pp_main st = Push t0) \<and> ring_items (pp_ping st) = [] \<and> pp_echo st = Take \<and> ring_items (pp_pong st) = [] \<and>
        pp_echoed st = k \<and> rings_ready k st \<or>
      (\<exists>t0. pp_main st = Await t0 \<and> rings_ready (Suc k) st \<and>
        (ph = 2 \<and> ring_items (pp_ping st) = [t0] \<and> pp_echo st = Take \<and> ring_items (pp_pong st) = [] \<and> pp_echoed st = k \<or>
         ph = 3 \<and> ring_items (pp_ping st) = [] \<and> pp_echo st = Give t0 \<and> ring_items (pp_pong st) = [] \<and> pp_echoed st = k \<or>
         ph = 4 \<and> ring_items (pp_ping st) = [] \<and> pp_echo st = Take \<and> ring_items (pp_pong st) = [t0] \<and> pp_echoed st = Suc k)))"

lemma phase_le: "at_phase k ph st \<Longrightarrow> ph \<le> 4"
  by (auto simp: at_phase_def)

lemma phase_facts:
  assumes "at_phase k ph st"
  shows "length (pp_rtt st) = k" "pp_rtt st = map (\<lambda>(t0, v, t1). ucast ((t1 - t0) div 2)) (pp_log st)"
    "\<forall>(t0, v, t1)\<in>set (pp_log st). v = t0" "length (ring_items (pp_ping st)) + length (ring_items (pp_pong st)) \<le> 1"
  using assms unfolding at_phase_def by (blast, blast, blast, (elim conjE disjE exE; simp del: ring_items_len))

lemma main_step:
  assumes ph: "at_phase k ph st" and k: "k < n" "n < 2 ^ 63"
  obtains st' k' ph' where "main_turn clk n st = Some st'" and "at_phase k' ph' st'" and "k' \<le> n" and "k' = n \<longrightarrow> ph' = 0"
    and "5 * k + ph \<le> 5 * k' + ph'" and "ph \<noteq> 2 \<Longrightarrow> ph \<noteq> 3 \<Longrightarrow> 5 * k + ph < 5 * k' + ph'"
proof -
  have K: "length (pp_rtt st) = k" "pp_rtt st = map (\<lambda>(t0, v, t1). ucast ((t1 - t0) div 2)) (pp_log st)"
    "\<forall>(t0, v, t1)\<in>set (pp_log st). v = t0" by (fact phase_facts [OF ph])+
  consider (stamp) "ph = 0" | (push) "ph = 1" | (wait) "ph = 2 \<or> ph = 3" | (got) "ph = 4"
    using phase_le [OF ph] by (cases ph rule: nat.exhaust) (auto simp: numeral_eq_Suc le_Suc_eq)
  then show ?thesis
  proof cases
    case stamp
    show ?thesis
      by (rule that [of "st\<lparr>pp_main := Push (clk (pp_reads st)), pp_reads := pp_reads st + 1\<rparr>" k 1])
        (use ph stamp k in \<open>auto simp: main_turn_def at_phase_def rings_ready_def\<close>)
  next
    case push
    then obtain t0 where m: "pp_main st = Push t0" "ring_items (pp_ping st) = []" "rings_ready k st"
      "pp_echo st = Take" "ring_items (pp_pong st) = []" "pp_echoed st = k" using ph by (auto simp: at_phase_def)
    then obtain q where q: "try_push (pp_ping st) t0 = Some (True, q)" "ring_ok q" "ring_cap q = 64" "ring_items q = [t0]"
      "unat (r_head q) = unat (r_head (pp_ping st)) + 1"
      using ring.push_room [of "pp_ping st" t0] k by (auto simp: rings_ready_def)
    show ?thesis
      by (rule that [of "st\<lparr>pp_ping := q, pp_main := Await t0\<rparr>" k 2])
        (use m q K k push in \<open>auto simp: main_turn_def at_phase_def rings_ready_def\<close>)
  next
    case wait
    then obtain t0 where m: "pp_main st = Await t0" "rings_ready (Suc k) st" "ring_items (pp_pong st) = []"
      using ph by (auto simp: at_phase_def)
    then obtain q where q: "try_pop (pp_pong st) = Some (None, q)" "ring_ok q" "ring_cap q = 64" "ring_items q = []"
      "unat (r_head q) = unat (r_head (pp_pong st))"
      using ring.pop_none [of "pp_pong st"] by (auto simp: rings_ready_def)
    show ?thesis
      by (rule that [of "st\<lparr>pp_pong := q\<rparr>" k ph])
        (use ph m q K k wait in \<open>auto simp: main_turn_def at_phase_def rings_ready_def\<close>)
  next
    case got
    then obtain t0 where m: "pp_main st = Await t0" "rings_ready (Suc k) st" "ring_items (pp_pong st) = [t0]"
      "ring_items (pp_ping st) = []" "pp_echo st = Take" "pp_echoed st = Suc k" using ph by (auto simp: at_phase_def)
    then obtain q where q: "try_pop (pp_pong st) = Some (Some t0, q)" "ring_ok q" "ring_cap q = 64" "ring_items q = []"
      "unat (r_head q) = unat (r_head (pp_pong st))"
      using ring.pop_some [of "pp_pong st" t0 "[]"] by (auto simp: rings_ready_def)
    let ?t1 = "clk (pp_reads st)"
    show ?thesis
      by (rule that [of "st\<lparr>pp_pong := q, pp_main := Stamp, pp_reads := pp_reads st + 1,
          pp_rtt := pp_rtt st @ [ucast ((?t1 - t0) div 2)], pp_log := pp_log st @ [(t0, t0, ?t1)]\<rparr>" "Suc k" 0])
        (use m q K k got in \<open>auto simp: main_turn_def at_phase_def rings_ready_def Let_def\<close>)
  qed
qed

lemma main_idle: "at_phase k ph st \<Longrightarrow> n \<le> k \<Longrightarrow> main_turn clk n st = Some st"
  by (auto simp: main_turn_def at_phase_def)

lemma echo_step:
  assumes ph: "at_phase k ph st" and k: "k \<le> n" "n < 2 ^ 63" and lt: "k = n \<longrightarrow> ph = 0"
  obtains st' ph' where "echo_turn n st = Some st'" and "at_phase k ph' st'" and "ph \<le> ph'"
    and "ph = 2 \<or> ph = 3 \<Longrightarrow> ph < ph'" and "ph = 0 \<longrightarrow> ph' = 0"
proof -
  have K: "length (pp_rtt st) = k" "pp_rtt st = map (\<lambda>(t0, v, t1). ucast ((t1 - t0) div 2)) (pp_log st)"
    "\<forall>(t0, v, t1)\<in>set (pp_log st). v = t0" by (fact phase_facts [OF ph])+
  show ?thesis
  proof (cases "pp_echoed st < n")
    case False
    then have "ph \<noteq> 2" "ph \<noteq> 3" using ph k lt by (auto simp: at_phase_def)
    with False ph show ?thesis by (intro that [of st ph]) (auto simp: echo_turn_def)
  next
    case True
    consider (empty) "ph = 0 \<or> ph = 1 \<or> ph = 4" | (take) "ph = 2" | (give) "ph = 3"
      using phase_le [OF ph] by (cases ph rule: nat.exhaust) (auto simp: numeral_eq_Suc le_Suc_eq)
    then show ?thesis
    proof cases
      case empty
      then have m: "ring_ok (pp_ping st)" "ring_items (pp_ping st) = []" "pp_echo st = Take" "ring_cap (pp_ping st) = 64"
        using ph by (auto simp: at_phase_def rings_ready_def)
      then obtain q where q: "try_pop (pp_ping st) = Some (None, q)" "ring_ok q" "ring_cap q = 64" "ring_items q = []"
        "unat (r_head q) = unat (r_head (pp_ping st))"
        using ring.pop_none [of "pp_ping st"] by auto
      have "at_phase k ph (st\<lparr>pp_ping := q, pp_echo := Take\<rparr>)"
        using ph empty q unfolding at_phase_def rings_ready_def by force
      with True m q empty show ?thesis
        by (intro that [of "st\<lparr>pp_ping := q, pp_echo := Take\<rparr>" ph]) (auto simp: echo_turn_def)
    next
      case take
      then obtain t0 where m: "pp_main st = Await t0" "rings_ready (Suc k) st" "ring_items (pp_ping st) = [t0]"
        "ring_items (pp_pong st) = []" "pp_echo st = Take" "pp_echoed st = k" using ph by (auto simp: at_phase_def)
      then obtain q where q: "try_pop (pp_ping st) = Some (Some t0, q)" "ring_ok q" "ring_cap q = 64" "ring_items q = []"
        "unat (r_head q) = unat (r_head (pp_ping st))"
        using ring.pop_some [of "pp_ping st" t0 "[]"] by (auto simp: rings_ready_def)
      show ?thesis
        by (rule that [of "st\<lparr>pp_ping := q, pp_echo := Give t0\<rparr>" 3])
          (use True m q K take in \<open>auto simp: echo_turn_def at_phase_def rings_ready_def\<close>)
    next
      case give
      then obtain t0 where m: "pp_main st = Await t0" "rings_ready (Suc k) st" "ring_items (pp_ping st) = []"
        "ring_items (pp_pong st) = []" "pp_echo st = Give t0" "pp_echoed st = k" using ph by (auto simp: at_phase_def)
      then obtain q where q: "try_push (pp_pong st) t0 = Some (True, q)" "ring_ok q" "ring_cap q = 64" "ring_items q = [t0]"
        "unat (r_head q) = unat (r_head (pp_pong st)) + 1"
        using ring.push_room [of "pp_pong st" t0] k by (auto simp: rings_ready_def)
      show ?thesis
        by (rule that [of "st\<lparr>pp_pong := q, pp_echo := Take, pp_echoed := pp_echoed st + 1\<rparr>" 4])
          (use True m q K give in \<open>auto simp: echo_turn_def at_phase_def rings_ready_def\<close>)
    qed
  qed
qed

lemma ping_pong_inv:
  assumes "at_phase k ph st" and "k \<le> n" and "n < 2 ^ 63" and "k = n \<longrightarrow> ph = 0"
  shows "\<exists>st' k' ph'. ping_pong_run clk n ts st = Some st' \<and> at_phase k' ph' st' \<and> k' \<le> n \<and> (k' = n \<longrightarrow> ph' = 0)"
  using assms
proof (induction ts arbitrary: k ph st)
  case (Cons t ts)
  show ?case
  proof (cases t)
    case False
    show ?thesis
      by (rule echo_step [OF Cons.prems]) (use Cons.IH Cons.prems False in fastforce)
  next
    case True
    show ?thesis
    proof (cases "k < n")
      case idle: False
      then have "main_turn clk n st = Some st" using main_idle [OF Cons.prems(1)] by simp
      with Cons.IH [OF Cons.prems] True show ?thesis by simp
    next
      case k: True
      show ?thesis
      proof (rule main_step [OF Cons.prems(1) k Cons.prems(3), of clk])
        fix st' k' ph' assume s: "main_turn clk n st = Some st'" "at_phase k' ph' st'" "k' \<le> n" "k' = n \<longrightarrow> ph' = 0"
        from Cons.IH [OF s(2,3) Cons.prems(3) s(4)] s(1) True show ?thesis by simp
      qed
    qed
  qed
qed auto

lemma ping_pong_start_phase: "at_phase 0 0 ping_pong_start"
proof -
  have "pow2_cap 64" unfolding pow2_cap_def by (intro exI [of _ 6]) simp
  note R = ring_new_ok(1) [OF this, where 'a = u64]
  show ?thesis by (simp add: at_phase_def ping_pong_start_def rings_ready_def R ring_new_ok(2-4))
qed

text \<open>A turn of each thread advances the round.\<close>

lemma ping_pong_round:
  assumes ph: "at_phase k ph st" and k: "k < n" "n < 2 ^ 63"
  obtains st' k' ph' where "ping_pong_run clk n [True, False] st = Some st'" and "at_phase k' ph' st'" and "k' \<le> n"
    and "k' = n \<longrightarrow> ph' = 0" and "5 * k + ph < 5 * k' + ph'"
proof (rule main_step [OF ph k, of clk])
  fix st1 k1 ph1
  assume 1: "main_turn clk n st = Some st1" "at_phase k1 ph1 st1" "k1 \<le> n" "k1 = n \<longrightarrow> ph1 = 0"
    "5 * k + ph \<le> 5 * k1 + ph1" "ph \<noteq> 2 \<Longrightarrow> ph \<noteq> 3 \<Longrightarrow> 5 * k + ph < 5 * k1 + ph1"
  show thesis
  proof (rule echo_step [OF 1(2,3) k(2) 1(4)])
    fix st2 ph2
    assume 2: "echo_turn n st1 = Some st2" "at_phase k1 ph2 st2" "ph1 \<le> ph2" "ph1 = 2 \<or> ph1 = 3 \<Longrightarrow> ph1 < ph2"
      "ph1 = 0 \<longrightarrow> ph2 = 0"
    have "5 * k + ph < 5 * k1 + ph2"
    proof (cases "5 * k + ph < 5 * k1 + ph1")
      case False
      then have e: "5 * k + ph = 5 * k1 + ph1" "ph = 2 \<or> ph = 3" using 1(5,6) by auto
      then have "k1 = k \<and> ph1 = ph" using phase_le [OF 1(2)] by presburger
      with e 2(4) show ?thesis by auto
    qed (use 2(3) in simp)
    moreover have "ping_pong_run clk n [True, False] st = Some st2" using 1(1) 2(1) by simp
    ultimately show thesis using 1(3,4) 2(2,5) by (intro that) auto
  qed
qed

lemma ping_pong_append: "ping_pong_run clk n (ts @ us) st = ping_pong_run clk n ts st \<bind> ping_pong_run clk n us"
  by (induction ts arbitrary: st) (auto split: bind_splits)

lemma ping_pong_finishes:
  assumes "at_phase k ph st" and "k \<le> n" and "n < 2 ^ 63" and "k = n \<longrightarrow> ph = 0" and "5 * n \<le> 5 * k + ph + w"
  shows "\<exists>st'. ping_pong_run clk n (concat (replicate w [True, False])) st = Some st' \<and> at_phase n 0 st'"
  using assms
proof (induction w arbitrary: k ph st)
  case 0
  then have "k = n" using phase_le [OF 0(1)] by linarith
  with 0 show ?case by simp
next
  case (Suc w)
  show ?case
  proof (cases "k < n")
    case False
    with Suc.prems have e: "k = n" "ph = 0" by simp_all
    have "echo_turn n st = Some st" using Suc.prems(1) e by (auto simp: echo_turn_def at_phase_def)
    with main_idle [OF Suc.prems(1)] e have "ping_pong_run clk n [True, False] st = Some st" by simp
    with Suc.IH [OF Suc.prems(1-4)] e show ?thesis
      using ping_pong_append [of clk n "[True, False]" "concat (replicate w [True, False])" st] by simp
  next
    case k: True
    show ?thesis
    proof (rule ping_pong_round [OF Suc.prems(1) k Suc.prems(3), of clk])
      fix st' k' ph'
      assume s: "ping_pong_run clk n [True, False] st = Some st'" "at_phase k' ph' st'" "k' \<le> n" "k' = n \<longrightarrow> ph' = 0"
        "5 * k + ph < 5 * k' + ph'"
      have "5 * n \<le> 5 * k' + ph' + w" using s(5) Suc.prems(5) by linarith
      from Suc.IH [OF s(2,3) Suc.prems(3) s(4) this] s(1) show ?thesis
        using ping_pong_append [of clk n "[True, False]" "concat (replicate w [True, False])" st] by simp
    qed
  qed
qed

text \<open>The ping-pong of \<open>bench_rdtsc.cpp\<close> measures what it says, for every behaviour of the
  counter: under every schedule of the two threads the run is defined, at most one value is under
  way, every value the main thread receives is the stamp it sent in that round, and each sample
  is half the difference of the round's two readings; and \<open>5 n\<close> alternating turns complete all
  \<open>n\<close> rounds.\<close>

theorem ping_pong_exact:
  assumes "n < 2 ^ 63"
  shows "(\<exists>st. ping_pong_run clk n sched ping_pong_start = Some st \<and>
      length (ring_items (pp_ping st)) + length (ring_items (pp_pong st)) \<le> 1 \<and>
      pp_rtt st = map (\<lambda>(t0, v, t1). ucast ((t1 - t0) div 2)) (pp_log st) \<and> (\<forall>(t0, v, t1)\<in>set (pp_log st). v = t0)) \<and>
    (\<exists>st. ping_pong_run clk n (concat (replicate (5 * n) [True, False])) ping_pong_start = Some st \<and>
      length (pp_rtt st) = n \<and> length (steady n st) = n - n div 10)"
proof
  from ping_pong_inv [OF ping_pong_start_phase _ assms, of clk sched] obtain st k ph where
    "ping_pong_run clk n sched ping_pong_start = Some st" "at_phase k ph st" by auto
  then show "\<exists>st. ping_pong_run clk n sched ping_pong_start = Some st \<and>
      length (ring_items (pp_ping st)) + length (ring_items (pp_pong st)) \<le> 1 \<and>
      pp_rtt st = map (\<lambda>(t0, v, t1). ucast ((t1 - t0) div 2)) (pp_log st) \<and> (\<forall>(t0, v, t1)\<in>set (pp_log st). v = t0)"
    using phase_facts by blast
  from ping_pong_finishes [OF ping_pong_start_phase _ assms, of "5 * n" clk] obtain st where
    "ping_pong_run clk n (concat (replicate (5 * n) [True, False])) ping_pong_start = Some st" "at_phase n 0 st" by auto
  then show "\<exists>st. ping_pong_run clk n (concat (replicate (5 * n) [True, False])) ping_pong_start = Some st \<and>
      length (pp_rtt st) = n \<and> length (steady n st) = n - n div 10"
    using phase_facts(1) by (auto simp: steady_def)
qed

theorem ping_pong_exact_witness:
  "\<exists>st. ping_pong_run word_of_nat 100000 (concat (replicate (5 * 100000) [True, False])) ping_pong_start = Some st \<and>
    length (pp_rtt st) = 100000"
proof -
  have "(100000 :: nat) < 2 ^ 63" by simp
  from ping_pong_exact [OF this, of word_of_nat] show ?thesis by blast
qed

section \<open>The overhead of a measurement\<close>

text \<open>\<open>measure_tsc_overhead\<close> of \<open>rdtsc.hpp\<close>; the source makes 10000 rounds.\<close>

definition tsc_overhead :: "(nat \<Rightarrow> u64) \<Rightarrow> nat \<Rightarrow> u64" where
  "tsc_overhead clk n = fold (\<lambda>i best. let a = clk (2 * i); b = clk (2 * i + 1)
     in if b - a < best then b - a else best) [0..<n] (- 1)"

lemma tsc_overhead_least:
  "(\<forall>i<n. tsc_overhead clk n \<le> clk (2 * i + 1) - clk (2 * i)) \<and>
   (n = 0 \<or> (\<exists>i<n. tsc_overhead clk n = clk (2 * i + 1) - clk (2 * i)))"
proof (induction n)
  case (Suc n)
  let ?d = "clk (2 * n + 1) - clk (2 * n)"
  have s: "tsc_overhead clk (Suc n) = (if ?d < tsc_overhead clk n then ?d else tsc_overhead clk n)"
    by (simp add: tsc_overhead_def Let_def)
  show ?case
  proof (cases "?d < tsc_overhead clk n")
    case True
    then show ?thesis using Suc unfolding s by (auto simp: less_Suc_eq)
  next
    case False
    have "n = 0 \<Longrightarrow> ?d = tsc_overhead clk n"
      using False by (simp add: tsc_overhead_def not_less) (metis word_n1_ge antisym)
    with False Suc show ?thesis unfolding s by (auto simp: less_Suc_eq not_less)
  qed
qed simp

end
