(* ===== verification/Landing.thy ===== *)
theory Landing
  imports Pipeline
begin

text \<open>
  The sessions over the arena as \<open>bench_flat_hash.cpp\<close>, \<open>bench_journal.cpp\<close> and \<open>bench_signals.cpp\<close>
  run them: the producer loop that counts messages, the loops of \<open>main\<close> that touch every slot of
  the arena before the first run, the run after run on one arena, and the pacing of the producer.

  The touching loops justify the assumption \<open>idle_arena\<close> of the theorems about sessions: they leave
  the arena empty, and so does every session that has ended.
\<close>

section \<open>The producer loop\<close>

text \<open>The producer loop up to \<open>try_acquire\<close>; unlike \<open>run_arena\<close> this one relies on the number of messages
  alone.\<close>

definition next_frame :: "nat \<times> parser \<Rightarrow> (u8 list option \<times> nat \<times> parser) option" where
  "next_frame = (\<lambda>(k, ps).
     if k = 0 then Some (None, k, ps)
     else do {
       w \<leftarrow> load_be16 (ps_buf ps) (ps_cur ps);
       let n = 2 + unat w;
       if 64 < n then None
       else do {
         bs \<leftarrow> bytes_at (ps_buf ps) (ps_cur ps) n;
         Some (Some bs, k - 1, ps\<lparr>ps_cur := ps_cur ps + n\<rparr>)
       }
     })"

text \<open>\<open>run_session\<close>: the producer thread and the main thread, with the sink of the gateway.\<close>

definition paced_run :: "(wire_msg \<Rightarrow> 'g \<Rightarrow> 'g option) \<Rightarrow> nat \<Rightarrow> bool list \<Rightarrow>
    (nat \<times> parser, u8 list, u8 list arena_ring, 'g) pipe \<Rightarrow> (nat \<times> parser, u8 list, u8 list arena_ring, 'g) pipe option" where
  "paced_run sink n = pipe_run n next_frame arena_push arena_pop (engine_slot sink)"

section \<open>The path of the frames\<close>

definition emits_exact :: "nat \<times> parser \<Rightarrow> u8 list list \<Rightarrow> bool" where
  "emits_exact p slots \<longleftrightarrow> emits_slots p slots \<and> fst p = length slots"

lemma next_frame_land: "ps_cur ps + 2 \<le> ps_end ps \<Longrightarrow> next_frame (k, ps) = land_frame (k, ps)"
  by (simp add: next_frame_def land_frame_def)

interpretation landing: pipeline arena_ok arena_cap arena_items "\<lambda>r. unat (ar_head r)" arena_push arena_pop
  next_frame emits_exact "engine_slot sink" for sink :: "wire_msg \<Rightarrow> 'g \<Rightarrow> 'g option"
proof unfold_locales
  fix p :: "nat \<times> parser" and x xs
  assume a: "emits_exact p (x # xs)"
  obtain k ps where p: "p = (k, ps)" by force
  from a obtain p' where p': "land_frame p = Some (Some x, p')" "emits_slots p' xs"
    using zero_copy.src_some [of p x xs] by (auto simp: emits_exact_def)
  have room: "ps_cur ps + 2 \<le> ps_end ps" using p'(1) by (auto simp: p land_frame_def not_less split: if_splits)
  have "fst p' = length xs" using a p'(1) unfolding p
    by (auto simp: emits_exact_def land_frame_def Let_def bind_eq_Some_conv split: if_splits)
  with p' next_frame_land [OF room, of k] p show "\<exists>p'. next_frame p = Some (Some x, p') \<and> emits_exact p' xs"
    by (auto simp: emits_exact_def)
next
  fix p :: "nat \<times> parser"
  assume a: "emits_exact p []"
  then have "next_frame p = Some (None, p)" by (auto simp: emits_exact_def next_frame_def split: prod.split)
  with a show "\<exists>p'. next_frame p = Some (None, p') \<and> emits_exact p' []" by blast
qed (rule zero_copy.cap_pos)

lemma producer_frame: "producer_turn src push p = Some p' \<Longrightarrow> pi_done p' = pi_done p \<and> pi_eng p' = pi_eng p"
  by (auto simp: producer_turn_def bind_eq_Some_conv split: option.splits)

lemma consumer_done: "consumer_turn n pop app p = Some p' \<Longrightarrow> pi_done p' = pi_done p \<or> pi_done p' = Suc (pi_done p)"
  by (auto simp: consumer_turn_def bind_eq_Some_conv split: option.splits if_splits)

lemma consumer_frame: "consumer_turn n pop app p = Some p' \<Longrightarrow> pi_src p' = pi_src p \<and> pi_pending p' = pi_pending p"
  by (auto simp: consumer_turn_def bind_eq_Some_conv split: option.splits if_splits)

lemma landing_index: "landing.pipe_inv sink xs gw0 p left \<Longrightarrow> fst (pi_src p) = length left"
  by (simp add: landing.pipe_inv_def emits_exact_def)

lemma landing_start:
  assumes "list_all2 (\<lambda>bs w. payload_msg bs = Some w) bss ws" and "idle_arena q (length ws)"
  shows "landing.pipe_inv sink (map frame bss) gw (arena_start (length ws) (concat (map frame bss)) q gw) (map frame bss)"
proof -
  have l: "length bss = length ws" using assms(1) by (rule list_all2_lengthD)
  let ?feed = "concat (map frame bss)"
  have "emits_frames (parser_new ?feed (length ?feed)) bss ws" using assms(1) by (simp add: emits_frames_def parser_new_def)
  then have "emits_exact (length ws, parser_new ?feed (length ?feed)) (map frame bss)"
    using l by (auto simp: emits_exact_def emits_slots_def)
  then show ?thesis unfolding arena_start_def
    using assms(2) l by (intro landing.inv_start) (simp_all add: idle_arena_def)
qed

lemma paced_run_sink:
  assumes ws: "list_all2 (\<lambda>bs w. payload_msg bs = Some w) bss ws" and q: "idle_arena q (length ws + m)" and g: "sink_all sink ws g0 = Some g"
  shows "\<exists>p. paced_run sink (length ws) ts (arena_start (length ws) (concat (map frame bss)) q g0) = Some p \<and>
    pi_done p \<le> length ws \<and> (pi_done p = length ws \<longrightarrow> pi_eng p = g \<and> idle_arena (pi_queue p) m)"
proof -
  have l: "length (map frame bss) = length ws" using list_all2_lengthD [OF ws] by simp
  let ?p0 = "arena_start (length ws) (concat (map frame bss)) q g0"
  have "idle_arena q (length ws)" using q by (simp add: idle_arena_def)
  note inv = landing_start [OF ws this, of sink g0]
  have fin: "apply_items (engine_slot sink) (map frame bss) g0 = Some g" using g by (simp add: apply_items_frames [OF ws])
  obtain p left where p: "paced_run sink (length ws) ts ?p0 = Some p"
    "landing.pipe_inv sink (map frame bss) g0 p left" "landing.load p left = landing.load ?p0 (map frame bss)"
    using landing.run_inv [OF inv, of "length ws" ts] fin l by (auto simp: paced_run_def)
  have "pi_eng p = g \<and> idle_arena (pi_queue p) m" if d: "pi_done p = length ws"
  proof -
    have "pi_done p = length (map frame bss)" using d l by simp
    note D = landing.inv_finished [OF p(2) this]
    have "unat (ar_head (pi_queue p)) = unat (ar_head q) + length ws"
      using p(3) D(1,2) l by (simp add: landing.load_def arena_start_def)
    with D(3-5) fin q show ?thesis by (simp add: idle_arena_def)
  qed
  with p(1) landing.inv_applied [OF p(2)] l show ?thesis by auto
qed

section \<open>Touching the arena\<close>

text \<open>\<open>for\<close>: acquire a slot, write its first byte, publish it, until the ring is full. \<open>while\<close>: release
  what has been published.\<close>

fun touch_slots :: "nat \<Rightarrow> u8 list arena_ring \<Rightarrow> u8 list arena_ring option" where
  "touch_slots 0 q = Some q"
| "touch_slots (Suc m) q = (case try_acquire (ar_tail q) q of
     (None, q) \<Rightarrow> Some q
   | (Some p, q) \<Rightarrow> do {
       q \<leftarrow> fill_slot q p [0];
       touch_slots m (publish q)
     })"

partial_function (option) release_all :: "'a arena_ring \<Rightarrow> 'a arena_ring option" where
  "release_all q = (case try_front (ar_head q) q of
     (None, q) \<Rightarrow> Some q
   | (Some p, q) \<Rightarrow> release_all (release q))"

definition pretouch :: "nat \<Rightarrow> u8 list arena_ring \<Rightarrow> u8 list arena_ring option" where
  "pretouch m q = touch_slots m q \<bind> release_all"

lemma touch_push: "touch_slots (Suc m) q = do { (r, q) \<leftarrow> arena_push q [0]; if r then touch_slots m q else Some q }"
  by (auto simp: arena_push_def split: prod.splits option.splits bind_splits)

lemma touch_slots_ok:
  assumes "arena_ok q" and "unat (ar_head q) + m < 2 ^ 64"
  obtains q' where "touch_slots m q = Some q'" and "arena_ok q'" and "unat (ar_head q') \<le> unat (ar_head q) + m"
  using assms
proof (induction m arbitrary: q thesis)
  case (Suc m)
  have "unat (ar_head q) + 1 < 2 ^ 64" using Suc.prems(3) by simp
  with Suc.prems(2) show ?case
  proof (rule aring.push_cases [of q "[0]"])
    fix r q1
    assume q1: "arena_push q [0] = Some (r, q1)" "arena_ok q1" "unat (ar_head q1) = (if r then unat (ar_head q) + 1 else unat (ar_head q))"
    show ?case
    proof (cases r)
      case True
      with q1(3) Suc.prems(3) have h: "unat (ar_head q1) + m < 2 ^ 64" by simp
      obtain q2 where "touch_slots m q1 = Some q2" "arena_ok q2" "unat (ar_head q2) \<le> unat (ar_head q1) + m"
        by (rule Suc.IH [OF _ q1(2) h])
      with q1 True show ?thesis by (intro Suc.prems(1) [of q2]) (simp_all add: touch_push del: touch_slots.simps)
    next
      case False
      with q1 show ?thesis by (intro Suc.prems(1) [of q1]) (simp_all add: touch_push del: touch_slots.simps)
    qed
  qed
qed simp

lemma front_pop:
  "arena_pop q = Some (None, q') \<Longrightarrow> try_front (ar_head q) q = (None, q')"
  "arena_pop q = Some (Some x, q') \<Longrightarrow> \<exists>p q1. try_front (ar_head q) q = (Some p, q1) \<and> q' = release q1"
  by (auto simp: arena_pop_def bind_eq_Some_conv split: prod.splits option.splits)

lemma release_all_ok:
  assumes "arena_ok q"
  obtains q' where "release_all q = Some q'" and "arena_ok q'" and "arena_items q' = []" and "ar_head q' = ar_head q"
  using assms
proof (induction "arena_items q" arbitrary: q thesis)
  case Nil
  from aring.pop_none [OF Nil(3)] Nil(1) obtain q' where q': "arena_pop q = Some (None, q')" "arena_ok q'" "arena_items q' = []"
    "unat (ar_head q') = unat (ar_head q)" by auto
  show ?case
    by (rule Nil(2) [of q'])
      (use q' front_pop(1) [OF q'(1)] in \<open>simp_all add: release_all.simps [of q] word_unat_eq_iff\<close>)
next
  case (Cons x xs)
  from aring.pop_some [OF Cons(4) Cons(2) [symmetric]] obtain q1 where q1: "arena_pop q = Some (Some x, q1)" "arena_ok q1"
    "arena_items q1 = xs" "unat (ar_head q1) = unat (ar_head q)" by auto
  obtain q' where q': "release_all q1 = Some q'" "arena_ok q'" "arena_items q' = []" "ar_head q' = ar_head q1"
    by (rule Cons(1) [OF q1(3) [symmetric] _ q1(2)])
  obtain p q0 where "try_front (ar_head q) q = (Some p, q0)" "q1 = release q0" using front_pop(2) [OF q1(1)] by blast
  with q' q1(4) show ?case
    by (intro Cons(3) [of q']) (simp_all add: release_all.simps [of q] word_unat_eq_iff)
qed

lemma pretouch_idle:
  assumes "idle_arena q (m + n)"
  obtains q' where "pretouch m q = Some q'" and "idle_arena q' n"
proof -
  obtain q1 where q1: "touch_slots m q = Some q1" "arena_ok q1" "unat (ar_head q1) \<le> unat (ar_head q) + m"
    by (rule touch_slots_ok [of q m]) (use assms in \<open>auto simp: idle_arena_def\<close>)
  obtain q2 where "release_all q1 = Some q2" "arena_ok q2" "arena_items q2 = []" "ar_head q2 = ar_head q1"
    by (rule release_all_ok [OF q1(2)])
  with q1 assms show ?thesis by (intro that [of q2]) (simp_all add: pretouch_def idle_arena_def)
qed

lemma idle_fresh: "k < 2 ^ 64 \<Longrightarrow> idle_arena (arena_new (2 ^ 14)) k"
  using idle_new by (simp add: idle_arena_def arena_new_def)

section \<open>The A/B benchmark of the two gateways\<close>

text \<open>Section 3 of \<open>bench_flat_hash.cpp\<close>: the feed, the touched arena, run A with the dense and run B with
  the hash gateway. A run returns when all messages are done, so B starts on the queue that A
  leaves then.\<close>

definition arena_setup :: "u8 list arena_ring option" where
  "arena_setup = pretouch (2 ^ 14) (arena_new (2 ^ 14))"

definition dense_session :: "nat \<Rightarrow> bool list \<Rightarrow> feed_state \<Rightarrow> u8 list arena_ring \<Rightarrow>
    (nat \<times> parser, u8 list, u8 list arena_ring, dense_gateway) pipe option" where
  "dense_session n ts fs q = paced_run gateway_sink n ts (arena_start n (fd_buf fs) q (gateway_new (fs_max_ref (fd_st fs))))"

definition hash_session :: "nat \<Rightarrow> bool list \<Rightarrow> feed_state \<Rightarrow> u8 list arena_ring \<Rightarrow>
    (nat \<times> parser, u8 list, u8 list arena_ring, hash_gateway) pipe option" where
  "hash_session n ts fs q = paced_run hash_sink n ts (arena_start n (fd_buf fs) q hash_gateway_new)"

lemma arena_setup_idle:
  assumes "m \<le> 2 ^ 63"
  obtains q where "arena_setup = Some q" and "idle_arena q m"
proof -
  have "idle_arena (arena_new (2 ^ 14)) (2 ^ 14 + m)" by (rule idle_fresh) (use assms in simp)
  then obtain q where "pretouch (2 ^ 14) (arena_new (2 ^ 14)) = Some q" "idle_arena q m" by (rule pretouch_idle)
  then show ?thesis by (intro that [of q]) (simp_all add: arena_setup_def)
qed

text \<open>C19. The A/B benchmark as \<open>main\<close> runs it: touching the arena ends and leaves it empty; under every
  schedule of the two threads both runs are defined, also the second one on the arena that the
  first one has used; each run that has ended passes the printed check, and the sparse
  references of the hash gateway have led to exactly the book of the dense one.\<close>

theorem ab_sessions_verified:
  assumes "generate_feed n seed = Some fs" and "n \<le> 1048576"
  shows "\<exists>q a. arena_setup = Some q \<and> dense_session n ts fs q = Some a \<and>
    (pi_done a = n \<longrightarrow> gw_trades (pi_eng a) = fs_execs (fd_st fs) \<and>
      (\<exists>b. hash_session n us fs (pi_queue a) = Some b \<and>
        (pi_done b = n \<longrightarrow> gw_trades (pi_eng b) = fs_execs (fd_st fs) \<and> gw_book (pi_eng b) = gw_book (pi_eng a))))"
proof (rule feed_engines [OF assms])
  fix ws gw hg
  let ?gw0 = "gateway_new (fs_max_ref (fd_st fs))"
  assume w: "length ws = n" "well_framed (fd_buf fs) ws" "apply_all gateway_apply (map decode_msg ws) ?gw0 = Some gw"
    "gw_trades gw = fs_execs (fd_st fs)" "apply_all hash_gateway_apply (map decode_msg ws) hash_gateway_new = Some hg"
    "gw_trades hg = fs_execs (fd_st fs)" "gw_book hg = gw_book gw"
  from w(2) obtain bss where bss: "fd_buf fs = concat (map frame bss)" "list_all2 (\<lambda>bs w. payload_msg bs = Some w) bss ws"
    by (auto simp: well_framed_def)
  have sink: "sink_all gateway_sink ws ?gw0 = Some gw" "sink_all hash_sink ws hash_gateway_new = Some hg"
    using w(3,5) by (simp_all add: sink_all_gateway sink_all_hash)
  obtain q where q: "arena_setup = Some q" "idle_arena q (n + n)" by (rule arena_setup_idle [of "n + n"]) (use assms(2) in auto)
  note run = paced_run_sink [OF bss(2), folded bss(1), unfolded w(1)]
  obtain a where a: "dense_session n ts fs q = Some a" "pi_done a = n \<longrightarrow> pi_eng a = gw \<and> idle_arena (pi_queue a) n"
    using run [OF q(2) sink(1), of ts] by (auto simp: dense_session_def)
  have "\<exists>b. hash_session n us fs (pi_queue a) = Some b \<and> (pi_done b = n \<longrightarrow> pi_eng b = hg)" if "pi_done a = n"
    using run [OF _ sink(2), of "pi_queue a" 0 us] a(2) that by (auto simp: hash_session_def)
  then show ?thesis using q(1) a w by auto
qed

theorem ab_sessions_verified_witness:
  "\<exists>fs q a. generate_feed 1 7 = Some fs \<and> arena_setup = Some q \<and> dense_session 1 [True, True, False] fs q = Some a \<and>
    (pi_done a = 1 \<longrightarrow> (\<exists>b. hash_session 1 [True, True, False] fs (pi_queue a) = Some b))"
proof -
  obtain fs where fs: "generate_feed 1 7 = Some fs" using generate_one by blast
  from ab_sessions_verified [OF fs, of "[True, True, False]" "[True, True, False]"] fs show ?thesis by auto
qed

end
