(* ===== verification/Market_Session.thy ===== *)
theory Market_Session
  imports Landing Bbo Signals
begin

text \<open>
  \<open>run_session\<close> of \<open>bench/bench_signals.cpp\<close>: a producer thread lands the frames of the feed in the
  arena and stamps each of them, the main thread parses them in place, applies them to the
  gateway and calls the publisher, and a third thread drains the ring of updates until the main
  thread raises \<open>stop\<close> and the ring is empty. The source runs it once with the BBO and once with
  the signal publisher; here it is generic in the publisher.

  The locale \<open>session_publisher\<close> extends the contract of the publishers by the one thing a session
  needs of them: publishing is defined as long as the tops are those a generated feed can
  produce. The lemma \<open>session_history\<close> in it says that every schedule of the three threads is a
  history of the sequential replay, so that all theorems about histories hold for the session.
\<close>

section \<open>The threads\<close>

record ('p, 'u) market_session =
  mk_pipe :: "(nat \<times> parser, u8 list, u8 list arena_ring, dense_gateway) pipe"
  mk_t0 :: "u64 list"
  mk_pub :: 'p
  mk_ring :: "'u ring"
  mk_stop :: bool
  mk_log :: "'u list"
  mk_halted :: bool

definition session_start :: "nat \<Rightarrow> u8 list \<Rightarrow> u8 list arena_ring \<Rightarrow> u64 \<Rightarrow> 'p \<Rightarrow> 'u ring \<Rightarrow> ('p, 'u) market_session" where
  "session_start n feed arena max_ref pub ring =
     \<lparr>mk_pipe = arena_start n feed arena (gateway_new max_ref), mk_t0 = replicate n 0, mk_pub = pub, mk_ring = ring,
      mk_stop = False, mk_log = [], mk_halted = False\<rparr>"

definition wire_turn :: "nat \<Rightarrow> u64 \<Rightarrow> ('p, 'u) market_session \<Rightarrow> ('p, 'u) market_session option" where
  "wire_turn n clock st =
     (let p = mk_pipe st;
          k = fst (pi_src p)
      in if pi_pending p = None \<and> 0 < k then do {
           t0 \<leftarrow> aput (mk_t0 st) (n - k) clock;
           p \<leftarrow> producer_turn next_frame arena_push p;
           Some (st\<lparr>mk_t0 := t0, mk_pipe := p\<rparr>)
         }
         else do {
           p \<leftarrow> producer_turn next_frame arena_push p;
           Some (st\<lparr>mk_pipe := p\<rparr>)
         })"

definition match_turn :: "(book \<Rightarrow> u64 \<Rightarrow> 'p \<Rightarrow> 'u ring \<Rightarrow> ('p \<times> 'u ring) option) \<Rightarrow> nat \<Rightarrow>
    ('p, 'u) market_session \<Rightarrow> ('p, 'u) market_session option" where
  "match_turn step n st =
     (let p = mk_pipe st;
          k = pi_done p
      in if k < n then do {
           p \<leftarrow> consumer_turn n arena_pop (engine_slot gateway_sink) p;
           let st = st\<lparr>mk_pipe := p\<rparr>;
           if pi_done p = k then Some st
           else do {
             t \<leftarrow> aget (mk_t0 st) k;
             (pub, r) \<leftarrow> step (gw_book (pi_eng p)) t (mk_pub st) (mk_ring st);
             Some (st\<lparr>mk_pub := pub, mk_ring := r\<rparr>)
           }
         }
         else if 0 < fst (pi_src p) \<or> pi_pending p \<noteq> None then Some st
         else Some (st\<lparr>mk_stop := True\<rparr>))"

definition drain_turn :: "('p, 'u) market_session \<Rightarrow> ('p, 'u) market_session option" where
  "drain_turn st =
     (if mk_halted st then Some st
      else do {
        (x, r) \<leftarrow> try_pop (mk_ring st);
        let st = st\<lparr>mk_ring := r\<rparr>;
        Some (case x of
          None \<Rightarrow> st\<lparr>mk_halted := mk_stop st\<rparr>
        | Some u \<Rightarrow> st\<lparr>mk_log := mk_log st @ [u]\<rparr>)
      })"

datatype role = Wire | Match | Drain

definition session_turn :: "(book \<Rightarrow> u64 \<Rightarrow> 'p \<Rightarrow> 'u ring \<Rightarrow> ('p \<times> 'u ring) option) \<Rightarrow> nat \<Rightarrow> role \<Rightarrow> u64 \<Rightarrow>
    ('p, 'u) market_session \<Rightarrow> ('p, 'u) market_session option" where
  "session_turn step n t clock st = (case t of
     Wire \<Rightarrow> wire_turn n clock st
   | Match \<Rightarrow> match_turn step n st
   | Drain \<Rightarrow> drain_turn st)"

fun session_run :: "(book \<Rightarrow> u64 \<Rightarrow> 'p \<Rightarrow> 'u ring \<Rightarrow> ('p \<times> 'u ring) option) \<Rightarrow> nat \<Rightarrow> (role \<times> u64) list \<Rightarrow>
    ('p, 'u) market_session \<Rightarrow> ('p, 'u) market_session option" where
  "session_run step n [] st = Some st"
| "session_run step n ((t, clock) # ts) st = session_turn step n t clock st \<bind> session_run step n ts"

lemma session_run_append: "session_run step n (ts @ us) st = session_run step n ts st \<bind> session_run step n us"
  by (induction ts arbitrary: st) (auto split: bind_splits)

section \<open>The books of a generated feed\<close>

text \<open>The book when the first \<open>k + 1\<close> messages have been applied, one after the other.\<close>

definition book_after :: "wire_msg list \<Rightarrow> dense_gateway \<Rightarrow> nat \<Rightarrow> book" where
  "book_after ws gw k = gw_book (the (sink_all gateway_sink (take (Suc k) ws) gw))"

lemma live_run_take:
  assumes "live_run ms lb0 = Some lbF"
  obtains lb where "live_run (take k ms) lb0 = Some lb"
  using assms live_run_append [of "take k ms" "drop k ms" lb0] that by (cases "live_run (take k ms) lb0") auto

lemma sum_bound: "\<forall>x\<in>set xs. 0 < f x \<and> f x \<le> (c :: int) \<Longrightarrow> 0 \<le> (\<Sum>x\<leftarrow>xs. f x) \<and> (\<Sum>x\<leftarrow>xs. f x) \<le> c * int (length xs)"
  by (induction xs) (auto simp: algebra_simps)

lemma replay_top:
  assumes inv: "replay_inv gw lb {} n" and n: "n \<le> 1048576" and live: "live_ok lb" "\<forall>r s. fst lb r = Some s \<longrightarrow> s \<le> 35"
  shows "bounded_top (top_of_book (gw_book gw))"
proof -
  let ?b = "gw_book gw" and ?B = "abs_book (gw_book gw)"
  note I = inv [unfolded replay_inv_def mirrors_def book_params_def]
  have ok: "book_ok ?b" using I by (simp add: dense.sound_def)
  obtain qs where rep: "book_rep ?b qs" using ok by (rule book_okE)
  have base: "sint (bk_base ?b) = 1000000" using I by (simp add: BASE_def)
  have fit: "prices_fit ?b" using I base by (simp add: prices_fit_def)
  have q: "0 < a_qty x \<and> a_qty x \<le> 35" if "x \<in> set (?B s)" for x s
  proof -
    have "(a_id x, a_qty x) \<in> book_pairs ?B" using that by (cases s) (auto simp: book_pairs_def)
    then show ?thesis using I live by (fastforce simp: live_pairs_def live_ok_def)
  qed
  have len: "length (?B s) \<le> 1048576" for s using I n by (cases s) (simp_all add: resting_def)
  have px: "- 1 \<le> sint (side_px ?b s) \<and> sint (side_px ?b s) < 2 ^ 21" for s
  proof (cases "?B s")
    case (Cons x L)
    have t: "a_tick x < NumTicks ?b"
      using best_level_head(2) [OF rep, of s] Cons marked_bound [OF book_repD(1) [OF rep], of "a_tick x" s] by simp
    with ladder_price(1) [OF fit t] I base show ?thesis by (simp add: side_px_def Cons)
  qed (simp add: side_px_def)
  have qty: "0 \<le> sint (side_qty ?b s) \<and> sint (side_qty ?b s) < 2 ^ 31" for s
  proof (cases "?B s")
    case (Cons x L)
    let ?ys = "filter (\<lambda>y. a_tick y = a_tick x) (x # L)"
    have "\<forall>y\<in>set ?ys. 0 < a_qty y \<and> a_qty y \<le> 35" using q [of _ s] Cons by auto
    from sum_bound [OF this] have "0 \<le> (\<Sum>y\<leftarrow>?ys. a_qty y)" "(\<Sum>y\<leftarrow>?ys. a_qty y) \<le> 35 * int (length ?ys)" by auto
    moreover have "length ?ys \<le> 1048576" using le_trans [OF length_filter_le len [of s]] Cons by metis
    ultimately have "0 \<le> (\<Sum>y\<leftarrow>?ys. a_qty y) \<and> (\<Sum>y\<leftarrow>?ys. a_qty y) < 2 ^ 31" by simp
    moreover have "side_qty ?b s = of_int (\<Sum>y\<leftarrow>?ys. a_qty y)" by (simp add: side_qty_def Cons)
    ultimately show ?thesis by (simp add: signed_of_int signed_take_bit_int_eq_self del: filter.simps)
  qed (simp add: side_qty_def)
  show ?thesis using px qty by (simp add: top_exact [OF ok fit] bounded_top_def)
qed

text \<open>Any prefix of the messages can be replayed, and shows a bounded top.\<close>

lemma replay_prefix:
  assumes run: "live_run ms live_start = Some lb" and mx: "snd lb \<le> max_ref" "max_ref \<noteq> - 1"
    and adds: "adds ms \<le> 1048576" and small: "small_adds ms"
  obtains gw where "apply_all gateway_apply (take k ms) (gateway_new max_ref) = Some gw" and "bounded_top (top_of_book (gw_book gw))"
proof -
  obtain lb1 where 1: "live_run (take k ms) live_start = Some lb1" by (rule live_run_take [OF run])
  have "\<forall>m\<in>set (take k ms). unat (m_id m) < length (gw_refs (gateway_new max_ref))"
    using live_run_dense [OF run mx] by (auto dest: in_set_takeD)
  moreover have a: "adds (take k ms) \<le> 1048576"
    using adds adds_simps(3) [of "take k ms" "drop k ms"] by simp
  ultimately obtain gw where gw: "apply_all gateway_apply (take k ms) (gateway_new max_ref) = Some gw"
    "replay_inv gw lb1 {} (adds (take k ms))"
    using replay_run [OF replay_start [OF mx(2)] live_start_ok 1] by auto
  have "small_adds (take k ms)" using small by (auto simp: small_adds_def dest: in_set_takeD)
  then have "\<forall>r s. fst lb1 r = Some s \<longrightarrow> s \<le> 35" by (rule live_run_small [OF 1]) (simp add: live_start_def)
  moreover have "live_ok lb1" using live_run_ok [OF 1 live_start_ok] by blast
  ultimately show ?thesis using that [OF gw(1) replay_top [OF gw(2) a]] by blast
qed

section \<open>Every schedule is a history\<close>

text \<open>The books and stamps that a history publishes.\<close>

fun applied :: "market_event list \<Rightarrow> (book \<times> u64) list" where
  "applied [] = []"
| "applied (Applied b tsc # es) = (b, tsc) # applied es"
| "applied (Taken # es) = applied es"

lemma applied_append [simp]: "applied (es @ fs) = applied es @ applied fs"
  by (induction es rule: applied.induct) simp_all

lemma applies_applied: "applies es = length (applied es)"
  by (induction es rule: applied.induct) simp_all

locale session_publisher = conflating_publisher step seen seq sent lost stamp narrow
  for step :: "book \<Rightarrow> u64 \<Rightarrow> 'p \<Rightarrow> 'u ring \<Rightarrow> ('p \<times> 'u ring) option"
    and seen :: "'p \<Rightarrow> top" and seq :: "'p \<Rightarrow> u64" and sent :: "'p \<Rightarrow> u64" and lost :: "'p \<Rightarrow> u64"
    and stamp :: "'u \<Rightarrow> u64 \<times> u64 \<times> 'n" and narrow :: "top \<Rightarrow> 'n" +
  fixes fine :: "'p \<Rightarrow> nat \<Rightarrow> bool"
  assumes publishes: "fine p k \<Longrightarrow> k < 2 ^ 28 \<Longrightarrow> bounded_top (top_of_book b) \<Longrightarrow> ring_ok r \<Longrightarrow> unat (r_head r) \<le> k \<Longrightarrow>
    \<exists>p' r'. step b tsc p r = Some (p', r') \<and> ring_ok r' \<and> unat (r_head r') \<le> Suc k \<and> fine p' (Suc k)"
begin

definition session_inv :: "wire_msg list \<Rightarrow> u8 list list \<Rightarrow> dense_gateway \<Rightarrow> 'p \<Rightarrow> 'u ring \<Rightarrow> ('p, 'u) market_session \<Rightarrow> bool" where
  "session_inv ws bss gw0 p0 r0 st \<longleftrightarrow>
     (\<exists>left. landing.pipe_inv gateway_sink (map frame bss) gw0 (mk_pipe st) left) \<and> length (mk_t0 st) = length bss \<and>
     fine (mk_pub st) (pi_done (mk_pipe st)) \<and> ring_ok (mk_ring st) \<and> unat (r_head (mk_ring st)) \<le> pi_done (mk_pipe st) \<and>
     (\<exists>es. market_run step es p0 r0 = Some (mk_log st, mk_pub st, mk_ring st) \<and>
       applied es = map (\<lambda>k. (book_after ws gw0 k, mk_t0 st ! k)) [0..<pi_done (mk_pipe st)]) \<and>
     (mk_stop st \<longrightarrow> pi_done (mk_pipe st) = length bss) \<and>
     (mk_halted st \<longrightarrow> mk_stop st \<and> ring_items (mk_ring st) = [])"

lemma session_invD:
  assumes "session_inv ws bss gw0 p0 r0 st"
  obtains left es where "landing.pipe_inv gateway_sink (map frame bss) gw0 (mk_pipe st) left" and "length (mk_t0 st) = length bss"
    and "fine (mk_pub st) (pi_done (mk_pipe st))" and "ring_ok (mk_ring st)" and "unat (r_head (mk_ring st)) \<le> pi_done (mk_pipe st)"
    and "market_run step es p0 r0 = Some (mk_log st, mk_pub st, mk_ring st)"
    and "applied es = map (\<lambda>k. (book_after ws gw0 k, mk_t0 st ! k)) [0..<pi_done (mk_pipe st)]"
    and "mk_stop st \<Longrightarrow> pi_done (mk_pipe st) = length bss" and "mk_halted st \<Longrightarrow> mk_stop st \<and> ring_items (mk_ring st) = []"
  using assms unfolding session_inv_def by blast

lemma wire_inv:
  assumes inv: "session_inv ws bss gw0 p0 r0 st"
  obtains st' where "wire_turn (length bss) clock st = Some st'" and "session_inv ws bss gw0 p0 r0 st'"
proof (rule session_invD [OF inv])
  fix left es
  let ?p = "mk_pipe st" and ?n = "length bss"
  assume I: "landing.pipe_inv gateway_sink (map frame bss) gw0 ?p left" "length (mk_t0 st) = ?n"
    "fine (mk_pub st) (pi_done ?p)" "ring_ok (mk_ring st)" "unat (r_head (mk_ring st)) \<le> pi_done ?p"
    "market_run step es p0 r0 = Some (mk_log st, mk_pub st, mk_ring st)"
    "applied es = map (\<lambda>k. (book_after ws gw0 k, mk_t0 st ! k)) [0..<pi_done ?p]"
    "mk_stop st \<Longrightarrow> pi_done ?p = ?n" "mk_halted st \<Longrightarrow> mk_stop st \<and> ring_items (mk_ring st) = []"
  obtain p' left' where p': "producer_turn next_frame arena_push ?p = Some p'" "landing.pipe_inv gateway_sink (map frame bss) gw0 p' left'"
    by (rule landing.producer_inv [OF I(1)]) (rule that)
  note d = producer_frame [OF p'(1)]
  show thesis
  proof (cases "pi_pending ?p = None \<and> 0 < fst (pi_src ?p)")
    case True
    let ?i = "?n - fst (pi_src ?p)" and ?t0 = "(mk_t0 st)[?n - fst (pi_src ?p) := clock]"
    have i: "?i < ?n" "pi_done ?p \<le> ?i" using landing.inv_counts [OF I(1)] landing_index [OF I(1)] True by (simp_all flip: length_greater_0_conv)
    then have "aput (mk_t0 st) ?i clock = Some ?t0" using I(2) by simp
    with True p'(1) have "wire_turn ?n clock st = Some (st\<lparr>mk_t0 := ?t0, mk_pipe := p'\<rparr>)"
      by (simp add: wire_turn_def Let_def)
    moreover have "applied es = map (\<lambda>k. (book_after ws gw0 k, ?t0 ! k)) [0..<pi_done ?p]" using I(7) i(2) by simp
    then have "session_inv ws bss gw0 p0 r0 (st\<lparr>mk_t0 := ?t0, mk_pipe := p'\<rparr>)"
      using I p'(2) d unfolding session_inv_def by auto
    ultimately show ?thesis by (rule that)
  next
    case False
    with p'(1) have "wire_turn ?n clock st = Some (st\<lparr>mk_pipe := p'\<rparr>)" by (auto simp: wire_turn_def Let_def)
    moreover have "session_inv ws bss gw0 p0 r0 (st\<lparr>mk_pipe := p'\<rparr>)"
      using I p'(2) d unfolding session_inv_def by auto
    ultimately show ?thesis by (rule that)
  qed
qed

lemma drain_inv:
  assumes inv: "session_inv ws bss gw0 p0 r0 st"
  obtains st' where "drain_turn st = Some st'" and "session_inv ws bss gw0 p0 r0 st'"
proof (rule session_invD [OF inv])
  fix left es
  let ?p = "mk_pipe st" and ?n = "length bss"
  assume I: "landing.pipe_inv gateway_sink (map frame bss) gw0 ?p left" "length (mk_t0 st) = ?n"
    "fine (mk_pub st) (pi_done ?p)" "ring_ok (mk_ring st)" "unat (r_head (mk_ring st)) \<le> pi_done ?p"
    "market_run step es p0 r0 = Some (mk_log st, mk_pub st, mk_ring st)"
    "applied es = map (\<lambda>k. (book_after ws gw0 k, mk_t0 st ! k)) [0..<pi_done ?p]"
    "mk_stop st \<Longrightarrow> pi_done ?p = ?n" "mk_halted st \<Longrightarrow> mk_stop st \<and> ring_items (mk_ring st) = []"
  show thesis
  proof (cases "mk_halted st")
    case True
    then show ?thesis using inv by (intro that [of st]) (simp_all add: drain_turn_def)
  next
    case False
    show ?thesis
    proof (cases rule: ring.pop_cases [OF I(4)])
      case (1 r)
      let ?st = "st\<lparr>mk_ring := r, mk_halted := mk_stop st\<rparr>"
      have "market_run step (es @ [Taken]) p0 r0 = Some (mk_log st, mk_pub st, r)"
        using I(6) 1 by (simp add: market_run_append)
      moreover have "applied (es @ [Taken]) = applied es" by simp
      ultimately have "session_inv ws bss gw0 p0 r0 ?st" using I 1 unfolding session_inv_def by force
      moreover have "drain_turn st = Some ?st" using False 1 by (simp add: drain_turn_def Let_def)
      ultimately show ?thesis by (intro that) simp_all
    next
      case (2 u r)
      let ?st = "st\<lparr>mk_ring := r, mk_log := mk_log st @ [u]\<rparr>"
      have "market_run step (es @ [Taken]) p0 r0 = Some (mk_log st @ [u], mk_pub st, r)"
        using I(6) 2 by (simp add: market_run_append)
      moreover have "applied (es @ [Taken]) = applied es" by simp
      ultimately have "session_inv ws bss gw0 p0 r0 ?st" using I 2 False unfolding session_inv_def by force
      moreover have "drain_turn st = Some ?st" using False 2 by (simp add: drain_turn_def Let_def)
      ultimately show ?thesis by (intro that) simp_all
    qed
  qed
qed

text \<open>The main thread; the books it can meet are those of the replay.\<close>

definition replayable :: "wire_msg list \<Rightarrow> dense_gateway \<Rightarrow> bool" where
  "replayable ws gw0 \<longleftrightarrow> length ws < 2 ^ 28 \<and>
     (\<forall>k. \<exists>gw. sink_all gateway_sink (take k ws) gw0 = Some gw \<and> bounded_top (top_of_book (gw_book gw)))"

lemma match_inv:
  assumes inv: "session_inv ws bss gw0 p0 r0 st" and ws: "list_all2 (\<lambda>bs w. payload_msg bs = Some w) bss ws"
    and good: "replayable ws gw0"
  obtains st' where "match_turn step (length bss) st = Some st'" and "session_inv ws bss gw0 p0 r0 st'"
proof (rule session_invD [OF inv])
  fix left es
  let ?p = "mk_pipe st" and ?n = "length bss" and ?k = "pi_done (mk_pipe st)"
  assume I: "landing.pipe_inv gateway_sink (map frame bss) gw0 ?p left" "length (mk_t0 st) = ?n"
    "fine (mk_pub st) ?k" "ring_ok (mk_ring st)" "unat (r_head (mk_ring st)) \<le> ?k"
    "market_run step es p0 r0 = Some (mk_log st, mk_pub st, mk_ring st)"
    "applied es = map (\<lambda>k. (book_after ws gw0 k, mk_t0 st ! k)) [0..<?k]"
    "mk_stop st \<Longrightarrow> ?k = ?n" "mk_halted st \<Longrightarrow> mk_stop st \<and> ring_items (mk_ring st) = []"
  have len: "length ws = ?n" using list_all2_lengthD [OF ws] by simp
  have prefix: "apply_items (engine_slot gateway_sink) (take k (map frame bss)) gw0 = sink_all gateway_sink (take k ws) gw0" for k
    using apply_items_frames [of "take k bss" "take k ws" gateway_sink gw0] ws by (simp add: take_map list_all2_takeI)
  have fin: "apply_items (engine_slot gateway_sink) (map frame bss) gw0 \<noteq> None"
    using prefix [of ?n] good len unfolding replayable_def by (metis length_map option.distinct(1) take_all_iff order_refl)
  show thesis
  proof (cases "?k < ?n")
    case False
    then have k: "?k = ?n" using landing.inv_applied [OF I(1)] by simp
    have "session_inv ws bss gw0 p0 r0 (st\<lparr>mk_stop := True\<rparr>)" using I k unfolding session_inv_def by auto
    moreover have "match_turn step ?n st = Some st \<or> match_turn step ?n st = Some (st\<lparr>mk_stop := True\<rparr>)"
      using False by (simp add: match_turn_def Let_def)
    ultimately show ?thesis using inv that by blast
  next
    case True
    obtain p' where p': "consumer_turn ?n arena_pop (engine_slot gateway_sink) ?p = Some p'"
      "landing.pipe_inv gateway_sink (map frame bss) gw0 p' left"
      by (rule landing.consumer_inv [OF I(1) _ fin, of ?n]) (simp, rule that)
    from consumer_done [OF p'(1)] show ?thesis
    proof
      assume d: "pi_done p' = ?k"
      then have "match_turn step ?n st = Some (st\<lparr>mk_pipe := p'\<rparr>)" using True p'(1) by (simp add: match_turn_def Let_def)
      moreover have "session_inv ws bss gw0 p0 r0 (st\<lparr>mk_pipe := p'\<rparr>)" using I p'(2) d unfolding session_inv_def by auto
      ultimately show ?thesis by (rule that)
    next
      assume d: "pi_done p' = Suc ?k"
      obtain gw where gw: "sink_all gateway_sink (take (Suc ?k) ws) gw0 = Some gw" "bounded_top (top_of_book (gw_book gw))"
        using good by (auto simp: replayable_def)
      have eng: "pi_eng p' = gw" using landing.inv_applied [OF p'(2)] d prefix [of "Suc ?k"] gw(1) by simp
      have t: "aget (mk_t0 st) ?k = Some (mk_t0 st ! ?k)" using True I(2) by simp
      have "?k < 2 ^ 28" using good True len by (simp add: replayable_def)
      from publishes [OF I(3) this gw(2) I(4,5), of "mk_t0 st ! ?k"] obtain pub r where
        pub: "step (gw_book gw) (mk_t0 st ! ?k) (mk_pub st) (mk_ring st) = Some (pub, r)" "ring_ok r"
        "unat (r_head r) \<le> Suc ?k" "fine pub (Suc ?k)" by blast
      let ?st = "st\<lparr>mk_pipe := p', mk_pub := pub, mk_ring := r\<rparr>"
      have "market_run step (es @ [Applied (gw_book gw) (mk_t0 st ! ?k)]) p0 r0 = Some (mk_log st, pub, r)"
        using I(6) pub(1) by (simp add: market_run_append)
      moreover have "book_after ws gw0 ?k = gw_book gw" by (simp add: book_after_def gw(1))
      then have "applied (es @ [Applied (gw_book gw) (mk_t0 st ! ?k)]) =
          map (\<lambda>k. (book_after ws gw0 k, mk_t0 st ! k)) [0..<Suc ?k]" using I(7) by simp
      ultimately have es: "\<exists>es. market_run step es p0 r0 = Some (mk_log st, pub, r) \<and>
          applied es = map (\<lambda>k. (book_after ws gw0 k, mk_t0 st ! k)) [0..<Suc ?k]" by blast
      have live: "\<not> mk_stop st" "\<not> mk_halted st" using I(8,9) True by auto
      have "session_inv ws bss gw0 p0 r0 ?st"
        unfolding session_inv_def using I(2) p'(2) d pub(2-4) es live by auto
      moreover have "match_turn step ?n st = Some ?st"
        using True p'(1) d t pub(1) by (simp add: match_turn_def Let_def eng)
      ultimately show ?thesis by (intro that)
    qed
  qed
qed

lemma turn_inv:
  assumes "session_inv ws bss gw0 p0 r0 st" and "list_all2 (\<lambda>bs w. payload_msg bs = Some w) bss ws" and "replayable ws gw0"
  obtains st' where "session_turn step (length bss) t clock st = Some st'" and "session_inv ws bss gw0 p0 r0 st'"
proof (cases t)
  case Wire
  show ?thesis by (rule wire_inv [OF assms(1), of clock]) (use Wire in \<open>auto simp: session_turn_def intro: that\<close>)
next
  case Match
  show ?thesis by (rule match_inv [OF assms]) (use Match in \<open>auto simp: session_turn_def intro: that\<close>)
next
  case Drain
  show ?thesis by (rule drain_inv [OF assms(1)]) (use Drain in \<open>auto simp: session_turn_def intro: that\<close>)
qed

lemma session_safe:
  assumes "session_inv ws bss gw0 p0 r0 st" and "list_all2 (\<lambda>bs w. payload_msg bs = Some w) bss ws" and "replayable ws gw0"
  shows "\<exists>st'. session_run step (length bss) ts st = Some st' \<and> session_inv ws bss gw0 p0 r0 st'"
  using assms(1)
proof (induction ts arbitrary: st)
  case (Cons tc ts)
  obtain t clock where tc: "tc = (t, clock)" by force
  obtain st1 where "session_turn step (length bss) t clock st = Some st1" "session_inv ws bss gw0 p0 r0 st1"
    by (rule turn_inv [OF Cons.prems assms(2,3), of t clock]) (rule that)
  with Cons.IH [of st1] tc show ?case by simp
qed simp

text \<open>On a generated feed the session starts in the invariant.\<close>

lemma session_setup:
  assumes "generate_feed n seed = Some fs" and "n \<le> 1048576" and "idle_arena arena n"
    and "pow2_cap cap" and "fine p0 0"
  obtains bss ws where "length ws = n" and "fd_buf fs = concat (map frame bss)" and "length bss = n"
    and "list_all2 (\<lambda>bs w. payload_msg bs = Some w) bss ws"
    and "replayable ws (gateway_new (fs_max_ref (fd_st fs)))"
    and "session_inv ws bss (gateway_new (fs_max_ref (fd_st fs))) p0 (ring_new cap)
      (session_start n (fd_buf fs) arena (fs_max_ref (fd_st fs)) p0 (ring_new cap))"
    and "landing.pipe_inv gateway_sink (map frame bss) (gateway_new (fs_max_ref (fd_st fs)))
      (arena_start n (fd_buf fs) arena (gateway_new (fs_max_ref (fd_st fs)))) (map frame bss)"
    and "\<And>gw. sink_all gateway_sink ws (gateway_new (fs_max_ref (fd_st fs))) = Some gw \<Longrightarrow>
      gw_trades gw = fs_execs (fd_st fs) \<and> gw_traded_lots gw = fs_exec_lots (fd_st fs)"
proof -
  obtain bss ws lb where F: "length ws = n" "fd_buf fs = concat (map frame bss)"
    "list_all2 (\<lambda>bs w. payload_msg bs = Some w) bss ws" "live_run (map decode_msg ws) live_start = Some lb"
    "snd lb = fs_max_ref (fd_st fs)" "snd lb \<noteq> - 1" "adds (map decode_msg ws) \<le> n"
    "fs_execs (fd_st fs) = word_of_nat (execs (map decode_msg ws))"
    "fs_exec_lots (fd_st fs) = word_of_int (exec_lots (map decode_msg ws))" "small_adds (map decode_msg ws)"
    by (rule feed_session [OF assms(1,2)]) (rule that)
  let ?gw0 = "gateway_new (fs_max_ref (fd_st fs))" and ?ms = "map decode_msg ws"
  have l: "length bss = n" using list_all2_lengthD [OF F(3)] F(1) by simp
  have adds: "adds ?ms \<le> 1048576" using F(7) assms(2) by simp
  have "\<exists>gw. sink_all gateway_sink (take k ws) ?gw0 = Some gw \<and> bounded_top (top_of_book (gw_book gw))" for k
    by (rule replay_prefix [OF F(4) _ _ adds F(10), of "fs_max_ref (fd_st fs)" k]) (use F(5,6) in \<open>auto simp: sink_all_gateway take_map\<close>)
  then have good: "replayable ws ?gw0" using F(1) assms(2) by (simp add: replayable_def)
  have pipe: "landing.pipe_inv gateway_sink (map frame bss) ?gw0 (arena_start n (fd_buf fs) arena ?gw0) (map frame bss)"
    using landing_start [OF F(3), of arena gateway_sink ?gw0] assms(3) F(1,2) by simp
  note R = ring_new_ok(1) [OF assms(4), where 'a = 'u]
  let ?st = "session_start n (fd_buf fs) arena (fs_max_ref (fd_st fs)) p0 (ring_new cap)"
  have inv: "session_inv ws bss ?gw0 p0 (ring_new cap) ?st" unfolding session_inv_def
  proof (intro conjI)
    show "\<exists>left. landing.pipe_inv gateway_sink (map frame bss) ?gw0 (mk_pipe ?st) left" using pipe by (auto simp: session_start_def)
    show "\<exists>es. market_run step es p0 (ring_new cap) = Some (mk_log ?st, mk_pub ?st, mk_ring ?st) \<and>
        applied es = map (\<lambda>k. (book_after ws ?gw0 k, mk_t0 ?st ! k)) [0..<pi_done (mk_pipe ?st)]"
      by (intro exI [of _ "[]"]) (simp add: session_start_def arena_start_def)
  qed (use assms(5) R l in \<open>simp_all add: session_start_def arena_start_def ring_new_ok(2-4)\<close>)
  have "gw_trades gw = fs_execs (fd_st fs) \<and> gw_traded_lots gw = fs_exec_lots (fd_st fs)"
    if "sink_all gateway_sink ws ?gw0 = Some gw" for gw
    using replay_session [OF F(4) _ _ adds, of "fs_max_ref (fd_st fs)"] F(5,6,8,9) that by (auto simp: sink_all_gateway)
  with F(1,2) l F(3) good inv pipe show ?thesis by (rule that)
qed

text \<open>Under every schedule the session is a history of the replay.\<close>

lemma session_history:
  assumes "generate_feed n seed = Some fs" and "n \<le> 1048576" and "idle_arena arena n"
    and "pow2_cap cap" and "fine p0 0"
  obtains st ws es where "session_run step n ts (session_start n (fd_buf fs) arena (fs_max_ref (fd_st fs)) p0 (ring_new cap)) = Some st"
    and "length ws = n" and "well_framed (fd_buf fs) ws" and "pi_done (mk_pipe st) \<le> n"
    and "market_run step es p0 (ring_new cap) = Some (mk_log st, mk_pub st, mk_ring st)"
    and "applied es = map (\<lambda>k. (book_after ws (gateway_new (fs_max_ref (fd_st fs))) k, mk_t0 st ! k)) [0..<pi_done (mk_pipe st)]"
    and "\<forall>e\<in>set (applied es). bounded_top (top_of_book (fst e))"
    and "pi_done (mk_pipe st) = n \<Longrightarrow> gw_trades (pi_eng (mk_pipe st)) = fs_execs (fd_st fs) \<and>
      gw_traded_lots (pi_eng (mk_pipe st)) = fs_exec_lots (fd_st fs)"
    and "mk_halted st \<Longrightarrow> pi_done (mk_pipe st) = n \<and> ring_items (mk_ring st) = []"
proof (rule session_setup [OF assms])
  fix bss ws
  let ?gw0 = "gateway_new (fs_max_ref (fd_st fs))" and ?st = "session_start n (fd_buf fs) arena (fs_max_ref (fd_st fs)) p0 (ring_new cap)"
  assume S: "length ws = n" "fd_buf fs = concat (map frame bss)" "length bss = n"
    "list_all2 (\<lambda>bs w. payload_msg bs = Some w) bss ws" "replayable ws ?gw0" "session_inv ws bss ?gw0 p0 (ring_new cap) ?st"
    "\<And>gw. sink_all gateway_sink ws ?gw0 = Some gw \<Longrightarrow>
      gw_trades gw = fs_execs (fd_st fs) \<and> gw_traded_lots gw = fs_exec_lots (fd_st fs)"
  from session_safe [OF S(6,4,5), of ts] S(3) obtain st where st:
    "session_run step n ts ?st = Some st" "session_inv ws bss ?gw0 p0 (ring_new cap) st" by auto
  show thesis
  proof (rule session_invD [OF st(2)])
    fix left es
    assume I: "landing.pipe_inv gateway_sink (map frame bss) ?gw0 (mk_pipe st) left"
      "market_run step es p0 (ring_new cap) = Some (mk_log st, mk_pub st, mk_ring st)"
      "applied es = map (\<lambda>k. (book_after ws ?gw0 k, mk_t0 st ! k)) [0..<pi_done (mk_pipe st)]"
      "mk_stop st \<Longrightarrow> pi_done (mk_pipe st) = length bss" "mk_halted st \<Longrightarrow> mk_stop st \<and> ring_items (mk_ring st) = []"
    note A = landing.inv_applied [OF I(1)]
    have wf: "well_framed (fd_buf fs) ws" using S(2,4) by (auto simp: well_framed_def)
    have tops: "bounded_top (top_of_book (book_after ws ?gw0 k))" for k
    proof -
      obtain gw where "sink_all gateway_sink (take (Suc k) ws) ?gw0 = Some gw" "bounded_top (top_of_book (gw_book gw))"
        using S(5) by (auto simp: replayable_def)
      then show ?thesis by (simp add: book_after_def)
    qed
    have "gw_trades (pi_eng (mk_pipe st)) = fs_execs (fd_st fs) \<and> gw_traded_lots (pi_eng (mk_pipe st)) = fs_exec_lots (fd_st fs)"
      if "pi_done (mk_pipe st) = n"
      by (rule S(7)) (use A that S(3) apply_items_frames [OF S(4), of gateway_sink ?gw0] in simp)
    then show thesis
      using st(1) S(1,3) wf A I(2-5) tops by (intro that [of st ws es]) (auto simp: I(3))
  qed
qed

text \<open>Nothing can hang: one round gives each thread a turn, and brings the session closer to its end.\<close>

lemma match_frame:
  assumes "match_turn step n st = Some st'" and "ring_ok (mk_ring st)" and "unat (r_head (mk_ring st)) + 1 < 2 ^ 64"
  shows "consumer_turn n arena_pop (engine_slot gateway_sink) (mk_pipe st) = Some (mk_pipe st') \<and> mk_halted st' = mk_halted st \<and>
    length (ring_items (mk_ring st')) \<le> length (ring_items (mk_ring st)) + 1"
proof (cases "pi_done (mk_pipe st) < n")
  case False
  with assms(1) show ?thesis by (auto simp: match_turn_def consumer_turn_def Let_def split: if_splits)
next
  case True
  with assms(1) obtain p' where p': "consumer_turn n arena_pop (engine_slot gateway_sink) (mk_pipe st) = Some p'"
    by (auto simp: match_turn_def Let_def bind_eq_Some_conv)
  show ?thesis
  proof (cases "pi_done p' = pi_done (mk_pipe st)")
    case same: True
    with assms(1) True p' show ?thesis by (auto simp: match_turn_def Let_def)
  next
    case False
    with assms(1) True p' obtain t pub r where s: "step (gw_book (pi_eng p')) t (mk_pub st) (mk_ring st) = Some (pub, r)"
      "st' = st\<lparr>mk_pipe := p', mk_pub := pub, mk_ring := r\<rparr>"
      by (auto simp: match_turn_def Let_def bind_eq_Some_conv)
    have "length (ring_items r) \<le> length (ring_items (mk_ring st)) + 1"
    proof (cases "seen (mk_pub st) = top_of_book (gw_book (pi_eng p'))")
      case True
      with unchanged [OF True, of t "mk_ring st"] s(1) show ?thesis by simp
    next
      case False
      from changed [OF False s(1)] obtain u ok where u: "try_push (mk_ring st) u = Some (ok, r)" by blast
      show ?thesis by (rule ring.push_cases [OF assms(2,3), of u]) (use u in \<open>auto simp del: ring_items_len\<close>)
    qed
    with p' s(2) show ?thesis by simp
  qed
qed

lemma wire_frame:
  "wire_turn n clock st = Some st' \<Longrightarrow> producer_turn next_frame arena_push (mk_pipe st) = Some (mk_pipe st') \<and>
    mk_ring st' = mk_ring st \<and> mk_halted st' = mk_halted st \<and> mk_stop st' = mk_stop st"
  by (auto simp: wire_turn_def Let_def bind_eq_Some_conv split: if_splits)

end

definition all_turns :: "u64 \<Rightarrow> (role \<times> u64) list" where
  "all_turns clock = [(Wire, clock), (Match, clock), (Drain, clock)]"

context session_publisher
begin

lemma work_done: "landing.pipe_inv gateway_sink xs gw0 p left \<Longrightarrow> landing.work xs p left = 0 \<longleftrightarrow> pi_done p = length xs"
  using landing.inv_counts [of gateway_sink xs gw0 p left] by (auto simp: landing.work_def split: option.splits)

lemma session_round:
  assumes inv: "session_inv ws bss gw0 p0 r0 st" and pipe: "landing.pipe_inv gateway_sink (map frame bss) gw0 (mk_pipe st) left"
    and ws: "list_all2 (\<lambda>bs w. payload_msg bs = Some w) bss ws" and good: "replayable ws gw0"
  obtains st' left' where "session_run step (length bss) (all_turns clock) st = Some st'" and "session_inv ws bss gw0 p0 r0 st'"
    and "landing.pipe_inv gateway_sink (map frame bss) gw0 (mk_pipe st') left'"
    and "mk_halted st' \<or> landing.work (map frame bss) (mk_pipe st') left' + length (ring_items (mk_ring st')) <
      landing.work (map frame bss) (mk_pipe st) left + length (ring_items (mk_ring st))"
proof -
  let ?xs = "map frame bss" and ?n = "length bss"
  let ?w = "landing.work ?xs"
  obtain s1 where s1: "wire_turn ?n clock st = Some s1" "session_inv ws bss gw0 p0 r0 s1" by (rule wire_inv [OF inv])
  note f1 = wire_frame [OF s1(1)]
  obtain p1 l1 where p1: "producer_turn next_frame arena_push (mk_pipe st) = Some p1" "landing.pipe_inv gateway_sink ?xs gw0 p1 l1"
    "?w p1 l1 \<le> ?w (mk_pipe st) left"
    "?w p1 l1 < ?w (mk_pipe st) left \<or> arena_items (pi_queue (mk_pipe st)) \<noteq> [] \<or> ?w (mk_pipe st) left = 0"
    "arena_items (pi_queue (mk_pipe st)) \<noteq> [] \<Longrightarrow> arena_items (pi_queue p1) \<noteq> []"
    by (rule landing.producer_inv [OF pipe]) (rule that)
  have m1: "mk_pipe s1 = p1" using f1 p1(1) by simp
  obtain s2 where s2: "match_turn step ?n s1 = Some s2" "session_inv ws bss gw0 p0 r0 s2" by (rule match_inv [OF s1(2) ws good])
  have len: "length ws = ?n" using list_all2_lengthD [OF ws] by simp
  have prefix: "apply_items (engine_slot gateway_sink) ?xs gw0 = sink_all gateway_sink ws gw0"
    by (rule apply_items_frames [OF ws])
  have fin: "apply_items (engine_slot gateway_sink) ?xs gw0 \<noteq> None"
    using prefix good len unfolding replayable_def by (metis option.distinct(1) take_all_iff order_refl)
  have small: "pi_done (mk_pipe s) \<le> ?n" "unat (r_head (mk_ring s)) + 1 < 2 ^ 64" "ring_ok (mk_ring s)"
    if "session_inv ws bss gw0 p0 r0 s" for s
  proof -
    from that obtain left where s: "landing.pipe_inv gateway_sink ?xs gw0 (mk_pipe s) left" "unat (r_head (mk_ring s)) \<le> pi_done (mk_pipe s)"
      "ring_ok (mk_ring s)" by (auto simp: session_inv_def)
    with landing.inv_applied [OF s(1)] good len
    show "pi_done (mk_pipe s) \<le> ?n" "unat (r_head (mk_ring s)) + 1 < 2 ^ 64" "ring_ok (mk_ring s)"
      by (auto simp: replayable_def)
  qed
  note f2 = match_frame [OF s2(1) small(3) [OF s1(2)] small(2) [OF s1(2)]]
  obtain p2 where p2: "consumer_turn ?n arena_pop (engine_slot gateway_sink) p1 = Some p2" "landing.pipe_inv gateway_sink ?xs gw0 p2 l1"
    "?w p2 l1 \<le> ?w p1 l1" "arena_items (pi_queue p1) \<noteq> [] \<Longrightarrow> ?w p2 l1 < ?w p1 l1"
    by (rule landing.consumer_inv [OF p1(2) _ fin, of ?n]) (simp, rule that)
  have m2: "mk_pipe s2 = p2" using f2 p2(1) m1 by simp
  obtain s3 where s3: "drain_turn s2 = Some s3" "session_inv ws bss gw0 p0 r0 s3" by (rule drain_inv [OF s2(2)])
  have run: "session_run step ?n (all_turns clock) st = Some s3"
    using s1(1) s2(1) s3(1) by (simp add: all_turns_def session_turn_def)
  have m3: "mk_pipe s3 = p2" using s3(1) m2 by (auto simp: drain_turn_def Let_def bind_eq_Some_conv split: option.splits if_splits)
  have prog: "?w p2 l1 < ?w (mk_pipe st) left \<or> ?w (mk_pipe st) left = 0" using p1(3-5) p2(3,4) by fastforce
  have ring3: "mk_halted s3 \<or> ring_items (mk_ring s3) = [] \<or> length (ring_items (mk_ring s3)) < length (ring_items (mk_ring s2))"
    by (cases rule: ring.pop_cases [OF small(3) [OF s2(2)]])
      (use s3(1) in \<open>auto simp: drain_turn_def Let_def split: if_splits\<close>)
  have "mk_halted s3 \<or> ?w p2 l1 + length (ring_items (mk_ring s3)) < ?w (mk_pipe st) left + length (ring_items (mk_ring st))"
  proof (cases "?w (mk_pipe st) left = 0")
    case False
    with prog ring3 f1 f2 show ?thesis by (auto simp del: ring_items_len)
  next
    case True
    then have d: "pi_done (mk_pipe st) = ?n" "left = []" "pi_pending (mk_pipe st) = None"
      using work_done [OF pipe] by (auto simp: landing.work_def split: option.splits)
    then have src: "fst (pi_src (mk_pipe st)) = 0" using landing_index [OF pipe] by simp
    then have p1': "fst (pi_src p1) = 0" "pi_pending p1 = None" "pi_done p1 = ?n"
      using p1(1) d by (auto simp: producer_turn_def next_frame_def split: prod.splits)
    have stop: "mk_stop s2" "mk_ring s2 = mk_ring s1"
      using s2(1) p1' m1 by (auto simp: match_turn_def Let_def)
    have "mk_halted s3 \<or> length (ring_items (mk_ring s3)) < length (ring_items (mk_ring s2))"
      by (cases rule: ring.pop_cases [OF small(3) [OF s2(2)]])
        (use s3(1) stop(1) in \<open>auto simp: drain_turn_def Let_def split: if_splits\<close>)
    moreover have "?w p2 l1 = 0" using p1(3) p2(3) True by simp
    ultimately show ?thesis using True stop(2) f1 by auto
  qed
  with run s3(2) p2(2) show ?thesis by (intro that [of s3 l1]) (simp_all only: m3)
qed

lemma halted_stays: "mk_halted st \<Longrightarrow> session_turn step n t clock st = Some st' \<Longrightarrow> mk_halted st'"
  by (cases t) (auto simp: session_turn_def drain_turn_def match_turn_def wire_turn_def Let_def bind_eq_Some_conv split: if_splits)

lemma halted_run: "mk_halted st \<Longrightarrow> session_run step n ts st = Some st' \<Longrightarrow> mk_halted st'"
proof (induction ts arbitrary: st)
  case (Cons tc ts)
  then show ?case by (cases tc) (auto simp: bind_eq_Some_conv intro: halted_stays)
qed simp

lemma rounds_halt:
  assumes "session_inv ws bss gw0 p0 r0 st" and "landing.pipe_inv gateway_sink (map frame bss) gw0 (mk_pipe st) left"
    and "list_all2 (\<lambda>bs w. payload_msg bs = Some w) bss ws" and "replayable ws gw0"
    and "landing.work (map frame bss) (mk_pipe st) left + length (ring_items (mk_ring st)) < length clks"
  shows "\<exists>st'. session_run step (length bss) (concat (map all_turns clks)) st = Some st' \<and> mk_halted st'"
  using assms(1,2,5)
proof (induction clks arbitrary: st left)
  case (Cons clock clks)
  obtain st1 left1 where 1: "session_run step (length bss) (all_turns clock) st = Some st1" "session_inv ws bss gw0 p0 r0 st1"
    "landing.pipe_inv gateway_sink (map frame bss) gw0 (mk_pipe st1) left1"
    "mk_halted st1 \<or> landing.work (map frame bss) (mk_pipe st1) left1 + length (ring_items (mk_ring st1)) <
      landing.work (map frame bss) (mk_pipe st) left + length (ring_items (mk_ring st))"
    by (rule session_round [OF Cons.prems(1,2) assms(3,4), of clock]) (rule that)
  show ?case
  proof (cases "mk_halted st1")
    case True
    from session_safe [OF 1(2) assms(3,4), of "concat (map all_turns clks)"] obtain st2
      where "session_run step (length bss) (concat (map all_turns clks)) st1 = Some st2" by blast
    with 1(1) halted_run [OF True this] show ?thesis by (simp add: session_run_append)
  next
    case False
    with 1(4) Cons.prems(3) have "landing.work (map frame bss) (mk_pipe st1) left1 + length (ring_items (mk_ring st1)) < length clks"
      by simp
    from Cons.IH [OF 1(2,3) this] 1(1) show ?thesis by (simp add: session_run_append)
  qed
qed simp

lemma session_halts:
  assumes "generate_feed n seed = Some fs" and "n \<le> 1048576" and "idle_arena arena n"
    and "pow2_cap cap" and "fine p0 0" and "3 * n < length clks"
  shows "\<exists>st. session_run step n (concat (map all_turns clks))
    (session_start n (fd_buf fs) arena (fs_max_ref (fd_st fs)) p0 (ring_new cap)) = Some st \<and> mk_halted st"
proof (rule session_setup [OF assms(1-5)])
  fix bss ws
  let ?gw0 = "gateway_new (fs_max_ref (fd_st fs))" and ?st = "session_start n (fd_buf fs) arena (fs_max_ref (fd_st fs)) p0 (ring_new cap)"
  assume S: "length bss = n" "list_all2 (\<lambda>bs w. payload_msg bs = Some w) bss ws" "replayable ws ?gw0"
    "session_inv ws bss ?gw0 p0 (ring_new cap) ?st"
    "landing.pipe_inv gateway_sink (map frame bss) ?gw0 (arena_start n (fd_buf fs) arena ?gw0) (map frame bss)"
  have p: "landing.pipe_inv gateway_sink (map frame bss) ?gw0 (mk_pipe ?st) (map frame bss)" using S(5) by (simp add: session_start_def)
  have "landing.work (map frame bss) (mk_pipe ?st) (map frame bss) + length (ring_items (mk_ring ?st)) < length clks"
    using S(1) assms(3,6)
    by (simp add: session_start_def landing.work_def arena_start_def idle_arena_def ring_new_ok(2) del: ring_items_len)
  from rounds_halt [OF S(4) p S(2,3) this] S(1) show ?thesis by simp
qed

end

section \<open>The two publishers\<close>

interpretation bbo_session: session_publisher on_message_applied "\<lambda>p. bbo_top (bp_last p)" bp_seq bp_published bp_dropped
  bbo_stamp "\<lambda>t. t" "\<lambda>p k. True"
proof unfold_locales
  fix p k b tsc and r :: "bbo_update ring"
  assume r: "ring_ok r" "unat (r_head r) \<le> k" and k: "k < 2 ^ 28"
  have h: "unat (r_head r) + 1 < 2 ^ 64" using r(2) k by simp
  show "\<exists>p' r'. on_message_applied b tsc p r = Some (p', r') \<and> ring_ok r' \<and> unat (r_head r') \<le> Suc k \<and> True"
    by (rule applied_total [OF r(1) h, of b tsc p]) (use r(2) in force)
qed

definition ofi_room :: "signal_publisher \<Rightarrow> nat \<Rightarrow> bool" where
  "ofi_room p k \<longleftrightarrow> bounded_top (signal_top p) \<and> \<bar>sint (sp_ofi p)\<bar> \<le> 2 ^ 32 * int k"

interpretation signal_session: session_publisher signal_applied signal_top sp_seq sp_published sp_dropped
  signal_stamp narrow_top ofi_room
proof unfold_locales
  fix p k b tsc and r :: "signal_update ring"
  assume f: "ofi_room p k" and k: "k < 2 ^ 28" and b: "bounded_top (top_of_book b)" and r: "ring_ok r" "unat (r_head r) \<le> k"
  have top: "bounded_top (signal_top p)" and ofi: "\<bar>sint (sp_ofi p)\<bar> \<le> 2 ^ 61" and h: "unat (r_head r) + 1 < 2 ^ 64"
    using f k r(2) by (simp_all add: ofi_room_def)
  obtain p' r' where 1: "signal_applied b tsc p r = Some (p', r')" "ring_ok r'" "unat (r_head r') \<le> unat (r_head r) + 1"
    "signal_top p' = top_of_book b" "sint (sp_ofi p') = sint (sp_ofi p) + flow (signal_top p) (top_of_book b)"
    by (rule signal_step [OF top b ofi r(1) h, of tsc]) (rule that)
  have "\<bar>sint (sp_ofi p) + flow (signal_top p) (top_of_book b)\<bar> \<le> 2 ^ 32 * int (Suc k)"
    using f flow_bound [OF top b] unfolding ofi_room_def by (simp add: abs_le_iff)
  then have "ofi_room p' (Suc k)" using b by (simp add: ofi_room_def 1(4,5))
  with 1(1-3) r(2) show "\<exists>p' r'. signal_applied b tsc p r = Some (p', r') \<and> ring_ok r' \<and> unat (r_head r') \<le> Suc k \<and>
      ofi_room p' (Suc k)" by auto
qed

section \<open>Theorems\<close>

lemma ring_15: "pow2_cap (2 ^ 15)"
  unfolding pow2_cap_def by (intro exI [of _ 15]) simp

lemma fresh_history:
  assumes "length (applied es) \<le> 1048576"
  shows "ring_ok (ring_new (2 ^ 15) :: 'u ring)" and "unat (r_head (ring_new (2 ^ 15) :: 'u ring)) + applies es < 2 ^ 64"
  using assms ring_new_ok(1) [OF ring_15] by (simp_all add: ring_new_ok(4) applies_applied)

lemma bounded_applied: "\<forall>e\<in>set (applied es). bounded_top (top_of_book (fst e)) \<Longrightarrow> bounded_events es"
  by (induction es rule: applied.induct) (simp_all add: bounded_events_def)

text \<open>C32. The session with the signal publisher, end to end. Over a generated feed of at most 1,048,576
  messages, under every schedule of the producer, the matching and the draining thread: no turn
  is undefined, in particular none of the signed sums and products of the signal arithmetic
  overflows; the order flow imbalance is the sum of the flow formula over the tops of the
  sequential replay; the drained updates and those still queued are a subsequence of its numbered
  changes, each stamped with the time of its message and exact in its 32-bit fields; every change
  is counted once; and when all messages are applied the matches are those of the generator.\<close>

theorem signal_session_verified:
  assumes "generate_feed n seed = Some fs" and "n \<le> 1048576" and "idle_arena arena n"
  shows "\<exists>st ws es. session_run signal_applied n ts
      (session_start n (fd_buf fs) arena (fs_max_ref (fd_st fs)) signal_new (ring_new (2 ^ 15))) = Some st \<and>
    well_framed (fd_buf fs) ws \<and> pi_done (mk_pipe st) \<le> n \<and>
    applied es = map (\<lambda>k. (book_after ws (gateway_new (fs_max_ref (fd_st fs))) k, mk_t0 st ! k)) [0..<pi_done (mk_pipe st)] \<and>
    sint (signal_ofi (mk_pub st)) = flow_sum no_top es \<and> (\<forall>u\<in>set (mk_log st). exact_update u) \<and>
    subseq (map signal_stamp (mk_log st @ ring_items (mk_ring st))) (map signal.label (numbered 0 (changes no_top es))) \<and>
    signal_published (mk_pub st) + signal_dropped (mk_pub st) = word_of_nat (length (changes no_top es)) \<and>
    (pi_done (mk_pipe st) = n \<longrightarrow> gw_trades (pi_eng (mk_pipe st)) = fs_execs (fd_st fs))"
proof -
  have new: "signal_top signal_new = no_top" "sp_seq signal_new = 0" "sp_published signal_new = 0" "sp_dropped signal_new = 0"
    "sp_ofi signal_new = 0" by (simp_all add: signal_new_def signal_top_def no_top_def)
  have top: "bounded_top no_top" by (simp add: no_top_def bounded_top_def)
  then have "ofi_room signal_new 0" by (simp add: ofi_room_def new)
  then obtain st ws es where S: "session_run signal_applied n ts
      (session_start n (fd_buf fs) arena (fs_max_ref (fd_st fs)) signal_new (ring_new (2 ^ 15))) = Some st"
    "well_framed (fd_buf fs) ws" "pi_done (mk_pipe st) \<le> n"
    "market_run signal_applied es signal_new (ring_new (2 ^ 15)) = Some (mk_log st, mk_pub st, mk_ring st)"
    "applied es = map (\<lambda>k. (book_after ws (gateway_new (fs_max_ref (fd_st fs))) k, mk_t0 st ! k)) [0..<pi_done (mk_pipe st)]"
    "\<forall>e\<in>set (applied es). bounded_top (top_of_book (fst e))"
    "pi_done (mk_pipe st) = n \<Longrightarrow> gw_trades (pi_eng (mk_pipe st)) = fs_execs (fd_st fs)"
    by (rule signal_session.session_history [OF assms ring_15, of signal_new ts]) (rule that, assumption+, blast)
  have a: "length (applied es) \<le> 1048576" using S(3,5) assms(2) by simp
  note R = fresh_history [OF a, where 'u = signal_update]
  obtain outs p r where run: "market_run signal_applied es signal_new (ring_new (2 ^ 15)) = Some (outs, p, r)"
    "sint (sp_ofi p) = flow_sum no_top es" "set (outs @ ring_items r) \<subseteq> Collect exact_update"
    using signal_run [of signal_new es "ring_new (2 ^ 15)"] bounded_applied [OF S(6)] R a top new
    by (auto simp: ring_new_ok(2) applies_applied)
  obtain acc where "acc = outs @ ring_items r" "subseq (map signal_stamp acc) (map signal.label (numbered 0 (changes no_top es)))"
    "sp_published p + sp_dropped p = word_of_nat (length (changes no_top es))"
    using signal.history [OF run(1) R, unfolded new] by (auto simp: ring_new_ok(2))
  moreover have o: "outs = mk_log st" "p = mk_pub st" "r = mk_ring st" using run(1) S(4) by simp_all
  ultimately show ?thesis using run(2,3) S(1-3,5,7) unfolding signal_ofi_def signal_published_def signal_dropped_def o
    by (intro exI [of _ st] exI [of _ ws] exI [of _ es] conjI) auto
qed

theorem signal_session_verified_witness:
  "\<exists>fs st. generate_feed 1 7 = Some fs \<and> session_run signal_applied 1 [(Wire, 5), (Wire, 6), (Match, 7), (Drain, 8)]
    (session_start 1 (fd_buf fs) (arena_new (2 ^ 14)) (fs_max_ref (fd_st fs)) signal_new (ring_new (2 ^ 15))) = Some st"
proof -
  obtain fs where fs: "generate_feed 1 7 = Some fs" using generate_one by blast
  with signal_session_verified [OF fs _ idle_new, of "[(Wire, 5), (Wire, 6), (Match, 7), (Drain, 8)]"] show ?thesis by auto
qed

text \<open>C33. The session with the BBO publisher: when the draining thread has ended, it has received a
  subsequence of the numbered changes of the top along the sequential replay of all messages,
  exactly the published ones; if nothing was dropped it has received every change, so its last
  update is the top of the final book.\<close>

theorem bbo_session_complete:
  assumes "generate_feed n seed = Some fs" and "n \<le> 1048576" and "idle_arena arena n"
  shows "\<exists>st ws es. session_run on_message_applied n ts
      (session_start n (fd_buf fs) arena (fs_max_ref (fd_st fs)) bbo_new (ring_new (2 ^ 15))) = Some st \<and>
    (mk_halted st \<longrightarrow> well_framed (fd_buf fs) ws \<and>
      applied es = map (\<lambda>k. (book_after ws (gateway_new (fs_max_ref (fd_st fs))) k, mk_t0 st ! k)) [0..<n] \<and>
      subseq (map bbo_stamp (mk_log st)) (numbered 0 (changes no_top es)) \<and>
      published (mk_pub st) = word_of_nat (length (mk_log st)) \<and>
      gw_trades (pi_eng (mk_pipe st)) = fs_execs (fd_st fs) \<and>
      (bbo_dropped (mk_pub st) = 0 \<longrightarrow> map bbo_stamp (mk_log st) = numbered 0 (changes no_top es)))"
proof -
  obtain st ws es where S: "session_run on_message_applied n ts
      (session_start n (fd_buf fs) arena (fs_max_ref (fd_st fs)) bbo_new (ring_new (2 ^ 15))) = Some st"
    "well_framed (fd_buf fs) ws" "pi_done (mk_pipe st) \<le> n"
    "market_run on_message_applied es bbo_new (ring_new (2 ^ 15)) = Some (mk_log st, mk_pub st, mk_ring st)"
    "applied es = map (\<lambda>k. (book_after ws (gateway_new (fs_max_ref (fd_st fs))) k, mk_t0 st ! k)) [0..<pi_done (mk_pipe st)]"
    "pi_done (mk_pipe st) = n \<Longrightarrow> gw_trades (pi_eng (mk_pipe st)) = fs_execs (fd_st fs)"
    "mk_halted st \<Longrightarrow> pi_done (mk_pipe st) = n \<and> ring_items (mk_ring st) = []"
    by (rule bbo_session.session_history [OF assms ring_15 TrueI, where ts = ts and ?p0.0 = bbo_new]) (rule that, assumption+, blast+)
  have a: "length (applied es) \<le> 1048576" using S(3,5) assms(2) by simp
  note R = fresh_history [OF a, where 'u = bbo_update]
  have new: "bbo_top (bp_last bbo_new) = no_top" "bp_seq bbo_new = 0" "bp_published bbo_new = 0" "bp_dropped bbo_new = 0"
    by (simp_all add: bbo_new_def bbo_top_def no_top_def)
  have lab: "bbo.label = (\<lambda>x. x)" by (auto simp: bbo.label_def)
  obtain acc where acc: "acc = mk_log st @ ring_items (mk_ring st)" "subseq (map bbo_stamp acc) (numbered 0 (changes no_top es))"
    "bp_published (mk_pub st) = word_of_nat (length acc)"
    using bbo.history [OF S(4) R, unfolded new lab] by (auto simp: ring_new_ok(2))
  have full: "map bbo_stamp (mk_log st @ ring_items (mk_ring st)) = numbered 0 (changes no_top es)" if "bp_dropped (mk_pub st) = 0"
    using bbo.complete_when_none_lost [OF S(4) R _ new(2-4) that] by (simp add: new(1) lab ring_new_ok(2))
  show ?thesis
    by (intro exI [of _ st] exI [of _ ws] exI [of _ es]) (use S(1,2,5-7) acc full in \<open>auto simp: published_def bbo_dropped_def simp del: ring_items_len\<close>)
qed

theorem bbo_session_complete_witness:
  "\<exists>fs st. generate_feed 1 7 = Some fs \<and> session_run on_message_applied 1 [(Wire, 5), (Wire, 6), (Match, 7), (Drain, 8)]
    (session_start 1 (fd_buf fs) (arena_new (2 ^ 14)) (fs_max_ref (fd_st fs)) bbo_new (ring_new (2 ^ 15))) = Some st"
proof -
  obtain fs where fs: "generate_feed 1 7 = Some fs" using generate_one by blast
  with bbo_session_complete [OF fs _ idle_new, of "[(Wire, 5), (Wire, 6), (Match, 7), (Drain, 8)]"] show ?thesis by auto
qed

text \<open>C34. The sessions end: when the threads take turns, more than \<open>3 n\<close> rounds bring both sessions to
  the point where the draining thread has left its loop, whatever the clocks read. (The trading
  loop, whose consumer also sends, can hang at the same place.)\<close>

theorem sessions_halt:
  assumes "generate_feed n seed = Some fs" and "n \<le> 1048576" and "idle_arena arena n" and "3 * n < length clks"
  shows "(\<exists>st. session_run on_message_applied n (concat (map all_turns clks))
      (session_start n (fd_buf fs) arena (fs_max_ref (fd_st fs)) bbo_new (ring_new (2 ^ 15))) = Some st \<and> mk_halted st) \<and>
    (\<exists>st. session_run signal_applied n (concat (map all_turns clks))
      (session_start n (fd_buf fs) arena (fs_max_ref (fd_st fs)) signal_new (ring_new (2 ^ 15))) = Some st \<and> mk_halted st)"
proof
  have "ofi_room signal_new 0" by (simp add: ofi_room_def signal_new_def signal_top_def bounded_top_def)
  from signal_session.session_halts [OF assms(1-3) ring_15 this assms(4)]
  show "\<exists>st. session_run signal_applied n (concat (map all_turns clks))
    (session_start n (fd_buf fs) arena (fs_max_ref (fd_st fs)) signal_new (ring_new (2 ^ 15))) = Some st \<and> mk_halted st" .
qed (rule bbo_session.session_halts [OF assms(1-3) ring_15 TrueI assms(4)])

theorem sessions_halt_witness:
  "\<exists>fs st. generate_feed 1 7 = Some fs \<and> session_run signal_applied 1 (concat (map all_turns [1, 2, 3, 4]))
    (session_start 1 (fd_buf fs) (arena_new (2 ^ 14)) (fs_max_ref (fd_st fs)) signal_new (ring_new (2 ^ 15))) = Some st \<and> mk_halted st"
proof -
  obtain fs where fs: "generate_feed 1 7 = Some fs" using generate_one by blast
  with sessions_halt [OF fs _ idle_new, of "[1, 2, 3, 4]"] show ?thesis by auto
qed

end
