(* ===== verification/Journal_Session.thy ===== *)
theory Journal_Session
  imports Landing Journal
begin

text \<open>
  \<open>bench/bench_journal.cpp\<close> as \<open>main\<close> runs it: the arena is touched, run A goes without and run B with
  the journal, whose appends the producer makes between landing a frame and publishing it; then the
  micro-benchmark of \<open>append\<close> and the replay of the journal into a fresh gateway.

  The theorems: at every moment of run B the journal holds a prefix of the feed that is at least as
  long as what the engine has applied, so replaying it never lags behind the engine (the log is
  written ahead); and after run B the check that the benchmark prints always succeeds.
\<close>

section \<open>The journaling session\<close>

record journaled =
  jd_pipe :: "(nat \<times> parser, u8 list, u8 list arena_ring, dense_gateway) pipe"
  jd_journal :: journal

text \<open>One round of the producer: the next frame, or one attempt to land it. Between \<open>try_acquire\<close> and
  \<open>publish\<close> no one else sees the slot, so copying and appending belong to the same step.\<close>

definition journal_producer :: "journaled \<Rightarrow> journaled option" where
  "journal_producer s =
     (let p = jd_pipe s
      in case pi_pending p of
           None \<Rightarrow> do {
             (x, src) \<leftarrow> next_frame (pi_src p);
             Some (s\<lparr>jd_pipe := p\<lparr>pi_src := src, pi_pending := x\<rparr>\<rparr>)
           }
         | Some bs \<Rightarrow> (case try_acquire (ar_tail (pi_queue p)) (pi_queue p) of
             (None, q) \<Rightarrow> Some (s\<lparr>jd_pipe := p\<lparr>pi_queue := q\<rparr>\<rparr>)
           | (Some slot, q) \<Rightarrow> do {
               q \<leftarrow> fill_slot q slot bs;
               j \<leftarrow> journal_append (jd_journal s) bs;
               Some (s\<lparr>jd_journal := j, jd_pipe := p\<lparr>pi_queue := publish q, pi_pending := None\<rparr>\<rparr>)
             }))"

definition journal_consumer :: "nat \<Rightarrow> journaled \<Rightarrow> journaled option" where
  "journal_consumer n s = do {
     p \<leftarrow> consumer_turn n arena_pop (engine_slot gateway_sink) (jd_pipe s);
     Some (s\<lparr>jd_pipe := p\<rparr>)
   }"

fun journal_run :: "nat \<Rightarrow> bool list \<Rightarrow> journaled \<Rightarrow> journaled option" where
  "journal_run n [] s = Some s"
| "journal_run n (t # ts) s = (if t then journal_producer s else journal_consumer n s) \<bind> journal_run n ts"

definition journal_start :: "nat \<Rightarrow> feed_state \<Rightarrow> u8 list arena_ring \<Rightarrow> journal \<Rightarrow> journaled" where
  "journal_start n fs q j = \<lparr>jd_pipe = arena_start n (fd_buf fs) q (gateway_new (fs_max_ref (fd_st fs))), jd_journal = j\<rparr>"

text \<open>The capacity that \<open>main\<close> asks for.\<close>

definition run_capacity :: "feed_state \<Rightarrow> u64" where
  "run_capacity fs = word_of_nat (length (fd_buf fs)) + 4096"

text \<open>The appends of the micro-benchmark: \<open>n\<close> frames of 38 zero bytes.\<close>

definition append_micro :: "nat \<Rightarrow> journal \<Rightarrow> journal option" where
  "append_micro n = append_all (replicate n (replicate 38 0))"

section \<open>The journal is written ahead\<close>

lemma journal_producer_pipe:
  "journal_producer s = (case pi_pending (jd_pipe s) of
     None \<Rightarrow> do {
       p \<leftarrow> producer_turn next_frame arena_push (jd_pipe s);
       Some (s\<lparr>jd_pipe := p\<rparr>)
     }
   | Some bs \<Rightarrow> do {
       p \<leftarrow> producer_turn next_frame arena_push (jd_pipe s);
       if pi_pending p = None then do {
         j \<leftarrow> journal_append (jd_journal s) bs;
         Some (s\<lparr>jd_journal := j, jd_pipe := p\<rparr>)
       }
       else Some (s\<lparr>jd_pipe := p\<rparr>)
     })"
  by (auto simp: journal_producer_def producer_turn_def arena_push_def Let_def split: option.splits prod.splits bind_splits)

text \<open>The frames that have landed: those applied and those in the arena.\<close>

definition landed :: "journaled \<Rightarrow> nat" where
  "landed s = pi_done (jd_pipe s) + length (arena_items (pi_queue (jd_pipe s)))"

definition holds_frames :: "u64 \<Rightarrow> u8 list list \<Rightarrow> journal \<Rightarrow> bool" where
  "holds_frames cap fs j \<longleftrightarrow> journal_ok j \<and> jn_cap j = cap \<and> dropped j = Some 0 \<and> journal_data j = concat fs"

definition journaled_inv :: "u64 \<Rightarrow> u8 list list \<Rightarrow> dense_gateway \<Rightarrow> journaled \<Rightarrow> u8 list list \<Rightarrow> bool" where
  "journaled_inv cap xs g0 s left \<longleftrightarrow> landing.pipe_inv gateway_sink xs g0 (jd_pipe s) left \<and>
     landed s \<le> length xs \<and> holds_frames cap (take (landed s) xs) (jd_journal s)"

lemma holds_append:
  assumes h: "holds_frames cap fs j" and room: "length (concat fs) + length p \<le> unat cap"
  obtains j' where "journal_append j p = Some j'" and "holds_frames cap (fs @ [p]) j'"
proof -
  note H = h [unfolded holds_frames_def]
  have ok: "journal_ok j" using H by simp
  have cap: "unat cap < 2 ^ 63" using H by (auto simp: journal_ok_def)
  then have lp: "length p < 2 ^ 63" using room by simp
  have off: "unat (jn_off j) = length (concat fs)" using replay_data_ok(2) [OF ok] H by simp
  show ?thesis
    by (rule append_ok [OF ok lp], rule that)
      (use H off room in \<open>auto simp: holds_frames_def\<close>)
qed

lemma frames_room: "length (concat (take k xs)) \<le> length (concat xs)"
  by (metis append_take_drop_id concat_append length_append le_add1)

lemma landing_next:
  assumes "landing.pipe_inv sink xs g0 p left" and "pi_pending p = Some x"
  shows "take (Suc (pi_done p + length (arena_items (pi_queue p)))) xs = take (pi_done p + length (arena_items (pi_queue p))) xs @ [x]"
    and "Suc (pi_done p + length (arena_items (pi_queue p))) \<le> length xs"
proof -
  let ?k = "pi_done p + length (arena_items (pi_queue p))"
  have d: "length (take (pi_done p) xs @ arena_items (pi_queue p)) = ?k" using assms(1) by (simp add: landing.pipe_inv_def)
  have xs: "xs = (take (pi_done p) xs @ arena_items (pi_queue p)) @ x # left" using assms by (simp add: landing.pipe_inv_def)
  have "xs ! ?k = x" by (subst xs) (simp only: nth_append_length flip: d)
  moreover show k: "Suc ?k \<le> length xs" using landing.inv_counts [OF assms(1)] assms(2) by simp
  ultimately show "take (Suc ?k) xs = take ?k xs @ [x]" by (simp add: take_Suc_conv_app_nth)
qed

lemma journal_producer_inv:
  assumes inv: "journaled_inv cap xs g0 s left" and cap: "length (concat xs) \<le> unat cap"
  obtains s' left' where "journal_producer s = Some s'" and "journaled_inv cap xs g0 s' left'"
proof -
  let ?p = "jd_pipe s"
  note I = inv [unfolded journaled_inv_def]
  obtain p left' where p: "producer_turn next_frame arena_push ?p = Some p" "landing.pipe_inv gateway_sink xs g0 p left'"
    using landing.producer_inv [of gateway_sink xs g0 ?p left] I by blast
  have d: "pi_done p = pi_done ?p" using producer_frame [OF p(1)] by simp
  note c0 = landing.inv_counts [OF conjunct1 [OF I]] and c1 = landing.inv_counts [OF p(2)]
  show ?thesis
  proof (cases "pi_pending ?p")
    case None
    then have "pi_queue p = pi_queue ?p" using p(1) by (auto simp: producer_turn_def bind_eq_Some_conv)
    with None p d I show ?thesis
      by (intro that [of "s\<lparr>jd_pipe := p\<rparr>" left']) (simp_all add: journal_producer_pipe journaled_inv_def landed_def)
  next
    case (Some bs)
    obtain r q where q: "arena_push (pi_queue ?p) bs = Some (r, q)" "p = ?p\<lparr>pi_queue := q, pi_pending := (if r then None else Some bs)\<rparr>"
      using p(1) Some by (auto simp: producer_turn_def bind_eq_Some_conv)
    have left: "length left' = length left"
      using landing_index [OF p(2)] landing_index [OF conjunct1 [OF I]] q(2) by simp
    show ?thesis
    proof (cases r)
      case True
      let ?s = "s\<lparr>jd_pipe := p\<rparr>"
      have l: "landed ?s = Suc (landed s)" using c0 c1 left d Some True q(2) by (simp add: landed_def)
      have nx: "take (Suc (landed s)) xs = take (landed s) xs @ [bs]" "Suc (landed s) \<le> length xs"
        using landing_next [OF conjunct1 [OF I] Some] by (simp_all add: landed_def)
      have "length (concat (take (landed s) xs)) + length bs \<le> unat cap"
        using frames_room [of "Suc (landed s)" xs] cap unfolding nx(1) by simp
      with I obtain j where j: "journal_append (jd_journal s) bs = Some j" "holds_frames cap (take (Suc (landed s)) xs) j"
        unfolding nx(1) by (blast intro: holds_append)
      show ?thesis
        by (rule that [of "s\<lparr>jd_journal := j, jd_pipe := p\<rparr>" left'])
          (use p d j nx(2) l Some True q in \<open>simp_all add: journal_producer_pipe journaled_inv_def landed_def\<close>)
    next
      case False
      then have "landed (s\<lparr>jd_pipe := p\<rparr>) = landed s" using c0 c1 left d Some q(2) by (simp add: landed_def)
      with False p Some q I show ?thesis
        by (intro that [of "s\<lparr>jd_pipe := p\<rparr>" left']) (simp_all add: journal_producer_pipe journaled_inv_def)
    qed
  qed
qed

lemma journal_consumer_inv:
  assumes inv: "journaled_inv cap xs g0 s left" and fin: "apply_items (engine_slot gateway_sink) xs g0 \<noteq> None"
  obtains s' where "journal_consumer (length xs) s = Some s'" and "journaled_inv cap xs g0 s' left"
proof -
  note I = inv [unfolded journaled_inv_def]
  obtain p where p: "consumer_turn (length xs) arena_pop (engine_slot gateway_sink) (jd_pipe s) = Some p"
    "landing.pipe_inv gateway_sink xs g0 p left"
    using landing.consumer_inv [of gateway_sink xs g0 "jd_pipe s" left "length xs"] I fin by blast
  have "landed (s\<lparr>jd_pipe := p\<rparr>) = landed s"
    using landing.inv_counts [OF p(2)] landing.inv_counts [OF conjunct1 [OF I]] consumer_frame [OF p(1)] by (simp add: landed_def)
  with p I show ?thesis by (intro that [of "s\<lparr>jd_pipe := p\<rparr>"]) (simp_all add: journal_consumer_def journaled_inv_def)
qed

lemma journal_run_inv:
  assumes "journaled_inv cap xs g0 s left" and "length (concat xs) \<le> unat cap"
    and "apply_items (engine_slot gateway_sink) xs g0 \<noteq> None"
  shows "\<exists>s' left'. journal_run (length xs) ts s = Some s' \<and> journaled_inv cap xs g0 s' left'"
  using assms(1)
proof (induction ts arbitrary: s left)
  case (Cons t ts)
  obtain s1 left1 where "(if t then journal_producer s else journal_consumer (length xs) s) = Some s1" "journaled_inv cap xs g0 s1 left1"
    by (cases t) (auto intro: journal_producer_inv [OF Cons.prems assms(2)] journal_consumer_inv [OF Cons.prems assms(3)])
  with Cons.IH show ?case by auto
qed auto

section \<open>The replay\<close>

lemma holds_replay:
  assumes h: "holds_frames cap (map frame bss) j" and ws: "list_all2 (\<lambda>bs w. payload_msg bs = Some w) bss ws"
    and g: "sink_all sink ws g0 = Some g"
  shows "\<exists>ps. replay sink (jn_base j) g0 = Some (Some (ps, g)) \<and> exhausted ps"
proof -
  have ok: "journal_ok j" and data: "journal_data j = concat (map frame bss)" using h by (simp_all add: holds_frames_def)
  let ?p = "parser_new (replay_data (jn_base j)) (unat (jn_off j))"
  note R = replay_data_ok [OF ok, unfolded data]
  have "parse_all sink ?p g0 = Some (?p\<lparr>ps_cur := ps_end ?p\<rparr>, g)"
    by (rule parse_frames [OF ws, of _ "[]" "drop (unat (jn_off j)) (replay_data (jn_base j))"])
      (use R g in \<open>simp_all add: parser_new_def\<close>)
  then have "replay sink (jn_base j) g0 = Some (Some (?p\<lparr>ps_cur := ps_end ?p\<rparr>, g))"
    by (simp add: replay_def replay_open_ok [OF ok])
  then show ?thesis by (auto simp: exhausted_def)
qed

lemma frames_length: "list_all2 (\<lambda>bs w. payload_msg bs = Some w) bss ws \<Longrightarrow> length (concat (map frame bss)) \<le> 64 * length ws"
proof (induction bss ws rule: list_all2_induct)
  case (Cons bs bss w ws)
  then show ?case using frame_prefix(3) [of bs w] by simp
qed simp

lemma sink_all_append: "sink_all sink (xs @ ys) g = sink_all sink xs g \<bind> sink_all sink ys"
  by (induction xs arbitrary: g) (auto split: bind_splits)

lemma run_capacity_small:
  "length (fd_buf fs) \<le> 64 * n \<Longrightarrow> n \<le> 1048576 \<Longrightarrow>
    unat (run_capacity fs) = length (fd_buf fs) + 4096 \<and> unat (run_capacity fs) < 2 ^ 63"
  using unat_of_nat_small [of "length (fd_buf fs)"] by (simp add: run_capacity_def unat_word_ariths)

text \<open>What every session needs to know about its feed.\<close>

lemma journaled_session:
  assumes ws: "list_all2 (\<lambda>bs w. payload_msg bs = Some w) bss ws" and n: "length ws \<le> 1048576"
    and buf: "fd_buf fs = concat (map frame bss)" and q: "idle_arena q (length ws)"
    and m: "mapped (word_of_nat JOURNAL_HDR + run_capacity fs) = Some base" "length base = JOURNAL_HDR + unat (run_capacity fs)"
    and g: "sink_all gateway_sink ws (gateway_new (fs_max_ref (fd_st fs))) = Some g"
  obtains j s left where "journal_open mapped (run_capacity fs) = Some (Some j)"
    and "journal_run (length ws) ts (journal_start (length ws) fs q j) = Some s"
    and "journaled_inv (run_capacity fs) (map frame bss) (gateway_new (fs_max_ref (fd_st fs))) s left"
proof -
  have "length (fd_buf fs) \<le> 64 * length ws" using frames_length [OF ws] buf by simp
  from run_capacity_small [OF this n] have "unat (run_capacity fs) = length (fd_buf fs) + 4096"
    and small: "unat (run_capacity fs) < 2 ^ 63" by simp_all
  then have room: "length (concat (map frame bss)) \<le> unat (run_capacity fs)" using buf by simp
  obtain j where j: "journal_open mapped (run_capacity fs) = Some (Some j)" "journal_ok j" "jn_cap j = run_capacity fs"
    "jn_off j = 0" "dropped j = Some 0" by (rule journal_open_ok [where mapped = mapped, OF small m])
  have l: "length (map frame bss) = length ws" using list_all2_lengthD [OF ws] by simp
  have "journal_data j = []" using replay_data_ok(2) [OF j(2)] j(4) by simp
  moreover have "pi_done (jd_pipe (journal_start (length ws) fs q j)) = 0" "arena_items (pi_queue (jd_pipe (journal_start (length ws) fs q j))) = []"
    using q by (simp_all add: journal_start_def arena_start_def idle_arena_def)
  ultimately have "journaled_inv (run_capacity fs) (map frame bss) (gateway_new (fs_max_ref (fd_st fs)))
      (journal_start (length ws) fs q j) (map frame bss)"
    using landing_start [OF ws q, of gateway_sink "gateway_new (fs_max_ref (fd_st fs))"] j buf
    by (simp add: journaled_inv_def landed_def holds_frames_def) (simp add: journal_start_def)
  from journal_run_inv [OF this room, of ts] g l j(1) that show ?thesis
    by (auto simp: apply_items_frames [OF ws])
qed

lemma journaled_replay:
  assumes inv: "journaled_inv cap (map frame bss) g0 s left" and ws: "list_all2 (\<lambda>bs w. payload_msg bs = Some w) bss ws"
    and g: "sink_all gateway_sink ws g0 \<noteq> None"
  obtains ps r ms where "replay gateway_sink (jn_base (jd_journal s)) g0 = Some (Some (ps, r))" and "exhausted ps"
    and "sink_all gateway_sink ms (pi_eng (jd_pipe s)) = Some r" and "length ms = length (arena_items (pi_queue (jd_pipe s)))"
proof -
  let ?p = "jd_pipe s" and ?k = "landed s"
  note I = inv [unfolded journaled_inv_def]
  have l: "length bss = length ws" using list_all2_lengthD [OF ws] .
  obtain r where r: "sink_all gateway_sink (take ?k ws) g0 = Some r"
    using g sink_all_append [of gateway_sink "take ?k ws" "drop ?k ws" g0] by (cases "sink_all gateway_sink (take ?k ws) g0") auto
  have "holds_frames cap (map frame (take ?k bss)) (jd_journal s)" using I by (simp add: take_map)
  from holds_replay [OF this list_all2_takeI [OF ws] r] obtain ps where
    ps: "replay gateway_sink (jn_base (jd_journal s)) g0 = Some (Some (ps, r))" "exhausted ps" by blast
  have "apply_items (engine_slot gateway_sink) (map frame (take (pi_done ?p) bss)) g0 = Some (pi_eng ?p)"
    using I by (simp add: landing.pipe_inv_def take_map)
  then have e: "sink_all gateway_sink (take (pi_done ?p) ws) g0 = Some (pi_eng ?p)"
    by (simp add: apply_items_frames [OF list_all2_takeI [OF ws]])
  let ?ms = "take (length (arena_items (pi_queue ?p))) (drop (pi_done ?p) ws)"
  have "take ?k ws = take (pi_done ?p) ws @ ?ms" by (simp add: landed_def take_add)
  with r e have "sink_all gateway_sink ?ms (pi_eng ?p) = Some r" by (simp add: sink_all_append)
  moreover have "length ?ms = length (arena_items (pi_queue ?p))" using I l by (auto simp: landed_def min_def)
  ultimately show ?thesis using that ps by blast
qed

section \<open>Theorems\<close>


text \<open>A mapping for the feed of one message.\<close>

lemma one_mapping:
  assumes "generate_feed 1 seed = Some fs"
  obtains base where "zero_mapping (word_of_nat JOURNAL_HDR + run_capacity fs) = Some base"
    and "length base = JOURNAL_HDR + unat (run_capacity fs)"
proof (rule feed_engines [OF assms])
  fix ws :: "wire_msg list" assume w: "length ws = 1" "well_framed (fd_buf fs) ws"
  then have "length (fd_buf fs) \<le> 64 * 1" using frames_length [of _ ws] by (auto simp: well_framed_def)
  from run_capacity_small [OF this] have "unat (run_capacity fs) < 2 ^ 63" by simp
  then have "unat (word_of_nat JOURNAL_HDR + run_capacity fs) = JOURNAL_HDR + unat (run_capacity fs)"
    by (simp add: JOURNAL_HDR_def unat_word_ariths)
  then show thesis
    by (intro that [of "replicate (JOURNAL_HDR + unat (run_capacity fs)) 0"]) (simp_all only: zero_mapping_def length_replicate)
qed simp


text \<open>C27. The benchmark as \<open>main\<close> runs it never reports a divergence. Touching the arena ends; under every
  schedule run A is defined and, when it has ended, verified; the journal opens, run B on the arena
  that A left is defined; when it has ended, every match is verified, the journal has committed
  exactly the bytes of the feed and dropped none, and the gateway replayed from it agrees with the
  live one in trades, lots, best prices and the fingerprint of the book.\<close>

theorem journal_bench_deterministic:
  assumes "generate_feed n seed = Some fs" and "n \<le> 1048576"
    and "mapped (word_of_nat JOURNAL_HDR + run_capacity fs) = Some base" and "length base = JOURNAL_HDR + unat (run_capacity fs)"
  shows "\<exists>q a. arena_setup = Some q \<and> dense_session n ts fs q = Some a \<and>
    (pi_done a = n \<longrightarrow> gw_trades (pi_eng a) = fs_execs (fd_st fs) \<and>
      (\<exists>j s. journal_open mapped (run_capacity fs) = Some (Some j) \<and> journal_run n us (journal_start n fs (pi_queue a) j) = Some s \<and>
        (pi_done (jd_pipe s) = n \<longrightarrow> gw_trades (pi_eng (jd_pipe s)) = fs_execs (fd_st fs) \<and>
          unat (committed (jd_journal s)) = length (fd_buf fs) \<and> dropped (jd_journal s) = Some 0 \<and>
          (\<exists>ps gw. replay gateway_sink (jn_base (jd_journal s)) (gateway_new (fs_max_ref (fd_st fs))) = Some (Some (ps, gw)) \<and>
            same_state (session_state_of gw) (session_state_of (pi_eng (jd_pipe s)))))))"
proof (rule feed_engines [OF assms(1,2)])
  fix ws gw
  let ?g0 = "gateway_new (fs_max_ref (fd_st fs))"
  assume w: "length ws = n" "well_framed (fd_buf fs) ws" "apply_all gateway_apply (map decode_msg ws) ?g0 = Some gw"
    "gw_trades gw = fs_execs (fd_st fs)"
  from w(2) obtain bss where bss: "fd_buf fs = concat (map frame bss)" "list_all2 (\<lambda>bs w. payload_msg bs = Some w) bss ws"
    by (auto simp: well_framed_def)
  have sink: "sink_all gateway_sink ws ?g0 = Some gw" using w(3) by (simp add: sink_all_gateway)
  obtain q where q: "arena_setup = Some q" "idle_arena q (n + n)" by (rule arena_setup_idle [of "n + n"]) (use assms(2) in auto)
  obtain a where a: "dense_session n ts fs q = Some a" "pi_done a = n \<longrightarrow> pi_eng a = gw \<and> idle_arena (pi_queue a) n"
    using paced_run_sink [OF bss(2), folded bss(1), unfolded w(1), OF q(2) sink, of ts] by (auto simp: dense_session_def)
  have "\<exists>j s. journal_open mapped (run_capacity fs) = Some (Some j) \<and> journal_run n us (journal_start n fs (pi_queue a) j) = Some s \<and>
      (pi_done (jd_pipe s) = n \<longrightarrow> pi_eng (jd_pipe s) = gw \<and>
        unat (committed (jd_journal s)) = length (fd_buf fs) \<and> dropped (jd_journal s) = Some 0 \<and>
        (\<exists>ps. replay gateway_sink (jn_base (jd_journal s)) ?g0 = Some (Some (ps, gw))))" if "pi_done a = n"
  proof -
    from a(2) that have idle: "idle_arena (pi_queue a) n" by simp
    obtain j s left where s: "journal_open mapped (run_capacity fs) = Some (Some j)" "journal_run n us (journal_start n fs (pi_queue a) j) = Some s"
      "journaled_inv (run_capacity fs) (map frame bss) ?g0 s left"
      by (rule journaled_session [where mapped = mapped, OF bss(2) _ bss(1) _ assms(3,4) sink, of "pi_queue a" us, unfolded w(1), OF assms(2) idle])
    note I = s(3) [unfolded journaled_inv_def]
    have "pi_eng (jd_pipe s) = gw \<and> holds_frames (run_capacity fs) (map frame bss) (jd_journal s)" if d: "pi_done (jd_pipe s) = n"
    proof -
      have l: "length bss = n" using list_all2_lengthD [OF bss(2)] w(1) by simp
      then have d': "pi_done (jd_pipe s) = length (map frame bss)" using d by simp
      have "landed s = length (map frame bss)" using landing.inv_finished(3) [OF conjunct1 [OF I] d'] d' by (simp add: landed_def)
      then show ?thesis using I landing.inv_finished(5) [OF conjunct1 [OF I] d'] sink by (simp add: apply_items_frames [OF bss(2)])
    qed
    moreover have "unat (committed (jd_journal s)) = length (concat (map frame bss)) \<and> dropped (jd_journal s) = Some 0 \<and>
        (\<exists>ps. replay gateway_sink (jn_base (jd_journal s)) ?g0 = Some (Some (ps, gw)))"
      if h: "holds_frames (run_capacity fs) (map frame bss) (jd_journal s)"
      using holds_replay [OF h bss(2) sink] h replay_data_ok(2) [of "jd_journal s"] by (auto simp: holds_frames_def committed_def)
    ultimately show ?thesis using s(1,2) bss(1) by auto
  qed
  with q(1) a w(4) show ?thesis by (fastforce simp: same_state_def)
qed

theorem journal_bench_deterministic_witness:
  "\<exists>fs q a. generate_feed 1 7 = Some fs \<and> arena_setup = Some q \<and> dense_session 1 [True, True, False] fs q = Some a \<and>
    (pi_done a = 1 \<longrightarrow> (\<exists>j s. journal_open zero_mapping (run_capacity fs) = Some (Some j) \<and>
      journal_run 1 [True, True, False] (journal_start 1 fs (pi_queue a) j) = Some s))"
proof -
  obtain fs where fs: "generate_feed 1 7 = Some fs" using generate_one by blast
  show ?thesis
    by (rule one_mapping [OF fs])
      (use journal_bench_deterministic [where mapped = zero_mapping, OF fs, of _ "[True, True, False]" "[True, True, False]"] fs in fastforce)
qed

lemma append_micro_keeps:
  assumes "journal_ok j" and "dropped j = Some 0" and "jn_off j = 0" and "38 * n \<le> unat (jn_cap j)"
  obtains j' where "append_micro n j = Some j'" and "dropped j' = Some 0" and "journal_data j' = concat (replicate n (replicate 38 0))"
proof -
  have len: "length (concat (replicate n (replicate 38 (0 :: u8)))) = 38 * n" by (induction n) auto
  have "kept (unat (jn_cap j) - unat (jn_off j)) (replicate n (replicate 38 0)) = replicate n (replicate 38 0)"
    using len assms(3,4) by (intro kept_all) simp
  moreover have "journal_data j = []" using replay_data_ok(2) [OF assms(1)] assms(3) by simp
  ultimately show ?thesis
    using append_all_ok [OF assms(1) _ assms(2), of "replicate n (replicate 38 0)"] that by (auto simp: append_micro_def)
qed

end
