(* ===== verification/Latency.thy ===== *)
theory Latency
  imports Landing
begin

text \<open>
  The latency runs of \<open>bench_zero_copy.cpp\<close> and \<open>bench_itch_pipeline.cpp\<close>: the producer stamps message \<open>i\<close>
  into \<open>t0[i]\<close> before it parses or lands it, the main thread reads the counter after it has applied
  the message and keeps the difference with \<open>t0[done]\<close>. \<open>t0\<close> and \<open>samples\<close> outlive the runs, as do the
  ring and the arena, so a run starts among the stamps of the one before.

  The theorem is about the whole of \<open>main\<close>: whatever the schedules, every run is defined, verified, and
  each of its samples is the difference of two readings of that run, the earlier taken when the
  message entered.
\<close>

section \<open>A stamped run\<close>

record ('p, 'a, 'q, 'g) timed =
  tm_pipe :: "('p, 'a, 'q, 'g) pipe"
  tm_index :: nat
  tm_t0 :: "u64 list"
  tm_samples :: "u32 list"

definition enter_turn :: "nat \<Rightarrow> ('p \<Rightarrow> ('a option \<times> 'p) option) \<Rightarrow> ('q \<Rightarrow> 'a \<Rightarrow> (bool \<times> 'q) option) \<Rightarrow> u64 \<Rightarrow>
    ('p, 'a, 'q, 'g) timed \<Rightarrow> ('p, 'a, 'q, 'g) timed option" where
  "enter_turn n src push clock st =
     (if pi_pending (tm_pipe st) = None then
        if tm_index st < n then do {
          t0 \<leftarrow> aput (tm_t0 st) (tm_index st) clock;
          p \<leftarrow> producer_turn src push (tm_pipe st);
          Some (st\<lparr>tm_t0 := t0, tm_pipe := p, tm_index := Suc (tm_index st)\<rparr>)
        }
        else Some st
      else do {
        p \<leftarrow> producer_turn src push (tm_pipe st);
        Some (st\<lparr>tm_pipe := p\<rparr>)
      })"

definition leave_turn :: "nat \<Rightarrow> ('q \<Rightarrow> ('a option \<times> 'q) option) \<Rightarrow> ('a \<Rightarrow> 'g \<Rightarrow> 'g option) \<Rightarrow> u64 \<Rightarrow>
    ('p, 'a, 'q, 'g) timed \<Rightarrow> ('p, 'a, 'q, 'g) timed option" where
  "leave_turn n pop app clock st = do {
     let d = pi_done (tm_pipe st);
     p \<leftarrow> consumer_turn n pop app (tm_pipe st);
     let st = st\<lparr>tm_pipe := p\<rparr>;
     if pi_done p = d then Some st
     else do {
       t \<leftarrow> aget (tm_t0 st) d;
       ss \<leftarrow> aput (tm_samples st) d (ucast (clock - t));
       Some (st\<lparr>tm_samples := ss\<rparr>)
     }
   }"

fun timed_run :: "nat \<Rightarrow> ('p \<Rightarrow> ('a option \<times> 'p) option) \<Rightarrow> ('q \<Rightarrow> 'a \<Rightarrow> (bool \<times> 'q) option) \<Rightarrow>
    ('q \<Rightarrow> ('a option \<times> 'q) option) \<Rightarrow> ('a \<Rightarrow> 'g \<Rightarrow> 'g option) \<Rightarrow> (bool \<times> u64) list \<Rightarrow>
    ('p, 'a, 'q, 'g) timed \<Rightarrow> ('p, 'a, 'q, 'g) timed option" where
  "timed_run n src push pop app [] st = Some st"
| "timed_run n src push pop app ((t, clock) # ts) st =
     (if t then enter_turn n src push clock st else leave_turn n pop app clock st) \<bind> timed_run n src push pop app ts"

section \<open>Every sample is its own\<close>

definition clocks :: "(bool \<times> u64) list \<Rightarrow> u64 set" where
  "clocks ts = snd ` set ts"

definition clocked :: "(bool \<times> u64) list \<Rightarrow> bool" where
  "clocked ts \<longleftrightarrow> sorted (map snd ts)"

context pipeline
begin

text \<open>\<open>C\<close>: the readings made so far.\<close>

definition timed_inv :: "'a list \<Rightarrow> 'g \<Rightarrow> u64 set \<Rightarrow> ('p, 'a, 'q, 'g) timed \<Rightarrow> 'a list \<Rightarrow> bool" where
  "timed_inv xs g0 C st left \<longleftrightarrow> pipe_inv xs g0 (tm_pipe st) left \<and> tm_index st + length left = length xs \<and>
     length (tm_t0 st) = length xs \<and> length (tm_samples st) = length xs \<and>
     (\<forall>k<tm_index st. tm_t0 st ! k \<in> C) \<and>
     (\<forall>k<pi_done (tm_pipe st). \<exists>c\<in>C. tm_t0 st ! k \<le> c \<and> tm_samples st ! k = ucast (c - tm_t0 st ! k))"

lemma timed_bounds:
  assumes "timed_inv xs g0 C st left"
  shows "pi_done (tm_pipe st) \<le> tm_index st" and "tm_index st \<le> length xs"
  using inv_counts [of xs g0 "tm_pipe st" left] assms by (simp_all add: timed_inv_def)

lemma enter_inv:
  assumes inv: "timed_inv xs g0 C st left"
  obtains st' left' where "enter_turn (length xs) src push clock st = Some st'" and "timed_inv xs g0 (insert clock C) st' left'"
    and "load (tm_pipe st') left' = load (tm_pipe st) left"
proof -
  note I = inv [unfolded timed_inv_def] and B = timed_bounds [OF inv]
  obtain p where p: "producer_turn src push (tm_pipe st) = Some p"
    "pipe_inv xs g0 p (if pi_pending (tm_pipe st) = None then tl left else left)"
    "load p (if pi_pending (tm_pipe st) = None then tl left else left) = load (tm_pipe st) left"
    by (rule producer_inv [OF conjunct1 [OF I]]) (rule that, simp_all)
  have d: "pi_done p = pi_done (tm_pipe st)" using producer_frame [OF p(1)] by simp
  show ?thesis
  proof (cases "pi_pending (tm_pipe st)")
    case (Some x)
    show ?thesis
      by (rule that [of "st\<lparr>tm_pipe := p\<rparr>" left]) (use Some p d I in \<open>auto simp: enter_turn_def timed_inv_def\<close>)
  next
    case None
    show ?thesis
    proof (cases left)
      case Nil
      with I None show ?thesis by (intro that [of st left]) (auto simp: enter_turn_def timed_inv_def)
    next
      case (Cons y ys)
      then have lt: "tm_index st < length xs" using I by simp
      let ?t0 = "(tm_t0 st)[tm_index st := clock]"
      let ?st = "st\<lparr>tm_t0 := ?t0, tm_pipe := p, tm_index := Suc (tm_index st)\<rparr>"
      have "enter_turn (length xs) src push clock st = Some ?st"
        using None lt I p(1) by (simp add: enter_turn_def)
      moreover have "?t0 ! k \<in> insert clock C" if "k < Suc (tm_index st)" for k
        using that I lt by (cases "k = tm_index st") simp_all
      moreover have "\<exists>c\<in>insert clock C. ?t0 ! k \<le> c \<and> tm_samples st ! k = ucast (c - ?t0 ! k)" if "k < pi_done (tm_pipe st)" for k
        using that I B by auto
      ultimately show ?thesis
        using p(2,3) None Cons I d by (intro that [of ?st ys]) (simp_all add: timed_inv_def)
    qed
  qed
qed

lemma leave_inv:
  assumes inv: "timed_inv xs g0 C st left" and le: "\<forall>c\<in>C. c \<le> clock" and fin: "apply_items app xs g0 \<noteq> None"
  obtains st' where "leave_turn (length xs) pop app clock st = Some st'" and "timed_inv xs g0 (insert clock C) st' left"
    and "load (tm_pipe st') left = load (tm_pipe st) left"
proof -
  note I = inv [unfolded timed_inv_def]
  let ?d = "pi_done (tm_pipe st)"
  obtain p where p: "consumer_turn (length xs) pop app (tm_pipe st) = Some p" "pipe_inv xs g0 p left" "load p left = load (tm_pipe st) left"
    by (rule consumer_inv [OF conjunct1 [OF I] order_refl fin])
  show ?thesis
  proof (cases "pi_done p = ?d")
    case True
    with p I show ?thesis by (intro that [of "st\<lparr>tm_pipe := p\<rparr>"]) (auto simp: leave_turn_def timed_inv_def)
  next
    case False
    then have d: "pi_done p = Suc ?d" using consumer_done [OF p(1)] by simp
    then have lt: "?d < tm_index st" "?d < length xs" using inv_counts [OF p(2)] I by simp_all
    let ?ss = "(tm_samples st)[?d := ucast (clock - tm_t0 st ! ?d)]"
    let ?st = "st\<lparr>tm_pipe := p, tm_samples := ?ss\<rparr>"
    have "leave_turn (length xs) pop app clock st = Some ?st" using p(1) d lt I by (simp add: leave_turn_def Let_def)
    moreover have "\<exists>c\<in>insert clock C. tm_t0 st ! k \<le> c \<and> ?ss ! k = ucast (c - tm_t0 st ! k)" if "k < Suc ?d" for k
      using that I lt le by (cases "k = ?d") auto
    ultimately show ?thesis
      using p(2,3) d I by (intro that [of ?st]) (auto simp: timed_inv_def)
  qed
qed

lemma timed_run_inv:
  assumes "timed_inv xs g0 C st left" and "apply_items app xs g0 \<noteq> None" and "clocked ts" and "\<forall>c\<in>C. \<forall>c'\<in>clocks ts. c \<le> c'"
  shows "\<exists>st' left'. timed_run (length xs) src push pop app ts st = Some st' \<and> timed_inv xs g0 (C \<union> clocks ts) st' left' \<and>
    load (tm_pipe st') left' = load (tm_pipe st) left"
  using assms(1,3,4)
proof (induction ts arbitrary: C st left)
  case Nil
  then show ?case by (auto simp: clocks_def)
next
  case (Cons u ts)
  obtain t clock where u: "u = (t, clock)" by force
  have next_: "clocked ts" "\<forall>c\<in>insert clock C. \<forall>c'\<in>clocks ts. c \<le> c'" and now: "\<forall>c\<in>C. c \<le> clock"
    using Cons.prems(2,3) by (auto simp: u clocked_def clocks_def)
  obtain st1 left1 where s: "(if t then enter_turn (length xs) src push clock st else leave_turn (length xs) pop app clock st) = Some st1"
    "timed_inv xs g0 (insert clock C) st1 left1" "load (tm_pipe st1) left1 = load (tm_pipe st) left"
    by (cases t) (auto intro: enter_inv [OF Cons.prems(1)] leave_inv [OF Cons.prems(1) now assms(2)])
  from Cons.IH [OF s(2) next_] s(1,3) show ?case by (auto simp: u clocks_def)
qed

end

section \<open>The programs\<close>

record bench_state =
  bs_ring :: "message ring"
  bs_arena :: "u8 list arena_ring"
  bs_t0 :: "u64 list"
  bs_samples :: "u32 list"

text \<open>\<open>run_copy\<close> and \<open>run_arena\<close> return the printed verdict and the samples, or nothing if the schedule ends before
  the run does.\<close>

definition run_copy :: "nat \<Rightarrow> feed_state \<Rightarrow> (bool \<times> u64) list \<Rightarrow> bench_state \<Rightarrow> ((bool \<times> u32 list) option \<times> bench_state) option" where
  "run_copy n fs ts b = do {
     st \<leftarrow> timed_run n message_source try_push try_pop (\<lambda>m gw. gateway_apply gw m) ts
       \<lparr>tm_pipe = (copy_start (fd_buf fs) (gateway_new (fs_max_ref (fd_st fs))))\<lparr>pi_queue := bs_ring b\<rparr>,
        tm_index = 0, tm_t0 = bs_t0 b, tm_samples = bs_samples b\<rparr>;
     Some (if pi_done (tm_pipe st) < n then None
           else Some (gw_trades (pi_eng (tm_pipe st)) = fs_execs (fd_st fs), tm_samples st),
           b\<lparr>bs_ring := pi_queue (tm_pipe st), bs_t0 := tm_t0 st, bs_samples := tm_samples st\<rparr>)
   }"

definition run_slots :: "nat \<Rightarrow> feed_state \<Rightarrow> (bool \<times> u64) list \<Rightarrow> bench_state \<Rightarrow> ((bool \<times> u32 list) option \<times> bench_state) option" where
  "run_slots n fs ts b = do {
     st \<leftarrow> timed_run n land_frame arena_push arena_pop (engine_slot gateway_sink) ts
       \<lparr>tm_pipe = arena_start n (fd_buf fs) (bs_arena b) (gateway_new (fs_max_ref (fd_st fs))),
        tm_index = 0, tm_t0 = bs_t0 b, tm_samples = bs_samples b\<rparr>;
     Some (if pi_done (tm_pipe st) < n then None
           else Some (gw_trades (pi_eng (tm_pipe st)) = fs_execs (fd_st fs), tm_samples st),
           b\<lparr>bs_arena := pi_queue (tm_pipe st), bs_t0 := tm_t0 st, bs_samples := tm_samples st\<rparr>)
   }"

text \<open>The runs of \<open>main\<close> take turns, first over the ring; the next one starts when the last has ended.\<close>

fun bench_runs :: "nat \<Rightarrow> feed_state \<Rightarrow> bool \<Rightarrow> (bool \<times> u64) list list \<Rightarrow> bench_state \<Rightarrow> (bool \<times> u32 list) list option" where
  "bench_runs n fs slots [] b = Some []"
| "bench_runs n fs slots (ts # tss) b = do {
     (r, b) \<leftarrow> (if slots then run_slots n fs ts b else run_copy n fs ts b);
     case r of
       None \<Rightarrow> Some []
     | Some x \<Rightarrow> do {
         xs \<leftarrow> bench_runs n fs (\<not> slots) tss b;
         Some (x # xs)
       }
   }"

definition zero_copy_main :: "nat \<Rightarrow> u64 \<Rightarrow> (bool \<times> u64) list list \<Rightarrow> (bool \<times> u32 list) list option" where
  "zero_copy_main n seed tss = do {
     fs \<leftarrow> generate_feed n seed;
     q \<leftarrow> pretouch n (arena_new (2 ^ 14));
     bench_runs n fs False tss
       \<lparr>bs_ring = ring_new (2 ^ 14), bs_arena = q, bs_t0 = replicate n 0, bs_samples = replicate n 0\<rparr>
   }"

text \<open>\<open>main\<close> of \<open>bench_itch_pipeline.cpp\<close>: the free run, checked for matches and lots, then the paced one on
  the same ring.\<close>

definition itch_pipeline_main :: "nat \<Rightarrow> u64 \<Rightarrow> bool list \<Rightarrow> (bool \<times> u64) list \<Rightarrow> (bool \<times> (bool \<times> u32 list) option) option option" where
  "itch_pipeline_main n seed ts us = do {
     fs \<leftarrow> generate_feed n seed;
     p \<leftarrow> copy_run n ts (copy_start (fd_buf fs) (gateway_new (fs_max_ref (fd_st fs))));
     if pi_done p < n then Some None
     else do {
       (r, b) \<leftarrow> run_copy n fs us
         \<lparr>bs_ring = pi_queue p, bs_arena = arena_new (2 ^ 14), bs_t0 = replicate n 0, bs_samples = replicate n 0\<rparr>;
       Some (Some (gw_trades (pi_eng p) = fs_execs (fd_st fs) \<and> gw_traded_lots (pi_eng p) = fs_exec_lots (fd_st fs), r))
     }
   }"

section \<open>Run after run\<close>

definition own_samples :: "(bool \<times> u64) list \<Rightarrow> u32 list \<Rightarrow> bool" where
  "own_samples ts ss \<longleftrightarrow> (\<forall>s\<in>set ss. \<exists>c0\<in>clocks ts. \<exists>c1\<in>clocks ts. c0 \<le> c1 \<and> s = ucast (c1 - c0))"

definition idle_ring :: "message ring \<Rightarrow> nat \<Rightarrow> bool" where
  "idle_ring r n \<longleftrightarrow> ring_ok r \<and> ring_items r = [] \<and> unat (r_head r) + n < 2 ^ 64"

definition bench_idle :: "nat \<Rightarrow> nat \<Rightarrow> bench_state \<Rightarrow> bool" where
  "bench_idle n m b \<longleftrightarrow> idle_ring (bs_ring b) m \<and> idle_arena (bs_arena b) m \<and> length (bs_t0 b) = n \<and> length (bs_samples b) = n"

definition good_run :: "nat \<Rightarrow> (bool \<times> u64) list \<Rightarrow> bool \<times> u32 list \<Rightarrow> bool" where
  "good_run n ts r \<longleftrightarrow> fst r \<and> length (snd r) = n \<and> own_samples ts (snd r)"

lemma own_of_inv:
  assumes "length ss = d" and "d \<le> i" and "\<forall>k<i. t0 ! k \<in> clocks ts"
    and "\<forall>k<d. \<exists>c\<in>clocks ts. t0 ! k \<le> c \<and> ss ! k = ucast (c - t0 ! k)"
  shows "own_samples ts ss"
  unfolding own_samples_def
proof
  fix s assume "s \<in> set ss"
  then obtain k where k: "k < d" "s = ss ! k" using assms(1) by (auto simp: in_set_conv_nth)
  with assms(4) obtain c where "c \<in> clocks ts" "t0 ! k \<le> c" "s = ucast (c - t0 ! k)" by blast
  with k(1) assms(2,3) show "\<exists>c0\<in>clocks ts. \<exists>c1\<in>clocks ts. c0 \<le> c1 \<and> s = ucast (c1 - c0)" by (metis less_le_trans)
qed

lemma copy_restart_inv:
  assumes "well_framed feed ws" and "idle_ring r (length ws)"
  shows "copy.pipe_inv (map decode_msg ws) gw ((copy_start feed gw)\<lparr>pi_queue := r\<rparr>) (map decode_msg ws)"
proof -
  obtain bss where "emits_frames (parser_new feed (length feed)) bss ws" using emits_frames_start [OF assms(1)] by blast
  then have "emits_msgs (parser_new feed (length feed)) (map decode_msg ws)" by (auto simp: emits_msgs_def)
  then show ?thesis unfolding copy_start_def pipe.simps
    using assms(2) by (intro copy.inv_start) (simp_all add: idle_ring_def)
qed

lemma run_copy_ok:
  assumes ws: "length ws = n" "well_framed (fd_buf fs) ws"
    and gw: "apply_all gateway_apply (map decode_msg ws) (gateway_new (fs_max_ref (fd_st fs))) = Some gw" "gw_trades gw = fs_execs (fd_st fs)"
    and b: "bench_idle n (m + n) b" and ts: "clocked ts"
  shows "\<exists>r b'. run_copy n fs ts b = Some (r, b') \<and> (\<forall>x. r = Some x \<longrightarrow> good_run n ts x \<and> bench_idle n m b')"
proof -
  let ?ms = "map decode_msg ws" and ?g0 = "gateway_new (fs_max_ref (fd_st fs))"
  let ?st = "\<lparr>tm_pipe = (copy_start (fd_buf fs) ?g0)\<lparr>pi_queue := bs_ring b\<rparr>, tm_index = 0, tm_t0 = bs_t0 b, tm_samples = bs_samples b\<rparr>"
  have "idle_ring (bs_ring b) (length ws)" using b ws(1) by (simp add: bench_idle_def idle_ring_def)
  from copy_restart_inv [OF ws(2) this, of ?g0] have start: "copy.timed_inv ?ms ?g0 {} ?st ?ms"
    using b ws(1) by (simp add: copy.timed_inv_def bench_idle_def copy_start_def)
  have fin: "apply_items (\<lambda>m gw. gateway_apply gw m) ?ms ?g0 = Some gw" using gw(1) by (simp add: apply_items_gateway)
  obtain st left where st: "timed_run n message_source try_push try_pop (\<lambda>m gw. gateway_apply gw m) ts ?st = Some st"
    "copy.timed_inv ?ms ?g0 (clocks ts) st left" "copy.load (tm_pipe st) left = copy.load (tm_pipe ?st) ?ms"
    using copy.timed_run_inv [OF start _ ts] fin ws(1) by auto
  note I = st(2) [unfolded copy.timed_inv_def]
  show ?thesis
  proof (cases "pi_done (tm_pipe st) < n")
    case True
    with st(1) show ?thesis by (simp add: run_copy_def)
  next
    case False
    with copy.timed_bounds [OF st(2)] ws(1) have d: "pi_done (tm_pipe st) = n" by simp
    then have "pi_done (tm_pipe st) = length ?ms" using ws(1) by simp
    note D = copy.inv_finished [OF conjunct1 [OF I] this]
    have "unat (r_head (pi_queue (tm_pipe st))) = unat (r_head (bs_ring b)) + n"
      using st(3) D(1,2) ws(1) by (simp add: copy.load_def copy_start_def)
    then have "bench_idle n m (b\<lparr>bs_ring := pi_queue (tm_pipe st), bs_t0 := tm_t0 st, bs_samples := tm_samples st\<rparr>)"
      using b D(3,4) I ws(1) by (simp add: bench_idle_def idle_ring_def idle_arena_def del: ring_items_len)
    moreover have "good_run n ts (gw_trades (pi_eng (tm_pipe st)) = fs_execs (fd_st fs), tm_samples st)"
      using own_of_inv [of "tm_samples st" n "tm_index st" "tm_t0 st" ts] copy.timed_bounds [OF st(2)] I D(5) fin gw(2) d ws(1)
      by (simp add: good_run_def)
    ultimately show ?thesis using st(1) d by (simp add: run_copy_def)
  qed
qed

lemma run_slots_ok:
  assumes ws: "length ws = n" "well_framed (fd_buf fs) ws"
    and gw: "apply_all gateway_apply (map decode_msg ws) (gateway_new (fs_max_ref (fd_st fs))) = Some gw" "gw_trades gw = fs_execs (fd_st fs)"
    and b: "bench_idle n (m + n) b" and ts: "clocked ts"
  shows "\<exists>r b'. run_slots n fs ts b = Some (r, b') \<and> (\<forall>x. r = Some x \<longrightarrow> good_run n ts x \<and> bench_idle n m b')"
proof -
  from ws(2) obtain bss where bss: "fd_buf fs = concat (map frame bss)" "list_all2 (\<lambda>bs w. payload_msg bs = Some w) bss ws"
    by (auto simp: well_framed_def)
  have l: "length (map frame bss) = n" using list_all2_lengthD [OF bss(2)] ws(1) by simp
  let ?xs = "map frame bss" and ?g0 = "gateway_new (fs_max_ref (fd_st fs))"
  let ?st = "\<lparr>tm_pipe = arena_start n (fd_buf fs) (bs_arena b) ?g0, tm_index = 0, tm_t0 = bs_t0 b, tm_samples = bs_samples b\<rparr>"
  have "idle_arena (bs_arena b) (length ws)" using b ws(1) by (simp add: bench_idle_def idle_arena_def)
  from arena_start_inv [OF bss(2) this, of gateway_sink ?g0] have start: "zero_copy.timed_inv gateway_sink ?xs ?g0 {} ?st ?xs"
    using b ws(1) l bss(1) by (simp add: zero_copy.timed_inv_def bench_idle_def) (simp add: arena_start_def)
  have fin: "apply_items (engine_slot gateway_sink) ?xs ?g0 = Some gw"
    using gw(1) by (simp add: apply_items_frames [OF bss(2)] sink_all_gateway)
  obtain st left where st: "timed_run n land_frame arena_push arena_pop (engine_slot gateway_sink) ts ?st = Some st"
    "zero_copy.timed_inv gateway_sink ?xs ?g0 (clocks ts) st left"
    "zero_copy.load (tm_pipe st) left = zero_copy.load (tm_pipe ?st) ?xs"
    using zero_copy.timed_run_inv [OF start _ ts] fin l by auto
  note I = st(2) [unfolded zero_copy.timed_inv_def]
  show ?thesis
  proof (cases "pi_done (tm_pipe st) < n")
    case True
    with st(1) show ?thesis by (simp add: run_slots_def)
  next
    case False
    with zero_copy.timed_bounds [OF st(2)] l have d: "pi_done (tm_pipe st) = n" by simp
    then have "pi_done (tm_pipe st) = length ?xs" using l by simp
    note D = zero_copy.inv_finished [OF conjunct1 [OF I] this]
    have "unat (ar_head (pi_queue (tm_pipe st))) = unat (ar_head (bs_arena b)) + n"
      using st(3) D(1,2) l by (simp add: zero_copy.load_def arena_start_def)
    then have "bench_idle n m (b\<lparr>bs_arena := pi_queue (tm_pipe st), bs_t0 := tm_t0 st, bs_samples := tm_samples st\<rparr>)"
      using b D(3,4) I l by (simp add: bench_idle_def idle_ring_def idle_arena_def del: ring_items_len)
    moreover have "good_run n ts (gw_trades (pi_eng (tm_pipe st)) = fs_execs (fd_st fs), tm_samples st)"
      using own_of_inv [of "tm_samples st" n "tm_index st" "tm_t0 st" ts] zero_copy.timed_bounds [OF st(2)] I D(5) fin gw(2) d l
      by (simp add: good_run_def)
    ultimately show ?thesis using st(1) d by (simp add: run_slots_def)
  qed
qed

lemma bench_runs_ok:
  assumes ws: "length ws = n" "well_framed (fd_buf fs) ws"
    and gw: "apply_all gateway_apply (map decode_msg ws) (gateway_new (fs_max_ref (fd_st fs))) = Some gw" "gw_trades gw = fs_execs (fd_st fs)"
    and b: "bench_idle n (length tss * n) b" and ts: "\<forall>ts\<in>set tss. clocked ts"
  shows "\<exists>rs. bench_runs n fs slots tss b = Some rs \<and> length rs \<le> length tss \<and> list_all2 (good_run n) (take (length rs) tss) rs"
  using b ts
proof (induction tss arbitrary: b slots)
  case (Cons ts tss)
  have i: "bench_idle n (length tss * n + n) b" and c: "clocked ts" and cs: "\<forall>ts\<in>set tss. clocked ts"
    using Cons.prems by (simp_all add: add.commute)
  obtain r b' where r: "(if slots then run_slots n fs ts b else run_copy n fs ts b) = Some (r, b')"
    "\<And>x. r = Some x \<Longrightarrow> good_run n ts x \<and> bench_idle n (length tss * n) b'"
    using run_slots_ok [OF ws gw i c] run_copy_ok [OF ws gw i c] by (cases slots) (auto simp del: split_paired_Ex)
  show ?case
  proof (cases r)
    case None
    with r(1) show ?thesis by simp
  next
    case (Some x)
    with r(2) have g: "good_run n ts x" "bench_idle n (length tss * n) b'" by auto
    from Cons.IH [OF g(2) cs, of "\<not> slots"] g(1) r(1) Some show ?thesis by auto
  qed
qed simp

lemma idle_ring_new: "m < 2 ^ 64 \<Longrightarrow> idle_ring (ring_new (2 ^ 14)) m"
proof -
  have c: "pow2_cap (2 ^ 14)" unfolding pow2_cap_def by (intro exI [of _ 14]) simp
  show "m < 2 ^ 64 \<Longrightarrow> idle_ring (ring_new (2 ^ 14)) m"
    using ring_new_ok(1) [OF c] by (simp add: idle_ring_def ring_new_ok(2,4) del: ring_items_len)
qed

lemma itch_pipeline_ok:
  assumes ws: "length ws = n" "well_framed (fd_buf fs) ws" and n: "n \<le> 1048576" and fs: "generate_feed n seed = Some fs"
    and gw: "apply_all gateway_apply (map decode_msg ws) (gateway_new (fs_max_ref (fd_st fs))) = Some gw"
      "gw_trades gw = fs_execs (fd_st fs)" "gw_traded_lots gw = fs_exec_lots (fd_st fs)"
    and us: "clocked us"
  shows "\<exists>r. itch_pipeline_main n seed ts us = Some r \<and>
    (\<forall>v x. r = Some (v, x) \<longrightarrow> v \<and> (\<forall>y. x = Some y \<longrightarrow> good_run n us y))"
proof -
  let ?ms = "map decode_msg ws" and ?g0 = "gateway_new (fs_max_ref (fd_st fs))"
  have inv: "copy.pipe_inv ?ms ?g0 (copy_start (fd_buf fs) ?g0) ?ms"
    by (rule copy_start_inv [OF ws(2)]) (use ws(1) n in simp)
  have fin: "apply_items (\<lambda>m gw. gateway_apply gw m) ?ms ?g0 = Some gw" using gw(1) by (simp add: apply_items_gateway)
  obtain p left where p: "copy_run n ts (copy_start (fd_buf fs) ?g0) = Some p" "copy.pipe_inv ?ms ?g0 p left"
    "copy.load p left = copy.load (copy_start (fd_buf fs) ?g0) ?ms"
    using copy.run_inv [OF inv, of n ts] fin ws(1) by (auto simp: copy_run_def)
  show ?thesis
  proof (cases "pi_done p < n")
    case True
    with fs p(1) show ?thesis by (simp add: itch_pipeline_main_def)
  next
    case False
    with copy.inv_applied [OF p(2)] ws(1) have d: "pi_done p = n" "pi_done p = length ?ms" by simp_all
    note D = copy.inv_finished [OF p(2) d(2)]
    have "unat (r_head (pi_queue p)) = n"
      using p(3) D(1,2) ws(1) by (simp add: copy.load_def copy_start_def ring_new_ok(4) [of "2 ^ 14"] ring_new_def)
    then have "idle_ring (pi_queue p) (0 + n)" using D(3,4) n by (simp add: idle_ring_def del: ring_items_len)
    moreover have "idle_arena (arena_new (2 ^ 14)) (0 + n)" using idle_fresh [of n] n by simp
    ultimately have "bench_idle n (0 + n) \<lparr>bs_ring = pi_queue p, bs_arena = arena_new (2 ^ 14), bs_t0 = replicate n 0, bs_samples = replicate n 0\<rparr>"
      by (simp add: bench_idle_def)
    from run_copy_ok [OF ws gw(1,2) this us] fs p(1) d(1) D(5) fin gw(2,3) show ?thesis
      by (auto simp: itch_pipeline_main_def)
  qed
qed

section \<open>Theorem\<close>

text \<open>C20. The latency benchmarks run to the letter. Whatever the schedules of the threads, as long as the
  counter does not run backwards within a run: \<open>bench_zero_copy\<close> is defined from touching the arena to
  the last of its six runs, on a ring and an arena that are used again and again, each run that ends
  prints VERIFIED, and each of its \<open>n\<close> samples is the difference of two readings of this run, never
  of a stamp that an earlier run has left; the same holds for the two runs of \<open>bench_itch_pipeline\<close>,
  the first of which also checks the lots.\<close>

theorem latency_runs_verified:
  assumes "generate_feed n seed = Some fs" and "n \<le> 1048576" and "length tss \<le> 6" and "\<forall>ts\<in>set tss. clocked ts" and "clocked us"
  shows "(\<exists>rs. zero_copy_main n seed tss = Some rs \<and> length rs \<le> length tss \<and>
      list_all2 (\<lambda>ts (v, ss). v \<and> length ss = n \<and> own_samples ts ss) (take (length rs) tss) rs) \<and>
    (\<exists>r. itch_pipeline_main n seed ts us = Some r \<and>
      (\<forall>v x. r = Some (v, x) \<longrightarrow> v \<and> (\<forall>w ss. x = Some (w, ss) \<longrightarrow> w \<and> length ss = n \<and> own_samples us ss)))"
proof (rule feed_engines [OF assms(1,2)])
  fix ws gw
  assume w: "length ws = n" "well_framed (fd_buf fs) ws"
    "apply_all gateway_apply (map decode_msg ws) (gateway_new (fs_max_ref (fd_st fs))) = Some gw"
    "gw_trades gw = fs_execs (fd_st fs)" "gw_traded_lots gw = fs_exec_lots (fd_st fs)"
  have "length tss * n \<le> 6 * 1048576" using mult_le_mono [OF assms(3,2)] .
  then have "idle_arena (arena_new (2 ^ 14)) (n + length tss * n)" "idle_ring (ring_new (2 ^ 14)) (length tss * n)"
    using assms(2) idle_fresh [of "n + length tss * n"] idle_ring_new [of "length tss * n"] by simp_all
  then obtain q where q: "pretouch n (arena_new (2 ^ 14)) = Some q" "idle_arena q (length tss * n)" by (blast intro: pretouch_idle)
  have "bench_idle n (length tss * n) \<lparr>bs_ring = ring_new (2 ^ 14), bs_arena = q, bs_t0 = replicate n 0, bs_samples = replicate n 0\<rparr>"
    using q(2) \<open>idle_ring _ _\<close> by (simp add: bench_idle_def)
  from bench_runs_ok [OF w(1-4) this assms(4), of False] assms(1) q(1) obtain rs where
    rs: "zero_copy_main n seed tss = Some rs" "length rs \<le> length tss" "list_all2 (good_run n) (take (length rs) tss) rs"
    by (auto simp: zero_copy_main_def)
  have "list_all2 (\<lambda>ts (v, ss). v \<and> length ss = n \<and> own_samples ts ss) (take (length rs) tss) rs"
    using rs(3) by (rule list_all2_mono) (auto simp: good_run_def)
  with rs itch_pipeline_ok [OF w(1,2) assms(2,1) w(3-5) assms(5), of ts] show ?thesis by (fastforce simp: good_run_def)
qed

theorem latency_runs_verified_witness:
  "\<exists>rs. zero_copy_main 1 7 [[(True, 5), (True, 6), (False, 9)]] = Some rs \<and> length rs \<le> 1"
proof -
  obtain fs where fs: "generate_feed 1 7 = Some fs" using generate_one by blast
  with latency_runs_verified [OF fs, of "[[(True, 5), (True, 6), (False, 9)]]" "[]" "[]"] show ?thesis
    by (auto simp: clocked_def)
qed

end
