(* ===== verification/Pacing.thy ===== *)
theory Pacing
  imports Common
begin

text \<open>
  The pacing of the producers (\<open>Pacer\<close> of \<open>bench_zero_copy.cpp\<close>; the other benches inline it with bursts
  of one message): \<open>burst\<close> messages go out back to back, then the producer spins on the time-stamp
  counter so that the average is one message per \<open>gap\<close> ticks. The counter is a parameter, the
  value of each reading in the order of the readings; the position in it is part of the state.

  The theorem: if the counter is monotone and goes on, every spin ends, and no message is stamped
  earlier than its place in the schedule, however late the messages before it were.
\<close>

record pacer =
  pc_gap :: u64
  pc_burst :: u64
  pc_next :: u64

definition pacer_start :: "(nat \<Rightarrow> u64) \<Rightarrow> pacer \<Rightarrow> nat \<Rightarrow> pacer \<times> nat" where
  "pacer_start clk pc k = (pc\<lparr>pc_next := clk k + pc_gap pc * pc_burst pc\<rparr>, Suc k)"

partial_function (option) spin_until :: "(nat \<Rightarrow> u64) \<Rightarrow> u64 \<Rightarrow> nat \<Rightarrow> nat option" where
  "spin_until clk t k = (if clk k < t then spin_until clk t (Suc k) else Some (Suc k))"

text \<open>A burst length of 0 is a division by zero.\<close>

definition pacer_tick :: "(nat \<Rightarrow> u64) \<Rightarrow> u64 \<Rightarrow> pacer \<Rightarrow> nat \<Rightarrow> (pacer \<times> nat) option" where
  "pacer_tick clk i pc k =
     (if pc_burst pc = 0 then None
      else if i mod pc_burst pc = 0 then do {
        k \<leftarrow> spin_until clk (pc_next pc) k;
        Some (pc\<lparr>pc_next := pc_next pc + pc_gap pc * pc_burst pc\<rparr>, k)
      }
      else Some (pc, k))"

text \<open>The producer loop, reduced to what it does with the counter: \<open>tick\<close>, then the stamp of message
  \<open>i\<close>; \<open>m\<close> messages are still to be sent.\<close>

fun stamp_loop :: "(nat \<Rightarrow> u64) \<Rightarrow> nat \<Rightarrow> u64 \<Rightarrow> pacer \<Rightarrow> nat \<Rightarrow> u64 list option" where
  "stamp_loop clk 0 i pc k = Some []"
| "stamp_loop clk (Suc m) i pc k = do {
     (pc, k) \<leftarrow> pacer_tick clk i pc k;
     ts \<leftarrow> stamp_loop clk m (i + 1) pc (Suc k);
     Some (clk k # ts)
   }"

definition paced_stamps :: "(nat \<Rightarrow> u64) \<Rightarrow> nat \<Rightarrow> u64 \<Rightarrow> u64 \<Rightarrow> u64 list option" where
  "paced_stamps clk n gap burst =
     (let (pc, k) = pacer_start clk \<lparr>pc_gap = gap, pc_burst = burst, pc_next = 0\<rparr> 0
      in stamp_loop clk n 0 pc k)"

section \<open>The schedule\<close>

text \<open>A counter that neither runs backwards nor stops before \<open>t\<close>.\<close>

definition steady_clock :: "(nat \<Rightarrow> u64) \<Rightarrow> nat \<Rightarrow> bool" where
  "steady_clock clk t \<longleftrightarrow> (\<forall>i j. i \<le> j \<longrightarrow> clk i \<le> clk j) \<and> (\<exists>k. t \<le> unat (clk k))"

lemma spin_ends:
  assumes clk: "steady_clock clk m" and t: "unat t \<le> m"
  obtains k' where "spin_until clk t k = Some (Suc k')" and "k \<le> k'" and "t \<le> clk k'"
proof -
  from clk obtain K where "unat t \<le> unat (clk K)" using t by (auto simp: steady_clock_def intro: order_trans)
  then have K: "t \<le> clk K" by (simp add: word_le_nat_alt)
  have "\<exists>k'\<ge>k. spin_until clk t k = Some (Suc k') \<and> t \<le> clk k'" for k
  proof (induction "K - k" arbitrary: k rule: less_induct)
    case less
    show ?case
    proof (cases "clk k < t")
      case True
      have "k < K"
      proof (rule ccontr)
        assume "\<not> k < K"
        then have "clk K \<le> clk k" using clk by (simp add: steady_clock_def)
        with True K show False by simp
      qed
      then have "K - Suc k < K - k" by simp
      from less.hyps [OF this] obtain k' where "Suc k \<le> k'" "spin_until clk t (Suc k) = Some (Suc k')" "t \<le> clk k'" by blast
      with True show ?thesis by (subst spin_until.simps) (auto intro: exI [of _ k'])
    next
      case False
      then show ?thesis by (subst spin_until.simps) (auto intro: exI [of _ k])
    qed
  qed
  with that show ?thesis by blast
qed

text \<open>The tick at which burst \<open>b\<close> is due, counted from the start.\<close>

definition due :: "nat \<Rightarrow> nat \<Rightarrow> nat \<Rightarrow> nat \<Rightarrow> nat" where
  "due s gap burst i = s + gap * burst * Suc (i div burst)"

lemma due_mono: "i \<le> j \<Longrightarrow> due s gap burst i \<le> due s gap burst j"
  by (simp add: due_def div_le_mono)

lemma due_next: "0 < burst \<Longrightarrow> \<not> burst dvd Suc i \<Longrightarrow> due s gap burst (Suc i) = due s gap burst i"
  by (simp add: due_def div_Suc dvd_eq_mod_eq_0)

lemma due_burst: "0 < burst \<Longrightarrow> burst dvd Suc i \<Longrightarrow> due s gap burst (Suc i) = due s gap burst i + gap * burst"
  by (simp add: due_def div_Suc dvd_eq_mod_eq_0)

lemma stamp_loop_ok:
  assumes clk: "steady_clock clk (due s g b n)" and b: "0 < b" and fit: "due s g b n + g * b < 2 ^ 64" and n: "n < 2 ^ 64"
    and pc: "unat (pc_burst pc) = b" "unat (pc_gap pc) = g" and i: "unat i + m \<le> n"
    and inv: "unat (pc_next pc) = due s g b (unat i) + (if b dvd unat i then 0 else g * b)"
      "b dvd unat i \<or> due s g b (unat i) \<le> unat (clk k)"
  shows "\<exists>ts. stamp_loop clk m i pc k = Some ts \<and> length ts = m \<and> (\<forall>j<m. due s g b (unat i + j) \<le> unat (ts ! j))"
  using pc i inv
proof (induction m arbitrary: i pc k)
  case (Suc m)
  note P = Suc.prems
  have later: "due s g b (unat i) \<le> due s g b n" using P(3) by (intro due_mono) simp
  have mono: "unat (clk k) \<le> unat (clk k')" if "k \<le> k'" for k k'
    using clk that by (simp add: steady_clock_def word_le_nat_alt)
  have nz: "pc_burst pc \<noteq> 0" using P(1) b by auto
  have mod: "i mod pc_burst pc = 0 \<longleftrightarrow> b dvd unat i"
    using P(1) by (simp add: word_unat_eq_iff unat_mod dvd_eq_mod_eq_0)
  have gb: "unat (pc_gap pc * pc_burst pc) = g * b" using P(1,2) fit by (simp add: unat_mult_lem [THEN iffD1])
  obtain pc' k' where t: "pacer_tick clk i pc k = Some (pc', k')" "unat (pc_burst pc') = b" "unat (pc_gap pc') = g"
    "unat (pc_next pc') = due s g b (unat i) + g * b" "due s g b (unat i) \<le> unat (clk k')"
  proof (cases "b dvd unat i")
    case False
    then show ?thesis using P nz mod by (intro that [of pc k]) (simp_all add: pacer_tick_def)
  next
    case True
    then have nx: "unat (pc_next pc) = due s g b (unat i)" using P(4) by simp
    with later have le: "unat (pc_next pc) \<le> due s g b n" by simp
    obtain k1 where k1: "spin_until clk (pc_next pc) k = Some (Suc k1)" "pc_next pc \<le> clk k1"
      by (rule spin_ends [OF clk le]) (rule that)
    have "unat (pc_next pc + pc_gap pc * pc_burst pc) = due s g b (unat i) + g * b"
      using nx gb later fit by (simp add: unat_add_lem [THEN iffD1])
    moreover have "due s g b (unat i) \<le> unat (clk (Suc k1))"
      using k1(2) nx mono [of k1 "Suc k1"] by (simp add: word_le_nat_alt)
    ultimately show ?thesis
      by (intro that [of "pc\<lparr>pc_next := pc_next pc + pc_gap pc * pc_burst pc\<rparr>" "Suc k1"])
        (use P True nz mod k1 in \<open>simp_all add: pacer_tick_def\<close>)
  qed
  have i1: "unat (i + 1) = Suc (unat i)" using P(3) n by (simp add: unat_word_ariths)
  have "\<exists>ts. stamp_loop clk m (i + 1) pc' (Suc k') = Some ts \<and> length ts = m \<and>
      (\<forall>j<m. due s g b (unat (i + 1) + j) \<le> unat (ts ! j))"
  proof (rule Suc.IH [OF t(2,3)])
    show "unat (i + 1) + m \<le> n" using P(3) i1 by simp
    show "unat (pc_next pc') = due s g b (unat (i + 1)) + (if b dvd unat (i + 1) then 0 else g * b)"
      using t(4) due_next [OF b] due_burst [OF b] unfolding i1 by simp
    show "b dvd unat (i + 1) \<or> due s g b (unat (i + 1)) \<le> unat (clk (Suc k'))"
      using t(5) due_next [OF b] mono [of k' "Suc k'"] unfolding i1 by (metis le_trans le_SucI order_refl)
  qed
  then obtain ts where ts: "stamp_loop clk m (i + 1) pc' (Suc k') = Some ts" "length ts = m"
    "\<forall>j<m. due s g b (Suc (unat i) + j) \<le> unat (ts ! j)" unfolding i1 by blast
  have "due s g b (unat i + j) \<le> unat ((clk k' # ts) ! j)" if "j < Suc m" for j
    using that ts(3) t(5) by (cases j) simp_all
  with t(1) ts(1,2) show ?case by simp
qed simp

text \<open>C39. The pacer keeps its rate from above. If the time-stamp counter does not run backwards and reaches
  the end of the schedule, the producer loop ends, and message \<open>i\<close> is stamped no earlier than
  \<open>gap * burst\<close> ticks times the number of bursts begun after the start: the average rate never
  exceeds one message per \<open>gap\<close>, and late messages are not made up for by early ones.\<close>

theorem pacer_rate:
  assumes "0 < burst" and "n < 2 ^ 64" and "due (unat (clk 0)) (unat gap) (unat burst) n + unat gap * unat burst < 2 ^ 64"
    and "steady_clock clk (due (unat (clk 0)) (unat gap) (unat burst) n)"
  shows "\<exists>ts. paced_stamps clk n gap burst = Some ts \<and> length ts = n \<and>
    (\<forall>i<n. unat (clk 0) + unat gap * unat burst * Suc (i div unat burst) \<le> unat (ts ! i))"
proof -
  let ?g = "unat gap" and ?b = "unat burst" and ?s = "unat (clk 0)"
  let ?pc = "\<lparr>pc_gap = gap, pc_burst = burst, pc_next = clk 0 + gap * burst\<rparr>"
  have b: "0 < ?b" using assms(1) by (simp add: word_less_nat_alt)
  have "?s + ?g * ?b \<le> due ?s ?g ?b n + ?g * ?b" by (simp add: due_def)
  with assms(3) have nx: "unat (clk 0 + gap * burst) = ?s + ?g * ?b"
    by (simp add: unat_add_lem [THEN iffD1] unat_mult_lem [THEN iffD1])
  from stamp_loop_ok [OF assms(4) b assms(3,2), of ?pc 0 n "Suc 0"] nx show ?thesis
    by (simp add: paced_stamps_def pacer_start_def due_def)
qed

text \<open>A counter that advances by one at every reading and stops at the largest word.\<close>

definition reading_clock :: "nat \<Rightarrow> u64" where
  "reading_clock k = word_of_nat (min k (2 ^ 64 - 1))"

lemma unat_reading_clock: "unat (reading_clock k) = min k (2 ^ 64 - 1)"
  by (simp add: reading_clock_def unat_of_nat take_bit_nat_eq_self_iff take_bit_nat_eq_self min_def)

lemma steady_reading_clock: "t < 2 ^ 64 \<Longrightarrow> steady_clock reading_clock t"
  by (auto simp: steady_clock_def word_le_nat_alt unat_reading_clock intro!: exI [of _ t])

theorem pacer_rate_witness:
  "\<exists>ts. paced_stamps reading_clock 4 10 2 = Some ts \<and> length ts = 4 \<and>
    (\<forall>i<4. unat (reading_clock 0) + 20 * Suc (i div 2) \<le> unat (ts ! i))"
  using pacer_rate [of 2 4 reading_clock 10] by (simp add: due_def unat_reading_clock steady_reading_clock)

end
