(* ===== verification/Reports.thy ===== *)
theory Reports
  imports Prelude Complex_Main
begin

text \<open>
  The percentile reports: \<open>report\<close> of \<open>pipeline_common.hpp\<close> and \<open>report\<close> and \<open>report_adjusted\<close> of
  \<open>bench_rdtsc.cpp\<close>, as the numbers they print in cycles. The index of a percentile is computed in
  doubles. A double is a real here and \<open>rnd\<close>, a parameter, rounds the exact result of an operation or
  a conversion; what IEEE 754 says of it is \<open>double_rounding\<close>. Converting to nanoseconds is not
  modelled.

  The theorem: for any sample the reports print samples in increasing order, each at its place in the
  ranking; for no sample at all they are undefined.
\<close>

section \<open>The reports\<close>

definition pct_index :: "(real \<Rightarrow> real) \<Rightarrow> real \<Rightarrow> nat \<Rightarrow> nat" where
  "pct_index rnd p n = nat \<lfloor>rnd (rnd (rnd p / 100) * rnd (real (unat (word_of_nat n - 1 :: u64))))\<rfloor>"

definition pct :: "(real \<Rightarrow> real) \<Rightarrow> u32 list \<Rightarrow> real \<Rightarrow> u32 option" where
  "pct rnd cyc p = aget cyc (pct_index rnd p (length cyc))"

definition cyc_back :: "u32 list \<Rightarrow> u32 option" where
  "cyc_back cyc = (if cyc = [] then None else Some (last cyc))"

definition report :: "(real \<Rightarrow> real) \<Rightarrow> u32 list \<Rightarrow> u32 list option" where
  "report rnd samples = do {
     let cyc = sort samples;
     p50 \<leftarrow> pct rnd cyc 50;
     p90 \<leftarrow> pct rnd cyc 90;
     p99 \<leftarrow> pct rnd cyc 99;
     p999 \<leftarrow> pct rnd cyc (999 / 10);
     mx \<leftarrow> cyc_back cyc;
     Some [p50, p90, p99, p999, mx]
   }"

text \<open>The one of \<open>bench_rdtsc.cpp\<close> has a row more.\<close>

definition rdtsc_report :: "(real \<Rightarrow> real) \<Rightarrow> u32 list \<Rightarrow> u32 list option" where
  "rdtsc_report rnd samples = do {
     let cyc = sort samples;
     p50 \<leftarrow> pct rnd cyc 50;
     p90 \<leftarrow> pct rnd cyc 90;
     p99 \<leftarrow> pct rnd cyc 99;
     p999 \<leftarrow> pct rnd cyc (999 / 10);
     p9999 \<leftarrow> pct rnd cyc (9999 / 100);
     mx \<leftarrow> cyc_back cyc;
     Some [p50, p90, p99, p999, p9999, mx]
   }"

definition adjusted :: "u64 \<Rightarrow> u32 \<Rightarrow> u64" where
  "adjusted ovh raw = (if ovh < ucast raw then ucast raw - ovh else 0)"

definition report_adjusted :: "(real \<Rightarrow> real) \<Rightarrow> u32 list \<Rightarrow> u64 \<Rightarrow> (u32 \<times> u64) list option" where
  "report_adjusted rnd samples ovh = do {
     rows \<leftarrow> rdtsc_report rnd samples;
     Some (map (\<lambda>raw. (raw, adjusted ovh raw)) rows)
   }"

section \<open>Rounding\<close>

text \<open>Rounding is monotone, exact on the integers and halves that a double holds, and off by at most half a
  unit in the last place.\<close>

definition half_ulp :: real where "half_ulp = 1 / 2 ^ 53"

definition double_rounding :: "(real \<Rightarrow> real) \<Rightarrow> bool" where
  "double_rounding rnd \<longleftrightarrow> mono rnd \<and> (\<forall>k. k \<le> 2 ^ 53 \<longrightarrow> rnd (real k / 2) = real k / 2) \<and>
     (\<forall>x\<ge>1 / 2. \<bar>rnd x - x\<bar> \<le> x * half_ulp)"

lemma abs_near: "\<bar>a - b\<bar> \<le> e \<Longrightarrow> b - e \<le> a \<and> a \<le> b + e" for a b e :: real
  by linarith

lemma rounds:
  assumes "double_rounding rnd"
  shows "x \<le> y \<Longrightarrow> rnd x \<le> rnd y" and "k \<le> 2 ^ 52 \<Longrightarrow> rnd (real k) = real k" and "rnd (1 / 2) = 1 / 2"
    and "1 / 2 \<le> x \<Longrightarrow> x * (1 - half_ulp) \<le> rnd x \<and> rnd x \<le> x * (1 + half_ulp)"
proof -
  note R = assms [unfolded double_rounding_def]
  show "x \<le> y \<Longrightarrow> rnd x \<le> rnd y" using R by (simp add: mono_def)
  have half: "rnd (real k / 2) = real k / 2" if "k \<le> 2 ^ 53" for k using R that by blast
  show "rnd (real k) = real k" if "k \<le> 2 ^ 52" using half [of "2 * k"] that by simp
  show "rnd (1 / 2) = 1 / 2" using half [of 1] by simp
  show "x * (1 - half_ulp) \<le> rnd x \<and> rnd x \<le> x * (1 + half_ulp)" if "1 / 2 \<le> x"
  proof -
    have "\<bar>rnd x - x\<bar> \<le> x * half_ulp" using R that by blast
    then show ?thesis by (simp add: algebra_simps abs_le_iff)
  qed
qed

lemma last_index: "0 < n \<Longrightarrow> n \<le> 2 ^ 30 \<Longrightarrow> unat (word_of_nat n - 1 :: u64) = n - 1"
  using unat_of_nat_small [of n] by (subst unat_minus_one) (auto simp: unat_eq_0)

text \<open>The fraction and, before it is truncated, the index.\<close>

definition fraction :: "(real \<Rightarrow> real) \<Rightarrow> real \<Rightarrow> real" where
  "fraction rnd p = rnd (rnd p / 100)"

definition rank_point :: "(real \<Rightarrow> real) \<Rightarrow> real \<Rightarrow> nat \<Rightarrow> real" where
  "rank_point rnd p n = rnd (fraction rnd p * real (n - 1))"

lemma pct_index_rank:
  assumes "double_rounding rnd" and "0 < n" and "n \<le> 2 ^ 30"
  shows "pct_index rnd p n = nat \<lfloor>rank_point rnd p n\<rfloor>"
  using last_index [OF assms(2,3)] rounds(2) [OF assms(1), of "n - 1"] assms(3)
  by (simp add: pct_index_def rank_point_def fraction_def)

lemma ulp_bounds: "0 < half_ulp" "half_ulp < 1" "4 * half_ulp * 2 ^ 30 \<le> 1 / 1000"
  by (simp_all add: half_ulp_def)

lemma fraction_bounds:
  assumes r: "double_rounding rnd" and p: "50 \<le> p" "p \<le> 100"
  shows "p / 100 * (1 - half_ulp) * (1 - half_ulp) \<le> fraction rnd p" and "fraction rnd p \<le> p / 100 * (1 + half_ulp) * (1 + half_ulp)"
    and "1 / 2 \<le> fraction rnd p" and "fraction rnd p \<le> 1"
proof -
  note R = rounds [OF r]
  have l: "50 \<le> rnd p" "rnd p \<le> 100" using R(1) [OF p(1)] R(1) [OF p(2)] R(2) [of 50] R(2) [of 100] by simp_all
  then have h: "1 / 2 \<le> rnd p / 100" by simp
  have q: "p / 100 * (1 - half_ulp) \<le> rnd p / 100" "rnd p / 100 \<le> p / 100 * (1 + half_ulp)" using R(4) [of p] p by simp_all
  have "p / 100 * (1 - half_ulp) * (1 - half_ulp) \<le> rnd p / 100 * (1 - half_ulp)"
    using q(1) ulp_bounds(2) by (intro mult_right_mono) simp_all
  then show "p / 100 * (1 - half_ulp) * (1 - half_ulp) \<le> fraction rnd p" using R(4) [OF h] by (simp add: fraction_def)
  have "rnd p / 100 * (1 + half_ulp) \<le> p / 100 * (1 + half_ulp) * (1 + half_ulp)"
    using q(2) ulp_bounds(1) by (intro mult_right_mono) simp_all
  then show "fraction rnd p \<le> p / 100 * (1 + half_ulp) * (1 + half_ulp)" using R(4) [OF h] by (simp add: fraction_def)
  show "fraction rnd p \<le> 1" using R(1) [of "rnd p / 100" 1] R(2) [of 1] l by (simp add: fraction_def)
  show "1 / 2 \<le> fraction rnd p" using R(1) [OF h] R(3) by (simp add: fraction_def)
qed

text \<open>The three roundings move the index by less than a thousandth.\<close>

lemma rank_point_near:
  assumes r: "double_rounding rnd" and p: "50 \<le> p" "p \<le> 100" and n: "n \<le> 2 ^ 30"
  shows "\<bar>rank_point rnd p n - p / 100 * real (n - 1)\<bar> \<le> 1 / 1000"
proof (cases "n - 1 = 0")
  case True
  then show ?thesis using rounds(2) [OF r, of 0] by (simp add: rank_point_def)
next
  case False
  let ?u = half_ulp and ?m = "real (n - 1)" and ?e = "p / 100 * real (n - 1)"
  note R = rounds [OF r] and F = fraction_bounds [OF r p] and U = ulp_bounds
  have m: "1 \<le> ?m" using False by simp
  have e: "0 \<le> ?e" using p by simp
  have "1 / 2 * 1 \<le> fraction rnd p * ?m" using F(3) m by (intro mult_mono) simp_all
  then have "1 / 2 \<le> fraction rnd p * ?m" by (simp only: mult_1_right)
  from R(4) [OF this] have Y: "fraction rnd p * ?m * (1 - ?u) \<le> rank_point rnd p n"
    "rank_point rnd p n \<le> fraction rnd p * ?m * (1 + ?u)" unfolding rank_point_def by blast+
  have "?e * ((1 - ?u) * (1 - ?u) * (1 - ?u)) = p / 100 * (1 - ?u) * (1 - ?u) * ?m * (1 - ?u)" by (simp add: mult_ac)
  also have "\<dots> \<le> fraction rnd p * ?m * (1 - ?u)" using F(1) U(2) by (intro mult_right_mono) simp_all
  finally have lo: "?e * ((1 - ?u) * (1 - ?u) * (1 - ?u)) \<le> rank_point rnd p n" using Y(1) by simp
  have "fraction rnd p * ?m * (1 + ?u) \<le> p / 100 * (1 + ?u) * (1 + ?u) * ?m * (1 + ?u)"
    using F(2) U(1) by (intro mult_right_mono) simp_all
  also have "\<dots> = ?e * ((1 + ?u) * (1 + ?u) * (1 + ?u))" by (simp add: mult_ac)
  finally have hi: "rank_point rnd p n \<le> ?e * ((1 + ?u) * (1 + ?u) * (1 + ?u))" using Y(2) by simp
  have cube: "1 - 4 * ?u \<le> (1 - ?u) * (1 - ?u) * (1 - ?u)" "(1 + ?u) * (1 + ?u) * (1 + ?u) \<le> 1 + 4 * ?u"
    by (simp_all add: half_ulp_def)
  have "?e \<le> 1 * ?m" using p by (intro mult_right_mono) simp_all
  also have "\<dots> \<le> 2 ^ 30" using n by simp
  finally have "?e * (4 * ?u) \<le> 2 ^ 30 * (4 * ?u)" using U(1) by (intro mult_right_mono) simp_all
  with U(3) have s: "?e * (4 * ?u) \<le> 1 / 1000" by (simp add: mult_ac)
  have "?e * (1 - 4 * ?u) \<le> rank_point rnd p n" using lo mult_left_mono [OF cube(1) e] by simp
  moreover have "rank_point rnd p n \<le> ?e * (1 + 4 * ?u)" using hi mult_left_mono [OF cube(2) e] by simp
  ultimately show ?thesis using s unfolding right_diff_distrib distrib_left abs_le_iff by simp
qed

text \<open>Larger percentages have larger indices, and none is out of range.\<close>

lemma pct_index_mono:
  assumes r: "double_rounding rnd" and n: "0 < n" "n \<le> 2 ^ 30" and pq: "p \<le> q"
  shows "pct_index rnd p n \<le> pct_index rnd q n"
proof -
  note R = rounds(1) [OF r]
  have "fraction rnd p \<le> fraction rnd q" unfolding fraction_def using R [OF pq] by (intro R) simp
  then have "fraction rnd p * real (n - 1) \<le> fraction rnd q * real (n - 1)" by (rule mult_right_mono) simp
  then have "rank_point rnd p n \<le> rank_point rnd q n" unfolding rank_point_def by (rule R)
  then show ?thesis unfolding pct_index_rank [OF r n] by (intro nat_mono floor_mono)
qed

lemma pct_index_last:
  assumes r: "double_rounding rnd" and n: "0 < n" "n \<le> 2 ^ 30" and p: "50 \<le> p" "p \<le> 100"
  shows "pct_index rnd p n \<le> n - 1"
proof -
  have "fraction rnd p * real (n - 1) \<le> 1 * real (n - 1)" using fraction_bounds(4) [OF r p] by (intro mult_right_mono) simp_all
  from rounds(1) [OF r this] have "rank_point rnd p n \<le> real (n - 1)"
    using rounds(2) [OF r, of "n - 1"] n(2) by (simp add: rank_point_def)
  from floor_mono [OF this] show ?thesis unfolding pct_index_rank [OF r n] by (simp only: floor_of_nat nat_le_iff)
qed

section \<open>The ranking\<close>

text \<open>At most a share \<open>p\<close> of the distances between the samples lies below \<open>v\<close>, and no less up to it.\<close>

definition ranked :: "real \<Rightarrow> u32 list \<Rightarrow> u32 \<Rightarrow> bool" where
  "ranked p xs v \<longleftrightarrow> v \<in> set xs \<and>
     real (length (filter (\<lambda>x. x < v) xs)) \<le> p / 100 * real (length xs - 1) + 1 / 1000 \<and>
     p / 100 * real (length xs - 1) \<le> real (length (filter (\<lambda>x. x \<le> v) xs)) + 1 / 1000"

lemma filter_sort_length: "length (filter P (sort xs)) = length (filter P xs)"
  by (simp add: filter_sort)

lemma sorted_ranks:
  fixes ys :: "u32 list"
  assumes s: "sorted ys" and i: "i < length ys"
  shows "length (filter (\<lambda>x. x < ys ! i) ys) \<le> i" and "Suc i \<le> length (filter (\<lambda>x. x \<le> ys ! i) ys)"
proof -
  have "{j. j < length ys \<and> ys ! j < ys ! i} \<subseteq> {..<i}"
    using s i by (auto simp: not_less intro!: leI dest: sorted_nth_mono)
  from card_mono [OF _ this] show "length (filter (\<lambda>x. x < ys ! i) ys) \<le> i" by (simp add: length_filter_conv_card)
  have "{..i} \<subseteq> {j. j < length ys \<and> ys ! j \<le> ys ! i}" using s i by (auto intro: sorted_nth_mono)
  from card_mono [OF _ this] show "Suc i \<le> length (filter (\<lambda>x. x \<le> ys ! i) ys)" by (simp add: length_filter_conv_card)
qed

lemma pct_ranked:
  assumes r: "double_rounding rnd" and xs: "xs \<noteq> []" "length xs \<le> 2 ^ 30" and p: "50 \<le> p" "p \<le> 100"
  shows "pct rnd (sort xs) p = Some (sort xs ! pct_index rnd p (length xs))" and "ranked p xs (sort xs ! pct_index rnd p (length xs))"
proof -
  let ?n = "length xs" and ?i = "pct_index rnd p (length xs)" and ?y = "rank_point rnd p (length xs)"
  have n: "0 < ?n" using xs(1) by simp
  have "?i < ?n" using pct_index_last [OF r n xs(2) p] n by linarith
  then have i: "?i < length (sort xs)" by simp
  then show "pct rnd (sort xs) p = Some (sort xs ! ?i)" by (simp add: pct_def)
  have y: "\<bar>?y - p / 100 * real (?n - 1)\<bar> \<le> 1 / 1000" by (rule rank_point_near [OF r p xs(2)])
  have "0 \<le> ?y" using rounds(1) [OF r, of 0 "fraction rnd p * real (?n - 1)"] rounds(2) [OF r, of 0] fraction_bounds(3) [OF r p]
    by (simp add: rank_point_def)
  then have f: "real ?i \<le> ?y" "?y < real ?i + 1" unfolding pct_index_rank [OF r n xs(2)] by linarith+
  note S = sorted_ranks [OF sorted_sort i, unfolded filter_sort_length]
  have "sort xs ! ?i \<in> set xs" using nth_mem [OF i] by simp
  moreover have "real (length (filter (\<lambda>x. x < sort xs ! ?i) xs)) \<le> ?y" using S(1) f(1) by linarith
  moreover have "?y \<le> real (length (filter (\<lambda>x. x \<le> sort xs ! ?i) xs))" using S(2) f(2) by linarith
  ultimately show "ranked p xs (sort xs ! ?i)" using abs_near [OF y] by (simp add: ranked_def)
qed

section \<open>Theorem\<close>

lemma back_max:
  assumes "xs \<noteq> []"
  shows "cyc_back (sort xs) = Some (Max (set xs))" and "i < length xs \<Longrightarrow> sort xs ! i \<le> Max (set xs)"
proof -
  let ?ys = "sort xs"
  have ne: "?ys \<noteq> []" using assms by (metis length_0_conv length_sort)
  have mem: "sort xs ! i \<in> set xs" if "i < length xs" for i using that nth_mem [of i ?ys] by simp
  then show "i < length xs \<Longrightarrow> sort xs ! i \<le> Max (set xs)" by simp
  have "y \<le> last ?ys" if "y \<in> set xs" for y
  proof -
    from that obtain i where i: "i < length ?ys" "y = ?ys ! i" by (metis in_set_conv_nth set_sort)
    then show ?thesis using sorted_nth_mono [OF sorted_sort, of i "length ?ys - 1" xs] ne by (simp add: last_conv_nth)
  qed
  moreover have "last ?ys \<in> set xs" using last_in_set [OF ne] by simp
  ultimately have "Max (set xs) = last ?ys" by (intro Max_eqI) simp_all
  then show "cyc_back ?ys = Some (Max (set xs))" using ne by (simp add: cyc_back_def)
qed

lemma pct_row:
  assumes "double_rounding rnd" and "xs \<noteq> []" and "length xs \<le> 2 ^ 30" and "50 \<le> p" and "p \<le> 100"
  shows "\<exists>v. pct rnd (sort xs) p = Some v \<and> ranked p xs v \<and> v = sort xs ! pct_index rnd p (length xs) \<and> v \<le> Max (set xs)"
proof -
  have n: "0 < length xs" using assms(2) by simp
  have "pct_index rnd p (length xs) < length xs" using pct_index_last [OF assms(1) n assms(3-5)] n by linarith
  then show ?thesis using pct_ranked [OF assms] back_max(2) [OF assms(2)] by blast
qed

lemma rows_ordered:
  assumes "double_rounding rnd" and "xs \<noteq> []" and "length xs \<le> 2 ^ 30" and "p \<le> q" and "50 \<le> q" and "q \<le> 100"
  shows "sort xs ! pct_index rnd p (length xs) \<le> sort xs ! pct_index rnd q (length xs)"
proof (rule sorted_nth_mono [OF sorted_sort])
  show "pct_index rnd p (length xs) \<le> pct_index rnd q (length xs)"
    by (rule pct_index_mono [OF assms(1)]) (use assms in simp_all)
  have "pct_index rnd q (length xs) \<le> length xs - 1" by (rule pct_index_last [OF assms(1)]) (use assms in simp_all)
  moreover have "0 < length xs" using assms(2) by simp
  ultimately show "pct_index rnd q (length xs) < length (sort xs)" unfolding length_sort by linarith
qed

text \<open>C40. The percentile reports are defined for every nonempty sample of up to \<open>2^30\<close> values and, whatever the
  rounding of their doubles, print values of the sample in increasing order that end in its largest:
  at most 50, 90, 99, 99.9 and 99.99 percent of it lie below the row of that name and no less up to
  it (within a thousandth of a place). The adjusted report prints the same rows, each with the
  overhead taken off where it is larger and 0 otherwise. Without a sample all three are undefined.\<close>

theorem reports_rank:
  assumes "double_rounding rnd" and "xs \<noteq> []" and "length xs \<le> 2 ^ 30"
  shows "report rnd [] = None \<and> rdtsc_report rnd [] = None \<and> report_adjusted rnd [] ovh = None \<and>
    (\<exists>a b c d e. report rnd xs = Some [a, b, c, d, Max (set xs)] \<and> rdtsc_report rnd xs = Some [a, b, c, d, e, Max (set xs)] \<and>
      report_adjusted rnd xs ovh = Some (map (\<lambda>r. (r, word_of_nat (unat r - unat ovh))) [a, b, c, d, e, Max (set xs)]) \<and>
      sorted [a, b, c, d, e, Max (set xs)] \<and>
      ranked 50 xs a \<and> ranked 90 xs b \<and> ranked 99 xs c \<and> ranked (999 / 10) xs d \<and> ranked (9999 / 100) xs e)"
proof -
  note row = pct_row [OF assms] and le = rows_ordered [OF assms]
  let ?v = "\<lambda>p. sort xs ! pct_index rnd p (length xs)"
  obtain a where a: "pct rnd (sort xs) 50 = Some a" "ranked 50 xs a" "a = ?v 50" using row [of 50] by auto
  obtain b where b: "pct rnd (sort xs) 90 = Some b" "ranked 90 xs b" "b = ?v 90" using row [of 90] by auto
  obtain c where c: "pct rnd (sort xs) 99 = Some c" "ranked 99 xs c" "c = ?v 99" using row [of 99] by auto
  obtain d where d: "pct rnd (sort xs) (999 / 10) = Some d" "ranked (999 / 10) xs d" "d = ?v (999 / 10)"
    using row [of "999 / 10"] by auto
  obtain e where e: "pct rnd (sort xs) (9999 / 100) = Some e" "ranked (9999 / 100) xs e" "e = ?v (9999 / 100)"
    "e \<le> Max (set xs)" using row [of "9999 / 100"] by auto
  have "a \<le> b" "b \<le> c" "c \<le> d" "d \<le> e" unfolding a(3) b(3) c(3) d(3) e(3) by (rule le; simp)+
  then have s: "sorted [a, b, c, d, e, Max (set xs)]" using e(4) by auto
  have adj: "adjusted ovh r = word_of_nat (unat r - unat ovh)" for r
  proof -
    have "unat r < 2 ^ 32" using unsigned_less [of r, where 'a = nat] by simp
    then have u: "unat (ucast r :: u64) = unat r" by (simp add: unsigned_ucast_eq take_bit_nat_eq_self)
    then show ?thesis by (auto simp: adjusted_def word_less_nat_alt not_less of_nat_diff)
  qed
  have m: "cyc_back (sort xs) = Some (Max (set xs))" by (rule back_max(1) [OF assms(2)])
  have none: "report rnd [] = None" "rdtsc_report rnd [] = None" "report_adjusted rnd [] ovh = None"
    by (simp_all add: report_def rdtsc_report_def report_adjusted_def pct_def)
  have "report rnd xs = Some [a, b, c, d, Max (set xs)]" "rdtsc_report rnd xs = Some [a, b, c, d, e, Max (set xs)]"
    using a(1) b(1) c(1) d(1) e(1) m by (simp_all add: report_def rdtsc_report_def)
  moreover from this(2) have "report_adjusted rnd xs ovh = Some (map (\<lambda>r. (r, word_of_nat (unat r - unat ovh))) [a, b, c, d, e, Max (set xs)])"
    by (simp add: report_adjusted_def adj)
  ultimately show ?thesis using none s a(2) b(2) c(2) d(2) e(2) by blast
qed

theorem reports_rank_witness:
  "\<exists>a b c d e. rdtsc_report id [7, 3, 9] = Some [a, b, c, d, e, 9] \<and> ranked 50 [7, 3, 9] a"
proof -
  have "double_rounding id" by (simp add: double_rounding_def mono_def half_ulp_def)
  from reports_rank [OF this, of "[7, 3, 9]" 0] show ?thesis by auto
qed

end
