(* ===== verification/Risk_Bench.thy ===== *)
theory Risk_Bench
  imports Risk Feed
begin

text \<open>
  \<open>bench/bench_risk.cpp\<close>: the generated table of orders, the loops that time the accept path (in one
  batch and in blocks of 64) and the reject paths, and the two functional proofs, of the rate limiter
  and of the position limit. A reading of the time-stamp counter is a parameter. The three arrays
  \<open>sides\<close>, \<open>prices\<close> and \<open>qtys\<close> are one list of triples.

  The theorems: every order of the two accept loops is accepted, whatever the number of calls and
  the counter; each reject loop sees its one reason and no other; the rate limiter's proof prints
  VERIFIED exactly if the window is wider than the burst and the machine has been up for longer than
  the window; the position limit's always does.
\<close>

section \<open>The program\<close>

type_synonym table_order = "side \<times> price \<times> qty"

definition TAB :: nat where "TAB = 2 ^ 16"
definition BLOCK :: nat where "BLOCK = 64"

definition table_order :: "u64 \<Rightarrow> table_order" where
  "table_order v = (if v AND 1 \<noteq> 0 then Buy else Sell, BASE + v mod 60000, 1 + (drop_bit 8 v AND 63))"

fun make_table :: "nat \<Rightarrow> u64 \<Rightarrow> table_order list" where
  "make_table 0 s = []"
| "make_table (Suc n) s = (let (v, s) = rng_next s in table_order v # make_table n s)"

definition bench_gateway :: risk_gateway where
  "bench_gateway = risk_new 256 64 BASE (BASE + 65535) (push_bit 60 1) 1"

text \<open>The body that the batched loop and the blocks share: call \<open>j\<close> takes entry \<open>k0 + j\<close> of the table
  and the stamp \<open>t + j\<close>.\<close>

fun check_loop :: "table_order list \<Rightarrow> u64 \<Rightarrow> u64 \<Rightarrow> nat \<Rightarrow> u64 \<Rightarrow> u32 \<Rightarrow> risk_gateway \<Rightarrow> (u32 \<times> risk_gateway) option" where
  "check_loop tab k0 t 0 j acc gw = Some (acc, gw)"
| "check_loop tab k0 t (Suc m) j acc gw = do {
     (sd, px, q) \<leftarrow> aget tab (slot_index TAB (k0 + j));
     (rj, gw) \<leftarrow> check gw sd px q (t + j);
     check_loop tab k0 t m (j + 1) (acc OR rj) gw
   }"

definition accept_batch :: "u64 \<Rightarrow> nat \<Rightarrow> (u32 \<times> risk_gateway) option" where
  "accept_batch now0 n = check_loop (make_table TAB 0x515C) 0 now0 n 0 0 bench_gateway"

text \<open>Block \<open>b\<close> reads the counter before and after its 64 calls (readings \<open>2 * b\<close> and \<open>2 * b + 1\<close>); the
  sample is the net time per call.\<close>

fun block_loop :: "table_order list \<Rightarrow> (nat \<Rightarrow> u64) \<Rightarrow> u64 \<Rightarrow> nat \<Rightarrow> nat \<Rightarrow> u32 \<Rightarrow> risk_gateway \<Rightarrow>
    (u32 list \<times> u32 \<times> risk_gateway) option" where
  "block_loop tab clk ovh 0 b acc gw = Some ([], acc, gw)"
| "block_loop tab clk ovh (Suc m) b acc gw = do {
     let t0 = clk (2 * b);
     (acc, gw) \<leftarrow> check_loop tab (word_of_nat (b * BLOCK)) t0 BLOCK 0 acc gw;
     let t1 = clk (2 * b + 1);
     let net = (if ovh < t1 - t0 then t1 - t0 - ovh else 0);
     (samples, acc, gw) \<leftarrow> block_loop tab clk ovh m (Suc b) acc gw;
     Some (ucast (net div word_of_nat BLOCK) # samples, acc, gw)
   }"

definition accept_blocks :: "(nat \<Rightarrow> u64) \<Rightarrow> u64 \<Rightarrow> nat \<Rightarrow> (u32 list \<times> u32 \<times> risk_gateway) option" where
  "accept_blocks clk ovh n = block_loop (make_table TAB 0x515C) clk ovh n 0 0 bench_gateway"

definition reject_cases :: "table_order list" where
  "reject_cases = [(Buy, BASE + 100, 9999), (Sell, BASE - 5000, 1), (Buy, BASE - 5000, 9999)]"

fun reject_loop :: "table_order \<Rightarrow> u64 \<Rightarrow> nat \<Rightarrow> u64 \<Rightarrow> u32 \<Rightarrow> risk_gateway \<Rightarrow> (u32 \<times> risk_gateway) option" where
  "reject_loop c now0 0 i m gw = Some (m, gw)"
| "reject_loop c now0 (Suc n) i m gw = do {
     let (sd, px, q) = c;
     (rj, gw) \<leftarrow> check gw sd px q (now0 + i);
     reject_loop c now0 n (i + 1) (m OR rj) gw
   }"

definition reject_paths :: "u64 \<Rightarrow> nat \<Rightarrow> (u32 \<times> risk_gateway) option list" where
  "reject_paths now0 n = map (\<lambda>c. reject_loop c now0 n 0 0 bench_gateway) reject_cases"

text \<open>The rate limiter's proof: the mask of the fifth order (99 if one of the first four was refused,
  with what the fifth adds) and that of the order after the window.\<close>

fun burst_loop :: "nat \<Rightarrow> u64 \<Rightarrow> u64 \<Rightarrow> u32 \<Rightarrow> risk_gateway \<Rightarrow> (u32 \<times> risk_gateway) option" where
  "burst_loop 0 t i fifth gw = Some (fifth, gw)"
| "burst_loop (Suc n) t i fifth gw = do {
     (rj, gw) \<leftarrow> check gw Buy (BASE + 1) 1 (t + i);
     burst_loop n t (i + 1) (if rj \<noteq> 0 then 99 else fifth) gw
   }"

definition limiter_proof :: "u64 \<Rightarrow> u64 \<Rightarrow> (u32 \<times> u32) option" where
  "limiter_proof win t = do {
     let gw = risk_new 4 64 BASE (BASE + 65535) (push_bit 60 1) win;
     (fifth, gw) \<leftarrow> burst_loop 4 t 0 0 gw;
     (rj, gw) \<leftarrow> check gw Buy (BASE + 1) 1 (t + 4);
     (later, gw) \<leftarrow> check gw Buy (BASE + 1) 1 (t + win + 5);
     Some (fifth OR rj, later)
   }"

definition limiter_verified :: "u64 \<Rightarrow> u64 \<Rightarrow> bool option" where
  "limiter_verified win t = do {
     (fifth, later) \<leftarrow> limiter_proof win t;
     Some (fifth = RJ_RATE \<and> later = RJ_NONE)
   }"

definition position_proof :: "bool option" where
  "position_proof = do {
     let gw = risk_new 256 100 BASE (BASE + 65535) 10 1;
     (a, gw) \<leftarrow> check gw Buy (BASE + 1) 8 1000;
     (b, gw) \<leftarrow> check gw Buy (BASE + 1) 5 2000;
     gw \<leftarrow> on_cancel gw Buy 8;
     (c, gw) \<leftarrow> check gw Buy (BASE + 1) 5 3000;
     gw \<leftarrow> on_fill gw Buy 5;
     (d, gw) \<leftarrow> check gw Buy (BASE + 1) 6 4000;
     Some (a = 0 \<and> b = RJ_POSITION \<and> c = 0 \<and> d = RJ_POSITION)
   }"

section \<open>The table\<close>

definition in_band :: "table_order \<Rightarrow> bool" where
  "in_band c \<longleftrightarrow> (case c of (sd, px, q) \<Rightarrow> 1000000 \<le> sint px \<and> sint px \<le> 1065535 \<and> 0 < sint q \<and> sint q \<le> 64)"

lemma sint_small: "unat (w :: i64) < 2 ^ 63 \<Longrightarrow> sint w = int (unat w)"
proof -
  assume "unat w < 2 ^ 63"
  then have "int (unat w) < int (2 ^ 63)" by (simp only: of_nat_less_iff)
  then have "uint w < 2 ^ 63" by simp
  then have "signed_take_bit 63 (uint w) = uint w"
    by (intro signed_take_bit_int_eq_self) (auto intro: order_trans [of _ 0])
  then show ?thesis by (simp add: sint_uint del: signed_take_bit_int_eq_self_iff)
qed

lemma table_order_in_band: "in_band (table_order v)"
proof -
  have m: "unat (v mod 60000) < 60000" by (simp add: unat_mod)
  then have "unat (BASE + v mod 60000) = 1000000 + unat (v mod 60000)"
    by (simp add: BASE_def unat_add_lem [THEN iffD1])
  with m have px: "sint (BASE + v mod 60000) = 1000000 + int (unat (v mod 60000))" by (simp add: sint_small)
  have q: "unat (drop_bit 8 v AND 63) \<le> 63" using word_and_le1 [of 63 "drop_bit 8 v"] word_and_le2 [of 63 "drop_bit 8 v"] by (simp add: word_le_nat_alt and.commute)
  then have "unat (1 + (drop_bit 8 v AND 63)) = 1 + unat (drop_bit 8 v AND 63)"
    by (simp add: unat_add_lem [THEN iffD1])
  with q have "sint (1 + (drop_bit 8 v AND 63)) = 1 + int (unat (drop_bit 8 v AND 63))" by (simp add: sint_small)
  with px m q show ?thesis unfolding in_band_def table_order_def prod.case by linarith
qed

lemma make_table_ok: "length (make_table n s) = n \<and> (\<forall>c\<in>set (make_table n s). in_band c)"
  by (induction n arbitrary: s) (auto simp: table_order_in_band split: prod.splits)

lemma table_entry:
  obtains sd px q where "aget (make_table TAB s) (slot_index TAB i) = Some (sd, px, q)" "in_band (sd, px, q)"
proof -
  have "pow2_cap TAB" unfolding pow2_cap_def TAB_def by (intro exI [of _ 16]) simp
  then have lt: "slot_index TAB i < length (make_table TAB s)" using slot_in_range make_table_ok by simp
  then have "in_band (make_table TAB s ! slot_index TAB i)" using make_table_ok nth_mem by blast
  with lt that show ?thesis by (cases "make_table TAB s ! slot_index TAB i") auto
qed

section \<open>In-band orders\<close>

text \<open>A gateway with the limits of the bench, a window of depth \<open>W\<close> and \<open>win\<close> ticks, which has accepted
  orders of at most 64 lots at the stamps \<open>A\<close>; nothing was cancelled or filled.\<close>

definition gated :: "nat \<Rightarrow> u64 \<Rightarrow> u64 list \<Rightarrow> risk_gateway \<Rightarrow> bool" where
  "gated W win A gw \<longleftrightarrow> risk_ok gw \<and> rate_ok gw A \<and> length (rk_stamps gw) = W \<and> rk_max_qty gw = 64 \<and>
     rk_px_lo gw = BASE \<and> rk_px_hi gw = BASE + 65535 \<and> rk_pos_limit gw = push_bit 60 1 \<and> rk_window_ticks gw = win \<and>
     rk_net_pos gw = 0 \<and> sint (rk_open_buy gw) \<le> 64 * int (length A) \<and> sint (rk_open_sell gw) \<le> 64 * int (length A)"

text \<open>What the stamp ring compares \<open>now\<close> with.\<close>

definition crowded :: "nat \<Rightarrow> u64 \<Rightarrow> u64 list \<Rightarrow> u64 \<Rightarrow> bool" where
  "crowded W win A now \<longleftrightarrow> (if length A < W then now else now - A ! (length A - W)) < win"

lemma pos_limit_value: "push_bit 60 (1 :: i64) = 1152921504606846976"
  by (simp add: push_bit_eq_mult)

lemma gated_new: "pow2_cap W \<Longrightarrow> gated W win [] (risk_new W 64 BASE (BASE + 65535) (push_bit 60 1) win)"
  using risk_new_ok [of W "push_bit 60 1" 64 BASE "BASE + 65535" win] rate_start [of W 64 BASE "BASE + 65535" "push_bit 60 1" win]
  by (simp add: gated_def pos_limit_value) (simp add: risk_new_def)

lemma gated_step:
  assumes g: "gated W win A gw" and c: "in_band (sd, px, q)" and m: "length A < 2 ^ 54"
  obtains gw' where "check gw sd px q now = Some (RJ_RATE * of_bool (crowded W win A now), gw')"
    "gated W win (if crowded W win A now then A else A @ [now]) gw'"
    "rk_rejected gw' = rk_rejected gw + of_bool (crowded W win A now)"
proof -
  note S = g [unfolded gated_def]
  have ok: "risk_ok gw" and rate: "rate_ok gw A" using S by simp_all
  have q: "0 < sint q" "sint q \<le> 64" "qty_sane q" and px: "1000000 \<le> sint px" "sint px \<le> 1065535"
    using c by (simp_all add: in_band_def qty_sane_def)
  have bq: "\<not> bad_qty gw q" "\<not> off_band gw px" using S q px by (simp_all add: bad_qty_def off_band_def BASE_def)
  have room: "64 * int (length A) + 64 \<le> 2 ^ 60" using m by simp
  have ol: "\<not> over_limit gw sd q" using S q room
    by (auto simp: over_limit_def worst_buy_def worst_sell_def pos_limit_value)
  have tf: "too_fast gw now = crowded W win A now"
    using too_fast_iff [OF ok rate, of now] S by (simp add: crowded_def)
  have run: "check gw sd px q now = Some (RJ_RATE * of_bool (crowded W win A now),
      if crowded W win A now then gw\<lparr>rk_rejected := rk_rejected gw + 1\<rparr> else accept_order gw sd q now)"
    using check_run [OF ok q(3), of sd px now] bq ol tf by (simp add: verdict_def RJ_values)
  show ?thesis
  proof (cases "crowded W win A now")
    case True
    then show ?thesis using run g by (intro that [OF run]) (simp_all add: gated_def rejected_same)
  next
    case False
    let ?gw = "accept_order gw sd q now"
    have "sint (rk_open_buy ?gw) \<le> 64 * int (Suc (length A))" "sint (rk_open_sell ?gw) \<le> 64 * int (Suc (length A))"
      using S q room risk_bounds(3,5) [OF ok] sint_add64 [of "rk_open_buy gw" q] sint_add64 [of "rk_open_sell gw" q]
      by (auto simp: accept_order_def)
    then have "gated W win (A @ [now]) ?gw" "rk_rejected ?gw = rk_rejected gw"
      using S accept_ok [OF ok bq(1) ol q(3), of now] rate_accept [OF ok rate, of now sd q] tf False
      by (simp add: gated_def) (simp_all add: accept_order_def)
    with False show ?thesis by (intro that [OF run]) simp_all
  qed
qed

section \<open>The accept path\<close>

text \<open>After \<open>m\<close> accepted orders, accepted at the stamps \<open>stamp 0\<close>, \<open>stamp 1\<close>, ... A window of one tick and a
  depth of 256 refuse exactly a stamp that is that of the order 256 before (0 for the first 256).\<close>

definition served :: "(nat \<Rightarrow> u64) \<Rightarrow> nat \<Rightarrow> risk_gateway \<Rightarrow> bool" where
  "served stamp m gw \<longleftrightarrow> gated 256 1 (map stamp [0..<m]) gw \<and> rk_rejected gw = 0"

definition fresh_stamp :: "(nat \<Rightarrow> u64) \<Rightarrow> nat \<Rightarrow> bool" where
  "fresh_stamp stamp i \<longleftrightarrow> stamp i \<noteq> (if i < 256 then 0 else stamp (i - 256))"

lemma pow2_cap_256: "pow2_cap 256"
  unfolding pow2_cap_def by (intro exI [of _ 8]) simp

lemma served_start: "served stamp 0 bench_gateway"
  using gated_new [OF pow2_cap_256, of 1] by (simp add: served_def bench_gateway_def) (simp add: risk_new_def)

lemma less_one_tick: "x < (1 :: u64) \<longleftrightarrow> x = 0"
  by (simp add: word_less_nat_alt unat_eq_0)

lemma served_step:
  assumes s: "served stamp m gw" and c: "in_band (sd, px, q)" and m: "m < 2 ^ 54" and fresh: "fresh_stamp stamp m"
  obtains gw' where "check gw sd px q (stamp m) = Some (0, gw')" "served stamp (Suc m) gw'"
proof -
  have free: "\<not> crowded 256 1 (map stamp [0..<m]) (stamp m)"
    using fresh by (auto simp: crowded_def fresh_stamp_def less_one_tick split: if_splits)
  from s m have "gated 256 1 (map stamp [0..<m]) gw" "length (map stamp [0..<m]) < 2 ^ 54" by (simp_all add: served_def)
  from gated_step [OF this(1) c this(2), of "stamp m"] free s that show ?thesis by (auto simp: served_def)
qed

lemma check_loop_ok:
  assumes "served stamp m gw" and "m + n \<le> 2 ^ 54"
    and "\<And>i. i < n \<Longrightarrow> fresh_stamp stamp (m + i) \<and> t + (j + word_of_nat i) = stamp (m + i)"
  shows "\<exists>gw'. check_loop (make_table TAB s) k0 t n j acc gw = Some (acc, gw') \<and> served stamp (m + n) gw'"
  using assms
proof (induction n arbitrary: m j gw)
  case (Suc n)
  obtain sd px q where c: "aget (make_table TAB s) (slot_index TAB (k0 + j)) = Some (sd, px, q)" "in_band (sd, px, q)"
    by (rule table_entry)
  have f: "fresh_stamp stamp m" "t + j = stamp m" using Suc.prems(3) [of 0] by simp_all
  from Suc.prems(2) have "m < 2 ^ 54" by simp
  from served_step [OF Suc.prems(1) c(2) this f(1)] obtain gw1 where
    g: "check gw sd px q (stamp m) = Some (0, gw1)" "served stamp (Suc m) gw1" by blast
  have "\<exists>gw'. check_loop (make_table TAB s) k0 t n (j + 1) acc gw1 = Some (acc, gw') \<and> served stamp (Suc m + n) gw'"
    using Suc.prems(2) Suc.prems(3) [of "Suc i" for i] by (intro Suc.IH [OF g(2)]) (simp_all add: add.assoc)
  then show ?case using c(1) g(1) f(2) by simp
qed simp

lemma served_counts:
  "served stamp m gw \<Longrightarrow> accepted gw = word_of_nat m \<and> rejected gw = 0"
  by (simp add: served_def gated_def rate_ok_def accepted_def rejected_def)

text \<open>The stamps of the blocks.\<close>

definition block_stamp :: "(nat \<Rightarrow> u64) \<Rightarrow> nat \<Rightarrow> u64" where
  "block_stamp clk i = clk (2 * (i div BLOCK)) + word_of_nat (i mod BLOCK)"

lemma block_loop_ok:
  assumes "served (block_stamp clk) (b * BLOCK) gw" and "(b + n) * BLOCK \<le> 2 ^ 54"
    and "\<And>i. i < (b + n) * BLOCK \<Longrightarrow> fresh_stamp (block_stamp clk) i"
  shows "\<exists>ss gw'. block_loop (make_table TAB s) clk ovh n b acc gw = Some (ss, acc, gw') \<and> length ss = n \<and>
    served (block_stamp clk) ((b + n) * BLOCK) gw'"
  using assms
proof (induction n arbitrary: b gw)
  case (Suc n)
  have "\<exists>gw'. check_loop (make_table TAB s) (word_of_nat (b * BLOCK)) (clk (2 * b)) BLOCK 0 acc gw = Some (acc, gw') \<and>
      served (block_stamp clk) (b * BLOCK + BLOCK) gw'"
    using Suc.prems(2,3) by (intro check_loop_ok [OF Suc.prems(1)]) (simp_all add: block_stamp_def BLOCK_def)
  then obtain gw1 where g: "check_loop (make_table TAB s) (word_of_nat (b * BLOCK)) (clk (2 * b)) BLOCK 0 acc gw = Some (acc, gw1)"
    "served (block_stamp clk) (Suc b * BLOCK) gw1" by (auto simp: add.commute)
  have "\<exists>ss gw'. block_loop (make_table TAB s) clk ovh n (Suc b) acc gw1 = Some (ss, acc, gw') \<and> length ss = n \<and>
      served (block_stamp clk) ((Suc b + n) * BLOCK) gw'"
    using Suc.prems(2,3) by (intro Suc.IH [OF g(2)]) simp_all
  then show ?case using g(1) by (auto simp: Let_def)
qed simp

section \<open>The reject paths\<close>

lemma reject_step:
  assumes now: "now \<noteq> 0" and q: "- (2 ^ 60) \<le> sint q" "sint q \<le> 2 ^ 60"
    and rj: "rj = verdict (sint q \<le> 0 \<or> 64 < sint q) (sint px < 1000000 \<or> 1065535 < sint px) False False" "rj \<noteq> 0"
  shows "check (bench_gateway\<lparr>rk_rejected := k\<rparr>) sd px q now = Some (rj, bench_gateway\<lparr>rk_rejected := k + 1\<rparr>)"
proof -
  let ?gw = "bench_gateway\<lparr>rk_rejected := k\<rparr>"
  have g: "gated 256 1 [] ?gw" using gated_new [OF pow2_cap_256, of 1] by (simp add: bench_gateway_def gated_def rejected_same)
  have ok: "risk_ok ?gw" and rate: "rate_ok ?gw []" using g by (simp_all add: gated_def)
  have "bad_qty ?gw q = (sint q \<le> 0 \<or> 64 < sint q)" "off_band ?gw px = (sint px < 1000000 \<or> 1065535 < sint px)"
    using g by (simp_all add: bad_qty_def off_band_def bench_gateway_def risk_new_def BASE_def)
  moreover have "\<not> over_limit ?gw sd q"
    using q by (auto simp: over_limit_def worst_buy_def worst_sell_def bench_gateway_def risk_new_def pos_limit_value)
  moreover have "\<not> too_fast ?gw now"
    using too_fast_iff [OF ok rate, of now] now g by (auto simp: gated_def less_one_tick)
  ultimately show ?thesis
    using check_run [OF ok, of q sd px now] q rj by (simp add: qty_sane_def)
qed

lemma reject_loop_ok:
  assumes step: "\<And>now k. now \<noteq> 0 \<Longrightarrow>
      check (bench_gateway\<lparr>rk_rejected := k\<rparr>) sd px q now = Some (rj, bench_gateway\<lparr>rk_rejected := k + 1\<rparr>)"
    and now: "\<And>j. j < n \<Longrightarrow> now0 + (i + word_of_nat j) \<noteq> 0"
  shows "reject_loop (sd, px, q) now0 n i m (bench_gateway\<lparr>rk_rejected := k\<rparr>) =
    Some (if n = 0 then m else m OR rj, bench_gateway\<lparr>rk_rejected := k + word_of_nat n\<rparr>)"
  using now
proof (induction n arbitrary: i m k)
  case (Suc n)
  from Suc.prems [of 0] have "now0 + i \<noteq> 0" by simp
  moreover have "reject_loop (sd, px, q) now0 n (i + 1) (m OR rj) (bench_gateway\<lparr>rk_rejected := k + 1\<rparr>) =
      Some (if n = 0 then m OR rj else (m OR rj) OR rj, bench_gateway\<lparr>rk_rejected := k + 1 + word_of_nat n\<rparr>)"
    using Suc.prems [of "Suc j" for j] by (intro Suc.IH) (simp add: add.assoc)
  ultimately show ?case using step [of "now0 + i" k] by (simp add: or.assoc add.assoc)
qed simp

lemma no_wrap:
  assumes "now0 \<noteq> 0" and "unat now0 + n \<le> 2 ^ 64" and "j < n"
  shows "now0 + word_of_nat j \<noteq> (0 :: u64)"
proof -
  have "unat (word_of_nat j :: u64) = j" using assms by (intro unat_of_nat_small) simp
  with assms have "unat (now0 + word_of_nat j) = unat now0 + j" by (simp add: unat_add_lem [THEN iffD1])
  with assms(1) show ?thesis by (metis add_is_0 unat_0 unat_eq_zero)
qed

section \<open>The rate limiter and the position limit\<close>

lemma burst_order: "in_band (Buy, BASE + 1, 1)"
  by (simp add: in_band_def BASE_def)

lemma unat_plus: "unat (t :: u64) + k < 2 ^ 64 \<Longrightarrow> unat (t + word_of_nat k) = unat t + k"
  using unat_of_nat_small [of k] by (simp add: unat_add_lem [THEN iffD1])

lemma burst_loop_ok:
  assumes "gated 4 win (map (\<lambda>i. t + word_of_nat i) [0..<m]) gw" and "m + n \<le> 4"
    and "\<And>i. i < 4 \<Longrightarrow> win \<le> t + word_of_nat i"
  shows "\<exists>gw'. burst_loop n t (word_of_nat m) 0 gw = Some (0, gw') \<and>
    gated 4 win (map (\<lambda>i. t + word_of_nat i) [0..<m + n]) gw'"
  using assms(1,2)
proof (induction n arbitrary: m gw)
  case (Suc n)
  have "\<not> crowded 4 win (map (\<lambda>i. t + word_of_nat i) [0..<m]) (t + word_of_nat m)"
    using Suc.prems(2) assms(3) [of m] by (simp add: crowded_def not_less)
  moreover have "length (map (\<lambda>i. t + word_of_nat i) [0..<m]) < 2 ^ 54" using Suc.prems(2) by simp
  from gated_step [OF Suc.prems(1) burst_order this, of "t + word_of_nat m"] obtain gw1 where
    "check gw Buy (BASE + 1) 1 (t + word_of_nat m) = Some (RJ_RATE * of_bool (crowded 4 win (map (\<lambda>i. t + word_of_nat i) [0..<m]) (t + word_of_nat m)), gw1)"
    "gated 4 win (if crowded 4 win (map (\<lambda>i. t + word_of_nat i) [0..<m]) (t + word_of_nat m) then map (\<lambda>i. t + word_of_nat i) [0..<m]
      else map (\<lambda>i. t + word_of_nat i) [0..<m] @ [t + word_of_nat m]) gw1" by blast
  ultimately have c: "check gw Buy (BASE + 1) 1 (t + word_of_nat m) = Some (0, gw1)"
    "gated 4 win (map (\<lambda>i. t + word_of_nat i) [0..<Suc m]) gw1" by simp_all
  from Suc.IH [OF c(2)] Suc.prems(2) c(1) show ?case by (simp add: add.commute [of 1])
qed simp

text \<open>If one of the first four is refused, the mask stays at 99 or is set to it.\<close>

lemma burst_loop_99:
  assumes "gated 4 win A gw" and "length A + n < 2 ^ 54"
  shows "\<exists>f gw' B. burst_loop n t i fifth gw = Some (f, gw') \<and> (f = fifth \<or> f = 99) \<and> gated 4 win B gw' \<and> length B \<le> length A + n"
  using assms
proof (induction n arbitrary: A gw i fifth)
  case (Suc n)
  from Suc.prems(2) have "length A < 2 ^ 54" by simp
  from gated_step [OF Suc.prems(1) burst_order this, of "t + i"] obtain gw1 where
    c: "check gw Buy (BASE + 1) 1 (t + i) = Some (RJ_RATE * of_bool (crowded 4 win A (t + i)), gw1)"
    "gated 4 win (if crowded 4 win A (t + i) then A else A @ [t + i]) gw1" by blast
  let ?A = "if crowded 4 win A (t + i) then A else A @ [t + i]"
  let ?f = "if crowded 4 win A (t + i) then 99 else fifth"
  have "\<exists>f gw' B. burst_loop n t (i + 1) ?f gw1 = Some (f, gw') \<and> (f = ?f \<or> f = 99) \<and> gated 4 win B gw' \<and> length B \<le> length ?A + n"
    using Suc.prems(2) by (intro Suc.IH [OF c(2)]) auto
  with c(1) show ?case by (auto simp: RJ_values intro: le_SucI split: if_splits)
qed auto

lemma four: "4 = Suc 3"
  by simp

lemma limiter_run:
  assumes fit: "unat t + unat win + 5 < 2 ^ 64"
  shows "limiter_verified win t = Some (4 < win \<and> win \<le> t)"
proof -
  let ?gw = "risk_new 4 64 BASE (BASE + 65535) (push_bit 60 1) win"
  have g0: "gated 4 win [] ?gw" by (rule gated_new [OF pow2_cap_4])
  have step: "\<exists>gw'. check gw Buy (BASE + 1) 1 now = Some (RJ_RATE * of_bool (crowded 4 win A now), gw') \<and>
      gated 4 win (if crowded 4 win A now then A else A @ [now]) gw'" if "gated 4 win A gw" "length A \<le> 5" for A gw now
  proof -
    from that(2) have "length A < 2 ^ 54" by simp
    from gated_step [OF that(1) burst_order this, of now] show ?thesis by blast
  qed
  show ?thesis
  proof (cases "win \<le> t")
    case True
    have "win \<le> t + word_of_nat i" if "i < 4" for i
      using True unat_plus [of t i] that fit by (simp add: word_le_nat_alt)
    with burst_loop_ok [of win t 0 ?gw 4] g0 obtain gw1 where b: "burst_loop 4 t 0 0 ?gw = Some (0, gw1)"
      "gated 4 win (map (\<lambda>i. t + word_of_nat i) [0..<4]) gw1" by auto
    let ?A = "[t, t + 1, t + 2, t + 3]"
    have A: "map (\<lambda>i. t + word_of_nat i) [0..<4] = ?A" by (simp add: upt_conv_Cons)
    have five: "crowded 4 win ?A (t + 4) = (4 < win)" by (simp add: crowded_def)
    have "unat (win + 5) = unat win + 5" "unat (win + 4) = unat win + 4"
      using fit unat_plus [of win 5] unat_plus [of win 4] by simp_all
    then have "win \<le> win + 5" "win \<le> win + 4" by (simp_all add: word_le_nat_alt)
    then have late: "\<not> crowded 4 win (if 4 < win then ?A else ?A @ [t + 4]) (t + win + 5)"
      by (simp add: crowded_def not_less algebra_simps)
    from step [OF b(2), of "t + 4"] obtain gw2 where c: "check gw1 Buy (BASE + 1) 1 (t + 4) = Some (RJ_RATE * of_bool (4 < win), gw2)"
      "gated 4 win (if 4 < win then ?A else ?A @ [t + 4]) gw2" unfolding A five by auto
    from step [OF c(2), of "t + win + 5"] late obtain gw3 where "check gw2 Buy (BASE + 1) 1 (t + win + 5) = Some (0, gw3)"
      by (auto split: if_splits)
    with b(1) c(1) True show ?thesis
      by (simp add: limiter_verified_def limiter_proof_def RJ_values RJ_NONE_def Let_def)
  next
    case False
    then have "crowded 4 win [] (t + 0)" by (simp add: crowded_def)
    with step [OF g0, of "t + 0"] obtain gw0 where c0: "check ?gw Buy (BASE + 1) 1 (t + 0) = Some (RJ_RATE, gw0)"
      "gated 4 win [] gw0" by auto
    from burst_loop_99 [OF c0(2), of 3 t "0 + 1" 99] obtain gw1 A where
      b: "burst_loop 3 t (0 + 1) 99 gw0 = Some (99, gw1)" "gated 4 win A gw1" "length A \<le> 3" by auto
    have "burst_loop 4 t 0 0 ?gw = Some (99, gw1)"
      unfolding four burst_loop.simps using c0(1) b(1) by (simp add: RJ_values)
    moreover from step [OF b(2), of "t + 4"] b(3) obtain gw2 A' where
      c: "check gw1 Buy (BASE + 1) 1 (t + 4) = Some (RJ_RATE * of_bool (crowded 4 win A (t + 4)), gw2)"
      "gated 4 win A' gw2" "length A' \<le> 4" by (fastforce split: if_splits)
    moreover from step [OF c(2), of "t + win + 5"] c(3) obtain rj gw3 where
      "check gw2 Buy (BASE + 1) 1 (t + win + 5) = Some (rj, gw3)" by auto
    ultimately show ?thesis using False
      by (simp add: limiter_verified_def limiter_proof_def RJ_values Let_def)
  qed
qed

lemma position_run: "position_proof = Some True"
  by code_simp

section \<open>Theorems\<close>

lemma four_blocks: "4 * BLOCK = 256" and BLOCK_pos: "BLOCK \<noteq> 0"
  by (simp_all add: BLOCK_def)

lemma reject_paths_run:
  assumes "now0 \<noteq> 0" and "0 < n" and "unat now0 + n \<le> 2 ^ 64"
  shows "reject_paths now0 n = map (\<lambda>rj. Some (rj, bench_gateway\<lparr>rk_rejected := word_of_nat n\<rparr>))
    [RJ_QTY, RJ_PRICE_BAND, RJ_QTY OR RJ_PRICE_BAND]"
proof -
  have start: "bench_gateway = bench_gateway\<lparr>rk_rejected := 0\<rparr>" by (simp add: bench_gateway_def risk_new_def)
  have loop: "reject_loop (sd, px, q) now0 n 0 0 bench_gateway = Some (rj, bench_gateway\<lparr>rk_rejected := word_of_nat n\<rparr>)"
    if "\<And>now k. now \<noteq> 0 \<Longrightarrow> check (bench_gateway\<lparr>rk_rejected := k\<rparr>) sd px q now = Some (rj, bench_gateway\<lparr>rk_rejected := k + 1\<rparr>)"
    for sd px q rj
    using reject_loop_ok [of sd px q rj n now0 0 0 0, OF that] no_wrap [OF assms(1,3)] assms(2) start by simp
  show ?thesis
    by (simp add: reject_paths_def reject_cases_def,
      intro conjI loop reject_step; simp add: BASE_def verdict_def RJ_values)
qed

text \<open>C24. The loops of the risk benchmark time what they say. Started at any counter value other than 0 that
  does not wrap within the run, the batched loop accepts all its orders and rejects none; so do the
  blocks when the counter has advanced from one block to the next; and each of the three reject loops
  ends with exactly the mask of its case, has every order rejected and leaves the gateway otherwise as
  it was. The bound of \<open>2^54\<close> calls keeps the exposure of 64 lots each below the position limit.\<close>

theorem risk_bench_counts:
  assumes "now0 \<noteq> 0" and "0 < n" and "unat now0 + n \<le> 2 ^ 64" and "n \<le> 2 ^ 54" and "m * BLOCK \<le> 2 ^ 54"
    and "\<forall>b<m. 0 < clk (2 * b) \<and> unat (clk (2 * b)) + BLOCK \<le> 2 ^ 64 \<and> (\<forall>c<b. clk (2 * c) < clk (2 * b))"
  shows "(\<exists>gw. accept_batch now0 n = Some (RJ_NONE, gw) \<and> accepted gw = word_of_nat n \<and> rejected gw = 0) \<and>
    (\<exists>samples gw. accept_blocks clk ovh m = Some (samples, RJ_NONE, gw) \<and> length samples = m \<and>
       accepted gw = word_of_nat (m * BLOCK) \<and> rejected gw = 0) \<and>
    reject_paths now0 n = map (\<lambda>rj. Some (rj, bench_gateway\<lparr>rk_rejected := word_of_nat n\<rparr>))
      [RJ_QTY, RJ_PRICE_BAND, RJ_QTY OR RJ_PRICE_BAND]"
proof -
  have "fresh_stamp (\<lambda>i. now0 + word_of_nat i) i" if "i < n" for i
    using no_wrap [OF assms(1,3) that] that assms(4) unat_of_nat_small [of i] unat_of_nat_small [of "i - 256"]
    by (auto simp: fresh_stamp_def dest: arg_cong [of _ _ unat])
  then have "\<exists>gw'. check_loop (make_table TAB 0x515C) 0 now0 n 0 0 bench_gateway = Some (0, gw') \<and>
      served (\<lambda>i. now0 + word_of_nat i) (0 + n) gw'"
    using assms(4) by (intro check_loop_ok [OF served_start]) simp_all
  then have "\<exists>gw. accept_batch now0 n = Some (RJ_NONE, gw) \<and> accepted gw = word_of_nat n \<and> rejected gw = 0"
    using served_counts by (fastforce simp: accept_batch_def RJ_NONE_def)
  moreover have "fresh_stamp (block_stamp clk) i" if i: "i < m * BLOCK" for i
  proof -
    have b: "i div BLOCK < m" using i by (simp add: BLOCK_def less_mult_imp_div_less)
    have j: "i mod BLOCK < BLOCK" by (simp add: BLOCK_def)
    have z: "clk (2 * (i div BLOCK)) + word_of_nat (i mod BLOCK) \<noteq> 0"
      using assms(6) b by (intro no_wrap [OF _ _ j]) auto
    have "(i - 256) div BLOCK = i div BLOCK - 4 \<and> (i - 256) mod BLOCK = i mod BLOCK \<and> i div BLOCK - 4 < i div BLOCK" if "\<not> i < 256"
    proof -
      from that obtain k where k: "i = k + 4 * BLOCK" by (metis add.commute le_Suc_ex not_less four_blocks)
      have "i div BLOCK = 4 + k div BLOCK" "i mod BLOCK = k mod BLOCK" using k by (simp_all add: BLOCK_pos)
      moreover have "i - 256 = k" using k four_blocks by simp
      ultimately show ?thesis by simp
    qed
    moreover have "clk (2 * c) < clk (2 * (i div BLOCK))" if "c < i div BLOCK" for c
      using assms(6) b that by blast
    ultimately show ?thesis using z by (force simp: fresh_stamp_def block_stamp_def)
  qed
  then have "\<exists>ss gw'. block_loop (make_table TAB 0x515C) clk ovh m 0 0 bench_gateway = Some (ss, 0, gw') \<and> length ss = m \<and>
      served (block_stamp clk) ((0 + m) * BLOCK) gw'"
    using assms(5) by (intro block_loop_ok) (simp_all add: served_start)
  then have "\<exists>samples gw. accept_blocks clk ovh m = Some (samples, RJ_NONE, gw) \<and> length samples = m \<and>
       accepted gw = word_of_nat (m * BLOCK) \<and> rejected gw = 0"
    using served_counts by (fastforce simp: accept_blocks_def RJ_NONE_def)
  ultimately show ?thesis using reject_paths_run [OF assms(1-3)] by blast
qed

theorem risk_bench_counts_witness:
  "(\<exists>gw. accept_batch 1000 300 = Some (RJ_NONE, gw) \<and> accepted gw = 300) \<and>
   (\<exists>ss gw. accept_blocks (\<lambda>k. word_of_nat (100 * k + 1)) 10 5 = Some (ss, RJ_NONE, gw) \<and> accepted gw = 320)"
proof -
  have "\<forall>b<5. 0 < (word_of_nat (100 * (2 * b) + 1) :: u64) \<and> unat (word_of_nat (100 * (2 * b) + 1) :: u64) + BLOCK \<le> 2 ^ 64 \<and>
      (\<forall>c<b. (word_of_nat (100 * (2 * c) + 1) :: u64) < word_of_nat (100 * (2 * b) + 1))"
    using unat_of_nat_small [of "100 * (2 * b) + 1" for b] by (auto simp: word_less_nat_alt BLOCK_def)
  with risk_bench_counts [of 1000 300 5 "\<lambda>k. word_of_nat (100 * k + 1)" 10] show ?thesis
    by (simp add: BLOCK_def) blast
qed

text \<open>The functional proofs of the benchmark: that of the position limit prints VERIFIED, and that of the rate
  limiter does exactly if the window is wider than the four ticks of the burst and the counter has
  passed the window before the run. The ring of stamps starts with zeros, which count as orders
  accepted at tick 0.\<close>

theorem risk_proofs:
  assumes "unat t + unat win + 5 < 2 ^ 64"
  shows "limiter_verified win t = Some (4 < win \<and> win \<le> t) \<and> position_proof = Some True"
  using limiter_run [OF assms] position_run by blast

theorem risk_proofs_witness:
  "limiter_verified 3000 1000000 = Some True \<and> limiter_verified 3000 2000 = Some False"
  using risk_proofs [of 1000000 3000] risk_proofs [of 2000 3000] by simp

end
