(* ===== verification/Signal_Cost.thy ===== *)
theory Signal_Cost
  imports Signals Feed
begin

text \<open>
  Section 2 of \<open>bench/bench_signals.cpp\<close>: the loop that times the OFI and micro-price arithmetic on random
  two-sided tops, outside the publisher but with its formulas. Nothing in it overflows for up to
  \<open>2^30\<close> iterations (the source makes ten million).
\<close>

definition draw_top :: "u64 \<Rightarrow> top" where
  "draw_top v = (BASE + (v AND 31), BASE + 32 + (drop_bit 8 v AND 31), 1 + (drop_bit 16 v AND 255), 1 + (drop_bit 24 v AND 255))"

text \<open>The locals \<open>lbp\<close>, \<open>lap\<close>, \<open>lbq\<close>, \<open>laq\<close> and \<open>ofi\<close> are the fields of that name of the publisher.\<close>

fun cost_loop :: "nat \<Rightarrow> u64 \<Rightarrow> signal_publisher \<Rightarrow> i64 \<Rightarrow> (i64 \<times> i64) option" where
  "cost_loop 0 r p acc = Some (sp_ofi p, acc)"
| "cost_loop (Suc n) r p acc = do {
     let (v, r) = rng_next r;
     let (bp, ap, bq, aq) = draw_top v;
     e \<leftarrow> ofi_increment p (bp, ap, bq, aq);
     ofi \<leftarrow> sadd (sp_ofi p) e;
     m \<leftarrow> micro_price (bp, ap, bq, aq);
     acc \<leftarrow> sadd acc m;
     cost_loop n r (p\<lparr>sp_ofi := ofi, sp_last_bp := bp, sp_last_ap := ap, sp_last_bq := bq, sp_last_aq := aq\<rparr>) acc
   }"

definition signal_cost :: "nat \<Rightarrow> (i64 \<times> i64) option" where
  "signal_cost n = cost_loop n 0x0F1
     (signal_new\<lparr>sp_last_bp := BASE, sp_last_ap := BASE + 10, sp_last_bq := 50, sp_last_aq := 50\<rparr>) 0"

definition near_top :: "top \<Rightarrow> bool" where
  "near_top = (\<lambda>(bp, ap, bq, aq). 1000000 \<le> sint bp \<and> sint bp < sint ap \<and> sint ap \<le> 1000063 \<and>
     0 < sint bq \<and> sint bq \<le> 256 \<and> 0 < sint aq \<and> sint aq \<le> 256)"

lemma near_bounded: "near_top t \<Longrightarrow> bounded_top t"
  by (auto simp: near_top_def bounded_top_def)

lemma sint_offset:
  assumes "unat (k :: i64) + c < 2 ^ 62"
  shows "sint (word_of_nat c + k) = int c + int (unat k)"
proof -
  have c: "unat (word_of_nat c :: i64) = c" using assms by (intro unat_of_nat_small) simp
  with assms have u: "unat (word_of_nat c + k) = c + unat k" by (simp add: unat_add_lem [THEN iffD1])
  with assms have "int (unat (word_of_nat c + k)) < int (2 ^ 63)" by (simp only: of_nat_less_iff) simp
  then have "uint (word_of_nat c + k) < 2 ^ 63" by simp
  then have "signed_take_bit 63 (uint (word_of_nat c + k)) = uint (word_of_nat c + k)"
    by (intro signed_take_bit_int_eq_self) (auto intro: order_trans [of _ 0])
  then have "sint (word_of_nat c + k) = int (unat (word_of_nat c + k))"
    by (simp add: sint_uint del: signed_take_bit_int_eq_self_iff)
  then show ?thesis unfolding u by simp
qed

lemma and_small: "unat (w AND 31 :: u64) \<le> 31" "unat (w AND 255 :: u64) \<le> 255"
  using word_and_le2 [of 31 w] word_and_le2 [of 255 w] word_and_le1 [of 31 w] word_and_le1 [of 255 w]
  by (simp_all add: word_le_nat_alt and.commute)

lemma draw_near: "near_top (draw_top v)"
proof -
  have "sint (BASE + (v AND 31)) = 1000000 + int (unat (v AND 31))"
    "sint (BASE + 32 + (drop_bit 8 v AND 31)) = 1000032 + int (unat (drop_bit 8 v AND 31))"
    "sint (1 + (drop_bit 16 v AND 255)) = 1 + int (unat (drop_bit 16 v AND 255))"
    "sint (1 + (drop_bit 24 v AND 255)) = 1 + int (unat (drop_bit 24 v AND 255))"
    using sint_offset [of "v AND 31" 1000000] sint_offset [of "drop_bit 8 v AND 31" 1000032]
      sint_offset [of "drop_bit 16 v AND 255" 1] sint_offset [of "drop_bit 24 v AND 255" 1]
      and_small(1) [of v] and_small(1) [of "drop_bit 8 v"] and_small(2) [of "drop_bit 16 v"] and_small(2) [of "drop_bit 24 v"]
    by (simp_all add: BASE_def)
  then show ?thesis
    using and_small(1) [of v] and_small(1) [of "drop_bit 8 v"] and_small(2) [of "drop_bit 16 v"] and_small(2) [of "drop_bit 24 v"]
    unfolding near_top_def draw_top_def prod.case by linarith
qed

lemma micro_near:
  assumes "near_top t"
  shows "\<exists>m. micro_price t = Some m \<and> 0 \<le> sint m \<and> sint m \<le> 2 ^ 28"
proof -
  obtain bp ap bq aq where t: "t = (bp, ap, bq, aq)" by (metis prod.exhaust)
  have n: "1000000 \<le> sint bp" "sint bp < sint ap" "sint ap \<le> 1000063" "0 < sint bq" "sint bq \<le> 256" "0 < sint aq" "sint aq \<le> 256"
    using assms by (simp_all add: near_top_def t)
  obtain m where m: "micro_price t = Some m" "sint m = (256 * weighted t) sdiv depth t"
    using micro_run [OF near_bounded [OF assms]] by blast
  have d: "0 < depth t" "depth t = sint bq + sint aq" using n by (simp_all add: depth_def t)
  have "weighted t \<le> 1000063 * sint aq + 1000063 * sint bq"
    unfolding weighted_def t prod.case using n by (intro add_mono mult_right_mono) simp_all
  then have hi: "256 * weighted t \<le> 256016128 * depth t" unfolding d(2) by simp
  have w: "0 \<le> 256 * weighted t" using n by (simp add: weighted_def t)
  have "sint m = 256 * weighted t div depth t" using m(2) d(1) w by (simp add: signed_divide_int_def sgn_if)
  moreover have "0 \<le> 256 * weighted t div depth t" using w d(1) by (simp add: pos_imp_zdiv_nonneg_iff)
  moreover have "256 * weighted t div depth t \<le> 256016128"
    using zdiv_mono1 [OF hi d(1)] d(1) by simp
  ultimately show ?thesis using m(1) by auto
qed

lemma cost_loop_ok:
  assumes "bounded_top (signal_top p)" and "\<bar>sint (sp_ofi p)\<bar> \<le> 2 ^ 32 * int k" and "0 \<le> sint acc" and "sint acc \<le> 2 ^ 28 * int k"
    and "k + n \<le> 2 ^ 30"
  shows "\<exists>ofi acc'. cost_loop n r p acc = Some (ofi, acc') \<and> \<bar>sint ofi\<bar> \<le> 2 ^ 32 * int (k + n) \<and>
    0 \<le> sint acc' \<and> sint acc' \<le> 2 ^ 28 * int (k + n)"
  using assms
proof (induction n arbitrary: r p acc k)
  case (Suc n)
  obtain v r' where v: "rng_next r = (v, r')" by force
  let ?t = "draw_top v"
  obtain bp ap bq aq where t: "?t = (bp, ap, bq, aq)" by (metis prod.exhaust)
  note near = draw_near [of v] and bt = near_bounded [OF draw_near [of v]]
  let ?f = "flow (signal_top p) ?t"
  note O = ofi_run [OF Suc.prems(1) bt] and F = flow_bound [OF Suc.prems(1) bt]
  have k: "int k < 2 ^ 30" using Suc.prems(5) by simp
  have sr: "- (2 ^ 63) \<le> sint (sp_ofi p) + ?f" "sint (sp_ofi p) + ?f < 2 ^ 63"
    using Suc.prems(2) F k by (simp_all add: abs_le_iff)
  have s: "sadd (sp_ofi p) (word_of_int ?f) = Some (sp_ofi p + word_of_int ?f)" "sint (sp_ofi p + word_of_int ?f) = sint (sp_ofi p) + ?f"
    using sadd_fits [of "sp_ofi p" "word_of_int ?f", unfolded O(2), OF sr] by blast+
  obtain m where m: "micro_price ?t = Some m" "0 \<le> sint m" "sint m \<le> 2 ^ 28" using micro_near [OF near] by blast
  have a: "sadd acc m = Some (acc + m)" "sint (acc + m) = sint acc + sint m"
    using sadd_fits [of acc m] Suc.prems(3,4) m(2,3) k by simp_all
  let ?p = "p\<lparr>sp_ofi := sp_ofi p + word_of_int ?f, sp_last_bp := bp, sp_last_ap := ap, sp_last_bq := bq, sp_last_aq := aq\<rparr>"
  have "\<exists>ofi acc'. cost_loop n r' ?p (acc + m) = Some (ofi, acc') \<and> \<bar>sint ofi\<bar> \<le> 2 ^ 32 * int (Suc k + n) \<and>
      0 \<le> sint acc' \<and> sint acc' \<le> 2 ^ 28 * int (Suc k + n)"
  proof (rule Suc.IH)
    show "bounded_top (signal_top ?p)" using bt by (simp add: signal_top_def t)
    show "\<bar>sint (sp_ofi ?p)\<bar> \<le> 2 ^ 32 * int (Suc k)" using s(2) Suc.prems(2) F by simp
    show "0 \<le> sint (acc + m)" "sint (acc + m) \<le> 2 ^ 28 * int (Suc k)" using a(2) Suc.prems(3,4) m(2,3) by simp_all
    show "Suc k + n \<le> 2 ^ 30" using Suc.prems(5) by simp
  qed
  moreover have "cost_loop (Suc n) r p acc = cost_loop n r' ?p (acc + m)"
    using O(1) s(1) m(1) a(1) by (simp add: v t)
  ultimately show ?case by simp
qed simp

text \<open>The microcost loop of the signals is defined, signed overflow included, for up to \<open>2^30\<close> iterations.\<close>

theorem signal_cost_defined:
  assumes "n \<le> 2 ^ 30"
  shows "\<exists>ofi acc. signal_cost n = Some (ofi, acc) \<and> \<bar>sint ofi\<bar> \<le> 2 ^ 32 * int n \<and> 0 \<le> sint acc \<and> sint acc \<le> 2 ^ 28 * int n"
  unfolding signal_cost_def
  using cost_loop_ok [of "signal_new\<lparr>sp_last_bp := BASE, sp_last_ap := BASE + 10, sp_last_bq := 50, sp_last_aq := 50\<rparr>" 0 0 n] assms
  by (simp add: bounded_top_def signal_top_def signal_new_def BASE_def)

end
