(* ===== verification/Spec2Isabelle.thy ===== *)
theory Spec2Isabelle
  imports Journal Trading Hash_Oracle Hash_History Order_Costs Workload Ping_Pong Market_Session Journal_Session Journal_File Latency Pacing Reports Risk_Bench Signal_Cost
begin

text \<open>
  A verification development for the C++ limit order book library (\<open>include/lob\<close>) and the
  pipelines that drive it (\<open>bench\<close>).

  The program. A market-data feed (ITCH frames) is parsed (\<open>itch.hpp\<close>) into messages that reach
  the matching engine (\<open>order_book.hpp\<close>) directly, through a copying ring (\<open>spsc_ring.hpp\<close>) or
  through an arena of raw frames (\<open>arena_ring.hpp\<close>). The engine keeps its orders in a pool
  (\<open>memory_pool.hpp\<close>) as doubly linked lists per price level and finds the best price with a
  three-level bitmap (\<open>level_bitmap.hpp\<close>). A gateway translates the exchange's order references
  to engine ids, with a dense array or the flat hash map (\<open>flat_hash.hpp\<close>). The frames are
  journalled and replayed (\<open>journal.hpp\<close>); changes of the top of the book are published
  (\<open>bbo.hpp\<close>, \<open>signals.hpp\<close>); outgoing orders pass a risk check (\<open>risk.hpp\<close>).

  Conventions. A class is a record, a member function takes and returns it; references to other
  objects are further arguments. \<open>int64_t\<close>, \<open>uint64_t\<close> and so on are words (\<open>Common\<close>), so unsigned
  arithmetic wraps; where a signed result could overflow, which is undefined in C++, the
  operations of \<open>Checked\<close> are used or a theorem bounds the value. The result \<^const>\<open>None\<close> of a
  definition is undefined behaviour: an index out of range, a null or dangling pointer, a read
  of uninitialised storage. Pointers to orders are slots of the pool. \<open>while\<close> loops without an
  evident bound are \<open>partial_function (option)\<close>, so a result also states termination. No fuel is
  used anywhere; the lengths in the hypotheses (fewer than \<open>2^64\<close> pushes, at most 1,048,576 adds)
  are what the 64-bit counters and the capacity of the pool admit.

  Theories, and the code they model.
  \<^item> \<open>Prelude\<close>, \<open>Common\<close>, \<open>Checked\<close>: array access, word lemmas; \<open>common.hpp\<close>, \<open>order.hpp\<close>, the message of
    \<open>order_book.hpp\<close>; checked signed arithmetic.
  \<^item> \<open>Memory_Pool\<close>: \<open>ObjectPool\<close>. A history never hands a slot out twice or loses one.
  \<^item> \<open>Level_Bitmap\<close>: \<open>LevelBitmap\<close>. Every history behaves as a finite set with successor and
    predecessor; locale \<open>occupancy_index\<close>.
  \<^item> \<open>Order_Book\<close>: every member function of \<open>OrderBook\<close>. \<open>Book_Rep\<close> is the representation invariant
    (lists, marks, caches, ids), \<open>Book_Ops\<close> the linked-list operations, \<open>Price_Time\<close> the abstract
    specification (two sorted lists per book, price-time priority with iceberg reload),
    \<open>Book_View\<close> the abstraction function, \<open>Book_Refine\<close> and \<open>Book_Match\<close> the simulation of cancel,
    reduce and the matching loop, \<open>Book_Props\<close> the theorems about orders, trades, ids and prices.
  \<^item> \<open>Bounded_Fifo\<close>: locale of the two queues; \<open>Spsc_Ring\<close>: \<open>SpscRing\<close>, alone and with the memory
    accesses of its two threads interleaved; \<open>Arena_Ring\<close>: \<open>SpscArenaRing\<close>, the same for slots
    handed out by address.
  \<^item> \<open>Flat_Hash\<close>: \<open>FlatHashMap\<close>, with backward-shift deletion, against a map with a load cap.
  \<^item> \<open>Bytes\<close>, \<open>Itch\<close>: \<open>itch.hpp\<close>, big-endian fields, the four message layouts, \<open>ItchParser\<close>.
  \<^item> \<open>Gateway\<close>: \<open>Gateway\<close> of \<open>pipeline_common.hpp\<close> and \<open>HashGateway\<close> of \<open>bench_flat_hash.cpp\<close> over the
    locale \<open>ref_table\<close>.
  \<^item> \<open>Session_Spec\<close>, \<open>Feed\<close>, \<open>Session\<close>: what an internally consistent session is, \<open>generate_feed\<close> and
    the proof that it writes one, and what the gateways make of any such session.
  \<^item> \<open>Pipeline\<close>: the threaded drivers (\<open>bench_itch_pipeline.cpp\<close>, \<open>bench_zero_copy.cpp\<close>,
    \<open>run_session\<close> of \<open>bench_flat_hash.cpp\<close>) under every schedule of their turns, and that
    alternating turns finish.
  \<^item> \<open>Journal\<close>: \<open>Journal\<close>, \<open>JournalReplay\<close> and the replay check of \<open>bench_journal.cpp\<close>.
  \<^item> \<open>Risk\<close>: \<open>RiskGateway\<close>.
  \<^item> \<open>Publisher\<close>, \<open>Bbo\<close>, \<open>Signals\<close>: the contract of the market-data publishers (locale
    \<open>conflating_publisher\<close>), \<open>BboPublisher\<close> and \<open>SignalPublisher\<close>: what a lagging subscriber sees,
    the order flow imbalance and the micro-price.
  \<^item> \<open>Quoting\<close>, \<open>Trading\<close>: the closed loop of \<open>bench_trading_loop.cpp\<close>: \<open>QuoteDesk\<close>, the strategy and its
    risk gate, and the three threads over three queues under every schedule. The strategy
    cannot disturb the feed's bookkeeping, but the shutdown can hang.
  \<^item> \<open>Hash_History\<close>, \<open>Hash_Oracle\<close>: what \<open>flat_hash.hpp\<close> says of its deletion, that the table is
    left as if the key had never been inserted; the randomized check of \<open>bench_flat_hash.cpp\<close> against
    a dense array, which can never print a failure, and the laps of its microcost section.
  \<^item> \<open>Scenarios\<close>, \<open>Order_Costs\<close>: the scripted checks of \<open>bench_advanced_orders.cpp\<close> and
    \<open>bench_signals.cpp\<close>, each proved to succeed, on a small calculus of orders that rest, trade or
    are rejected; what the cost loops of \<open>bench_advanced_orders.cpp\<close> really time.
  \<^item> \<open>Workload\<close>, \<open>Ping_Pong\<close>: \<open>bench_rdtsc.cpp\<close>: the synthetic workload, alone and behind the
    ring, and the two-ring ping-pong under every schedule.
  \<^item> \<open>Landing\<close>: the arena sessions as the benches run them: touching the arena, the producer that counts
    messages, run after run on one arena; the A/B benchmark of the two gateways.
  \<^item> \<open>Latency\<close>: \<open>main\<close> of \<open>bench_zero_copy.cpp\<close> and \<open>bench_itch_pipeline.cpp\<close>, with the stamps and samples:
    every run is verified and no sample uses a stamp of another run.
  \<^item> \<open>Market_Session\<close>: \<open>run_session\<close> of \<open>bench_signals.cpp\<close>, three threads, with either publisher (locale
    \<open>session_publisher\<close>): what the draining thread receives, and that the session ends. \<open>Signal_Cost\<close>: the
    loop of that file that times the arithmetic.
  \<^item> \<open>Journal_Session\<close>: \<open>bench_journal.cpp\<close>: the journal is written ahead of the engine at every moment, and
    the replay at the end always agrees. \<open>Journal_File\<close>: opening and closing the files of \<open>journal.hpp\<close>
    with the answers of the operating system as arguments: nothing is leaked on any path.
  \<^item> \<open>Pacing\<close>: \<open>Pacer\<close>. \<open>Reports\<close>: the percentile reports. \<open>Risk_Bench\<close>: \<open>bench_risk.cpp\<close>.

  Not modelled. Reading and calibrating the time-stamp counter (\<open>rdtsc.hpp\<close>): its readings are
  arguments. Pinning threads, converting cycles to nanoseconds (only the ranking of the percentiles is
  computed in doubles, with the rounding as an argument) and lines of output. The Windows branches,
  \<open>map_file\<close> and writing the feed to disk: a mapped file is the list of its bytes. \<open>Journal::flush\<close>, which
  only asks the system to write the mapping back. Alignment, cache-line padding, prefetching, \<open>likely\<close>
  and \<open>force-inline\<close> hints, which have no meaning in the model. Memory ordering below the granularity
  of \<open>ring_step\<close> and \<open>arena_step\<close>: an acquire load there may return any earlier value of a monotone
  counter, which is what release/acquire coherence gives. The tests and the build file.
\<close>

end
